(* ===== verification/Prelude.thy ===== *)
theory Prelude
  imports Main "HOL-Library.Word" "HOL-Library.Monad_Syntax"
begin

text \<open>
  Shared vocabulary of the development: the machine integers of the kernel, the outcome of
  a call, byte buffers and their little-endian words.

  A call that may stop the machine is a function into an option type: \<open>None\<close> says that
  the call never returns to its caller, because an ASSERT or a PANIC of the code stopped the
  kernel (\<open>panic_spin\<close> of debug.c turns interrupts off and loops for ever) or because the
  access the code makes has no defined result. State is passed explicitly, and the do-notation
  of the option monad sequences the calls.
\<close>

unbundle bit_operations_syntax

section \<open>Machine integers\<close>

type_synonym u8 = "8 word"
type_synonym u16 = "16 word"
type_synonym u32 = "32 word"

text \<open>The size of a process's table of descriptors (thread.h), which the scheduler and the files share.\<close>

definition MAX_FILES_OPEN_PER_PROC :: nat where
  "MAX_FILES_OPEN_PER_PROC = 8"

text \<open>Hints of the component proofs: what a bit of a word is, and how the buffers compose.\<close>

named_theorems buf_simps

lemma sint_eq_uint_minus:
  fixes w :: "'a::len word"
  assumes "LENGTH('a) = Suc n"
  shows "sint w = (if uint w < 2 ^ n then uint w else uint w - 2 ^ Suc n)"
proof -
  have lt: "uint w < 2 ^ Suc n" using uint_lt2p[of w] assms by simp
  have "uint w div 2 ^ n = (if uint w < 2 ^ n then 0 else 1)"
    using lt by (auto simp: div_pos_pos_trivial intro: int_div_pos_eq[where r = "uint w - 2 ^ n"])
  then have b: "bit (uint w) n \<longleftrightarrow> \<not> uint w < 2 ^ n" by (auto simp: bit_iff_odd)
  have "sint w = take_bit (Suc n) (uint w) - 2 ^ Suc n * of_bool (bit (uint w) n)"
    using assms by (simp add: sint_uint signed_take_bit_eq_take_bit_minus)
  also have "take_bit (Suc n) (uint w) = uint w" using lt by (simp add: take_bit_int_eq_self)
  finally show ?thesis using b by simp
qed

lemma unat_lt_u32: "unat (w :: u32) < 4294967296"
  using unsigned_less[of w, where ?'a = nat] by simp

lemma unat_ucast_u8_u16 [simp]: "unat (ucast (w :: u8) :: u16) = unat w"
proof -
  have "unat w < 256" using unsigned_less[of w, where ?'a = nat] by simp
  then show ?thesis by (simp add: unsigned_ucast_eq take_bit_nat_eq_self)
qed

lemma sint_u8: "sint (w :: u8) = (if uint w < 128 then uint w else uint w - 256)"
  using sint_eq_uint_minus[of 7 w] by simp

lemma sint_u32: "sint (w :: u32) = (if uint w < 2147483648 then uint w else uint w - 4294967296)"
  using sint_eq_uint_minus[of 31 w] by simp

section \<open>Outcome of a call\<close>

text \<open>The macro ASSERT of debug.h: nothing happens when the condition holds, PANIC otherwise.\<close>

definition ASSERT :: "bool \<Rightarrow> unit option" where
  "ASSERT c = (if c then Some () else None)"

lemma ASSERT_simps [simp]: "ASSERT True = Some ()" "ASSERT False = None"
  by (simp_all add: ASSERT_def)

lemma ASSERT_bind_eq_Some [simp]:
  "(Option.bind (ASSERT c) f = Some r) \<longleftrightarrow> c \<and> f () = Some r"
  by (cases c) simp_all

lemma bind_Some_iff:
  "(Option.bind m f = Some r) \<longleftrightarrow> (\<exists>x. m = Some x \<and> f x = Some r)"
  by (cases m) auto

section \<open>Buffers\<close>

text \<open>
  \<open>blit buf off xs\<close> is \<open>memcpy(buf + off, xs, length xs)\<close> on a buffer that is a list of
  bytes; \<open>sub_buf buf off n\<close> are the \<open>n\<close> bytes from offset \<open>off\<close>.
\<close>

definition blit :: "'a list \<Rightarrow> nat \<Rightarrow> 'a list \<Rightarrow> 'a list" where
  "blit buf off xs = take off buf @ xs @ drop (off + length xs) buf"

definition sub_buf :: "'a list \<Rightarrow> nat \<Rightarrow> nat \<Rightarrow> 'a list" where
  "sub_buf buf off n = take n (drop off buf)"

lemma length_blit [simp]: "off + length xs \<le> length buf \<Longrightarrow> length (blit buf off xs) = length buf"
  by (simp add: blit_def)

lemma length_sub_buf [simp]: "off + n \<le> length buf \<Longrightarrow> length (sub_buf buf off n) = n"
  by (simp add: sub_buf_def)

lemma nth_blit:
  "off + length xs \<le> length buf \<Longrightarrow> i < length buf \<Longrightarrow>
   blit buf off xs ! i = (if off \<le> i \<and> i < off + length xs then xs ! (i - off) else buf ! i)"
  by (auto simp: blit_def nth_append)

lemma nth_sub_buf: "i < n \<Longrightarrow> off + n \<le> length buf \<Longrightarrow> sub_buf buf off n ! i = buf ! (off + i)"
  by (simp add: sub_buf_def)

lemma sub_buf_blit_same [buf_simps]:
  "off + length xs \<le> length buf \<Longrightarrow> n = length xs \<Longrightarrow> sub_buf (blit buf off xs) off n = xs"
  by (simp add: sub_buf_def blit_def)

lemma sub_buf_blit_other [buf_simps]:
  assumes "off + length xs \<le> length buf" "o2 + n \<le> length buf"
    and "o2 + n \<le> off \<or> off + length xs \<le> o2"
  shows "sub_buf (blit buf off xs) o2 n = sub_buf buf o2 n"
  using assms by (intro nth_equalityI) (auto simp: nth_sub_buf nth_blit)

section \<open>Bits of the masks the code uses\<close>

named_theorems mask_simps

text \<open>The bits of a word numeral are those of the integer numeral below the width.\<close>

lemma bit_0xFFFF [mask_simps]: "bit (0xFFFF :: int) n \<longleftrightarrow> n < 16"
proof -
  have eq: "(0xFFFF :: int) = mask 16" by (simp add: mask_eq_exp_minus_1 push_bit_eq_mult)
  show ?thesis unfolding eq bit_mask_iff by auto
qed

lemma bit_0xFFF [mask_simps]: "bit (0xFFF :: int) n \<longleftrightarrow> n < 12"
proof -
  have eq: "(0xFFF :: int) = mask 12" by (simp add: mask_eq_exp_minus_1 push_bit_eq_mult)
  show ?thesis unfolding eq bit_mask_iff by auto
qed

lemma bit_0xFFFF0000 [mask_simps]: "bit (0xFFFF0000 :: int) n \<longleftrightarrow> 16 \<le> n \<and> n < 32"
proof -
  have eq: "(0xFFFF0000 :: int) = push_bit 16 (mask 16)" by (simp add: mask_eq_exp_minus_1 push_bit_eq_mult)
  show ?thesis unfolding eq bit_push_bit_iff bit_mask_iff by auto
qed

lemma bit_0xFFFFF000 [mask_simps]: "bit (0xFFFFF000 :: int) n \<longleftrightarrow> 12 \<le> n \<and> n < 32"
proof -
  have eq: "(0xFFFFF000 :: int) = push_bit 12 (mask 20)" by (simp add: mask_eq_exp_minus_1 push_bit_eq_mult)
  show ?thesis unfolding eq bit_push_bit_iff bit_mask_iff by auto
qed

lemma bit_0xFFC00000 [mask_simps]: "bit (0xFFC00000 :: int) n \<longleftrightarrow> 22 \<le> n \<and> n < 32"
proof -
  have eq: "(0xFFC00000 :: int) = push_bit 22 (mask 10)" by (simp add: mask_eq_exp_minus_1 push_bit_eq_mult)
  show ?thesis unfolding eq bit_push_bit_iff bit_mask_iff by auto
qed

lemma bit_0x3FF000 [mask_simps]: "bit (0x003FF000 :: int) n \<longleftrightarrow> 12 \<le> n \<and> n < 22"
proof -
  have eq: "(0x003FF000 :: int) = push_bit 12 (mask 10)" by (simp add: mask_eq_exp_minus_1 push_bit_eq_mult)
  show ?thesis unfolding eq bit_push_bit_iff bit_mask_iff by auto
qed

lemma bit_0xFF [mask_simps]: "bit (0xFF :: int) n \<longleftrightarrow> n < 8"
proof -
  have eq: "(0xFF :: int) = mask 8" by (simp add: mask_eq_exp_minus_1)
  show ?thesis unfolding eq bit_mask_iff by auto
qed

lemma bit_0x80 [mask_simps]: "bit (0x80 :: int) n \<longleftrightarrow> n = 7"
proof -
  have eq: "(0x80 :: int) = push_bit 7 1" by (simp add: push_bit_eq_mult)
  show ?thesis unfolding eq bit_push_bit_iff bit_1_iff by auto
qed

lemma bit_0x200 [mask_simps]: "bit (0x200 :: int) n \<longleftrightarrow> n = 9"
proof -
  have eq: "(0x200 :: int) = push_bit 9 1" by (simp add: mask_eq_exp_minus_1 push_bit_eq_mult)
  show ?thesis unfolding eq bit_push_bit_iff bit_1_iff by auto
qed

lemma word_and_eq_0: "(v :: 'a::len word) AND w = 0 \<longleftrightarrow> (\<forall>n. \<not> (bit v n \<and> bit w n))"
  by (simp add: bit_eq_iff [of "v AND w"] bit_and_iff) (metis bit_imp_le_length not_le)

section \<open>Little-endian words\<close>

definition u32_bytes :: "u32 \<Rightarrow> u8 list" where
  "u32_bytes w = [ucast w, ucast (drop_bit 8 w), ucast (drop_bit 16 w), ucast (drop_bit 24 w)]"

definition bytes_u32 :: "u8 list \<Rightarrow> u32" where
  "bytes_u32 bs = ucast (bs ! 0) OR push_bit 8 (ucast (bs ! 1)) OR
     push_bit 16 (ucast (bs ! 2)) OR push_bit 24 (ucast (bs ! 3))"

lemma length_u32_bytes [simp]: "length (u32_bytes w) = 4"
  by (simp add: u32_bytes_def)

lemma bytes_u32_Cons:
  "bytes_u32 [a, b, c, d] = ucast a OR push_bit 8 (ucast b) OR push_bit 16 (ucast c) OR push_bit 24 (ucast d)"
  by (simp add: bytes_u32_def)

lemma bytes_u32_bytes [simp]: "bytes_u32 (u32_bytes w) = w"
  unfolding u32_bytes_def bytes_u32_Cons
proof (rule bit_word_eqI)
  fix n assume "n < LENGTH(32)"
  then consider "n < 8" | "8 \<le> n" "n < 16" | "16 \<le> n" "n < 24" | "24 \<le> n" "n < 32" by force
  then show "bit (ucast (ucast w :: u8) OR push_bit 8 (ucast (ucast (drop_bit 8 w) :: u8)) OR
      push_bit 16 (ucast (ucast (drop_bit 16 w) :: u8)) OR
      push_bit 24 (ucast (ucast (drop_bit 24 w) :: u8)) :: u32) n = bit w n"
    by cases (auto simp: bit_simps)
qed

end
