(* ===== verification/Interrupt.thy ===== *)
theory Interrupt
  imports Prelude
begin

text \<open>
  interrupt.c: the interrupt flag, the gate descriptors of the IDT and the table of handlers.
  The flag is bit 9 of the eflags register, which \<open>sti\<close> sets and \<open>cli\<close> clears; the register
  is an explicit argument. A handler address is its 32-bit value.
\<close>

section \<open>The interrupt flag\<close>

datatype intr_status = INTR_OFF | INTR_ON

definition EFLAGS_IF :: u32 where
  "EFLAGS_IF = 0x00000200"

definition intr_get_status :: "u32 \<Rightarrow> intr_status" where
  "intr_get_status eflags = (if EFLAGS_IF AND eflags \<noteq> 0 then INTR_ON else INTR_OFF)"

definition intr_enable :: "u32 \<Rightarrow> intr_status \<times> u32" where
  "intr_enable eflags =
     (if intr_get_status eflags = INTR_ON then (INTR_ON, eflags)
      else (INTR_OFF, eflags OR EFLAGS_IF))"

definition intr_disable :: "u32 \<Rightarrow> intr_status \<times> u32" where
  "intr_disable eflags =
     (if intr_get_status eflags = INTR_ON then (INTR_ON, eflags AND NOT EFLAGS_IF)
      else (INTR_OFF, eflags))"

definition intr_set_status :: "intr_status \<Rightarrow> u32 \<Rightarrow> intr_status \<times> u32" where
  "intr_set_status status eflags =
     (if status = INTR_ON then intr_enable eflags else intr_disable eflags)"

lemma bit_EFLAGS_IF [simp]: "bit EFLAGS_IF n \<longleftrightarrow> n = 9"
  by (auto simp: EFLAGS_IF_def mask_simps)

lemma intr_get_status_bit: "intr_get_status eflags = INTR_ON \<longleftrightarrow> bit eflags 9"
proof -
  have "EFLAGS_IF AND eflags \<noteq> 0 \<longleftrightarrow> bit eflags 9"
    by (simp add: word_and_eq_0)
  then show ?thesis by (simp add: intr_get_status_def)
qed

lemma intr_status_cases: "intr_get_status e = INTR_OFF \<longleftrightarrow> \<not> bit e 9"
  using intr_get_status_bit[of e] by (cases "intr_get_status e") auto

lemma intr_disable_off: "intr_get_status (snd (intr_disable e)) = INTR_OFF"
  by (simp add: intr_disable_def intr_status_cases intr_get_status_bit)
     (auto simp: bit_simps)

lemma intr_disable_status: "fst (intr_disable e) = intr_get_status e"
  using intr_get_status_bit[of e] intr_status_cases[of e] by (auto simp: intr_disable_def)

text \<open>The bracket every critical section of the kernel uses leaves the register as it was.\<close>

lemma intr_bracket:
  "intr_disable e = (old, e') \<Longrightarrow> snd (intr_set_status old e') = e"
proof -
  assume a: "intr_disable e = (old, e')"
  show ?thesis
  proof (cases "bit e 9")
    case True
    with a have e': "old = INTR_ON" "e' = e AND NOT EFLAGS_IF"
      by (auto simp: intr_disable_def intr_get_status_bit)
    have "(e AND NOT EFLAGS_IF) OR EFLAGS_IF = e"
      by (rule bit_word_eqI) (use True in \<open>auto simp: bit_simps\<close>)
    then show ?thesis using e' by (simp add: intr_set_status_def intr_enable_def intr_get_status_bit bit_simps)
  next
    case False
    with a have "old = INTR_OFF" "e' = e" by (auto simp: intr_disable_def intr_get_status_bit)
    then show ?thesis using False by (simp add: intr_set_status_def intr_disable_def intr_get_status_bit)
  qed
qed

section \<open>Gate descriptors and the handler table\<close>

record gate_desc =
  func_offset_low_word :: u16
  selector :: u16
  dcount :: u8
  attribute :: u8
  func_offset_high_word :: u16

definition SELECTOR_K_CODE :: u16 where
  "SELECTOR_K_CODE = push_bit 3 1 + push_bit 2 0 + 0"

definition IDT_DESC_ATTR_DPL0 :: u8 where
  "IDT_DESC_ATTR_DPL0 = push_bit 7 1 + push_bit 5 0 + 0xE"

definition IDT_DESC_ATTR_DPL3 :: u8 where
  "IDT_DESC_ATTR_DPL3 = push_bit 7 1 + push_bit 5 3 + 0xE"

definition IDT_DESC_CNT :: nat where
  "IDT_DESC_CNT = 0x81"

definition make_idt_desc :: "u8 \<Rightarrow> u32 \<Rightarrow> gate_desc" where
  "make_idt_desc attr func =
     \<lparr>func_offset_low_word = ucast (func AND 0x0000FFFF),
      selector = SELECTOR_K_CODE,
      dcount = 0,
      attribute = attr,
      func_offset_high_word = ucast (drop_bit 16 (func AND 0xFFFF0000))\<rparr>"

text \<open>\<open>intr_entry_table\<close> and \<open>syscall_handler\<close> are the entry points of kernel.asm: parameters.\<close>

definition idt_desc_init :: "(nat \<Rightarrow> u32) \<Rightarrow> u32 \<Rightarrow> gate_desc list" where
  "idt_desc_init intr_entry_table syscall_handler =
     (let lastindex = IDT_DESC_CNT - 1;
          idt = map (\<lambda>i. make_idt_desc IDT_DESC_ATTR_DPL0 (intr_entry_table i)) [0..<IDT_DESC_CNT]
      in idt[lastindex := make_idt_desc IDT_DESC_ATTR_DPL3 syscall_handler])"

definition register_handler :: "u8 \<Rightarrow> u32 \<Rightarrow> u32 list \<Rightarrow> u32 list option" where
  "register_handler vector_no function idt_table =
     do { ASSERT (unat vector_no < length idt_table);
          Some (idt_table[unat vector_no := function]) }"

text \<open>What the processor reads from a gate: its target, and the privilege that may call it.\<close>

definition gate_offset :: "gate_desc \<Rightarrow> u32" where
  "gate_offset g = push_bit 16 (ucast (func_offset_high_word g)) OR ucast (func_offset_low_word g)"

definition gate_dpl :: "gate_desc \<Rightarrow> nat" where
  "gate_dpl g = unat (drop_bit 5 (attribute g) AND 3)"

definition gate_present :: "gate_desc \<Rightarrow> bool" where
  "gate_present g = bit (attribute g) 7"

lemma gate_offset_make: "gate_offset (make_idt_desc a f) = f"
proof (rule bit_word_eqI)
  fix n assume "n < LENGTH(32)"
  then consider "n < 16" | "16 \<le> n" "n < 32" by force
  then show "bit (gate_offset (make_idt_desc a f)) n = bit f n"
    by cases (auto simp: gate_offset_def make_idt_desc_def bit_simps mask_simps)
qed

lemma gate_attr_make:
  "gate_present (make_idt_desc a f) = bit a 7"
  "gate_dpl (make_idt_desc a f) = unat (drop_bit 5 a AND 3)"
  by (simp_all add: gate_present_def gate_dpl_def make_idt_desc_def)

text \<open>Every gate the kernel installs leads the processor to the entry point it was made for
  and is present; only gate 0x80, the system call, may be called from user mode.\<close>
theorem idt_gates_correct:
  assumes "i < IDT_DESC_CNT"
  shows "gate_present (idt_desc_init entries sys ! i)
     \<and> gate_offset (idt_desc_init entries sys ! i) = (if i = 0x80 then sys else entries i)
     \<and> gate_dpl (idt_desc_init entries sys ! i) = (if i = 0x80 then 3 else 0)"
  using assms
  by (auto simp: idt_desc_init_def Let_def gate_offset_make IDT_DESC_CNT_def nth_list_update
      gate_attr_make IDT_DESC_ATTR_DPL0_def IDT_DESC_ATTR_DPL3_def)

theorem idt_gates_witness:
  "gate_offset (idt_desc_init (\<lambda>i. of_nat i) 0xC0001500 ! 0x80) = 0xC0001500
   \<and> gate_dpl (idt_desc_init (\<lambda>i. of_nat i) 0xC0001500 ! 0x20) = 0"
  using idt_gates_correct [of "0x80" "\<lambda>i. of_nat i" "0xC0001500"]
    idt_gates_correct [of "0x20" "\<lambda>i. of_nat i" "0xC0001500"]
  by (simp add: IDT_DESC_CNT_def)

end
