(* ===== verification/Klist.thy ===== *)
theory Klist
  imports Interrupt
begin

text \<open>
  list.c: the intrusive doubly linked lists. The heap is the two pointer fields of every
  \<open>struct list_elem\<close> by address, with the eflags register that the critical sections save
  and restore. A \<open>struct list\<close> at address \<open>p\<close> is its head element at \<open>p\<close> and its tail element
  8 bytes further; NULL is 0. The loops follow the next pointers until they meet the tail, so
  they are partial functions: \<open>None\<close> is a walk that does not end.
\<close>

record list_heap =
  prev :: "nat \<Rightarrow> nat"
  nextp :: "nat \<Rightarrow> nat"
  eflags :: u32

definition tail_of :: "nat \<Rightarrow> nat" where
  "tail_of plist = plist + 8"

definition list_init :: "nat \<Rightarrow> list_heap \<Rightarrow> list_heap" where
  "list_init list h =
     (let h1 = h\<lparr>prev := (prev h)(list := 0)\<rparr>;
          h2 = h1\<lparr>nextp := (nextp h1)(list := tail_of list)\<rparr>;
          h3 = h2\<lparr>prev := (prev h2)(tail_of list := list)\<rparr>
      in h3\<lparr>nextp := (nextp h3)(tail_of list := 0)\<rparr>)"

definition list_insert_before :: "nat \<Rightarrow> nat \<Rightarrow> list_heap \<Rightarrow> list_heap" where
  "list_insert_before before elem h =
     (let (old_status, fl) = intr_disable (eflags h);
          h0 = h\<lparr>eflags := fl\<rparr>;
          h1 = h0\<lparr>nextp := (nextp h0)(prev h0 before := elem)\<rparr>;
          h2 = h1\<lparr>prev := (prev h1)(elem := prev h1 before)\<rparr>;
          h3 = h2\<lparr>nextp := (nextp h2)(elem := before)\<rparr>;
          h4 = h3\<lparr>prev := (prev h3)(before := elem)\<rparr>
      in h4\<lparr>eflags := snd (intr_set_status old_status (eflags h4))\<rparr>)"

definition list_push :: "nat \<Rightarrow> nat \<Rightarrow> list_heap \<Rightarrow> list_heap" where
  "list_push plist elem h = list_insert_before (nextp h plist) elem h"

definition list_append :: "nat \<Rightarrow> nat \<Rightarrow> list_heap \<Rightarrow> list_heap" where
  "list_append plist elem h = list_insert_before (tail_of plist) elem h"

definition list_remove :: "nat \<Rightarrow> list_heap \<Rightarrow> list_heap" where
  "list_remove pelem h =
     (let (old_status, fl) = intr_disable (eflags h);
          h0 = h\<lparr>eflags := fl\<rparr>;
          h1 = h0\<lparr>nextp := (nextp h0)(prev h0 pelem := nextp h0 pelem)\<rparr>;
          h2 = h1\<lparr>prev := (prev h1)(nextp h1 pelem := prev h1 pelem)\<rparr>
      in h2\<lparr>eflags := snd (intr_set_status old_status (eflags h2))\<rparr>)"

definition list_pop :: "nat \<Rightarrow> list_heap \<Rightarrow> nat \<times> list_heap" where
  "list_pop plist h = (let elem = nextp h plist in (elem, list_remove elem h))"

definition list_empty :: "nat \<Rightarrow> list_heap \<Rightarrow> bool" where
  "list_empty plist h \<longleftrightarrow> (if nextp h plist = tail_of plist then True else False)"

partial_function (option) elem_find_loop :: "list_heap \<Rightarrow> nat \<Rightarrow> nat \<Rightarrow> nat \<Rightarrow> bool option" where
  "elem_find_loop h tail obj_elem elem =
     (if elem \<noteq> tail
      then if elem = obj_elem then Some True else elem_find_loop h tail obj_elem (nextp h elem)
      else Some False)"

definition elem_find :: "nat \<Rightarrow> nat \<Rightarrow> list_heap \<Rightarrow> bool option" where
  "elem_find plist obj_elem h = elem_find_loop h (tail_of plist) obj_elem (nextp h plist)"

text \<open>The callback of \<open>list_traversal\<close> may change state of its own; it leaves the links alone.\<close>

partial_function (option) list_traversal_loop ::
  "list_heap \<Rightarrow> nat \<Rightarrow> (nat \<Rightarrow> 'a \<Rightarrow> 's \<Rightarrow> bool \<times> 's) \<Rightarrow> 'a \<Rightarrow> nat \<Rightarrow> 's \<Rightarrow> (nat \<times> 's) option" where
  "list_traversal_loop h tail func arg elem s =
     (if elem \<noteq> tail
      then if fst (func elem arg s) then Some (elem, snd (func elem arg s))
           else list_traversal_loop h tail func arg (nextp h elem) (snd (func elem arg s))
      else Some (0, s))"

definition list_traversal ::
  "nat \<Rightarrow> (nat \<Rightarrow> 'a \<Rightarrow> 's \<Rightarrow> bool \<times> 's) \<Rightarrow> 'a \<Rightarrow> list_heap \<Rightarrow> 's \<Rightarrow> (nat \<times> 's) option" where
  "list_traversal plist func arg h s =
     (if list_empty plist h then Some (0, s)
      else list_traversal_loop h (tail_of plist) func arg (nextp h plist) s)"

partial_function (option) list_len_loop :: "list_heap \<Rightarrow> nat \<Rightarrow> nat \<Rightarrow> nat \<Rightarrow> nat option" where
  "list_len_loop h tail elem len =
     (if elem \<noteq> tail then list_len_loop h tail (nextp h elem) (Suc len) else Some len)"

definition list_len :: "nat \<Rightarrow> list_heap \<Rightarrow> nat option" where
  "list_len plist h = list_len_loop h (tail_of plist) (nextp h plist) 0"

section \<open>The abstraction: a list of element addresses\<close>

text \<open>\<open>dpath h a xs b\<close>: from element \<open>a\<close> the links lead through \<open>xs\<close> to \<open>b\<close>, in both directions.\<close>

fun dpath :: "list_heap \<Rightarrow> nat \<Rightarrow> nat list \<Rightarrow> nat \<Rightarrow> bool" where
  "dpath h a [] b \<longleftrightarrow> nextp h a = b \<and> prev h b = a"
| "dpath h a (x # xs) b \<longleftrightarrow> nextp h a = x \<and> prev h x = a \<and> dpath h x xs b"

definition dlist :: "list_heap \<Rightarrow> nat \<Rightarrow> nat list \<Rightarrow> bool" where
  "dlist h p xs \<longleftrightarrow> dpath h p xs (tail_of p) \<and> distinct (p # tail_of p # xs) \<and> 0 \<notin> set xs"

lemma dpath_append: "dpath h a (us @ x # vs) b \<longleftrightarrow> dpath h a us x \<and> dpath h x vs b"
  by (induction us arbitrary: a) auto

lemma dpath_cong:
  assumes "\<And>x. x \<in> set (a # xs) \<Longrightarrow> nextp h' x = nextp h x"
    and "\<And>x. x \<in> set (xs @ [b]) \<Longrightarrow> prev h' x = prev h x"
  shows "dpath h' a xs b \<longleftrightarrow> dpath h a xs b"
  using assms by (induction xs arbitrary: a) auto

lemma dpath_ends: "dpath h a xs b \<Longrightarrow> nextp h a = hd (xs @ [b]) \<and> prev h b = last (a # xs)"
  by (induction xs arbitrary: a) auto

text \<open>One update lemma for every operation: the links of a seam change, the rest stays.\<close>

lemma dpath_snoc_upd:
  assumes "dpath h a us c" "distinct (a # us)" "c \<notin> set us" "e \<notin> set us"
    and "\<And>x. x \<in> set (butlast (a # us)) \<Longrightarrow> nextp h' x = nextp h x"
    and "\<And>x. x \<in> set us \<Longrightarrow> prev h' x = prev h x"
    and "nextp h' (last (a # us)) = e" "prev h' e = last (a # us)"
  shows "dpath h' a us e"
proof (cases us rule: rev_cases)
  case Nil
  with assms show ?thesis by simp
next
  case (snoc us' d)
  with assms(1) have "dpath h a us' d" by (simp add: dpath_append)
  moreover have "dpath h' a us' d \<longleftrightarrow> dpath h a us' d"
    using assms snoc by (intro dpath_cong) (auto simp: butlast_append)
  ultimately show ?thesis using assms(7,8) snoc by (simp add: dpath_append)
qed

lemma insert_before_nextp:
  "nextp (list_insert_before c e h) = ((nextp h)(prev h c := e))(e := c)"
  by (auto simp: list_insert_before_def Let_def split: prod.splits)

lemma insert_before_prev:
  "prev (list_insert_before c e h) = ((prev h)(e := prev h c))(c := e)"
  by (auto simp: list_insert_before_def Let_def split: prod.splits)

lemma insert_before_eflags [simp]: "eflags (list_insert_before c e h) = eflags h"
  by (auto simp: list_insert_before_def Let_def intr_bracket split: prod.splits)

lemma remove_nextp: "nextp (list_remove e h) = (nextp h)(prev h e := nextp h e)"
  by (auto simp: list_remove_def Let_def split: prod.splits)

lemma remove_prev:
  "prev (list_remove e h) = (prev h)(nextp h e := prev h e)"
  by (auto simp: list_remove_def Let_def split: prod.splits)

lemma remove_eflags [simp]: "eflags (list_remove e h) = eflags h"
  by (auto simp: list_remove_def Let_def intr_bracket split: prod.splits)

lemma dlist_init: "p \<noteq> 0 \<Longrightarrow> dlist (list_init p h) p []"
  by (simp add: dlist_def list_init_def Let_def tail_of_def)

lemma dlist_insert:
  assumes d: "dlist h p (us @ vs)" and e: "e \<notin> set (us @ vs)" "e \<noteq> p" "e \<noteq> tail_of p" "e \<noteq> 0"
  shows "dlist (list_insert_before (hd (vs @ [tail_of p])) e h) p (us @ e # vs)"
proof -
  let ?c = "hd (vs @ [tail_of p])" and ?d = "last (p # us)"
  let ?h = "list_insert_before ?c e h"
  have dist: "distinct (p # us @ vs @ [tail_of p])" using d by (auto simp: dlist_def)
  have p: "dpath h p (us @ vs) (tail_of p)" using d by (simp add: dlist_def)
  have us: "dpath h p us ?c" using p by (cases vs) (auto simp: dpath_append)
  have dc: "prev h ?c = ?d" using dpath_ends[OF us] by simp
  have dne: "?d \<noteq> e" "?d \<noteq> ?c" "?c \<noteq> e" "?d \<notin> set vs" "?c \<notin> set us" "?d \<noteq> tail_of p"
    using dist e by (cases us rule: rev_cases; cases vs; force)+
  have bl: "?d \<notin> set (butlast (p # us))"
    using dist by (cases us rule: rev_cases) (auto simp: butlast_append)
  have "dpath ?h p us e"
  proof (rule dpath_snoc_upd[OF us])
    show "nextp ?h x = nextp h x" if "x \<in> set (butlast (p # us))" for x
      using that bl e dc by (auto simp: insert_before_nextp dest: in_set_butlastD split: if_splits)
  qed (use dist dne e dc in \<open>auto simp: insert_before_nextp insert_before_prev\<close>)
  moreover have "dpath ?h e vs (tail_of p)"
  proof (cases vs)
    case Nil
    then show ?thesis using dne dc by (simp add: insert_before_nextp insert_before_prev)
  next
    case (Cons c vs')
    have "dpath h c vs' (tail_of p)" using p Cons by (simp add: dpath_append)
    moreover have "dpath ?h c vs' (tail_of p) \<longleftrightarrow> dpath h c vs' (tail_of p)"
      using dist dne dc e Cons by (intro dpath_cong) (auto simp: insert_before_nextp insert_before_prev)
    ultimately show ?thesis using Cons dne dc by (simp add: insert_before_nextp insert_before_prev)
  qed
  ultimately show ?thesis using d e by (auto simp: dlist_def dpath_append)
qed

lemma dlist_remove:
  assumes d: "dlist h p (us @ e # vs)"
  shows "dlist (list_remove e h) p (us @ vs)"
proof -
  let ?c = "hd (vs @ [tail_of p])" and ?d = "last (p # us)"
  let ?h = "list_remove e h"
  have dist: "distinct (p # us @ e # vs @ [tail_of p])" using d by (auto simp: dlist_def)
  have p: "dpath h p us e" "dpath h e vs (tail_of p)" using d by (simp_all add: dlist_def dpath_append)
  have de: "prev h e = ?d" "nextp h e = ?c" using dpath_ends[OF p(1)] dpath_ends[OF p(2)] by simp_all
  have dne: "?d \<noteq> ?c" "?d \<notin> set vs" "?c \<notin> set us" "?d \<noteq> tail_of p" "?c \<noteq> e" "?d \<noteq> e"
    using dist by (cases us rule: rev_cases; cases vs; force)+
  have bl: "?d \<notin> set (butlast (p # us))"
    using dist by (cases us rule: rev_cases) (auto simp: butlast_append)
  have us: "dpath ?h p us ?c"
  proof (rule dpath_snoc_upd[OF p(1)])
    show "nextp ?h x = nextp h x" if "x \<in> set (butlast (p # us))" for x
      using that bl de by (auto simp: remove_nextp split: if_splits)
  qed (use dist dne de in \<open>auto simp: remove_nextp remove_prev\<close>)
  have "dpath ?h p (us @ vs) (tail_of p)"
  proof (cases vs)
    case Nil
    then show ?thesis using us by simp
  next
    case (Cons c vs')
    have "dpath h c vs' (tail_of p)" using p(2) Cons by simp
    moreover have "dpath ?h c vs' (tail_of p) \<longleftrightarrow> dpath h c vs' (tail_of p)"
      using dist dne de Cons by (intro dpath_cong) (auto simp: remove_nextp remove_prev)
    ultimately show ?thesis using us Cons by (simp add: dpath_append)
  qed
  then show ?thesis using d by (auto simp: dlist_def)
qed

lemma dlist_nextp: "dlist h p xs \<Longrightarrow> nextp h p = hd (xs @ [tail_of p])"
  using dpath_ends by (auto simp: dlist_def)

lemma dlist_push:
  "dlist h p xs \<Longrightarrow> e \<notin> set xs \<Longrightarrow> e \<noteq> p \<Longrightarrow> e \<noteq> tail_of p \<Longrightarrow> e \<noteq> 0 \<Longrightarrow> dlist (list_push p e h) p (e # xs)"
  using dlist_insert[of h p "[]" xs e] by (simp add: list_push_def dlist_nextp)

lemma dlist_append:
  "dlist h p xs \<Longrightarrow> e \<notin> set xs \<Longrightarrow> e \<noteq> p \<Longrightarrow> e \<noteq> tail_of p \<Longrightarrow> e \<noteq> 0 \<Longrightarrow>
   dlist (list_append p e h) p (xs @ [e])"
  using dlist_insert[of h p xs "[]" e] by (simp add: list_append_def)

lemma dlist_pop:
  "dlist h p (x # xs) \<Longrightarrow> \<exists>h'. list_pop p h = (x, h') \<and> dlist h' p xs"
  using dlist_remove[of h p "[]" x xs] dlist_nextp[of h p "x # xs"] by (simp add: list_pop_def Let_def)

lemma dlist_empty: "dlist h p xs \<Longrightarrow> list_empty p h \<longleftrightarrow> xs = []"
  using dlist_nextp[of h p xs] by (cases xs) (auto simp: list_empty_def dlist_def)

lemma elem_find_loop_dpath:
  "dpath h a xs t \<Longrightarrow> t \<notin> set xs \<Longrightarrow>
   elem_find_loop h t obj (nextp h a) = Some (obj \<in> set xs)"
  by (induction xs arbitrary: a) (subst elem_find_loop.simps; auto)+

lemma dlist_find: "dlist h p xs \<Longrightarrow> elem_find p obj h = Some (obj \<in> set xs)"
  using elem_find_loop_dpath[of h p xs "tail_of p" obj] by (simp add: elem_find_def dlist_def)

lemma list_len_loop_dpath:
  "dpath h a xs t \<Longrightarrow> t \<notin> set xs \<Longrightarrow> list_len_loop h t (nextp h a) n = Some (n + length xs)"
  by (induction xs arbitrary: a n) (subst list_len_loop.simps; auto)+

lemma dlist_len: "dlist h p xs \<Longrightarrow> list_len p h = Some (length xs)"
  using list_len_loop_dpath[of h p xs "tail_of p" 0] by (simp add: list_len_def dlist_def)

section \<open>Traversal and frame\<close>

fun visit :: "(nat \<Rightarrow> 'a \<Rightarrow> 's \<Rightarrow> bool \<times> 's) \<Rightarrow> 'a \<Rightarrow> nat list \<Rightarrow> 's \<Rightarrow> nat \<times> 's" where
  "visit func arg [] s = (0, s)"
| "visit func arg (x # xs) s =
     (if fst (func x arg s) then (x, snd (func x arg s)) else visit func arg xs (snd (func x arg s)))"

lemma traversal_loop_dpath:
  "dpath h a xs t \<Longrightarrow> t \<notin> set xs \<Longrightarrow>
   list_traversal_loop h t func arg (nextp h a) s = Some (visit func arg xs s)"
  by (induction xs arbitrary: a s) (subst list_traversal_loop.simps; auto)+

lemma dlist_traversal: "dlist h p xs \<Longrightarrow> list_traversal p func arg h s = Some (visit func arg xs s)"
  using traversal_loop_dpath[of h p xs "tail_of p" func arg s] dlist_empty[of h p xs]
  by (cases xs) (auto simp: list_traversal_def dlist_def)

definition nodes :: "nat \<Rightarrow> nat list \<Rightarrow> nat set" where
  "nodes p xs = {p, tail_of p} \<union> set xs"

lemma dlist_frame:
  assumes "dlist h q ys"
    and "\<And>x. x \<in> nodes q ys \<Longrightarrow> nextp h' x = nextp h x \<and> prev h' x = prev h x"
  shows "dlist h' q ys"
proof -
  have "dpath h' q ys (tail_of q) \<longleftrightarrow> dpath h q ys (tail_of q)"
    using assms(2) by (intro dpath_cong) (auto simp: nodes_def)
  with assms(1) show ?thesis by (simp add: dlist_def)
qed

lemma dlist_insert_frame:
  assumes "dlist h p (us @ vs)" "dlist h q ys" "nodes p (us @ vs) \<inter> nodes q ys = {}" "e \<notin> nodes q ys"
  shows "dlist (list_insert_before (hd (vs @ [tail_of p])) e h) q ys"
proof (rule dlist_frame[OF assms(2)])
  fix x assume x: "x \<in> nodes q ys"
  have "dpath h p us (hd (vs @ [tail_of p]))"
    using assms(1) by (cases vs) (auto simp: dlist_def dpath_append)
  then have "prev h (hd (vs @ [tail_of p])) \<in> nodes p (us @ vs)"
    using dpath_ends by (force simp: nodes_def)
  moreover have "hd (vs @ [tail_of p]) \<in> nodes p (us @ vs)" by (cases vs) (auto simp: nodes_def)
  ultimately have "x \<noteq> prev h (hd (vs @ [tail_of p]))" "x \<noteq> hd (vs @ [tail_of p])" "x \<noteq> e"
    using x assms(3,4) by blast+
  then show "nextp (list_insert_before (hd (vs @ [tail_of p])) e h) x = nextp h x \<and>
      prev (list_insert_before (hd (vs @ [tail_of p])) e h) x = prev h x"
    by (simp add: insert_before_nextp insert_before_prev)
qed

lemma dlist_remove_frame:
  assumes "dlist h p (us @ e # vs)" "dlist h q ys" "nodes p (us @ e # vs) \<inter> nodes q ys = {}"
  shows "dlist (list_remove e h) q ys"
proof (rule dlist_frame[OF assms(2)])
  fix x assume x: "x \<in> nodes q ys"
  have "dpath h p us e" "dpath h e vs (tail_of p)"
    using assms(1) by (auto simp: dlist_def dpath_append)
  then have "prev h e = last (p # us)" "nextp h e = hd (vs @ [tail_of p])"
    using dpath_ends by auto
  moreover have "last (p # us) \<in> nodes p (us @ e # vs)" by (auto simp: nodes_def)
  moreover have "hd (vs @ [tail_of p]) \<in> nodes p (us @ e # vs)" by (cases vs) (auto simp: nodes_def)
  ultimately have "x \<noteq> prev h e" "x \<noteq> nextp h e" using x assms(3) by auto
  then show "nextp (list_remove e h) x = nextp h x \<and> prev (list_remove e h) x = prev h x"
    by (simp add: remove_nextp remove_prev)
qed

section \<open>The interface its clients use\<close>

text \<open>
  The scheduler, the semaphores, the heap and the inode cache use a list as a sequence of
  elements that are not in it yet. \<open>ok e\<close> says that \<open>e\<close> can be an element at all.
\<close>

primrec pops :: "('h \<Rightarrow> 'e \<times> 'h) \<Rightarrow> nat \<Rightarrow> 'h \<Rightarrow> 'e list \<times> 'h" where
  "pops pop 0 h = ([], h)"
| "pops pop (Suc n) h = (let (x, h') = pop h; (xs, h'') = pops pop n h' in (x # xs, h''))"

locale linked_seq =
  fixes rep :: "'h \<Rightarrow> 'e list \<Rightarrow> bool"
    and ok :: "'e \<Rightarrow> bool"
    and push :: "'e \<Rightarrow> 'h \<Rightarrow> 'h"
    and append :: "'e \<Rightarrow> 'h \<Rightarrow> 'h"
    and pop :: "'h \<Rightarrow> 'e \<times> 'h"
    and remove :: "'e \<Rightarrow> 'h \<Rightarrow> 'h"
    and find :: "'e \<Rightarrow> 'h \<Rightarrow> bool option"
  assumes rep_push: "rep h xs \<Longrightarrow> ok e \<Longrightarrow> e \<notin> set xs \<Longrightarrow> rep (push e h) (e # xs)"
    and rep_append: "rep h xs \<Longrightarrow> ok e \<Longrightarrow> e \<notin> set xs \<Longrightarrow> rep (append e h) (xs @ [e])"
    and rep_pop: "rep h (x # xs) \<Longrightarrow> \<exists>h'. pop h = (x, h') \<and> rep h' xs"
    and rep_remove: "rep h (us @ e # vs) \<Longrightarrow> rep (remove e h) (us @ vs)"
    and rep_find: "rep h xs \<Longrightarrow> find e h = Some (e \<in> set xs)"
    and rep_ok: "rep h xs \<Longrightarrow> distinct xs \<and> (\<forall>x\<in>set xs. ok x)"
begin

lemma append_all:
  "rep h xs \<Longrightarrow> distinct (xs @ ys) \<Longrightarrow> \<forall>y\<in>set ys. ok y \<Longrightarrow> rep (fold append ys h) (xs @ ys)"
proof (induction ys arbitrary: h xs)
  case (Cons y ys)
  then have "rep (append y h) (xs @ [y])" by (intro rep_append) auto
  with Cons show ?case using Cons.IH[of "append y h" "xs @ [y]"] by simp
qed simp

lemma pops_prefix: "rep h (xs @ ys) \<Longrightarrow> \<exists>h'. pops pop (length xs) h = (xs, h') \<and> rep h' ys"
proof (induction xs arbitrary: h)
  case (Cons x xs)
  then obtain h1 where h1: "pop h = (x, h1)" "rep h1 (xs @ ys)" using rep_pop[of h x "xs @ ys"] by auto
  then obtain h' where "pops pop (length xs) h1 = (xs, h')" "rep h' ys" using Cons.IH by blast
  with h1 show ?case by simp
qed simp

lemma fifo_order:
  assumes "rep h xs" "distinct (xs @ ys)" "\<forall>y\<in>set ys. ok y"
  shows "\<exists>h'. pops pop (length xs + length ys) (fold append ys h) = (xs @ ys, h') \<and> rep h' []"
  using pops_prefix[of "fold append ys h" "xs @ ys" "[]"] append_all[OF assms] by simp

lemma rotate:
  assumes "rep h (x # xs)"
  shows "rep (append x (snd (pop h))) (xs @ [x])"
proof -
  obtain h' where "pop h = (x, h')" "rep h' xs" using rep_pop[OF assms] by blast
  then show ?thesis using rep_ok[OF assms] by (auto intro: rep_append)
qed

lemma find_remove: "rep h xs \<Longrightarrow> e \<in> set xs \<Longrightarrow> find e (remove e h) = Some False"
proof -
  assume r: "rep h xs" and "e \<in> set xs"
  then obtain us vs where "xs = us @ e # vs" by (meson split_list)
  with r show ?thesis using rep_remove[of h us e vs] rep_ok[OF r] rep_find by force
qed

end

lemma dlist_elems:
  "dlist h p xs \<Longrightarrow> distinct xs \<and> p \<notin> set xs \<and> tail_of p \<notin> set xs \<and> (\<forall>x\<in>set xs. 0 < x)"
  by (auto simp: dlist_def intro: gr0I)

interpretation kl: linked_seq "\<lambda>h xs. dlist h p xs" "\<lambda>e. e \<noteq> p \<and> e \<noteq> tail_of p \<and> e \<noteq> 0"
  "list_push p" "list_append p" "list_pop p" list_remove "elem_find p" for p
  by unfold_locales (auto simp: dlist_push dlist_append dlist_pop dlist_remove dlist_find dest: dlist_elems)

section \<open>Properties\<close>


definition demo_heap :: list_heap where
  "demo_heap = list_init 300 (list_init 100 \<lparr>prev = (\<lambda>_. 0), nextp = (\<lambda>_. 0), eflags = 0x202\<rparr>)"

lemma demo_heap_lists: "dlist demo_heap 100 []" "dlist demo_heap 300 []"
  by (simp_all add: demo_heap_def dlist_def list_init_def Let_def tail_of_def)


text \<open>A list is a first-in first-out queue: elements appended to it come out of
  \<open>list_pop\<close> in the order they went in, after those that were there.\<close>
theorem list_fifo:
  assumes "dlist h p xs" "distinct (xs @ ys)" "\<forall>y\<in>set ys. y \<noteq> p \<and> y \<noteq> tail_of p \<and> y \<noteq> 0"
  shows "\<exists>h'. pops (list_pop p) (length xs + length ys) (fold (list_append p) ys h) = (xs @ ys, h')
    \<and> dlist h' p []"
  using assms by (rule kl.fifo_order)

theorem list_fifo_witness:
  "\<exists>h'. pops (list_pop 100) 3 (fold (list_append 100) [7, 5, 6] demo_heap) = ([7, 5, 6], h')
    \<and> dlist h' 100 []"
  using list_fifo[of demo_heap 100 "[]" "[7, 5, 6]"] demo_heap_lists by (simp add: tail_of_def numeral_3_eq_3)

text \<open>C33: the loops over a well-formed list end: \<open>elem_find\<close> decides membership, \<open>list_len\<close>
  counts, and \<open>list_traversal\<close> calls its callback on the elements in order, each with the state
  the one before left, until a callback returns true.\<close>
theorem list_walks_correct:
  assumes "dlist h p xs"
  shows "elem_find p obj h = Some (obj \<in> set xs) \<and> list_len p h = Some (length xs)
    \<and> list_traversal p func arg h s = Some (visit func arg xs s)"
  using assms by (simp add: dlist_find dlist_len dlist_traversal)

theorem list_walks_witness:
  "elem_find 100 7 (list_push 100 7 demo_heap) = Some True"
  using list_walks_correct[of "list_push 100 7 demo_heap" 100 "[7]" 7, THEN conjunct1]
    dlist_push[OF demo_heap_lists(1), of 7] by (simp add: tail_of_def)

end
