(* ===== verification/Cstring.thy ===== *)
theory Cstring
  imports Prelude
begin

text \<open>
  string.c over a flat memory: a map from addresses to bytes, NULL is address 0. A \<open>char\<close> is
  signed (the i386 ABI), so two chars compare by \<open>sint\<close>, and a char compares with a
  \<open>uint8_t\<close> as integers after promotion. A loop that runs to the terminating NUL is a partial
  function: \<open>None\<close> is a string without end. Addresses are not wrapped at 2^32.
\<close>

type_synonym mem = "nat \<Rightarrow> u8"

section \<open>The operations\<close>

primrec memset_loop :: "nat \<Rightarrow> nat \<Rightarrow> u8 \<Rightarrow> mem \<Rightarrow> mem" where
  "memset_loop 0 dst value m = m"
| "memset_loop (Suc sz) dst value m = memset_loop sz (dst + 1) value (m(dst := value))"

definition memset :: "nat \<Rightarrow> u8 \<Rightarrow> nat \<Rightarrow> mem \<Rightarrow> mem option" where
  "memset dst value sz m = do { ASSERT (dst \<noteq> 0); Some (memset_loop sz dst value m) }"

primrec memcpy_loop :: "nat \<Rightarrow> nat \<Rightarrow> nat \<Rightarrow> mem \<Rightarrow> mem" where
  "memcpy_loop 0 dst src m = m"
| "memcpy_loop (Suc sz) dst src m = memcpy_loop sz (dst + 1) (src + 1) (m(dst := m src))"

definition memcpy :: "nat \<Rightarrow> nat \<Rightarrow> nat \<Rightarrow> mem \<Rightarrow> mem option" where
  "memcpy dst src sz m =
     do { ASSERT (dst \<noteq> 0 \<and> src \<noteq> 0); Some (memcpy_loop sz dst src m) }"

primrec memcmp_loop :: "nat \<Rightarrow> nat \<Rightarrow> nat \<Rightarrow> mem \<Rightarrow> int" where
  "memcmp_loop 0 a b m = 0"
| "memcmp_loop (Suc sz) a b m =
     (if m a \<noteq> m b then (if sint (m a) > sint (m b) then 1 else -1)
      else memcmp_loop sz (a + 1) (b + 1) m)"

definition memcmp :: "nat \<Rightarrow> nat \<Rightarrow> nat \<Rightarrow> mem \<Rightarrow> int option" where
  "memcmp a b sz m = do { ASSERT (a \<noteq> 0 \<or> b \<noteq> 0); Some (memcmp_loop sz a b m) }"

partial_function (option) strcpy_loop :: "nat \<Rightarrow> nat \<Rightarrow> mem \<Rightarrow> mem option" where
  "strcpy_loop dst src m =
     (if m src \<noteq> 0 then strcpy_loop (dst + 1) (src + 1) (m(dst := m src))
      else Some (m(dst := m src)))"

definition strcpy :: "nat \<Rightarrow> nat \<Rightarrow> mem \<Rightarrow> (nat \<times> mem) option" where
  "strcpy dst src m =
     do { ASSERT (dst \<noteq> 0 \<and> src \<noteq> 0); m' \<leftarrow> strcpy_loop dst src m; Some (dst, m') }"

partial_function (option) past_nul :: "mem \<Rightarrow> nat \<Rightarrow> nat option" where
  "past_nul m p = (if m p \<noteq> 0 then past_nul m (p + 1) else Some (p + 1))"

definition strlen :: "nat \<Rightarrow> mem \<Rightarrow> nat option" where
  "strlen str m = do { ASSERT (str \<noteq> 0); p \<leftarrow> past_nul m str; Some (p - str - 1) }"

partial_function (option) strcmp_loop :: "mem \<Rightarrow> nat \<Rightarrow> nat \<Rightarrow> (nat \<times> nat) option" where
  "strcmp_loop m a b =
     (if m a \<noteq> 0 \<and> m a = m b then strcmp_loop m (a + 1) (b + 1) else Some (a, b))"

definition strcmp :: "nat \<Rightarrow> nat \<Rightarrow> mem \<Rightarrow> int option" where
  "strcmp a b m =
     do {
       ASSERT (a \<noteq> 0 \<and> b \<noteq> 0);
       (a', b') \<leftarrow> strcmp_loop m a b;
       Some (if sint (m a') < sint (m b') then -1 else of_bool (sint (m a') > sint (m b')))
     }"

text \<open>\<open>char_is\<close> is the comparison of a char of the string with the \<open>uint8_t\<close> looked for.\<close>

definition char_is :: "u8 \<Rightarrow> u8 \<Rightarrow> bool" where
  "char_is c ch \<longleftrightarrow> sint c = uint ch"

partial_function (option) strchr_loop :: "mem \<Rightarrow> u8 \<Rightarrow> nat \<Rightarrow> nat option" where
  "strchr_loop m ch str =
     (if m str \<noteq> 0 then if char_is (m str) ch then Some str else strchr_loop m ch (str + 1)
      else Some 0)"

definition strchr :: "nat \<Rightarrow> u8 \<Rightarrow> mem \<Rightarrow> nat option" where
  "strchr str ch m = do { ASSERT (str \<noteq> 0); strchr_loop m ch str }"

partial_function (option) strrchr_loop :: "mem \<Rightarrow> u8 \<Rightarrow> nat \<Rightarrow> nat \<Rightarrow> nat option" where
  "strrchr_loop m ch last_char str =
     (if m str \<noteq> 0
      then strrchr_loop m ch (if char_is (m str) ch then str else last_char) (str + 1)
      else Some last_char)"

definition strrchr :: "nat \<Rightarrow> u8 \<Rightarrow> mem \<Rightarrow> nat option" where
  "strrchr str ch m = do { ASSERT (str \<noteq> 0); strrchr_loop m ch 0 str }"

definition strcat :: "nat \<Rightarrow> nat \<Rightarrow> mem \<Rightarrow> (nat \<times> mem) option" where
  "strcat dst src m =
     do {
       ASSERT (dst \<noteq> 0 \<and> src \<noteq> 0);
       str \<leftarrow> past_nul m dst;
       m' \<leftarrow> strcpy_loop (str - 1) src m;
       Some (dst, m')
     }"

partial_function (option) strchrs_loop :: "mem \<Rightarrow> u8 \<Rightarrow> nat \<Rightarrow> nat \<Rightarrow> nat option" where
  "strchrs_loop m ch ch_cnt p =
     (if m p \<noteq> 0 then strchrs_loop m ch (if char_is (m p) ch then ch_cnt + 1 else ch_cnt) (p + 1)
      else Some ch_cnt)"

definition strchrs :: "nat \<Rightarrow> u8 \<Rightarrow> mem \<Rightarrow> nat option" where
  "strchrs str ch m = do { ASSERT (str \<noteq> 0); strchrs_loop m ch 0 str }"

section \<open>Strings in memory\<close>

text \<open>\<open>bytes_at m p xs\<close>: the bytes from \<open>p\<close> on are \<open>xs\<close>; \<open>cstr m p s\<close>: the C string at \<open>p\<close> is \<open>s\<close>.\<close>

fun bytes_at :: "mem \<Rightarrow> nat \<Rightarrow> u8 list \<Rightarrow> bool" where
  "bytes_at m p [] \<longleftrightarrow> True"
| "bytes_at m p (x # xs) \<longleftrightarrow> m p = x \<and> bytes_at m (p + 1) xs"

definition cstr :: "mem \<Rightarrow> nat \<Rightarrow> u8 list \<Rightarrow> bool" where
  "cstr m p s \<longleftrightarrow> bytes_at m p (s @ [0]) \<and> 0 \<notin> set s"

lemma bytes_at_append:
  "bytes_at m p (xs @ ys) \<longleftrightarrow> bytes_at m p xs \<and> bytes_at m (p + length xs) ys"
  by (induction xs arbitrary: p) auto

lemma bytes_at_nth: "bytes_at m p xs \<longleftrightarrow> (\<forall>i<length xs. m (p + i) = xs ! i)"
  by (induction xs arbitrary: p) (auto simp: All_less_Suc2)

lemma bytes_at_cong:
  "(\<And>i. i < length xs \<Longrightarrow> m' (p + i) = m (p + i)) \<Longrightarrow> bytes_at m' p xs \<longleftrightarrow> bytes_at m p xs"
  by (simp add: bytes_at_nth)

lemma cstr_simps [simp]:
  "cstr m p [] \<longleftrightarrow> m p = 0"
  "cstr m p (c # s) \<longleftrightarrow> m p = c \<and> c \<noteq> 0 \<and> cstr m (p + 1) s"
  by (auto simp: cstr_def)

lemma cstr_cong:
  "(\<And>i. i \<le> length s \<Longrightarrow> m' (p + i) = m (p + i)) \<Longrightarrow> cstr m' p s \<longleftrightarrow> cstr m p s"
  unfolding cstr_def by (subst bytes_at_cong) auto

lemma cstr_unique: "cstr m p s \<Longrightarrow> cstr m p t \<Longrightarrow> s = t"
  by (induction s arbitrary: p t) (case_tac t; force)+

text \<open>A copy that runs upwards is correct when the source does not start below the target in it.\<close>

lemma memcpy_loop_correct:
  assumes "bytes_at m src xs" "dst \<le> src \<or> src + length xs \<le> dst"
  shows "bytes_at (memcpy_loop (length xs) dst src m) dst xs
    \<and> (\<forall>a. a < dst \<or> dst + length xs \<le> a \<longrightarrow> memcpy_loop (length xs) dst src m a = m a)"
  using assms
proof (induction xs arbitrary: dst src m)
  case (Cons x xs)
  define m1 where "m1 = m(dst := x)"
  have m1: "m1 dst = x" "\<And>a. a \<noteq> dst \<Longrightarrow> m1 a = m a" by (simp_all add: m1_def)
  have "bytes_at m1 (src + 1) xs \<longleftrightarrow> bytes_at m (src + 1) xs"
    using Cons.prems by (intro bytes_at_cong m1) auto
  then have "bytes_at m1 (src + 1) xs" using Cons.prems by simp
  moreover have "dst + 1 \<le> src + 1 \<or> src + 1 + length xs \<le> dst + 1" using Cons.prems(2) by auto
  ultimately have ih: "bytes_at (memcpy_loop (length xs) (dst + 1) (src + 1) m1) (dst + 1) xs"
    "\<And>a. a < dst + 1 \<or> dst + 1 + length xs \<le> a \<Longrightarrow> memcpy_loop (length xs) (dst + 1) (src + 1) m1 a = m1 a"
    using Cons.IH[of m1 "src + 1" "dst + 1"] by blast+
  have "memcpy_loop (length (x # xs)) dst src m = memcpy_loop (length xs) (dst + 1) (src + 1) m1"
    using Cons.prems by (simp add: m1_def)
  then show ?case using ih m1 by auto
qed simp

lemma memset_loop_at:
  "memset_loop n dst v m a = (if dst \<le> a \<and> a < dst + n then v else m a)"
  by (induction n arbitrary: dst m) auto

lemma memcmp_loop_cmp:
  "bytes_at m a xs \<Longrightarrow> bytes_at m b ys \<Longrightarrow> length ys = length xs \<Longrightarrow>
   (memcmp_loop (length xs) a b m = 0 \<longleftrightarrow> xs = ys)"
proof (induction xs arbitrary: a b ys)
  case (Cons x xs)
  then show ?case by (cases ys) auto
qed simp

lemma past_nul_cstr: "cstr m p s \<Longrightarrow> past_nul m p = Some (p + length s + 1)"
  by (induction s arbitrary: p) (subst past_nul.simps; simp)+

lemma strlen_cstr: "cstr m p s \<Longrightarrow> p \<noteq> 0 \<Longrightarrow> strlen p m = Some (length s)"
  by (simp add: strlen_def past_nul_cstr)

lemma strcpy_loop_cstr:
  assumes "cstr m src s" "dst \<le> src \<or> src + length s < dst"
  shows "\<exists>m'. strcpy_loop dst src m = Some m' \<and> cstr m' dst s
    \<and> (\<forall>a. a < dst \<or> dst + length s < a \<longrightarrow> m' a = m a)"
  using assms
proof (induction s arbitrary: dst src m)
  case Nil
  then show ?case by (subst strcpy_loop.simps) auto
next
  case (Cons c s)
  define m1 where "m1 = m(dst := c)"
  have m1: "m1 dst = c" "\<And>a. a \<noteq> dst \<Longrightarrow> m1 a = m a" by (simp_all add: m1_def)
  have "cstr m1 (src + 1) s \<longleftrightarrow> cstr m (src + 1) s" using Cons.prems by (intro cstr_cong m1) auto
  then have c: "cstr m1 (src + 1) s" using Cons.prems by simp
  have d: "dst + 1 \<le> src + 1 \<or> src + 1 + length s < dst + 1" using Cons.prems(2) by auto
  obtain m' where m': "strcpy_loop (dst + 1) (src + 1) m1 = Some m'" "cstr m' (dst + 1) s"
    "\<forall>a. a < dst + 1 \<or> dst + 1 + length s < a \<longrightarrow> m' a = m1 a" using Cons.IH[OF c d] by blast
  show ?case
  proof (intro exI conjI)
    show "strcpy_loop dst src m = Some m'" using m'(1) Cons.prems(1)
      by (subst strcpy_loop.simps) (auto simp: m1_def)
    show "cstr m' dst (c # s)" using m' m1 Cons.prems(1) by auto
    show "\<forall>a. a < dst \<or> dst + length (c # s) < a \<longrightarrow> m' a = m a" using m'(3) m1(2) by auto
  qed
qed

section \<open>Comparison and search\<close>

text \<open>The order strcmp decides: lexicographic over the signed chars, the NUL included.\<close>

definition char_less :: "(u8 \<times> u8) set" where
  "char_less = {(x, y). sint x < sint y}"

definition strcmp_spec :: "u8 list \<Rightarrow> u8 list \<Rightarrow> int" where
  "strcmp_spec s t =
     (if s = t then 0 else if (s @ [0], t @ [0]) \<in> lexord char_less then -1 else 1)"

lemma sint_le_ne: "sint x \<le> sint y \<Longrightarrow> x \<noteq> y \<Longrightarrow> sint x < sint (y :: u8)"
  by (meson order_le_imp_less_or_eq signed_word_eqI)

lemma sint_nonpos: "sint x \<le> 0 \<Longrightarrow> x \<noteq> 0 \<Longrightarrow> sint (x :: u8) < 0"
  using sint_le_ne[of x 0] by simp

lemma strcmp_spec_head:
  assumes "s @ [0] = x # u" "t @ [0] = y # v" "x \<noteq> y"
  shows "strcmp_spec s t = (if sint x < sint y then -1 else of_bool (sint x > sint y))"
proof -
  have "s \<noteq> t" using assms by auto
  then show ?thesis using assms sint_le_ne[of y x]
    by (auto simp: strcmp_spec_def char_less_def not_less)
qed

lemma cstr_head: "cstr m a s \<Longrightarrow> \<exists>u. s @ [0] = m a # u"
  by (cases s) auto

lemma strcmp_loop_cstr:
  assumes "cstr m a s" "cstr m b t"
  shows "\<exists>a' b'. strcmp_loop m a b = Some (a', b')
    \<and> (if sint (m a') < sint (m b') then -1 else of_bool (sint (m a') > sint (m b'))) = strcmp_spec s t"
  using assms
proof (induction s arbitrary: a b t)
  case Nil
  obtain u v where "[] @ [0] = m a # u" "t @ [0] = m b # v" using Nil cstr_head by blast
  then show ?case using Nil strcmp_spec_head[of "[]" "m a" u t "m b" v]
    by (cases "m a = m b"; cases t) (subst strcmp_loop.simps; auto simp: strcmp_spec_def)+
next
  case (Cons c s)
  show ?case
  proof (cases "m a = m b")
    case True
    with Cons.prems obtain t' where t: "t = c # t'" "cstr m (b + 1) t'" by (cases t) auto
    have "strcmp_spec (c # s) (c # t') = strcmp_spec s t'" by (simp add: strcmp_spec_def char_less_def)
    then show ?thesis using Cons.IH[of "a + 1" "b + 1" t'] Cons.prems t by (subst strcmp_loop.simps) simp
  next
    case False
    obtain u v where "(c # s) @ [0] = m a # u" "t @ [0] = m b # v" using Cons.prems cstr_head by blast
    then show ?thesis using False strcmp_spec_head[of "c # s" "m a" u t "m b" v]
      by (subst strcmp_loop.simps) auto
  qed
qed

lemma strcmp_cstr: "cstr m a s \<Longrightarrow> cstr m b t \<Longrightarrow> a \<noteq> 0 \<Longrightarrow> b \<noteq> 0 \<Longrightarrow> strcmp a b m = Some (strcmp_spec s t)"
  using strcmp_loop_cstr[of m a s b t] by (auto simp: strcmp_def)

lemma char_is_iff: "char_is c ch \<longleftrightarrow> uint ch < 128 \<and> c = ch"
proof -
  have "uint c < 256" using uint_lt2p[of c] by simp
  then have "uint c - 256 \<noteq> uint ch" using uint_ge_0[of ch] by linarith
  then show ?thesis by (auto simp: char_is_def sint_u8 unsigned_word_eqI split: if_splits)
qed

text \<open>The position of the first char that satisfies \<open>P\<close>, and of the last one.\<close>

definition first_pos :: "(u8 \<Rightarrow> bool) \<Rightarrow> u8 list \<Rightarrow> nat" where
  "first_pos P s = length (takeWhile (\<lambda>c. \<not> P c) s)"

definition last_pos :: "(u8 \<Rightarrow> bool) \<Rightarrow> u8 list \<Rightarrow> nat" where
  "last_pos P s = length s - 1 - first_pos P (rev s)"

lemma first_pos_simps [simp]:
  "first_pos P [] = 0"
  "first_pos P (c # s) = (if P c then 0 else Suc (first_pos P s))"
  by (simp_all add: first_pos_def)

lemma first_pos_le: "first_pos P s \<le> length s"
  by (simp add: first_pos_def length_takeWhile_le)

lemma first_pos_lt: "first_pos P s < length s \<longleftrightarrow> (\<exists>c\<in>set s. P c)"
  by (induction s) auto

lemma first_pos_append:
  "first_pos P (s @ t) = (if \<exists>c\<in>set s. P c then first_pos P s else length s + first_pos P t)"
  by (induction s) auto

lemma first_pos_spec:
  "\<exists>c\<in>set s. P c \<Longrightarrow> P (s ! first_pos P s) \<and> (\<forall>j<first_pos P s. \<not> P (s ! j))"
  by (induction s) (auto simp: nth_Cons split: nat.splits)

lemma last_pos_Cons:
  "last_pos P (c # s) = (if \<exists>d\<in>set s. P d then Suc (last_pos P s) else 0)"
  using first_pos_lt[of P "rev s"] by (auto simp: last_pos_def first_pos_append)

lemma strchr_loop_cstr:
  "cstr m p s \<Longrightarrow>
   strchr_loop m ch p = Some (if \<exists>c\<in>set s. char_is c ch then p + first_pos (\<lambda>c. char_is c ch) s else 0)"
  by (induction s arbitrary: p) (subst strchr_loop.simps; simp)+

lemma strrchr_loop_cstr:
  "cstr m p s \<Longrightarrow>
   strrchr_loop m ch q p = Some (if \<exists>c\<in>set s. char_is c ch then p + last_pos (\<lambda>c. char_is c ch) s else q)"
  by (induction s arbitrary: p q) (subst strrchr_loop.simps; auto simp: last_pos_Cons)+

lemma strchrs_loop_cstr:
  "cstr m p s \<Longrightarrow> strchrs_loop m ch n p = Some (n + length (filter (\<lambda>c. char_is c ch) s))"
  by (induction s arbitrary: p n) (subst strchrs_loop.simps; simp)+

lemma strcat_cstr:
  assumes "cstr m dst t" "cstr m src s" "dst \<noteq> 0" "src \<noteq> 0"
    and "dst + length t + length s < src \<or> src + length s < dst"
  shows "\<exists>m'. strcat dst src m = Some (dst, m') \<and> cstr m' dst (t @ s) \<and> cstr m' src s
    \<and> (\<forall>a. a < dst \<or> dst + length t + length s < a \<longrightarrow> m' a = m a)"
proof -
  obtain m' where m': "strcpy_loop (dst + length t) src m = Some m'" "cstr m' (dst + length t) s"
    "\<forall>a. a < dst + length t \<or> dst + length t + length s < a \<longrightarrow> m' a = m a"
    using strcpy_loop_cstr[OF assms(2), of "dst + length t"] assms(5) by auto
  have "bytes_at m' dst t \<longleftrightarrow> bytes_at m dst t" by (rule bytes_at_cong) (simp add: m'(3))
  then have "cstr m' dst (t @ s)" using m'(2) assms(1) by (auto simp: cstr_def bytes_at_append)
  moreover have "cstr m' src s \<longleftrightarrow> cstr m src s"
    by (rule cstr_cong) (use m'(3) assms(5) in auto)
  ultimately show ?thesis using m' assms by (auto simp: strcat_def past_nul_cstr)
qed

section \<open>Properties\<close>

text \<open>Strcat appends the source string to the target string in place: it returns the target,
  leaves the source and every byte outside the joined string alone, and strlen of the result is
  the sum of the lengths.\<close>
theorem strcat_correct:
  assumes "cstr m dst t" "cstr m src s" "dst \<noteq> 0" "src \<noteq> 0"
    and "dst + length t + length s < src \<or> src + length s < dst"
  shows "\<exists>m'. strcat dst src m = Some (dst, m') \<and> cstr m' dst (t @ s) \<and> cstr m' src s
    \<and> strlen dst m' = Some (length t + length s)
    \<and> (\<forall>a. a < dst \<or> dst + length t + length s < a \<longrightarrow> m' a = m a)"
  using strcat_cstr[OF assms] strlen_cstr[of _ dst "t @ s"] assms(3) by fastforce

definition demo_mem :: mem where
  "demo_mem = (\<lambda>_. 0)(10 := 0x61, 20 := 0x62, 21 := 0xE9)"

lemma demo_mem_strings: "cstr demo_mem 10 [0x61]" "cstr demo_mem 20 [0x62, 0xE9]" "cstr demo_mem 5 []"
  by (simp_all add: demo_mem_def)

theorem strcat_witness:
  "\<exists>m'. strcat 10 20 demo_mem = Some (10, m') \<and> cstr m' 10 [0x61, 0x62, 0xE9]"
  using strcat_correct[OF demo_mem_strings(1,2)] by auto

text \<open>Strcmp decides the lexicographic order of two strings over signed chars: it is 0 for
  equal strings only, and swapping the arguments swaps the sign.\<close>
theorem strcmp_correct:
  assumes "cstr m a s" "cstr m b t" "a \<noteq> 0" "b \<noteq> 0"
  shows "\<exists>r. strcmp a b m = Some r \<and> strcmp b a m = Some (- r)
    \<and> (r = 0 \<longleftrightarrow> s = t) \<and> (r = -1 \<longleftrightarrow> (s @ [0], t @ [0]) \<in> lexord char_less)"
proof -
  have asym: "(v, u) \<notin> lexord char_less" if "(u, v) \<in> lexord char_less" for u v
    using that lexord_asymmetric[of char_less] by (auto simp: char_less_def asym_iff)
  have total: "(u, v) \<in> lexord char_less \<or> (v, u) \<in> lexord char_less" if "u \<noteq> v" for u v
  proof -
    have "\<forall>a b. (a, b) \<in> char_less \<or> a = b \<or> (b, a) \<in> char_less"
      by (auto simp: char_less_def intro: signed_word_eqI)
    then show ?thesis using that lexord_linear by blast
  qed
  have irr: "(u, u) \<notin> lexord char_less" for u using asym by blast
  show ?thesis
    using strcmp_cstr[OF assms] strcmp_cstr[OF assms(2,1,4,3)] asym total[of "s @ [0]" "t @ [0]"] irr
    by (auto simp: strcmp_spec_def)
qed

theorem strcmp_witness: "\<exists>r. strcmp 10 20 demo_mem = Some r \<and> strcmp 20 10 demo_mem = Some (- r) \<and> r \<noteq> 0"
  using strcmp_correct[OF demo_mem_strings(1,2)] by auto

text \<open>Strchr, strrchr and strchrs find the first, find the last and count the occurrences of
  a char below 0x80; for a char of 0x80 and above they find nothing, wherever it occurs, because
  the chars of the string are signed and the argument is not.\<close>
theorem char_search_correct:
  assumes "cstr m str s" "str \<noteq> 0"
  shows "strchr str ch m =
      Some (if ch < 0x80 \<and> ch \<in> set s then str + first_pos (\<lambda>c. c = ch) s else 0)
    \<and> strrchr str ch m =
      Some (if ch < 0x80 \<and> ch \<in> set s then str + last_pos (\<lambda>c. c = ch) s else 0)
    \<and> strchrs str ch m = Some (if ch < 0x80 then count_list s ch else 0)"
proof -
  have "length (filter (\<lambda>c. c = ch) s) = count_list s ch" by (induction s) auto
  then show ?thesis
    using strchr_loop_cstr[OF assms(1)] strrchr_loop_cstr[OF assms(1)] strchrs_loop_cstr[OF assms(1)] assms(2)
    by (cases "ch < 0x80") (auto simp: strchr_def strrchr_def strchrs_def char_is_iff word_less_def)
qed

theorem char_search_witness:
  "strchr 20 0xE9 demo_mem = Some 0 \<and> strrchr 20 0x62 demo_mem = Some 20"
  using char_search_correct[OF demo_mem_strings(2)]
  by (simp add: last_pos_def)

end
