(* ===== verification/Stdio.thy ===== *)
theory Stdio
  imports Cstring
begin

text \<open>
  stdio.c: number conversion and the formatted output functions over the memory of Cstring.
  The variable arguments are what the code takes them for: the 32-bit stack slots behind the
  format argument, which \<open>va_arg\<close> reaches by adding 4 to its pointer.
\<close>

section \<open>The operations\<close>

abbreviation ascii :: "char \<Rightarrow> u8" where
  "ascii c \<equiv> of_char c"

partial_function (option) itoa :: "u32 \<Rightarrow> u8 \<Rightarrow> nat \<Rightarrow> mem \<Rightarrow> (nat \<times> mem) option" where
  "itoa value base buf_ptr m =
     (let r = value mod ucast base; i = value div ucast base in
      do {
        (p, m1) \<leftarrow> (if i \<noteq> 0 then itoa i base buf_ptr m else Some (buf_ptr, m));
        Some (p + 1, m1(p := ucast (if r < 10 then r + 0x30 else r - 10 + 0x41)))
      })"

definition va_arg :: "nat \<Rightarrow> mem \<Rightarrow> u32" where
  "va_arg ap m = bytes_u32 (map m [ap + 4, ap + 5, ap + 6, ap + 7])"

text \<open>The switch of vsprintf: \<open>is_conv\<close> says that a case matches, \<open>conv\<close> runs its body.\<close>

definition is_conv :: "u8 \<Rightarrow> bool" where
  "is_conv c \<longleftrightarrow> c = ascii CHR ''s'' \<or> c = ascii CHR ''c'' \<or> c = ascii CHR ''d'' \<or> c = ascii CHR ''x''"

definition conv :: "u8 \<Rightarrow> nat \<Rightarrow> nat \<Rightarrow> mem \<Rightarrow> (nat \<times> nat \<times> mem) option" where
  "conv index_char buf_ptr ap m =
     (if index_char = ascii CHR ''s'' then
        (let arg_str = unat (va_arg ap m) in
         do { (_, m1) \<leftarrow> strcpy buf_ptr arg_str m;
              n \<leftarrow> strlen arg_str m1;
              Some (buf_ptr + n, ap + 4, m1) })
      else if index_char = ascii CHR ''c'' then
        Some (buf_ptr + 1, ap + 4, m(buf_ptr := m (ap + 4)))
      else if index_char = ascii CHR ''d'' then
        (let arg_int = va_arg ap m in
         if sint arg_int < 0
         then do { (p, m1) \<leftarrow> itoa (0 - arg_int) 10 (buf_ptr + 1) (m(buf_ptr := ascii CHR ''-''));
                   Some (p, ap + 4, m1) }
         else do { (p, m1) \<leftarrow> itoa arg_int 10 buf_ptr m; Some (p, ap + 4, m1) })
      else do { (p, m1) \<leftarrow> itoa (va_arg ap m) 16 buf_ptr m; Some (p, ap + 4, m1) })"

partial_function (option) vsprintf_loop :: "nat \<Rightarrow> u8 \<Rightarrow> nat \<Rightarrow> nat \<Rightarrow> mem \<Rightarrow> mem option" where
  "vsprintf_loop index_ptr index_char buf_ptr ap m =
     (if index_char = 0 then Some m
      else if index_char \<noteq> ascii CHR ''%'' then
        vsprintf_loop (index_ptr + 1) ((m(buf_ptr := index_char)) (index_ptr + 1)) (buf_ptr + 1) ap
          (m(buf_ptr := index_char))
      else if is_conv (m (index_ptr + 1)) then
        Option.bind (conv (m (index_ptr + 1)) buf_ptr ap m)
          (\<lambda>r. vsprintf_loop (index_ptr + 2) (snd (snd r) (index_ptr + 2)) (fst r) (fst (snd r)) (snd (snd r)))
      else vsprintf_loop (index_ptr + 1) (m (index_ptr + 1)) buf_ptr ap m)"

definition vsprintf :: "nat \<Rightarrow> nat \<Rightarrow> nat \<Rightarrow> mem \<Rightarrow> (nat \<times> mem) option" where
  "vsprintf str format ap m =
     do {
       m' \<leftarrow> vsprintf_loop format (m format) str ap m;
       n \<leftarrow> strlen str m';
       Some (n, m')
     }"

text \<open>
  The callers: \<open>args\<close> is the address of the stack slot of the format argument, \<open>buf\<close> in printf
  and printk the address of the local buffer. printf hands the bytes to write(1, ...), printk to
  console_print_str, which prints them up to the NUL: both return the bytes here.
\<close>

definition sprintf :: "nat \<Rightarrow> nat \<Rightarrow> nat \<Rightarrow> mem \<Rightarrow> (nat \<times> mem) option" where
  "sprintf buf format args m = vsprintf buf format args m"

definition printf :: "nat \<Rightarrow> nat \<Rightarrow> nat \<Rightarrow> mem \<Rightarrow> (u8 list \<times> mem) option" where
  "printf buf format args m =
     do {
       (_, m1) \<leftarrow> vsprintf buf format args (memset_loop 1024 buf 0 m);
       n \<leftarrow> strlen buf m1;
       Some (map m1 [buf..<buf + n], m1)
     }"

definition printk :: "nat \<Rightarrow> nat \<Rightarrow> nat \<Rightarrow> mem \<Rightarrow> (u8 list \<times> mem) option" where
  "printk buf format args m =
     do {
       (_, m1) \<leftarrow> vsprintf buf format args (memset_loop 1024 buf 0 m);
       console_end \<leftarrow> past_nul m1 buf;
       Some (map m1 [buf..<console_end - 1], m1)
     }"

section \<open>Digits\<close>

definition digit :: "nat \<Rightarrow> u8" where
  "digit d = of_nat (if d < 10 then d + 0x30 else d - 10 + 0x41)"

function digits :: "nat \<Rightarrow> nat \<Rightarrow> u8 list" where
  "digits base n =
     (if n div base = 0 \<or> base < 2 then [digit (n mod base)] else digits base (n div base) @ [digit (n mod base)])"
  by auto

termination
  by (relation "measure snd") (auto simp: div_eq_0_iff intro!: div_less_dividend gr0I)

declare digits.simps [simp del]

definition digit_val :: "u8 \<Rightarrow> nat" where
  "digit_val c = (if unat c < 0x41 then unat c - 0x30 else unat c - 0x41 + 10)"

definition num_val :: "nat \<Rightarrow> u8 list \<Rightarrow> nat" where
  "num_val base = foldl (\<lambda>a c. a * base + digit_val c) 0"

lemma digit_val_digit: "d < 16 \<Longrightarrow> digit_val (digit d) = d"
  by (simp add: digit_val_def digit_def unat_of_nat)

lemma digit_ne_0: "d < 16 \<Longrightarrow> digit d \<noteq> 0"
  by (auto simp: digit_def word_of_nat_eq_0_iff dest!: dvd_imp_le)

lemma digits_val: "2 \<le> base \<Longrightarrow> base \<le> 16 \<Longrightarrow> num_val base (digits base n) = n"
proof (induction base n rule: digits.induct)
  case (1 base n)
  have "n mod base < 16" using 1 by (meson mod_less_divisor order.strict_trans2 less_le_trans zero_less_numeral)
  then show ?case using 1
    by (subst digits.simps) (auto simp: num_val_def digit_val_digit div_eq_0_iff)
qed

lemma digits_no_zero: "2 \<le> base \<Longrightarrow> base \<le> 16 \<Longrightarrow> 0 \<notin> set (digits base n)"
proof (induction base n rule: digits.induct)
  case (1 base n)
  have "n mod base < 16" using 1 by (meson mod_less_divisor order.strict_trans2 less_le_trans zero_less_numeral)
  then show ?case using 1 digit_ne_0 by (subst digits.simps) auto
qed

lemma digits_hd: "2 \<le> base \<Longrightarrow> base \<le> 16 \<Longrightarrow> n \<noteq> 0 \<Longrightarrow> hd (digits base n) \<noteq> digit 0"
proof (induction base n rule: digits.induct)
  case (1 base n)
  have m: "n mod base < 16" using 1 by (meson mod_less_divisor order.strict_trans2 less_le_trans zero_less_numeral)
  have ne: "digits base k \<noteq> []" for k by (subst digits.simps) simp
  show ?case
  proof (cases "n div base = 0")
    case True
    then have "n mod base = n" using 1(2) by (auto simp: div_eq_0_iff)
    then show ?thesis using True m 1(4) digit_val_digit[of n] digit_val_digit[of 0]
      by (subst digits.simps) auto
  next
    case False
    then show ?thesis using 1 ne by (subst digits.simps) simp
  qed
qed

lemma itoa_digit: "unat base \<le> 16 \<Longrightarrow> unat r < unat base \<Longrightarrow>
  ucast (if r < 10 then r + 0x30 else r - 10 + 0x41 :: u32) = digit (unat r)"
proof -
  assume a: "unat base \<le> 16" "unat r < unat base"
  then have "r = of_nat (unat r)" "unat r < 16" by simp_all
  then obtain k where "r = of_nat k" "k < 16" by blast
  moreover from this have "k \<in> {0, 1, 2, 3, 4, 5, 6, 7, 8, 9, 10, 11, 12, 13, 14, 15}" by (auto; presburger)
  ultimately show ?thesis by (auto simp: digit_def)
qed

lemma itoa_correct:
  assumes "2 \<le> unat base" "unat base \<le> 16"
  shows "\<exists>m'. itoa v base bp m = Some (bp + length (digits (unat base) (unat v)), m')
    \<and> bytes_at m' bp (digits (unat base) (unat v))
    \<and> (\<forall>a. a < bp \<or> bp + length (digits (unat base) (unat v)) \<le> a \<longrightarrow> m' a = m a)"
proof (induction "unat v" arbitrary: v rule: less_induct)
  case less
  let ?b = "unat base" and ?num = "unat v"
  have "?b < 2 ^ 32" using assms by simp
  then have b: "unat (ucast base :: u32) = ?b" by (simp add: unsigned_ucast_eq take_bit_nat_eq_self)
  have i: "unat (v div ucast base) = ?num div ?b" and r: "unat (v mod ucast base) = ?num mod ?b"
    by (simp_all add: unat_div unat_mod b)
  have z: "v div ucast base = 0 \<longleftrightarrow> ?num div ?b = 0" using i by (metis unat_eq_zero)
  have d: "ucast (if v mod ucast base < 10 then v mod ucast base + 0x30
      else v mod ucast base - 10 + 0x41 :: u32) = digit (?num mod ?b)"
    using itoa_digit[of base "v mod ucast base"] assms r by simp
  show ?case
  proof (cases "?num div ?b = 0")
    case True
    then show ?thesis using d assms z
      by (subst itoa.simps, subst digits.simps) (auto simp: Let_def digits.simps[of _ ?num])
  next
    case False
    then have "?num div ?b < ?num" using assms by (intro div_less_dividend) (auto intro: gr0I)
    then obtain m' where m': "itoa (v div ucast base) base bp m = Some (bp + length (digits ?b (?num div ?b)), m')"
      "bytes_at m' bp (digits ?b (?num div ?b))"
      "\<forall>a. a < bp \<or> bp + length (digits ?b (?num div ?b)) \<le> a \<longrightarrow> m' a = m a"
      using less[of "v div ucast base"] i by auto
    let ?n = "length (digits ?b (?num div ?b))"
    have ds: "digits ?b ?num = digits ?b (?num div ?b) @ [digit (?num mod ?b)]"
      using False assms by (subst digits.simps) simp
    define m2 where "m2 = m'(bp + ?n := digit (?num mod ?b))"
    have "itoa v base bp m = Some (bp + ?n + 1, m2)"
      using False z m'(1) d unfolding m2_def by (subst itoa.simps) (simp add: Let_def del: if_split)
    moreover have "bytes_at m2 bp (digits ?b (?num div ?b)) = bytes_at m' bp (digits ?b (?num div ?b))"
      by (rule bytes_at_cong) (simp add: m2_def)
    ultimately show ?thesis using m' ds by (auto simp: m2_def bytes_at_append)
  qed
qed

section \<open>The text a format stands for\<close>

datatype arg = AStr "u8 list" | AInt u32 | AChar u8

fun conv_text :: "u8 \<Rightarrow> arg \<Rightarrow> u8 list option" where
  "conv_text d (AStr s) = (if d = ascii CHR ''s'' then Some s else None)"
| "conv_text d (AChar c) = (if d = ascii CHR ''c'' then Some [c] else None)"
| "conv_text d (AInt w) =
     (if d = ascii CHR ''d'' then
        Some (if sint w < 0 then ascii CHR ''-'' # digits 10 (unat (- w)) else digits 10 (unat w))
      else if d = ascii CHR ''x'' then Some (digits 16 (unat w)) else None)"

fun expand :: "u8 list \<Rightarrow> arg list \<Rightarrow> u8 list option" where
  "expand [] args = Some []"
| "expand (c # f) args =
     (if c \<noteq> ascii CHR ''%'' then map_option (Cons c) (expand f args)
      else case f of [] \<Rightarrow> Some []
        | d # f' \<Rightarrow>
            if is_conv d then
              (case args of [] \<Rightarrow> None
               | a # args' \<Rightarrow> (case conv_text d a of None \<Rightarrow> None
                   | Some t \<Rightarrow> map_option ((@) t) (expand f' args')))
            else expand f args)"

text \<open>\<open>W\<close> is the window the output may be written to; format and arguments lie outside it.\<close>

fun arg_at :: "mem \<Rightarrow> nat set \<Rightarrow> nat \<Rightarrow> arg \<Rightarrow> bool" where
  "arg_at m W ap (AInt w) \<longleftrightarrow> va_arg ap m = w"
| "arg_at m W ap (AChar c) \<longleftrightarrow> m (ap + 4) = c"
| "arg_at m W ap (AStr s) \<longleftrightarrow> va_arg ap m \<noteq> 0 \<and> cstr m (unat (va_arg ap m)) s
     \<and> {unat (va_arg ap m)..unat (va_arg ap m) + length s} \<inter> W = {}"

primrec args_at :: "mem \<Rightarrow> nat set \<Rightarrow> nat \<Rightarrow> arg list \<Rightarrow> bool" where
  "args_at m W ap [] \<longleftrightarrow> True"
| "args_at m W ap (a # args) \<longleftrightarrow> {ap + 4..ap + 7} \<inter> W = {} \<and> arg_at m W ap a \<and> args_at m W (ap + 4) args"

text \<open>\<open>wrote m m' bp t\<close>: \<open>m'\<close> is \<open>m\<close> with \<open>t\<close> at \<open>bp\<close>, and at most a NUL written behind it.\<close>

definition wrote :: "mem \<Rightarrow> mem \<Rightarrow> nat \<Rightarrow> u8 list \<Rightarrow> bool" where
  "wrote m m' bp t \<longleftrightarrow> bytes_at m' bp t \<and> m' (bp + length t) \<in> {m (bp + length t), 0}
     \<and> (\<forall>a. a < bp \<or> bp + length t < a \<longrightarrow> m' a = m a)"

lemma wrote_frame: "wrote m m' bp t \<Longrightarrow> {bp..bp + length t} \<subseteq> W \<Longrightarrow> a \<notin> W \<Longrightarrow> m' a = m a"
  using subsetD[of "{bp..bp + length t}" W a] not_le by (fastforce simp: wrote_def)

lemma wrote_append:
  assumes "wrote m m1 bp t" "wrote m1 m2 (bp + length t) u"
  shows "wrote m m2 bp (t @ u)"
proof -
  have "bytes_at m2 bp t \<longleftrightarrow> bytes_at m1 bp t"
    using assms(2) by (intro bytes_at_cong) (auto simp: wrote_def)
  then show ?thesis using assms by (cases "u = []") (auto simp: wrote_def bytes_at_append add.assoc)
qed

lemma args_at_cong:
  assumes "\<And>a. a \<notin> W \<Longrightarrow> m' a = m a" "args_at m W ap args"
  shows "args_at m' W ap args"
  using assms(2)
proof (induction args arbitrary: ap)
  case (Cons x args)
  have w: "va_arg ap m' = va_arg ap m"
    using Cons.prems assms(1) by (auto simp: va_arg_def disjoint_iff)
  have "arg_at m' W ap x"
  proof (cases x)
    case (AStr s)
    let ?q = "unat (va_arg ap m)"
    have "cstr m' ?q s \<longleftrightarrow> cstr m ?q s"
      using Cons.prems AStr by (intro cstr_cong assms(1)) (auto simp: disjoint_iff)
    then show ?thesis using Cons.prems AStr w by simp
  qed (use Cons.prems w assms(1) in \<open>auto simp: disjoint_iff\<close>)
  then show ?case using Cons by auto
qed simp

lemma itoa_wrote:
  assumes "2 \<le> unat base" "unat base \<le> 16"
  shows "\<exists>m'. itoa v base bp m = Some (bp + length (digits (unat base) (unat v)), m')
    \<and> wrote m m' bp (digits (unat base) (unat v))"
proof -
  obtain m' where "itoa v base bp m = Some (bp + length (digits (unat base) (unat v)), m')"
    "bytes_at m' bp (digits (unat base) (unat v))"
    "\<forall>a. a < bp \<or> bp + length (digits (unat base) (unat v)) \<le> a \<longrightarrow> m' a = m a"
    using itoa_correct[OF assms] by blast
  then show ?thesis by (intro exI[of _ m']) (simp add: wrote_def)
qed

lemma wrote_one: "wrote m (m(bp := c)) bp [c]"
  by (simp add: wrote_def)

lemma conv_wrote:
  assumes "is_conv d" "conv_text d a = Some t" "arg_at m W ap a" "{bp..bp + length t} \<subseteq> W" "bp \<noteq> 0"
  shows "\<exists>m1. conv d bp ap m = Some (bp + length t, ap + 4, m1) \<and> wrote m m1 bp t"
proof (cases a)
  case (AStr s)
  let ?q = "unat (va_arg ap m)"
  have d: "d = ascii CHR ''s''" "t = s" using assms AStr by (auto split: if_splits)
  have q: "?q \<noteq> 0" "cstr m ?q s" and "{?q..?q + length s} \<inter> W = {}"
    using assms AStr by (auto simp: unat_eq_zero)
  have dis: "?q + length s < bp \<or> bp + length s < ?q"
  proof (rule ccontr)
    assume "\<not> ?thesis"
    then have "max ?q bp \<in> {?q..?q + length s}" "max ?q bp \<in> {bp..bp + length t}" using d by auto
    then show False using assms(4) \<open>{?q..?q + length s} \<inter> W = {}\<close> by blast
  qed
  then obtain m1 where m1: "strcpy_loop bp ?q m = Some m1" "cstr m1 bp s"
    "\<forall>a. a < bp \<or> bp + length s < a \<longrightarrow> m1 a = m a"
    using strcpy_loop_cstr[OF q(2), of bp] by auto
  have "cstr m1 ?q s \<longleftrightarrow> cstr m ?q s" using m1(3) dis by (intro cstr_cong) auto
  then have "strlen ?q m1 = Some (length s)" using q strlen_cstr by blast
  then have "conv d bp ap m = Some (bp + length t, ap + 4, m1)"
    using m1(1) q assms(5) d by (simp add: conv_def strcpy_def)
  moreover have "wrote m m1 bp t" using m1 d by (simp add: wrote_def cstr_def bytes_at_append)
  ultimately show ?thesis by blast
next
  case (AInt w)
  then have w: "va_arg ap m = w" and t: "conv_text d (AInt w) = Some t" using assms by auto
  show ?thesis
  proof (cases "d = ascii CHR ''d'' \<and> sint w < 0")
    case True
    let ?u = "digits 10 (unat (- w))" and ?m = "m(bp := ascii CHR ''-'')"
    obtain m1 where m1: "itoa (- w) 10 (bp + 1) ?m = Some (bp + 1 + length ?u, m1)" "wrote ?m m1 (bp + 1) ?u"
      using itoa_wrote[of 10 "- w" "bp + 1" ?m] by auto
    have "wrote m m1 bp ([ascii CHR ''-''] @ ?u)" using wrote_append[OF wrote_one, of _ bp _ m1] m1(2) by simp
    then show ?thesis using True t m1(1) w by (auto simp: conv_def Let_def)
  next
    case False
    obtain m1 m2 where
      "itoa w 10 bp m = Some (bp + length (digits 10 (unat w)), m1)" "wrote m m1 bp (digits 10 (unat w))"
      "itoa w 16 bp m = Some (bp + length (digits 16 (unat w)), m2)" "wrote m m2 bp (digits 16 (unat w))"
      using itoa_wrote[of 10] itoa_wrote[of 16] by force
    then show ?thesis using False t w by (auto simp: conv_def Let_def split: if_splits)
  qed
next
  case (AChar c)
  then show ?thesis using assms wrote_one[of m bp c] by (auto simp: conv_def split: if_splits)
qed

lemma expand_percent:
  "expand (ascii CHR ''%'' # d # f) args =
     (if is_conv d then
        (case args of [] \<Rightarrow> None
         | a # args' \<Rightarrow> (case conv_text d a of None \<Rightarrow> None
             | Some t \<Rightarrow> map_option ((@) t) (expand f args')))
      else expand (d # f) args)"
  by (simp only: expand.simps list.case if_False if_True simp_thms)

lemma vsprintf_loop_wrote:
  assumes "expand f args = Some out" "cstr m ip f" "{ip..ip + length f} \<inter> W = {}"
    and "args_at m W ap args" "{bp..bp + length out} \<subseteq> W" "bp \<noteq> 0"
  shows "\<exists>m'. vsprintf_loop ip (m ip) bp ap m = Some m' \<and> wrote m m' bp out"
  using assms
proof (induction f args arbitrary: out ip bp ap m rule: expand.induct)
  case (1 args)
  then show ?case by (subst vsprintf_loop.simps) (simp add: wrote_def)
next
  case (2 c f args)
  show ?case
  proof (cases "c = ascii CHR ''%''")
    case False
    then obtain u where u: "out = [c] @ u" "expand f args = Some u" using 2(4) by auto
    define m1 where "m1 = m(bp := c)"
    have "bp \<in> W" using 2(8) by (rule subsetD) simp
    then have out: "\<And>a. a \<notin> W \<Longrightarrow> m1 a = m a" by (auto simp: m1_def)
    have "cstr m1 (ip + 1) f \<longleftrightarrow> cstr m (ip + 1) f"
      using 2(6) by (intro cstr_cong out) (auto simp: disjoint_iff)
    then have f1: "cstr m1 (ip + 1) f" using 2(5) by simp
    have a1: "args_at m1 W ap args" by (rule args_at_cong[OF out 2(7)])
    have w1: "{bp + 1..bp + 1 + length u} \<subseteq> W" using 2(8) u(1) by (auto simp: subset_iff)
    have i1: "{ip + 1..ip + 1 + length f} \<inter> W = {}" using 2(6) by (auto simp: disjoint_iff)
    obtain m' where m': "vsprintf_loop (ip + 1) (m1 (ip + 1)) (bp + 1) ap m1 = Some m'" "wrote m1 m' (bp + 1) u"
      using 2(1)[OF False u(2) f1 i1 a1 w1] by auto
    have "wrote m m' bp ([c] @ u)" using wrote_append[OF wrote_one[of m bp c], folded m1_def, of m' u] m'(2) by simp
    moreover have "vsprintf_loop ip (m ip) bp ap m = Some m'"
      using False 2(5) m'(1) by (subst vsprintf_loop.simps) (simp add: m1_def del: fun_upd_apply)
    ultimately show ?thesis using u(1) by blast
  next
    case True
    show ?thesis
    proof (cases f)
      case Nil
      then show ?thesis using 2(4,5) True
        by (subst vsprintf_loop.simps) (simp add: is_conv_def vsprintf_loop.simps[of "Suc ip" 0] wrote_def)
    next
      case (Cons d f')
      have md: "m ip = c" "m (ip + 1) = d" "cstr m (ip + 2) f'" "c \<noteq> 0" using 2(5) Cons by auto
      show ?thesis
      proof (cases "is_conv d")
        case conv: True
        then obtain a args' t u where a: "args = a # args'" "conv_text d a = Some t"
          "expand f' args' = Some u" "out = t @ u"
          using 2(4) True Cons by (auto simp: expand_percent split: list.splits option.splits)
        have "{bp..bp + length t} \<subseteq> W" using 2(8) a(4) by auto
        then obtain m1 where m1: "conv d bp ap m = Some (bp + length t, ap + 4, m1)" "wrote m m1 bp t"
          using conv_wrote[OF conv a(2), of m W ap bp] 2(7,9) a(1) by auto
        have out: "\<And>a. a \<notin> W \<Longrightarrow> m1 a = m a" using wrote_frame[OF m1(2)] \<open>{bp..bp + length t} \<subseteq> W\<close> by blast
        have "cstr m1 (ip + 2) f' \<longleftrightarrow> cstr m (ip + 2) f'"
          using 2(6) Cons by (intro cstr_cong out) (auto simp: disjoint_iff)
        moreover have "args_at m1 W (ap + 4) args'" using args_at_cong[OF out 2(7)] a(1) by simp
        ultimately obtain m' where "vsprintf_loop (ip + 2) (m1 (ip + 2)) (bp + length t) (ap + 4) m1 = Some m'"
          "wrote m1 m' (bp + length t) u"
          using 2(2)[OF _ Cons conv a(1,2,3), of m1 "ip + 2" "ap + 4" "bp + length t"] True 2(6,8,9) a(4) Cons md(3)
          by (auto simp: disjoint_iff subset_iff)
        then show ?thesis using md True conv m1 a(4) wrote_append[OF m1(2), of m' u]
          by (subst vsprintf_loop.simps) simp
      next
        case conv: False
        have "expand f args = Some out" using 2(4) True Cons conv by (simp only: expand_percent if_False)
        then obtain m' where "vsprintf_loop (ip + 1) (m (ip + 1)) bp ap m = Some m'" "wrote m m' bp out"
          using 2(3)[OF _ Cons conv, of out m "ip + 1" ap bp] True 2(5-9) by (auto simp: disjoint_iff)
        then show ?thesis using md True conv by (subst vsprintf_loop.simps) simp
      qed
    qed
  qed
qed

lemma wrote_cstr:
  assumes "wrote m m' bp t" "m (bp + length t) = 0" "0 \<notin> set t"
  shows "cstr m' bp t"
  using assms by (auto simp: wrote_def cstr_def bytes_at_append)

lemma map_upt_nth: "bytes_at m p xs \<Longrightarrow> map m [p..<p + length xs] = xs"
  by (intro nth_equalityI) (auto simp: bytes_at_nth)

lemma expand_plain: "ascii CHR ''%'' \<notin> set f \<Longrightarrow> expand f args = Some f"
  by (induction f args rule: expand.induct) simp_all

lemma vsprintf_loop_plain:
  assumes "cstr m fmt f" "ascii CHR ''%'' \<notin> set f" "{fmt..fmt + length f} \<inter> {buf..buf + length f} = {}"
  shows "\<exists>m'. vsprintf_loop fmt (m fmt) buf ap m = Some m' \<and> bytes_at m' buf f
    \<and> (\<forall>a. a < buf \<or> buf + length f \<le> a \<longrightarrow> m' a = m a)"
  using assms
proof (induction f arbitrary: fmt buf m)
  case Nil
  then show ?case by (subst vsprintf_loop.simps) simp
next
  case (Cons c f)
  define m1 where "m1 = m(buf := c)"
  have "cstr m1 (fmt + 1) f \<longleftrightarrow> cstr m (fmt + 1) f"
    using Cons.prems(3) by (intro cstr_cong) (auto simp: m1_def disjoint_iff)
  moreover have "{fmt + 1..fmt + 1 + length f} \<inter> {buf + 1..buf + 1 + length f} = {}"
    using Cons.prems(3) by (auto simp: disjoint_iff)
  ultimately obtain m' where m': "vsprintf_loop (fmt + 1) (m1 (fmt + 1)) (buf + 1) ap m1 = Some m'"
    "bytes_at m' (buf + 1) f" "\<forall>a. a < buf + 1 \<or> buf + 1 + length f \<le> a \<longrightarrow> m' a = m1 a"
    using Cons.IH[of m1 "fmt + 1" "buf + 1"] Cons.prems by auto
  have "vsprintf_loop fmt (m fmt) buf ap m = Some m'"
    using Cons.prems m'(1) by (subst vsprintf_loop.simps) (simp add: m1_def del: fun_upd_apply)
  then show ?case using m'(2,3) by (auto simp: m1_def)
qed

section \<open>Properties\<close>

text \<open>Itoa in base 10 or 16 writes the digits of the number: they read back as the number,
  start with no superfluous zero, and nothing outside them is written.\<close>
theorem itoa_roundtrip:
  assumes "base = 10 \<or> base = 16"
  shows "\<exists>s m'. itoa n base bp m = Some (bp + length s, m') \<and> bytes_at m' bp s
    \<and> num_val (unat base) s = unat n \<and> (n = 0 \<or> hd s \<noteq> digit 0)
    \<and> (\<forall>a. a < bp \<or> bp + length s \<le> a \<longrightarrow> m' a = m a)"
proof -
  have b: "2 \<le> unat base" "unat base \<le> 16" using assms by auto
  show ?thesis using itoa_correct[OF b, of n bp m] digits_val[OF b] digits_hd[OF b, of "unat n"]
    by (metis unat_eq_zero)
qed

theorem itoa_roundtrip_witness:
  "\<exists>s m'. itoa 0xC0DE 16 100 (\<lambda>_. 0) = Some (100 + length s, m') \<and> num_val 16 s = 0xC0DE"
  using itoa_roundtrip[of 16 "0xC0DE" 100 "\<lambda>_. 0"] by (simp; blast)

text \<open>C39: printf hands write the text its format stands for: the directives s, c, d and x are
  replaced by their arguments, a percent sign before any other char disappears, and memory
  outside the local buffer is left alone. The text must fit the buffer of 1024 bytes.\<close>
theorem printf_correct:
  assumes "expand f args = Some out" "0 \<notin> set out" "length out < 1024"
    and "cstr m fmt f" "{fmt..fmt + length f} \<inter> {buf..<buf + 1024} = {}"
    and "args_at m {buf..<buf + 1024} ap args" "buf \<noteq> 0"
  shows "\<exists>m'. printf buf fmt ap m = Some (out, m') \<and> (\<forall>a. a \<notin> {buf..<buf + 1024} \<longrightarrow> m' a = m a)"
proof -
  let ?W = "{buf..<buf + 1024}"
  define m0 where "m0 = memset_loop 1024 buf 0 m"
  have out: "\<And>a. a \<notin> ?W \<Longrightarrow> m0 a = m a" by (auto simp: m0_def memset_loop_at)
  have "cstr m0 fmt f \<longleftrightarrow> cstr m fmt f"
    using assms(5) by (intro cstr_cong out) (auto simp: disjoint_iff)
  moreover have "args_at m0 ?W ap args" by (rule args_at_cong[OF out assms(6)])
  moreover have w: "{buf..buf + length out} \<subseteq> ?W" using assms(3) by auto
  ultimately obtain m' where m': "vsprintf_loop fmt (m0 fmt) buf ap m0 = Some m'" "wrote m0 m' buf out"
    using vsprintf_loop_wrote[OF assms(1) _ assms(5)] assms(4,7) by blast
  have "m0 (buf + length out) = 0" using assms(3) by (simp add: m0_def memset_loop_at)
  then have c: "cstr m' buf out" using wrote_cstr[OF m'(2)] assms(2) by blast
  then have "map m' [buf..<buf + length out] = out" by (intro map_upt_nth) (simp add: cstr_def bytes_at_append)
  then have "printf buf fmt ap m = Some (out, m')"
    using m'(1) strlen_cstr[OF c assms(7)] by (simp add: printf_def vsprintf_def m0_def)
  moreover have "m' a = m a" if "a \<notin> ?W" for a
    using wrote_frame[OF m'(2) w that] out[OF that] by simp
  ultimately show ?thesis by blast
qed

definition demo_stack :: mem where
  "demo_stack = (\<lambda>_. 0)(10 := ascii CHR ''n'', 11 := ascii CHR ''%'', 12 := ascii CHR ''d'', 44 := 0xF6,
     45 := 0xFF, 46 := 0xFF, 47 := 0xFF)"

lemma demo_stack_ok:
  "cstr demo_stack 10 (map ascii ''n%d'')" "args_at demo_stack {5000..<6024} 40 [AInt (- 10)]"
  "expand (map ascii ''n%d'') [AInt (- 10)] = Some (map ascii ''n-10'')"
  by (simp_all add: demo_stack_def va_arg_def bytes_u32_Cons is_conv_def sint_u32 digits.simps digit_def disjoint_iff)

theorem printf_witness: "\<exists>m'. printf 5000 10 40 demo_stack = Some (map ascii ''n-10'', m')"
  using printf_correct[OF demo_stack_ok(3) _ _ demo_stack_ok(1), of 5000 40] demo_stack_ok(2)
  by (simp add: disjoint_iff) blast

text \<open>Sprintf does not terminate its output: a format without directives leaves the bytes of
  the buffer behind its text as they were, so on a buffer that held a longer string the result
  and the length returned are those of the text followed by the rest of the old string.\<close>
theorem sprintf_keeps_tail:
  assumes "cstr m fmt f" "ascii CHR ''%'' \<notin> set f" "cstr m buf old" "length f < length old" "buf \<noteq> 0"
    and "{fmt..fmt + length f} \<inter> {buf..buf + length f} = {}"
  shows "\<exists>m'. sprintf buf fmt ap m = Some (length old, m') \<and> cstr m' buf (f @ drop (length f) old)"
proof -
  obtain m' where m': "vsprintf_loop fmt (m fmt) buf ap m = Some m'" "bytes_at m' buf f"
    "\<forall>a. a < buf \<or> buf + length f \<le> a \<longrightarrow> m' a = m a" using vsprintf_loop_plain[OF assms(1,2,6)] by blast
  have "bytes_at m' (buf + length f) (drop (length f) old @ [0]) \<longleftrightarrow>
      bytes_at m (buf + length f) (drop (length f) old @ [0])"
    by (rule bytes_at_cong) (simp add: m'(3))
  moreover have "bytes_at m buf (take (length f) old @ drop (length f) old @ [0])"
    using assms(3) by (simp add: cstr_def flip: append_assoc)
  ultimately have "bytes_at m' (buf + length f) (drop (length f) old @ [0])"
    using assms(4) by (simp only: bytes_at_append[of m buf "take (length f) old"]) simp
  then have "cstr m' buf (f @ drop (length f) old)"
    using m'(2) assms(1,3) set_drop_subset[of "length f" old] by (auto simp: cstr_def bytes_at_append)
  then show ?thesis using m'(1) strlen_cstr[of m' buf] assms(4,5) by (auto simp: sprintf_def vsprintf_def)
qed

theorem sprintf_keeps_tail_witness:
  "\<exists>m'. sprintf 20 10 40 demo_mem = Some (length [0x62, 0xE9 :: u8], m') \<and> cstr m' 20 [0x61, 0xE9]"
  using sprintf_keeps_tail[OF demo_mem_strings(1) _ demo_mem_strings(2), where ap = 40] by simp

end
