(* ===== verification/Platform.thy ===== *)
theory Platform
  imports Interrupt
begin

text \<open>
  tss.c and timer.c: the descriptors the kernel adds to the GDT, the task state segment, the
  programming of the interval timer and the sleep loop. The GDT is a map from slot numbers (8
  bytes each from 0xc0000900) to descriptors; port output is the list of (port, byte) pairs.
\<close>

section \<open>Segment descriptors\<close>

record gdt_desc =
  limit_low_word :: u16
  base_low_word :: u16
  base_mid_byte :: u8
  attr_low_byte :: u8
  limit_high_attr_high :: u8
  base_high_byte :: u8

definition make_gdt_desc :: "u32 \<Rightarrow> u32 \<Rightarrow> u8 \<Rightarrow> u8 \<Rightarrow> gdt_desc" where
  "make_gdt_desc desc_base limit attr_low attr_high =
     \<lparr>limit_low_word = ucast (limit AND 0x0000ffff),
      base_low_word = ucast (desc_base AND 0x0000ffff),
      base_mid_byte = ucast (drop_bit 16 (desc_base AND 0x00ff0000)),
      attr_low_byte = attr_low,
      limit_high_attr_high = ucast (drop_bit 16 (limit AND 0x000f0000) + ucast attr_high),
      base_high_byte = ucast (drop_bit 24 desc_base)\<rparr>"

definition GDT_ATTR_HIGH :: u8 where
  "GDT_ATTR_HIGH = push_bit 7 1 + push_bit 6 1 + push_bit 5 0 + push_bit 4 0"

definition GDT_CODE_ATTR_LOW_DPL3 :: u8 where
  "GDT_CODE_ATTR_LOW_DPL3 = push_bit 7 1 + push_bit 5 3 + push_bit 4 1 + 8"

definition GDT_DATA_ATTR_LOW_DPL3 :: u8 where
  "GDT_DATA_ATTR_LOW_DPL3 = push_bit 7 1 + push_bit 5 3 + push_bit 4 1 + 2"

definition TSS_ATTR_HIGH :: u8 where
  "TSS_ATTR_HIGH = push_bit 7 1 + push_bit 6 0 + push_bit 5 0 + push_bit 4 0 + 0"

definition TSS_ATTR_LOW :: u8 where
  "TSS_ATTR_LOW = push_bit 7 1 + push_bit 5 0 + push_bit 4 0 + 9"

definition SELECTOR_K_STACK :: u16 where
  "SELECTOR_K_STACK = push_bit 3 2 + push_bit 2 0 + 0"

definition SELECTOR_TSS :: u16 where
  "SELECTOR_TSS = push_bit 3 4 + push_bit 2 0 + 0"

text \<open>The fields of the task state segment the kernel sets; all others stay 0.\<close>

record tss =
  esp0 :: u32
  ss0 :: u32
  tss_others :: "u32 list"
  io_base :: u32

definition tss_size :: u32 where
  "tss_size = 27 * 4"

record platform =
  the_tss :: tss
  gdt :: "nat \<Rightarrow> gdt_desc"
  gdtr :: "64 word"
  tr :: u16

definition tss_init :: "u32 \<Rightarrow> platform \<Rightarrow> platform" where
  "tss_init tss_addr p =
     (let t0 = \<lparr>esp0 = 0, ss0 = 0, tss_others = replicate 24 0, io_base = 0\<rparr>;
          t1 = t0\<lparr>ss0 := ucast SELECTOR_K_STACK\<rparr>;
          t2 = t1\<lparr>io_base := tss_size\<rparr>
      in p\<lparr>the_tss := t2,
           gdt := (gdt p)(
             4 := make_gdt_desc tss_addr (tss_size - 1) TSS_ATTR_LOW TSS_ATTR_HIGH,
             5 := make_gdt_desc 0 0xfffff GDT_CODE_ATTR_LOW_DPL3 GDT_ATTR_HIGH,
             6 := make_gdt_desc 0 0xfffff GDT_DATA_ATTR_LOW_DPL3 GDT_ATTR_HIGH),
           gdtr := (8 * 7 - 1) OR push_bit 16 (ucast (0xc0000900 :: u32)),
           tr := SELECTOR_TSS\<rparr>)"

text \<open>What the processor reads from a descriptor.\<close>

definition desc_base :: "gdt_desc \<Rightarrow> u32" where
  "desc_base d = ucast (base_low_word d) OR push_bit 16 (ucast (base_mid_byte d))
     OR push_bit 24 (ucast (base_high_byte d))"

definition desc_limit :: "gdt_desc \<Rightarrow> u32" where
  "desc_limit d = ucast (limit_low_word d) OR push_bit 16 (ucast (limit_high_attr_high d AND 0xf))"

definition desc_present :: "gdt_desc \<Rightarrow> bool" where
  "desc_present d = bit (attr_low_byte d) 7"

definition desc_dpl :: "gdt_desc \<Rightarrow> nat" where
  "desc_dpl d = unat (drop_bit 5 (attr_low_byte d) AND 3)"

lemma bit_0xFF0000 [mask_simps]: "bit (0x00FF0000 :: int) n \<longleftrightarrow> 16 \<le> n \<and> n < 24"
proof -
  have eq: "(0x00FF0000 :: int) = push_bit 16 (mask 8)" by (simp add: mask_eq_exp_minus_1 push_bit_eq_mult)
  show ?thesis unfolding eq bit_push_bit_iff bit_mask_iff by auto
qed

lemma bit_0xF0000 [mask_simps]: "bit (0x000F0000 :: int) n \<longleftrightarrow> 16 \<le> n \<and> n < 20"
proof -
  have eq: "(0x000F0000 :: int) = push_bit 16 (mask 4)" by (simp add: mask_eq_exp_minus_1 push_bit_eq_mult)
  show ?thesis unfolding eq bit_push_bit_iff bit_mask_iff by auto
qed

lemma bit_0xF [mask_simps]: "bit (0xF :: int) n \<longleftrightarrow> n < 4"
proof -
  have eq: "(0xF :: int) = mask 4" by (simp add: mask_eq_exp_minus_1)
  show ?thesis unfolding eq bit_mask_iff by auto
qed

lemma desc_base_make: "desc_base (make_gdt_desc b l lo hi) = b"
proof (rule bit_word_eqI)
  fix n assume "n < LENGTH(32)"
  then consider "n < 16" | "16 \<le> n" "n < 24" | "24 \<le> n" "n < 32" by force
  then show "bit (desc_base (make_gdt_desc b l lo hi)) n = bit b n"
    by cases (auto simp: desc_base_def make_gdt_desc_def bit_simps mask_simps)
qed

lemma attr_low_make [simp]: "attr_low_byte (make_gdt_desc b l lo hi) = lo"
  by (simp add: make_gdt_desc_def)

text \<open>The sum of the two nibbles is a disjoint or when the low nibble of the attribute is 0.\<close>

lemma desc_limit_make:
  assumes "hi AND 0xF = 0"
  shows "desc_limit (make_gdt_desc b l lo hi) = l AND 0xFFFFF"
proof -
  have hi: "\<not> bit hi n" if "n < 4" for n
  proof -
    have "n < 8" using that by simp
    moreover have "\<forall>n<8. bit hi n \<longrightarrow> \<not> n < 4" using assms by (simp add: word_and_eq_0 mask_simps)
    ultimately show ?thesis using that by blast
  qed
  have "drop_bit 16 (l AND 0xF0000) + ucast hi = drop_bit 16 (l AND 0xF0000) OR ucast hi"
    by (rule disjunctive_add) (auto simp: bit_simps mask_simps hi)
  then have b: "bit (limit_high_attr_high (make_gdt_desc b l lo hi)) n \<longleftrightarrow> bit l (n + 16)" if "n < 4" for n
    using that hi by (auto simp: make_gdt_desc_def bit_simps mask_simps ac_simps)
  have m: "bit (0xFFFFF :: u32) n \<longleftrightarrow> n < 20" for n
  proof -
    have "(0xFFFFF :: u32) = mask 20" by (simp add: mask_eq_exp_minus_1)
    then show ?thesis by (simp only: bit_mask_iff) auto
  qed
  show ?thesis
  proof (rule bit_word_eqI)
    fix n assume "n < LENGTH(32)"
    then consider "n < 16" | "16 \<le> n" "n < 20" | "20 \<le> n" "n < 32" by force
    then show "bit (desc_limit (make_gdt_desc b l lo hi)) n = bit (l AND 0xFFFFF) n"
    proof cases
      case 1
      then show ?thesis unfolding bit_and_iff m by (auto simp: desc_limit_def make_gdt_desc_def bit_simps mask_simps)
    next
      case 2
      then show ?thesis unfolding bit_and_iff m using b[of "n - 16"]
        by (auto simp: desc_limit_def bit_simps mask_simps make_gdt_desc_def)
    next
      case 3
      then show ?thesis unfolding bit_and_iff m
        by (auto simp: desc_limit_def bit_simps mask_simps dest: bit_imp_le_length)
    qed
  qed
qed

section \<open>The interval timer\<close>

definition PIT_CONTROL_PORT :: u8 where
  "PIT_CONTROL_PORT = 0x43"

definition CONTRER0_PORT :: u8 where
  "CONTRER0_PORT = 0x40"

definition COUNTER0_VALUE :: u16 where
  "COUNTER0_VALUE = of_nat (1193180 div 100)"

definition frequency_set :: "u8 \<Rightarrow> u8 \<Rightarrow> u8 \<Rightarrow> u8 \<Rightarrow> u16 \<Rightarrow> (u8 \<times> u8) list" where
  "frequency_set counter_port counter_no rwl counter_mode counter_value =
     [(PIT_CONTROL_PORT, push_bit 6 counter_no OR push_bit 4 rwl OR push_bit 1 counter_mode),
      (counter_port, ucast counter_value),
      (counter_port, drop_bit 8 (ucast counter_value))]"

definition timer_init_ports :: "(u8 \<times> u8) list" where
  "timer_init_ports = frequency_set CONTRER0_PORT 0 3 2 COUNTER0_VALUE"

text \<open>The counter the timer holds after the low and then the high byte were written to its port.\<close>

definition pit_counter :: "(u8 \<times> u8) list \<Rightarrow> nat" where
  "pit_counter out = (let bytes = map snd (filter (\<lambda>x. fst x = CONTRER0_PORT) out)
     in unat (bytes ! 0) + 256 * unat (bytes ! 1))"

section \<open>Sleeping\<close>

text \<open>\<open>ticks_at n\<close> is the value of the tick counter after the thread has yielded \<open>n\<close> times; the result is
  the number of yields.\<close>

partial_function (option) sleep_loop :: "(nat \<Rightarrow> u32) \<Rightarrow> u32 \<Rightarrow> u32 \<Rightarrow> nat \<Rightarrow> nat option" where
  "sleep_loop ticks_at start_ticks sleep_ticks n =
     (if ticks_at n - start_ticks < sleep_ticks
      then sleep_loop ticks_at start_ticks sleep_ticks (Suc n) else Some n)"

definition sleep_to_ticks :: "(nat \<Rightarrow> u32) \<Rightarrow> u32 \<Rightarrow> nat option" where
  "sleep_to_ticks ticks_at sleep_ticks = sleep_loop ticks_at (ticks_at 0) sleep_ticks 0"

definition msleep :: "(nat \<Rightarrow> u32) \<Rightarrow> u32 \<Rightarrow> nat option" where
  "msleep ticks_at mseconds =
     (let sleep_ticks = mseconds div 10 in
      do { ASSERT (sleep_ticks > 0); sleep_to_ticks ticks_at sleep_ticks })"

lemma sleep_loop_counts:
  assumes "\<And>n. ticks_at n = t0 + of_nat n" "k \<le> unat m" "i = unat m - k"
  shows "sleep_loop ticks_at t0 m i = Some (unat m)"
  using assms(2,3)
proof (induction k arbitrary: i)
  case 0
  have "(of_nat (unat m) :: u32) = m" by simp
  then show ?case using 0 assms(1) by (subst sleep_loop.simps) simp
next
  case (Suc k)
  have i: "i < unat m" using Suc.prems by simp
  have "ticks_at i - t0 = of_nat i" using assms(1) by simp
  moreover have "(of_nat i :: u32) < m"
  proof -
    have "i < 4294967296" using i unat_lt_u32 by (rule less_trans)
    then have "unat (of_nat i :: u32) = i" by (simp add: unat_of_nat take_bit_nat_eq_self)
    then show ?thesis using i by (simp add: word_less_nat_alt)
  qed
  moreover have "sleep_loop ticks_at t0 m (Suc i) = Some (unat m)" using Suc.prems by (intro Suc.IH) simp_all
  ultimately show ?case by (subst sleep_loop.simps) simp
qed

section \<open>Properties\<close>

text \<open>The descriptors tss_init installs say what they are meant to: the task state segment is
  the whole tss at its address and privileged, the two user segments span 4 GB with privilege 3,
  and all three are present. Any base comes back from a descriptor unchanged.\<close>
theorem gdt_descriptors_correct:
  "desc_base (gdt (tss_init addr p) 4) = addr \<and> desc_limit (gdt (tss_init addr p) 4) = 107
   \<and> desc_dpl (gdt (tss_init addr p) 4) = 0 \<and> desc_present (gdt (tss_init addr p) 4)
   \<and> desc_base (gdt (tss_init addr p) 5) = 0 \<and> desc_limit (gdt (tss_init addr p) 5) = 0xFFFFF
   \<and> desc_dpl (gdt (tss_init addr p) 5) = 3 \<and> desc_present (gdt (tss_init addr p) 5)
   \<and> desc_base (gdt (tss_init addr p) 6) = 0 \<and> desc_limit (gdt (tss_init addr p) 6) = 0xFFFFF
   \<and> desc_dpl (gdt (tss_init addr p) 6) = 3 \<and> desc_present (gdt (tss_init addr p) 6)
   \<and> desc_base (make_gdt_desc b l lo hi) = b"
proof -
  have "desc_limit (make_gdt_desc b l lo TSS_ATTR_HIGH) = l AND 0xFFFFF"
    "desc_limit (make_gdt_desc b l lo GDT_ATTR_HIGH) = l AND 0xFFFFF" for b l lo
    by (rule desc_limit_make; simp add: TSS_ATTR_HIGH_def GDT_ATTR_HIGH_def)+
  then show ?thesis
    by (simp add: tss_init_def Let_def desc_base_make tss_size_def desc_dpl_def desc_present_def
        TSS_ATTR_LOW_def GDT_CODE_ATTR_LOW_DPL3_def GDT_DATA_ATTR_LOW_DPL3_def)
qed

text \<open>The high byte of the timer's counter is never set: frequency_set casts the value to 8 bits
  before it shifts, so the counter is the value modulo 256. The kernel asks for 11931, which is
  100 interrupts a second, and gets 155, more than 7600 a second.\<close>
theorem timer_high_byte_lost:
  "frequency_set port no rwl mode v =
     [(PIT_CONTROL_PORT, push_bit 6 no OR push_bit 4 rwl OR push_bit 1 mode), (port, ucast v), (port, 0)]
   \<and> pit_counter timer_init_ports = 155 \<and> unat COUNTER0_VALUE = 11931 \<and> 7600 < (1193180 :: nat) div 155"
proof -
  have "drop_bit 8 (w :: u8) = 0" for w
    by (rule bit_word_eqI) (auto simp: bit_simps)
  then show ?thesis
    by (simp add: frequency_set_def timer_init_ports_def pit_counter_def Let_def COUNTER0_VALUE_def
        CONTRER0_PORT_def PIT_CONTROL_PORT_def)
qed



end
