(* ===== verification/Bitmap.thy ===== *)
theory Bitmap
  imports Prelude
begin

text \<open>
  bitmap.c: the bitmaps behind every allocator of the kernel (physical pages, virtual pages,
  process ids, inodes, disk blocks). The pointer \<open>bits\<close> of the code is the memory from the
  first byte of the bitmap on, a function of the byte index: index \<open>btmp_bytes_len\<close> and the
  ones after it are the bytes that lie behind the bitmap, which the code can read and write.
  Lengths and bit indices are natural numbers: the largest bitmap of the kernel has 16 KiB, so
  \<open>idx_byte * 8 + idx_bit\<close> stays far below the range of an \<open>int\<close>.
\<close>

record bitmap =
  btmp_bytes_len :: nat
  bits :: "nat \<Rightarrow> u8"

definition bitmap_init :: "bitmap \<Rightarrow> bitmap" where
  "bitmap_init btmp = btmp\<lparr>bits := (\<lambda>i. if i < btmp_bytes_len btmp then 0 else bits btmp i)\<rparr>"

definition bitmap_scan_test :: "bitmap \<Rightarrow> nat \<Rightarrow> bool" where
  "bitmap_scan_test btmp bit_idx =
     (let byte_idx = bit_idx div 8; bit_odd = bit_idx mod 8
      in bits btmp byte_idx AND push_bit bit_odd 1 \<noteq> 0)"

text \<open>The first loop of \<open>bitmap_scan\<close>: skip the full bytes. It reads before it checks the bound.\<close>

function scan_byte :: "bitmap \<Rightarrow> nat \<Rightarrow> nat" where
  "scan_byte btmp idx_byte =
     (if bits btmp idx_byte = 0xff \<and> idx_byte < btmp_bytes_len btmp
      then scan_byte btmp (Suc idx_byte) else idx_byte)"
  by pat_completeness auto
termination
  by (relation "measure (\<lambda>(btmp, i). btmp_bytes_len btmp - i)") auto

text \<open>The second loop: the first zero bit of a byte. The cast to 8 bits makes the mask 0 at 8.\<close>

function scan_bit :: "u8 \<Rightarrow> nat \<Rightarrow> nat" where
  "scan_bit v idx_bit =
     (if push_bit idx_bit 1 AND v \<noteq> 0 then scan_bit v (Suc idx_bit) else idx_bit)"
  by pat_completeness auto
termination
proof (relation "measure (\<lambda>(v, k). 8 - k)")
  fix v :: u8 and k
  assume a: "push_bit k 1 AND v \<noteq> 0"
  have "k < 8"
  proof (rule ccontr)
    assume "\<not> k < 8"
    then have "push_bit k (1 :: u8) = 0" by (intro bit_word_eqI) (auto simp del: push_bit_of_1 simp: bit_simps)
    with a have "(0 :: u8) AND v \<noteq> 0" by metis
    then show False by simp
  qed
  then show "((v, Suc k), v, k) \<in> measure (\<lambda>(v, k). 8 - k)" by simp
qed simp

declare scan_byte.simps [simp del] scan_bit.simps [simp del]

text \<open>The third loop: count consecutive zero bits from \<open>next_bit\<close> on, \<open>bit_left\<close> times.\<close>

fun scan_run :: "bitmap \<Rightarrow> nat \<Rightarrow> nat \<Rightarrow> nat \<Rightarrow> nat \<Rightarrow> int" where
  "scan_run btmp cnt 0 next_bit count = -1"
| "scan_run btmp cnt (Suc bit_left) next_bit count =
     (let count' = (if \<not> bitmap_scan_test btmp next_bit then Suc count else 0)
      in if count' = cnt then int next_bit - int cnt + 1
         else scan_run btmp cnt bit_left (Suc next_bit) count')"

definition bitmap_scan :: "bitmap \<Rightarrow> nat \<Rightarrow> int option" where
  "bitmap_scan btmp cnt =
     (let idx_byte = scan_byte btmp 0 in
      do {
        ASSERT (idx_byte < btmp_bytes_len btmp);
        if idx_byte = btmp_bytes_len btmp then Some (-1)
        else
          let idx_bit = scan_bit (bits btmp idx_byte) 0;
              bit_idx_start = idx_byte * 8 + idx_bit
          in if cnt = 1 then Some (int bit_idx_start)
             else
               let bit_left = btmp_bytes_len btmp * 8 - bit_idx_start;
                   next_bit = bit_idx_start + 1
               in Some (scan_run btmp cnt bit_left next_bit 1)
      })"

definition bitmap_set :: "bitmap \<Rightarrow> nat \<Rightarrow> int \<Rightarrow> bitmap option" where
  "bitmap_set btmp bit_idx value =
     do {
       ASSERT (value = 0 \<or> value = 1);
       let byte_idx = bit_idx div 8; bit_odd = bit_idx mod 8 in
       if value \<noteq> 0
       then Some (btmp\<lparr>bits := (bits btmp)(byte_idx := bits btmp byte_idx OR push_bit bit_odd 1)\<rparr>)
       else Some (btmp\<lparr>bits := (bits btmp)(byte_idx := bits btmp byte_idx AND NOT (push_bit bit_odd 1))\<rparr>)
     }"

section \<open>Bits of a bitmap\<close>

lemma mask_bit:
  fixes w :: u8
  assumes "k < 8"
  shows "w AND 2 ^ k \<noteq> 0 \<longleftrightarrow> bit w k"
proof
  assume "bit w k"
  then have "bit (w AND 2 ^ k) k" using assms by (simp add: bit_simps)
  then show "w AND 2 ^ k \<noteq> 0" by auto
next
  assume "w AND 2 ^ k \<noteq> 0"
  then obtain n where "bit (w AND 2 ^ k) n" by (auto simp: bit_eq_iff)
  then show "bit w k" by (auto simp: bit_simps)
qed

lemma scan_test_bit: "bitmap_scan_test btmp i \<longleftrightarrow> bit (bits btmp (i div 8)) (i mod 8)"
  by (simp add: bitmap_scan_test_def Let_def mask_bit)

lemma scan_test_byte: "k < 8 \<Longrightarrow> bitmap_scan_test btmp (i * 8 + k) \<longleftrightarrow> bit (bits btmp i) k"
  by (simp add: scan_test_bit)

lemma div_mod_8_eq: "(i :: nat) div 8 = j div 8 \<Longrightarrow> i mod 8 = j mod 8 \<Longrightarrow> i = j"
  by (metis div_mult_mod_eq)

lemma bitmap_set_1:
  "\<exists>b'. bitmap_set btmp i 1 = Some b' \<and> btmp_bytes_len b' = btmp_bytes_len btmp
     \<and> (\<forall>j. bitmap_scan_test b' j \<longleftrightarrow> j = i \<or> bitmap_scan_test btmp j)"
  by (auto simp: bitmap_set_def scan_test_bit Let_def bit_simps dest: div_mod_8_eq)

lemma bitmap_set_0:
  "\<exists>b'. bitmap_set btmp i 0 = Some b' \<and> btmp_bytes_len b' = btmp_bytes_len btmp
     \<and> (\<forall>j. bitmap_scan_test b' j \<longleftrightarrow> j \<noteq> i \<and> bitmap_scan_test btmp j)"
  by (auto simp: bitmap_set_def scan_test_bit Let_def bit_simps dest: div_mod_8_eq)

lemma byte_full_iff: "(w :: u8) = 0xff \<longleftrightarrow> (\<forall>k<8. bit w k)"
proof
  assume r: "\<forall>k<8. bit w k"
  have "w = -1" by (rule bit_word_eqI) (use r in \<open>simp add: bit_simps\<close>)
  then show "w = 0xff" by simp
next
  assume "w = 0xff"
  then have "w = -1" by simp
  then show "\<forall>k<8. bit w k" by (simp add: bit_simps)
qed

section \<open>What a scan finds\<close>

lemma scan_byte_spec:
  assumes "i \<le> btmp_bytes_len btmp"
  shows "scan_byte btmp i \<le> btmp_bytes_len btmp
    \<and> (\<forall>j. i \<le> j \<and> j < scan_byte btmp i \<longrightarrow> bits btmp j = 0xff)
    \<and> (scan_byte btmp i < btmp_bytes_len btmp \<longrightarrow> bits btmp (scan_byte btmp i) \<noteq> 0xff)"
  using assms
proof (induction btmp i rule: scan_byte.induct)
  case (1 btmp i)
  show ?case
  proof (cases "bits btmp i = 0xff \<and> i < btmp_bytes_len btmp")
    case True
    then have eq: "scan_byte btmp i = scan_byte btmp (Suc i)"
      by (subst scan_byte.simps) simp
    have "bits btmp j = 0xff" if "i \<le> j" "j < scan_byte btmp (Suc i)" for j
      using True that "1.IH" by (cases "j = i") auto
    then show ?thesis using True "1.IH" unfolding eq by auto
  next
    case False
    then have "scan_byte btmp i = i" by (subst scan_byte.simps) auto
    then show ?thesis using False "1.prems" by auto
  qed
qed

lemma scan_bit_spec:
  assumes "k \<le> 8" "\<forall>j<k. bit v j" "v \<noteq> 0xff"
  shows "scan_bit v k < 8 \<and> \<not> bit v (scan_bit v k) \<and> (\<forall>j. j < scan_bit v k \<longrightarrow> bit v j)"
  using assms
proof (induction v k rule: scan_bit.induct)
  case (1 v k)
  have k: "k < 8" using "1.prems" byte_full_iff le_neq_implies_less by blast
  have m: "push_bit k 1 AND v \<noteq> 0 \<longleftrightarrow> bit v k"
    using mask_bit[OF k, of v] by (simp add: and.commute)
  show ?case
  proof (cases "bit v k")
    case True
    with m have "scan_bit v k = scan_bit v (Suc k)" by (subst scan_bit.simps) simp
    with True m k "1.IH" "1.prems" show ?thesis by (auto simp: less_Suc_eq)
  next
    case False
    with m have "scan_bit v k = k" by (subst scan_bit.simps) simp
    with False k "1.prems" show ?thesis by simp
  qed
qed

definition free_run :: "bitmap \<Rightarrow> nat \<Rightarrow> nat \<Rightarrow> bool" where
  "free_run btmp s n \<longleftrightarrow> (\<forall>j. s \<le> j \<and> j < s + n \<longrightarrow> \<not> bitmap_scan_test btmp j)"

text \<open>The loop state: \<open>count\<close> free bits end at \<open>next_bit\<close>, and no run was completed before.\<close>

definition run_inv :: "bitmap \<Rightarrow> nat \<Rightarrow> nat \<Rightarrow> nat \<Rightarrow> nat \<Rightarrow> bool" where
  "run_inv btmp cnt lo nxt count \<longleftrightarrow>
     count < cnt \<and> lo + count \<le> nxt \<and> free_run btmp (nxt - count) count
     \<and> (nxt - count = lo \<or> (lo < nxt - count \<and> bitmap_scan_test btmp (nxt - count - 1)))
     \<and> (\<forall>s. lo \<le> s \<and> s + cnt \<le> nxt \<longrightarrow> \<not> free_run btmp s cnt)"

definition first_run :: "bitmap \<Rightarrow> nat \<Rightarrow> nat \<Rightarrow> nat \<Rightarrow> int \<Rightarrow> bool" where
  "first_run btmp cnt lo hi r \<longleftrightarrow>
     (if r = -1 then \<forall>s. lo \<le> s \<and> s + cnt \<le> hi \<longrightarrow> \<not> free_run btmp s cnt
      else \<exists>s. r = int s \<and> lo \<le> s \<and> s + cnt \<le> hi \<and> free_run btmp s cnt
        \<and> (\<forall>s'. lo \<le> s' \<and> s' < s \<longrightarrow> \<not> free_run btmp s' cnt))"

lemma run_inv_used:
  assumes "run_inv btmp cnt lo nxt count" "bitmap_scan_test btmp nxt"
  shows "run_inv btmp cnt lo (Suc nxt) 0"
proof -
  have "\<not> free_run btmp s cnt" if s: "lo \<le> s" "s + cnt \<le> Suc nxt" for s
  proof (cases "s + cnt \<le> nxt")
    case True
    with assms s show ?thesis by (simp add: run_inv_def)
  next
    case False
    with s have "s + cnt = Suc nxt" by simp
    moreover have "0 < cnt" using assms by (simp add: run_inv_def)
    ultimately have "s \<le> nxt" "nxt < s + cnt" by auto
    with assms(2) show ?thesis by (auto simp: free_run_def)
  qed
  with assms show ?thesis by (auto simp: run_inv_def free_run_def)
qed

lemma run_inv_free:
  assumes "run_inv btmp cnt lo nxt count" "\<not> bitmap_scan_test btmp nxt" "Suc count \<noteq> cnt"
  shows "run_inv btmp cnt lo (Suc nxt) (Suc count)"
proof -
  have "\<not> free_run btmp s cnt" if s: "lo \<le> s" "s + cnt \<le> Suc nxt" for s
  proof (cases "s + cnt \<le> nxt")
    case True
    with assms s show ?thesis by (simp add: run_inv_def)
  next
    case False
    with s have "s + cnt = Suc nxt" by simp
    then have "s < nxt - count" using assms by (auto simp: run_inv_def)
    then have "s \<le> nxt - count - 1" "nxt - count - 1 < s + cnt" "bitmap_scan_test btmp (nxt - count - 1)"
      using assms s \<open>s + cnt = Suc nxt\<close> by (auto simp: run_inv_def)
    then show ?thesis by (auto simp: free_run_def)
  qed
  moreover have "free_run btmp (Suc nxt - Suc count) (Suc count)"
    using assms by (auto simp: run_inv_def free_run_def less_Suc_eq)
  ultimately show ?thesis using assms by (auto simp: run_inv_def)
qed

lemma scan_run_spec:
  assumes "run_inv btmp cnt lo nxt count"
  shows "first_run btmp cnt lo (nxt + left) (scan_run btmp cnt left nxt count)"
  using assms
proof (induction btmp cnt left nxt count rule: scan_run.induct)
  case (1 btmp cnt nxt count)
  then show ?case by (auto simp: first_run_def run_inv_def)
next
  case (2 btmp cnt left nxt count)
  show ?case
  proof (cases "bitmap_scan_test btmp nxt")
    case True
    with run_inv_used[OF "2.prems"] "2.IH" "2.prems" show ?thesis
      by (auto simp: run_inv_def)
  next
    case False
    show ?thesis
    proof (cases "Suc count = cnt")
      case True
      have "free_run btmp (nxt - count) cnt"
        using "2.prems" False True by (auto simp: run_inv_def free_run_def less_Suc_eq)
      moreover have "int nxt - int cnt + 1 = int (nxt - count)"
        using "2.prems" True by (auto simp: run_inv_def)
      moreover have "lo \<le> nxt - count" "nxt - count + cnt \<le> nxt + Suc left"
        using "2.prems" True by (auto simp: run_inv_def)
      moreover have "\<not> free_run btmp s' cnt" if "lo \<le> s'" "s' < nxt - count" for s'
        using "2.prems" True that by (auto simp: run_inv_def)
      ultimately have "first_run btmp cnt lo (nxt + Suc left) (int nxt - int cnt + 1)"
        unfolding first_run_def by auto
      then show ?thesis using False True by simp
    next
      case neq: False
      with run_inv_free[OF "2.prems" False] "2.IH" False show ?thesis by auto
    qed
  qed
qed

text \<open>The first free bit, where the byte loop and the bit loop stop.\<close>

lemma first_free:
  assumes "scan_byte btmp 0 < btmp_bytes_len btmp"
  defines "s \<equiv> scan_byte btmp 0 * 8 + scan_bit (bits btmp (scan_byte btmp 0)) 0"
  shows "\<not> bitmap_scan_test btmp s" "s < 8 * btmp_bytes_len btmp"
    "\<And>j. j < s \<Longrightarrow> bitmap_scan_test btmp j"
proof -
  let ?b = "scan_byte btmp 0" and ?k = "scan_bit (bits btmp (scan_byte btmp 0)) 0"
  have B: "?b \<le> btmp_bytes_len btmp" "\<forall>j. j < ?b \<longrightarrow> bits btmp j = 0xff" "bits btmp ?b \<noteq> 0xff"
    using scan_byte_spec[of 0 btmp] assms by auto
  have K: "?k < 8" "\<not> bit (bits btmp ?b) ?k" "\<forall>j. j < ?k \<longrightarrow> bit (bits btmp ?b) j"
    using scan_bit_spec[of 0 "bits btmp ?b"] B(3) by auto
  show "\<not> bitmap_scan_test btmp s" "s < 8 * btmp_bytes_len btmp"
    using K(1,2) assms(1) by (auto simp: s_def scan_test_byte)
  fix j assume j: "j < s"
  show "bitmap_scan_test btmp j"
  proof (cases "j div 8 < ?b")
    case True
    then show ?thesis using B(2) byte_full_iff[of "bits btmp (j div 8)"] by (auto simp: scan_test_bit)
  next
    case False
    then have b: "j div 8 = ?b" using j K(1) by (auto simp: s_def)
    then have "j mod 8 < ?k" using j div_mult_mod_eq[of j 8] by (auto simp: s_def)
    with b show ?thesis using K(3) by (auto simp: scan_test_bit)
  qed
qed

lemma scan_byte_free:
  assumes "i < 8 * btmp_bytes_len btmp" "\<not> bitmap_scan_test btmp i"
  shows "scan_byte btmp 0 < btmp_bytes_len btmp"
proof (rule ccontr)
  assume "\<not> scan_byte btmp 0 < btmp_bytes_len btmp"
  then have "bits btmp (i div 8) = 0xff"
    using scan_byte_spec[of 0 btmp] assms(1) by auto
  then show False using assms(2) byte_full_iff[of "bits btmp (i div 8)"] by (auto simp: scan_test_bit)
qed

lemma bitmap_scan_full:
  assumes "\<forall>i < 8 * btmp_bytes_len btmp. bitmap_scan_test btmp i"
  shows "bitmap_scan btmp cnt = None"
proof -
  have "\<not> scan_byte btmp 0 < btmp_bytes_len btmp"
    using assms first_free(1,2)[of btmp] by blast
  then show ?thesis by (simp add: bitmap_scan_def)
qed

lemma bitmap_scan_first:
  assumes "i < 8 * btmp_bytes_len btmp" "\<not> bitmap_scan_test btmp i"
  shows "\<exists>s. bitmap_scan btmp 1 = Some (int s) \<and> s < 8 * btmp_bytes_len btmp
    \<and> \<not> bitmap_scan_test btmp s \<and> (\<forall>j. j < s \<longrightarrow> bitmap_scan_test btmp j)"
proof -
  let ?s = "scan_byte btmp 0 * 8 + scan_bit (bits btmp (scan_byte btmp 0)) 0"
  have "bitmap_scan btmp 1 = Some (int ?s)"
    using scan_byte_free[OF assms] by (simp add: bitmap_scan_def Let_def)
  then show ?thesis using first_free[OF scan_byte_free[OF assms]] by blast
qed

lemma bitmap_scan_many:
  assumes "2 \<le> cnt" "i < 8 * btmp_bytes_len btmp" "\<not> bitmap_scan_test btmp i"
  shows "\<exists>r. bitmap_scan btmp cnt = Some r \<and> first_run btmp cnt 0 (8 * btmp_bytes_len btmp + 1) r"
proof -
  define s where "s = scan_byte btmp 0 * 8 + scan_bit (bits btmp (scan_byte btmp 0)) 0"
  note sb = scan_byte_free[OF assms(2,3)]
  note ff = first_free[OF sb, folded s_def]
  have inv: "run_inv btmp cnt s (s + 1) 1"
    using assms(1) ff(1) by (auto simp: run_inv_def free_run_def less_Suc_eq)
  have eq: "s + 1 + (btmp_bytes_len btmp * 8 - s) = 8 * btmp_bytes_len btmp + 1"
    using ff(2) by simp
  have low: "\<not> free_run btmp s' cnt" if "s' < s" for s'
    using ff(3)[OF that] assms(1) by (auto simp: free_run_def)
  have "bitmap_scan btmp cnt = Some (scan_run btmp cnt (btmp_bytes_len btmp * 8 - s) (s + 1) 1)"
    using sb assms(1) by (auto simp: bitmap_scan_def Let_def s_def)
  moreover have "first_run btmp cnt s (8 * btmp_bytes_len btmp + 1)
      (scan_run btmp cnt (btmp_bytes_len btmp * 8 - s) (s + 1) 1)"
    using scan_run_spec[OF inv, of "btmp_bytes_len btmp * 8 - s"] unfolding eq .
  moreover have "first_run btmp cnt 0 hi r" if "first_run btmp cnt s hi r" for hi r
    using that low unfolding first_run_def by (cases "r = -1") (auto, metis not_le, metis not_le)
  ultimately show ?thesis by blast
qed

section \<open>The allocator interface\<close>

text \<open>
  What \<open>palloc\<close>, \<open>vaddr_get\<close>, \<open>allocate_pid\<close>, \<open>inode_bitmap_alloc\<close> and
  \<open>block_bitmap_alloc\<close> rely on when they scan for one bit and set it, and what their
  release functions rely on when they clear it again. \<open>avail p\<close> is the number of free bits.
\<close>

locale bit_pool =
  fixes scan :: "'p \<Rightarrow> int option"
    and setb :: "'p \<Rightarrow> nat \<Rightarrow> int \<Rightarrow> 'p option"
    and used :: "'p \<Rightarrow> nat \<Rightarrow> bool"
    and cap :: "'p \<Rightarrow> nat"
  assumes scan_found: "scan p = Some r \<Longrightarrow> \<exists>i<cap p. r = int i \<and> \<not> used p i \<and> (\<forall>j<i. used p j)"
    and scan_total: "i < cap p \<Longrightarrow> \<not> used p i \<Longrightarrow> \<exists>r. scan p = Some r"
    and set_mark: "\<exists>p'. setb p i 1 = Some p' \<and> cap p' = cap p \<and> (\<forall>j. used p' j \<longleftrightarrow> j = i \<or> used p j)"
    and set_clear: "\<exists>p'. setb p i 0 = Some p' \<and> cap p' = cap p \<and> (\<forall>j. used p' j \<longleftrightarrow> j \<noteq> i \<and> used p j)"
begin

lemma markD: "setb p i 1 = Some p' \<Longrightarrow> cap p' = cap p \<and> (\<forall>j. used p' j \<longleftrightarrow> j = i \<or> used p j)"
  using set_mark[of p i] by auto

lemma clearD: "setb p i 0 = Some p' \<Longrightarrow> cap p' = cap p \<and> (\<forall>j. used p' j \<longleftrightarrow> j \<noteq> i \<and> used p j)"
  using set_clear[of p i] by auto

lemma scan_never_minus_one: "scan p \<noteq> Some (-1)"
  using scan_found[of p "-1"] by auto

lemma scan_none_iff: "scan p = None \<longleftrightarrow> (\<forall>i<cap p. used p i)"
  using scan_total[of _ p] scan_found[of p] by (cases "scan p") force+

lemma take_fresh:
  "scan p = Some r \<Longrightarrow> setb p (nat r) 1 = Some p' \<Longrightarrow>
   nat r < cap p \<and> \<not> used p (nat r) \<and> used p' (nat r) \<and> cap p' = cap p"
  using scan_found[of p r] markD[of p "nat r" p'] by auto

lemma take_avail:
  assumes "scan p = Some r" "setb p (nat r) 1 = Some p'"
  shows "Suc (card {i. i < cap p' \<and> \<not> used p' i}) = card {i. i < cap p \<and> \<not> used p i}"
proof -
  have "{i. i < cap p \<and> \<not> used p i} = insert (nat r) {i. i < cap p' \<and> \<not> used p' i}"
    using take_fresh[OF assms] markD[OF assms(2)] by auto
  moreover have "nat r \<notin> {i. i < cap p' \<and> \<not> used p' i}" using take_fresh[OF assms] by simp
  ultimately show ?thesis by simp
qed

lemma give_back:
  "\<not> used p i \<Longrightarrow> setb p i 1 = Some p' \<Longrightarrow> setb p' i 0 = Some p'' \<Longrightarrow>
   used p'' j \<longleftrightarrow> used p j"
  using markD[of p i p'] clearD[of p' i p''] by auto

end

interpretation bm: bit_pool "\<lambda>b. bitmap_scan b 1" bitmap_set bitmap_scan_test "\<lambda>b. 8 * btmp_bytes_len b"
proof
  fix p i r
  show "bitmap_scan p 1 = Some r \<Longrightarrow> \<exists>i<8 * btmp_bytes_len p.
      r = int i \<and> \<not> bitmap_scan_test p i \<and> (\<forall>j<i. bitmap_scan_test p j)"
    using bitmap_scan_first[of _ p] bitmap_scan_full[of p 1]
    by (cases "\<forall>i < 8 * btmp_bytes_len p. bitmap_scan_test p i") fastforce+
  show "i < 8 * btmp_bytes_len p \<Longrightarrow> \<not> bitmap_scan_test p i \<Longrightarrow> \<exists>r. bitmap_scan p 1 = Some r"
    using bitmap_scan_first by blast
  show "\<exists>p'. bitmap_set p i 1 = Some p' \<and> 8 * btmp_bytes_len p' = 8 * btmp_bytes_len p \<and>
      (\<forall>j. bitmap_scan_test p' j = (j = i \<or> bitmap_scan_test p j))"
    using bitmap_set_1[of p i] by auto
  show "\<exists>p'. bitmap_set p i 0 = Some p' \<and> 8 * btmp_bytes_len p' = 8 * btmp_bytes_len p \<and>
      (\<forall>j. bitmap_scan_test p' j = (j \<noteq> i \<and> bitmap_scan_test p j))"
    using bitmap_set_0[of p i] by auto
qed

section \<open>Properties\<close>

text \<open>A scan for one bit returns the first free bit of the bitmap; on a full bitmap it does
  not return -1 but stops the kernel, because the ASSERT stands before the check.\<close>
theorem bitmap_scan_one_correct:
  "bitmap_scan btmp 1 =
     (if \<exists>i < 8 * btmp_bytes_len btmp. \<not> bitmap_scan_test btmp i
      then Some (int (LEAST i. \<not> bitmap_scan_test btmp i)) else None)"
proof (cases "\<exists>i < 8 * btmp_bytes_len btmp. \<not> bitmap_scan_test btmp i")
  case True
  then obtain s where "bitmap_scan btmp 1 = Some (int s)" "\<not> bitmap_scan_test btmp s"
    "\<forall>j. j < s \<longrightarrow> bitmap_scan_test btmp j" using bitmap_scan_first by blast
  moreover from this have "(LEAST i. \<not> bitmap_scan_test btmp i) = s"
    by (intro Least_equality) (auto simp: not_less[symmetric])
  ultimately show ?thesis using True by simp
qed (simp add: bitmap_scan_full)

text \<open>C38: a scan for \<open>cnt \<ge> 2\<close> bits returns the first run of free bits, or -1 when there is none,
  where the range searched reaches one bit past the end of the bitmap; it stops the kernel when
  no bit is free.\<close>
theorem bitmap_scan_many_correct:
  assumes "2 \<le> cnt"
  shows "if \<exists>i < 8 * btmp_bytes_len btmp. \<not> bitmap_scan_test btmp i
    then \<exists>r. bitmap_scan btmp cnt = Some r \<and> first_run btmp cnt 0 (8 * btmp_bytes_len btmp + 1) r
    else bitmap_scan btmp cnt = None"
  using bitmap_scan_many[OF assms] bitmap_scan_full by auto

theorem bitmap_scan_many_witness:
  "\<exists>r. bitmap_scan \<lparr>btmp_bytes_len = 1, bits = (\<lambda>_. 0)\<rparr> 3 = Some r
    \<and> first_run \<lparr>btmp_bytes_len = 1, bits = (\<lambda>_. 0)\<rparr> 3 0 9 r"
proof -
  have "\<exists>i < 8 * btmp_bytes_len \<lparr>btmp_bytes_len = 1, bits = (\<lambda>_. 0)\<rparr>.
      \<not> bitmap_scan_test \<lparr>btmp_bytes_len = 1, bits = (\<lambda>_. 0)\<rparr> i"
    by (intro exI[of _ 0]) (simp add: scan_test_bit)
  then show ?thesis
    using bitmap_scan_many_correct[of 3 "\<lparr>btmp_bytes_len = 1, bits = (\<lambda>_. 0)\<rparr>"] by simp
qed

text \<open>The overrun happens: when only the last bit of the bitmap is free and the byte behind
  the bitmap has its lowest bit clear, a scan for two bits returns the last bit, so the caller
  takes a bit that is not part of the bitmap.\<close>
theorem bitmap_scan_overrun:
  assumes "0 < n" "btmp_bytes_len btmp = n" "\<forall>j < 8 * n - 1. bitmap_scan_test btmp j"
    and "\<not> bitmap_scan_test btmp (8 * n - 1)" "\<not> bitmap_scan_test btmp (8 * n)"
  shows "bitmap_scan btmp 2 = Some (int (8 * n - 1))"
proof -
  have fr: "free_run btmp s 2 \<longleftrightarrow> s = 8 * n - 1" if "s + 2 \<le> 8 * n + 1" for s
  proof
    assume "free_run btmp s 2"
    then have "\<not> s < 8 * n - 1" using assms(3) by (auto simp: free_run_def)
    then show "s = 8 * n - 1" using that by simp
  next
    assume "s = 8 * n - 1"
    then have "j = 8 * n - 1 \<or> j = 8 * n" if "s \<le> j" "j < s + 2" for j using that assms(1) by auto
    then show "free_run btmp s 2" using assms(4,5) by (auto simp: free_run_def)
  qed
  obtain r where r: "bitmap_scan btmp 2 = Some r" "first_run btmp 2 0 (8 * n + 1) r"
    using bitmap_scan_many[of 2 "8 * n - 1" btmp] assms by auto
  have "r = int (8 * n - 1)"
  proof (cases "r = -1")
    case True
    moreover have "8 * n - 1 + 2 \<le> 8 * n + 1" using assms(1) by simp
    ultimately show ?thesis using r(2) fr[of "8 * n - 1"] by (auto simp: first_run_def)
  next
    case False
    with r(2) fr show ?thesis by (auto simp: first_run_def)
  qed
  with r show ?thesis by simp
qed

theorem bitmap_scan_overrun_witness:
  "bitmap_scan \<lparr>btmp_bytes_len = 1, bits = (\<lambda>i. if i = 0 then 0x7f else 0)\<rparr> 2 = Some 7"
proof -
  let ?b = "\<lparr>btmp_bytes_len = 1, bits = (\<lambda>i. if i = 0 then 0x7f else 0 :: u8)\<rparr>"
  have "bit (127 :: u8) j" if "j < 7" for j
    using that by (simp add: bit_simps numeral_eq_Suc less_Suc_eq) auto
  then have "\<forall>j < 8 * 1 - 1. bitmap_scan_test ?b j" by (auto simp: scan_test_bit)
  moreover have "\<not> bitmap_scan_test ?b (8 * 1 - 1)" "\<not> bitmap_scan_test ?b (8 * 1)"
    by (auto simp: scan_test_bit)
  ultimately show ?thesis using bitmap_scan_overrun[of 1 ?b] by simp
qed

end
