(* ===== verification/Thread.thy ===== *)
theory Thread
  imports Interrupt Bitmap
begin

text \<open>
  thread.c: the PCBs, the pid pool, the ready list and the scheduler; timer.c's interrupt
  handler, which drives it; page_dir_activate, process_activate and update_tss_esp, which every
  switch calls. A thread is the address of its PCB. The two lists are sequences of threads (the
  refinement of list.c is in Klist). The threads share one processor: \<open>running\<close> is the thread
  whose stack the processor uses.

  A call of schedule returns in another thread. That thread goes on where it called schedule
  itself, and restores the interrupt flag it had saved on its stack: \<open>saved_if\<close> holds these
  values, and \<open>resume\<close> is the continuation of a switch.
\<close>

section \<open>PCBs and the state of the scheduler\<close>

datatype task_status =
  TASK_RUNNING | TASK_READY | TASK_BLOCKED | TASK_WAITING | TASK_HANGING | TASK_DIED


record task_struct =
  self_kstack :: u32
  pid :: "16 word"
  status :: task_status
  pname :: string
  priority :: u8
  ticks :: u8
  elapsed_ticks :: u32
  pgdir :: u32
  fd_table :: "int list"
  cwd_inode_nr :: nat
  parent_pid :: "16 word"
  exit_status :: u8
  stack_magic :: u32

text \<open>The frame \<open>switch_to\<close> pops on the first run of a thread.\<close>

record thread_stack =
  ts_ebp :: u32
  ts_ebx :: u32
  ts_edi :: u32
  ts_esi :: u32
  ts_eip :: u32
  unused_retaddr :: u32
  ts_function :: u32
  func_arg :: u32

record sched =
  tasks :: "u32 \<Rightarrow> task_struct"
  running :: u32
  thread_ready_list :: "u32 list"
  thread_all_list :: "u32 list"
  idle_thread :: u32
  main_thread :: u32
  pid_bitmap :: bitmap
  eflags_reg :: u32
  saved_if :: "u32 \<Rightarrow> intr_status"
  total_ticks :: u32
  cr3 :: u32
  tss_esp0 :: u32
  page_walk :: "u32 \<Rightarrow> u32"
  kstacks :: "u32 \<Rightarrow> thread_stack"
  freed_pages :: "u32 list"

definition task_upd :: "u32 \<Rightarrow> (task_struct \<Rightarrow> task_struct) \<Rightarrow> sched \<Rightarrow> sched" where
  "task_upd t f s = s\<lparr>tasks := (tasks s)(t := f (tasks s t))\<rparr>"

definition set_status :: "u32 \<Rightarrow> task_status \<Rightarrow> sched \<Rightarrow> sched" where
  "set_status t st s = task_upd t (status_update (\<lambda>_. st)) s"

abbreviation stat :: "sched \<Rightarrow> u32 \<Rightarrow> task_status" where
  "stat s t \<equiv> status (tasks s t)"

section \<open>The scheduler\<close>

text \<open>\<open>page_walk\<close> is addr_v2p of memory.c; the kernel's page directory is at 0x100000.\<close>

definition page_dir_activate :: "u32 \<Rightarrow> sched \<Rightarrow> sched" where
  "page_dir_activate p_thread s =
     s\<lparr>cr3 := (if pgdir (tasks s p_thread) \<noteq> 0 then page_walk s (pgdir (tasks s p_thread)) else 0x100000)\<rparr>"

definition update_tss_esp :: "u32 \<Rightarrow> sched \<Rightarrow> sched" where
  "update_tss_esp pthread s = s\<lparr>tss_esp0 := pthread + 4096\<rparr>"

definition process_activate :: "u32 \<Rightarrow> sched \<Rightarrow> sched option" where
  "process_activate p_thread s =
     do {
       ASSERT (p_thread \<noteq> 0);
       let s1 = page_dir_activate p_thread s in
       if pgdir (tasks s1 p_thread) \<noteq> 0 then Some (update_tss_esp p_thread s1) else Some s1
     }"

definition thread_unblock :: "u32 \<Rightarrow> sched \<Rightarrow> sched option" where
  "thread_unblock pthread s =
     (let (old_status, fl) = intr_disable (eflags_reg s); s0 = s\<lparr>eflags_reg := fl\<rparr> in
      do {
        ASSERT (stat s0 pthread = TASK_BLOCKED \<or> stat s0 pthread = TASK_WAITING
                \<or> stat s0 pthread = TASK_HANGING);
        s1 \<leftarrow> (if stat s0 pthread \<noteq> TASK_READY
               then do {
                 ASSERT (pthread \<notin> set (thread_ready_list s0));
                 Some (set_status pthread TASK_READY
                         (s0\<lparr>thread_ready_list := pthread # thread_ready_list s0\<rparr>)) }
               else Some s0);
        Some (s1\<lparr>eflags_reg := snd (intr_set_status old_status (eflags_reg s1))\<rparr>)
      })"

definition schedule :: "sched \<Rightarrow> sched option" where
  "schedule s =
     do {
       ASSERT (intr_get_status (eflags_reg s) = INTR_OFF);
       let cur = running s in
       do {
         s1 \<leftarrow> (if stat s cur = TASK_RUNNING
                then do {
                  ASSERT (cur \<notin> set (thread_ready_list s));
                  Some (task_upd cur (\<lambda>p. p\<lparr>ticks := priority p, status := TASK_READY\<rparr>)
                          (s\<lparr>thread_ready_list := thread_ready_list s @ [cur]\<rparr>)) }
                else Some s);
         s2 \<leftarrow> (if thread_ready_list s1 = [] then thread_unblock (idle_thread s1) s1 else Some s1);
         ASSERT (thread_ready_list s2 \<noteq> []);
         let thread_tag = hd (thread_ready_list s2);
             s3 = s2\<lparr>thread_ready_list := tl (thread_ready_list s2)\<rparr>;
             s4 = set_status thread_tag TASK_RUNNING s3 in
         do { s5 \<leftarrow> process_activate thread_tag s4; Some (s5\<lparr>running := thread_tag\<rparr>) }
       }
     }"

text \<open>The continuation of a switch: the thread switched to restores its interrupt flag.\<close>

definition resume :: "sched \<Rightarrow> sched" where
  "resume s = s\<lparr>eflags_reg := snd (intr_set_status (saved_if s (running s)) (eflags_reg s))\<rparr>"

definition thread_block :: "task_status \<Rightarrow> sched \<Rightarrow> sched option" where
  "thread_block st s =
     do {
       ASSERT (st = TASK_BLOCKED \<or> st = TASK_WAITING \<or> st = TASK_HANGING);
       let (old_status, fl) = intr_disable (eflags_reg s);
           s1 = s\<lparr>eflags_reg := fl, saved_if := (saved_if s)(running s := old_status)\<rparr>;
           s2 = set_status (running s1) st s1 in
       do { s3 \<leftarrow> schedule s2; Some (resume s3) }
     }"

definition thread_yield :: "sched \<Rightarrow> sched option" where
  "thread_yield s =
     (let cur = running s; (old_status, fl) = intr_disable (eflags_reg s);
          s1 = s\<lparr>eflags_reg := fl, saved_if := (saved_if s)(cur := old_status)\<rparr> in
      do {
        ASSERT (cur \<notin> set (thread_ready_list s1));
        let s2 = set_status cur TASK_READY (s1\<lparr>thread_ready_list := thread_ready_list s1 @ [cur]\<rparr>) in
        do { s3 \<leftarrow> schedule s2; Some (resume s3) }
      })"

text \<open>
  The clock interrupt, which the processor takes only while the flag is set: the gate clears the
  flag, \<open>iret\<close> restores it.
\<close>

definition intr_timer_handler :: "sched \<Rightarrow> sched option" where
  "intr_timer_handler s =
     do {
       ASSERT (stack_magic (tasks s (running s)) = 0x19970630);
       let cur_thread = running s;
           s1 = task_upd cur_thread (\<lambda>p. p\<lparr>elapsed_ticks := elapsed_ticks p + 1\<rparr>) s;
           s2 = s1\<lparr>total_ticks := total_ticks s1 + 1\<rparr> in
       if ticks (tasks s2 cur_thread) = 0 then schedule s2
       else Some (task_upd cur_thread (\<lambda>p. p\<lparr>ticks := ticks p - 1\<rparr>) s2)
     }"

definition clock_interrupt :: "sched \<Rightarrow> sched option" where
  "clock_interrupt s =
     do {
       s1 \<leftarrow> intr_timer_handler (s\<lparr>eflags_reg := eflags_reg s AND NOT EFLAGS_IF,
                saved_if := (saved_if s)(running s := INTR_ON)\<rparr>);
       Some (resume s1)
     }"

section \<open>What the scheduler keeps\<close>

text \<open>
  \<open>sched_pre\<close> holds whenever schedule is called: the ready list is the list of the READY threads,
  nobody but the caller is RUNNING, and the idle thread is alive. \<open>sched_ok\<close> holds whenever a
  thread runs its own code: in addition the running thread is the one in state RUNNING.
\<close>

definition sched_pre :: "sched \<Rightarrow> bool" where
  "sched_pre s \<longleftrightarrow> distinct (thread_ready_list s)
     \<and> (\<forall>t. t \<in> set (thread_ready_list s) \<longleftrightarrow> t \<in> set (thread_all_list s) \<and> stat s t = TASK_READY)
     \<and> (\<forall>t\<in>set (thread_all_list s). t \<noteq> running s \<longrightarrow> stat s t \<noteq> TASK_RUNNING)
     \<and> idle_thread s \<in> set (thread_all_list s) \<and> stat s (idle_thread s) \<noteq> TASK_DIED
     \<and> 0 \<notin> set (thread_all_list s)
     \<and> (stat s (running s) = TASK_RUNNING \<longrightarrow> running s \<in> set (thread_all_list s))"

definition sched_ok :: "sched \<Rightarrow> bool" where
  "sched_ok s \<longleftrightarrow> sched_pre s \<and> running s \<in> set (thread_all_list s) \<and> stat s (running s) = TASK_RUNNING"

lemma task_same_fields [simp]:
  "p\<lparr>ticks := ticks p\<rparr> = p" "p\<lparr>status := status p\<rparr> = p" "p\<lparr>ticks := ticks p, status := st\<rparr> = p\<lparr>status := st\<rparr>"
  by (cases p; simp)+

text \<open>The threads schedule chooses from, in order.\<close>

definition run_queue :: "sched \<Rightarrow> u32 list" where
  "run_queue s =
     (let q = thread_ready_list s @ (if stat s (running s) = TASK_RUNNING then [running s] else [])
      in if q = [] then [idle_thread s] else q)"

lemma task_upd_simps [simp]:
  "tasks (task_upd t f s) = (tasks s)(t := f (tasks s t))"
  "running (task_upd t f s) = running s" "thread_ready_list (task_upd t f s) = thread_ready_list s"
  "thread_all_list (task_upd t f s) = thread_all_list s" "idle_thread (task_upd t f s) = idle_thread s"
  "eflags_reg (task_upd t f s) = eflags_reg s" "saved_if (task_upd t f s) = saved_if s"
  "page_walk (task_upd t f s) = page_walk s" "total_ticks (task_upd t f s) = total_ticks s"
  "main_thread (task_upd t f s) = main_thread s" "pid_bitmap (task_upd t f s) = pid_bitmap s" "freed_pages (task_upd t f s) = freed_pages s"
  by (simp_all add: task_upd_def)

lemma set_status_simps [simp]:
  "tasks (set_status t st s) = (tasks s)(t := (tasks s t)\<lparr>status := st\<rparr>)"
  "running (set_status t st s) = running s" "thread_ready_list (set_status t st s) = thread_ready_list s"
  "thread_all_list (set_status t st s) = thread_all_list s" "idle_thread (set_status t st s) = idle_thread s"
  "eflags_reg (set_status t st s) = eflags_reg s" "saved_if (set_status t st s) = saved_if s"
  "page_walk (set_status t st s) = page_walk s"
  "main_thread (set_status t st s) = main_thread s" "pid_bitmap (set_status t st s) = pid_bitmap s" "freed_pages (set_status t st s) = freed_pages s"
  by (simp_all add: set_status_def)

lemma thread_unblock_result:
  assumes "stat s t \<in> {TASK_BLOCKED, TASK_WAITING, TASK_HANGING}" "t \<notin> set (thread_ready_list s)"
  shows "thread_unblock t s = Some (set_status t TASK_READY (s\<lparr>thread_ready_list := t # thread_ready_list s\<rparr>))"
  using assms
  by (auto simp: thread_unblock_def set_status_def task_upd_def intr_bracket split: prod.splits)

text \<open>What a switch does to every field that matters.\<close>

definition switched :: "sched \<Rightarrow> sched \<Rightarrow> bool" where
  "switched s s' \<longleftrightarrow> running s' = hd (run_queue s) \<and> thread_ready_list s' = tl (run_queue s)
     \<and> thread_all_list s' = thread_all_list s \<and> idle_thread s' = idle_thread s
     \<and> saved_if s' = saved_if s \<and> eflags_reg s' = eflags_reg s \<and> page_walk s' = page_walk s
     \<and> main_thread s' = main_thread s \<and> pid_bitmap s' = pid_bitmap s \<and> freed_pages s' = freed_pages s
     \<and> (\<forall>t. stat s' t = (if t = hd (run_queue s) then TASK_RUNNING
                         else if t = running s \<and> stat s t = TASK_RUNNING then TASK_READY else stat s t))
     \<and> (\<forall>t. tasks s' t = (tasks s t)\<lparr>ticks :=
             (if t = running s \<and> stat s t = TASK_RUNNING then priority (tasks s t) else ticks (tasks s t)),
           status := stat s' t\<rparr>)
     \<and> cr3 s' = (if pgdir (tasks s (running s')) = 0 then 0x100000
                 else page_walk s (pgdir (tasks s (running s'))))
     \<and> (pgdir (tasks s (running s')) \<noteq> 0 \<longrightarrow> tss_esp0 s' = running s' + 4096)"

lemma process_activate_result:
  "t \<noteq> 0 \<Longrightarrow> process_activate t s = Some (s\<lparr>
     cr3 := (if pgdir (tasks s t) = 0 then 0x100000 else page_walk s (pgdir (tasks s t))),
     tss_esp0 := (if pgdir (tasks s t) = 0 then tss_esp0 s else t + 4096)\<rparr>)"
  by (simp add: process_activate_def page_dir_activate_def update_tss_esp_def Let_def)

lemma run_queue_ok:
  assumes "sched_pre s"
  shows "run_queue s \<noteq> []" "hd (run_queue s) \<in> set (thread_all_list s)" "distinct (run_queue s)"
    "hd (run_queue s) \<noteq> 0"
proof -
  show "run_queue s \<noteq> []" by (simp add: run_queue_def Let_def)
  have "set (run_queue s) \<subseteq> set (thread_all_list s)"
    using assms by (auto simp: run_queue_def Let_def sched_pre_def)
  then show m: "hd (run_queue s) \<in> set (thread_all_list s)"
    using \<open>run_queue s \<noteq> []\<close> list.set_sel(1) by blast
  show "distinct (run_queue s)"
    using assms by (auto simp: run_queue_def Let_def sched_pre_def)
  show "hd (run_queue s) \<noteq> 0" using assms m by (auto simp: sched_pre_def)
qed

lemma schedule_result:
  assumes "sched_pre s" "intr_get_status (eflags_reg s) = INTR_OFF"
  shows "\<exists>s'. schedule s = Some s' \<and> switched s s'"
proof -
  let ?cur = "running s"
  define s1 where "s1 = (if stat s ?cur = TASK_RUNNING
      then task_upd ?cur (\<lambda>p. p\<lparr>ticks := priority p, status := TASK_READY\<rparr>)
             (s\<lparr>thread_ready_list := thread_ready_list s @ [?cur]\<rparr>) else s)"
  define s2 where "s2 = (if thread_ready_list s1 = []
      then set_status (idle_thread s) TASK_READY (s1\<lparr>thread_ready_list := [idle_thread s]\<rparr>) else s1)"
  have idle: "stat s1 (idle_thread s) \<in> {TASK_BLOCKED, TASK_WAITING, TASK_HANGING}"
    if "thread_ready_list s1 = []"
  proof -
    have s1: "s1 = s" "stat s ?cur \<noteq> TASK_RUNNING" "thread_ready_list s = []"
      using that by (auto simp: s1_def split: if_splits)
    have "idle_thread s \<in> set (thread_all_list s)" "stat s (idle_thread s) \<noteq> TASK_DIED"
      "stat s (idle_thread s) = TASK_RUNNING \<longrightarrow> idle_thread s = ?cur"
      using assms(1) by (auto simp: sched_pre_def)
    moreover have "stat s t \<noteq> TASK_READY" if "t \<in> set (thread_all_list s)" for t
      using assms(1) s1(3) that by (auto simp: sched_pre_def)
    ultimately show ?thesis using s1 by (cases "stat s (idle_thread s)") auto
  qed
  have i1: "idle_thread s1 = idle_thread s" by (simp add: s1_def)
  have q: "thread_ready_list s2 = run_queue s" by (simp add: s2_def s1_def run_queue_def Let_def)
  have u: "(if thread_ready_list s1 = [] then thread_unblock (idle_thread s1) s1 else Some s1) = Some s2"
    using thread_unblock_result[OF idle] by (simp add: s2_def i1)
  have a: "(if stat s ?cur = TASK_RUNNING
      then do { ASSERT (?cur \<notin> set (thread_ready_list s));
                Some (task_upd ?cur (\<lambda>p. p\<lparr>ticks := priority p, status := TASK_READY\<rparr>)
                       (s\<lparr>thread_ready_list := thread_ready_list s @ [?cur]\<rparr>)) }
      else Some s) = Some s1"
    using assms(1) by (auto simp: s1_def sched_pre_def)
  let ?next = "hd (run_queue s)"
  let ?s4 = "set_status ?next TASK_RUNNING (s2\<lparr>thread_ready_list := tl (run_queue s)\<rparr>)"
  obtain s5 where s5: "process_activate ?next ?s4 = Some s5"
    "s5 = ?s4\<lparr>cr3 := (if pgdir (tasks ?s4 ?next) = 0 then 0x100000 else page_walk ?s4 (pgdir (tasks ?s4 ?next))),
      tss_esp0 := (if pgdir (tasks ?s4 ?next) = 0 then tss_esp0 ?s4 else ?next + 4096)\<rparr>"
    using process_activate_result[OF run_queue_ok(4)[OF assms(1)]] by blast
  have "schedule s = Some (s5\<lparr>running := ?next\<rparr>)"
    using run_queue_ok(1)[OF assms(1)] q
    by (simp add: schedule_def assms(2) Let_def a u s5(1))
  moreover have "switched s (s5\<lparr>running := ?next\<rparr>)"
  proof -
    have tk: "tasks s2 t\<lparr>status := st\<rparr> = tasks s t\<lparr>ticks := (if t = ?cur \<and> stat s t = TASK_RUNNING
        then priority (tasks s t) else ticks (tasks s t)), status := st\<rparr>" for t st
      by (cases "stat s ?cur = TASK_RUNNING"; cases "t = ?cur"; cases "t = idle_thread s")
        (simp_all add: s2_def s1_def)
    have st: "stat s2 t = (if t = ?cur \<and> stat s t = TASK_RUNNING then TASK_READY else stat s t)"
      if "t \<noteq> ?next" for t
      using that by (cases "stat s ?cur = TASK_RUNNING"; cases "thread_ready_list s = []")
        (auto simp: s2_def s1_def run_queue_def Let_def)
    have rest: "thread_all_list s2 = thread_all_list s" "idle_thread s2 = idle_thread s"
      "saved_if s2 = saved_if s" "eflags_reg s2 = eflags_reg s" "page_walk s2 = page_walk s"
      "main_thread s2 = main_thread s" "pid_bitmap s2 = pid_bitmap s" "freed_pages s2 = freed_pages s"
      by (simp_all add: s2_def s1_def)
    have pg: "pgdir (tasks s2 t) = pgdir (tasks s t)" for t by (simp add: s2_def s1_def)
    have f5: "running (s5\<lparr>running := ?next\<rparr>) = ?next" "thread_ready_list (s5\<lparr>running := ?next\<rparr>) = tl (run_queue s)"
      "thread_all_list (s5\<lparr>running := ?next\<rparr>) = thread_all_list s2" "idle_thread (s5\<lparr>running := ?next\<rparr>) = idle_thread s2"
      "saved_if (s5\<lparr>running := ?next\<rparr>) = saved_if s2" "eflags_reg (s5\<lparr>running := ?next\<rparr>) = eflags_reg s2"
      "page_walk (s5\<lparr>running := ?next\<rparr>) = page_walk s2" "main_thread (s5\<lparr>running := ?next\<rparr>) = main_thread s2"
      "pid_bitmap (s5\<lparr>running := ?next\<rparr>) = pid_bitmap s2" "freed_pages (s5\<lparr>running := ?next\<rparr>) = freed_pages s2"
      "tasks (s5\<lparr>running := ?next\<rparr>) = (tasks s2)(?next := (tasks s2 ?next)\<lparr>status := TASK_RUNNING\<rparr>)"
      "cr3 (s5\<lparr>running := ?next\<rparr>) = (if pgdir (tasks s2 ?next) = 0 then 0x100000 else page_walk s2 (pgdir (tasks s2 ?next)))"
      "pgdir (tasks s2 ?next) \<noteq> 0 \<longrightarrow> tss_esp0 (s5\<lparr>running := ?next\<rparr>) = ?next + 4096"
      by (simp_all add: s5(2))
    have tk': "tasks (s5\<lparr>running := ?next\<rparr>) t = tasks s t\<lparr>ticks := (if t = ?cur \<and> stat s t = TASK_RUNNING
        then priority (tasks s t) else ticks (tasks s t)), status := stat (s5\<lparr>running := ?next\<rparr>) t\<rparr>" for t
    proof -
      have "tasks (s5\<lparr>running := ?next\<rparr>) t = tasks s2 t\<lparr>status := stat (s5\<lparr>running := ?next\<rparr>) t\<rparr>"
        unfolding f5 by simp
      then show ?thesis unfolding tk .
    qed
    have st': "stat (s5\<lparr>running := ?next\<rparr>) t = (if t = ?next then TASK_RUNNING
        else if t = ?cur \<and> stat s t = TASK_RUNNING then TASK_READY else stat s t)" for t
      unfolding f5 using st[of t] by (cases "t = ?next") simp_all
    show ?thesis unfolding switched_def
      using f5(1-10,12,13) rest pg tk' st' by (intro conjI allI) (simp_all only: f5 rest pg refl)
  qed
  ultimately show ?thesis by blast
qed

lemma switched_ok:
  assumes "sched_pre s" "switched s s'"
  shows "sched_ok s'"
proof -
  let ?q = "run_queue s"
  note q = run_queue_ok[OF assms(1)]
  have sw: "running s' = hd ?q" "thread_ready_list s' = tl ?q" "thread_all_list s' = thread_all_list s"
    "idle_thread s' = idle_thread s"
    "\<And>t. stat s' t = (if t = hd ?q then TASK_RUNNING
       else if t = running s \<and> stat s t = TASK_RUNNING then TASK_READY else stat s t)"
    using assms(2) unfolding switched_def by blast+
  have pre: "\<And>t. t \<in> set (thread_ready_list s) \<longleftrightarrow> t \<in> set (thread_all_list s) \<and> stat s t = TASK_READY"
    "\<And>t. t \<in> set (thread_all_list s) \<Longrightarrow> t \<noteq> running s \<Longrightarrow> stat s t \<noteq> TASK_RUNNING"
    "idle_thread s \<in> set (thread_all_list s)" "stat s (idle_thread s) \<noteq> TASK_DIED"
    "0 \<notin> set (thread_all_list s)" "stat s (running s) = TASK_RUNNING \<Longrightarrow> running s \<in> set (thread_all_list s)"
    using assms(1) unfolding sched_pre_def by blast+
  have tl: "t \<in> set (tl ?q) \<longleftrightarrow> t \<in> set ?q \<and> t \<noteq> hd ?q" for t using q(1,3) by (cases ?q) auto
  have qs: "t \<in> set ?q \<longleftrightarrow> (if thread_ready_list s = [] \<and> stat s (running s) \<noteq> TASK_RUNNING then t = idle_thread s
      else t \<in> set (thread_ready_list s) \<or> stat s (running s) = TASK_RUNNING \<and> t = running s)" for t
    by (simp add: run_queue_def Let_def)
  have r: "t \<in> set (tl ?q) \<longleftrightarrow> t \<in> set (thread_all_list s) \<and> stat s' t = TASK_READY" for t
  proof (cases "thread_ready_list s = [] \<and> stat s (running s) \<noteq> TASK_RUNNING")
    case True
    then have "?q = [idle_thread s]" by (simp add: run_queue_def)
    moreover have "t \<notin> set (thread_all_list s) \<or> stat s t \<noteq> TASK_READY" using True pre(1)[of t] by simp
    ultimately show ?thesis using True by (simp add: sw(5)) blast
  next
    case False
    have "t \<in> set ?q \<longleftrightarrow> t \<in> set (thread_ready_list s) \<or> stat s (running s) = TASK_RUNNING \<and> t = running s"
      unfolding qs by (rule if_not_P[OF False])
    then show ?thesis unfolding tl sw(5) using pre(1)[of t] pre(6) by (cases "t = hd ?q") auto
  qed
  have "stat s' t \<noteq> TASK_RUNNING" if "t \<in> set (thread_all_list s)" "t \<noteq> hd ?q" for t
    using that(2) pre(2)[OF that(1)] unfolding sw(5) by (auto split: if_splits)
  moreover have "stat s' (idle_thread s) \<noteq> TASK_DIED" unfolding sw(5) using pre(4) by simp
  moreover have "distinct (tl ?q)" using q(3) by (simp add: distinct_tl)
  moreover have "stat s' (hd ?q) = TASK_RUNNING" unfolding sw(5) by simp
  ultimately show ?thesis
    unfolding sched_ok_def sched_pre_def sw(1-4) using r q(2) pre(3,5) by blast
qed

lemma resume_simps [simp]:
  "tasks (resume s) = tasks s" "running (resume s) = running s" "thread_ready_list (resume s) = thread_ready_list s"
  "thread_all_list (resume s) = thread_all_list s" "idle_thread (resume s) = idle_thread s"
  "saved_if (resume s) = saved_if s" "page_walk (resume s) = page_walk s"
  by (simp_all add: resume_def)

lemma resume_ok [simp]: "sched_ok (resume s) \<longleftrightarrow> sched_ok s"
  by (simp add: sched_ok_def sched_pre_def)

lemma sched_pre_cong:
  assumes "thread_ready_list s' = thread_ready_list s" "thread_all_list s' = thread_all_list s"
    "running s' = running s" "idle_thread s' = idle_thread s" "\<And>t. stat s' t = stat s t"
  shows "sched_pre s' = sched_pre s" "sched_ok s' = sched_ok s"
  using assms by (simp_all add: sched_ok_def sched_pre_def)

lemma intr_disable_snd_off: "intr_disable e = (old, e') \<Longrightarrow> intr_get_status e' = INTR_OFF"
  using intr_disable_off[of e] by simp

text \<open>The three ways to give up the processor: the state on entry to schedule, and the result.\<close>

definition block_entry :: "task_status \<Rightarrow> sched \<Rightarrow> sched" where
  "block_entry st s = set_status (running s) st
     (s\<lparr>eflags_reg := snd (intr_disable (eflags_reg s)),
        saved_if := (saved_if s)(running s := fst (intr_disable (eflags_reg s)))\<rparr>)"

lemma sched_okD:
  assumes "sched_ok s"
  shows "\<And>t. t \<in> set (thread_ready_list s) \<longleftrightarrow> t \<in> set (thread_all_list s) \<and> stat s t = TASK_READY"
    "\<And>t. t \<in> set (thread_all_list s) \<Longrightarrow> t \<noteq> running s \<Longrightarrow> stat s t \<noteq> TASK_RUNNING"
    "distinct (thread_ready_list s)" "idle_thread s \<in> set (thread_all_list s)"
    "stat s (idle_thread s) \<noteq> TASK_DIED" "0 \<notin> set (thread_all_list s)"
    "running s \<in> set (thread_all_list s)" "stat s (running s) = TASK_RUNNING"
  using assms unfolding sched_ok_def sched_pre_def by blast+

lemma block_entry_pre:
  assumes "sched_ok s" "st \<in> {TASK_BLOCKED, TASK_WAITING, TASK_HANGING}"
  shows "sched_pre (block_entry st s)"
proof -
  have f: "stat (block_entry st s) t = (if t = running s then st else stat s t)"
    "running (block_entry st s) = running s" "thread_ready_list (block_entry st s) = thread_ready_list s"
    "thread_all_list (block_entry st s) = thread_all_list s" "idle_thread (block_entry st s) = idle_thread s" for t
    by (simp_all add: block_entry_def)
  have "st \<noteq> TASK_RUNNING" "st \<noteq> TASK_READY" "st \<noteq> TASK_DIED" using assms(2) by auto
  then show ?thesis unfolding sched_pre_def f using sched_okD[OF assms(1)] by auto
qed

lemma thread_block_result:
  assumes "sched_ok s" "st \<in> {TASK_BLOCKED, TASK_WAITING, TASK_HANGING}"
  shows "\<exists>s'. thread_block st s = Some (resume s') \<and> switched (block_entry st s) s' \<and> sched_ok s'"
proof -
  have "intr_get_status (eflags_reg (block_entry st s)) = INTR_OFF"
    by (simp add: block_entry_def intr_disable_off)
  then obtain s' where "schedule (block_entry st s) = Some s'" "switched (block_entry st s) s'" "sched_ok s'"
    using schedule_result switched_ok block_entry_pre[OF assms] by blast
  then show ?thesis using assms(2) by (auto simp: thread_block_def block_entry_def split: prod.splits)
qed

definition yield_entry :: "sched \<Rightarrow> sched" where
  "yield_entry s = set_status (running s) TASK_READY
     (s\<lparr>eflags_reg := snd (intr_disable (eflags_reg s)),
        saved_if := (saved_if s)(running s := fst (intr_disable (eflags_reg s))),
        thread_ready_list := thread_ready_list s @ [running s]\<rparr>)"

lemma yield_entry_pre:
  assumes "sched_ok s"
  shows "sched_pre (yield_entry s)"
proof -
  have f: "stat (yield_entry s) t = (if t = running s then TASK_READY else stat s t)"
    "running (yield_entry s) = running s" "thread_ready_list (yield_entry s) = thread_ready_list s @ [running s]"
    "thread_all_list (yield_entry s) = thread_all_list s" "idle_thread (yield_entry s) = idle_thread s" for t
    by (simp_all add: yield_entry_def)
  show ?thesis unfolding sched_pre_def f using sched_okD[OF assms] by auto
qed

lemma thread_yield_result:
  assumes "sched_ok s"
  shows "\<exists>s'. thread_yield s = Some (resume s') \<and> switched (yield_entry s) s' \<and> sched_ok s'"
proof -
  have n: "running s \<notin> set (thread_ready_list s)" using sched_okD[OF assms] by simp
  have "intr_get_status (eflags_reg (yield_entry s)) = INTR_OFF"
    by (simp add: yield_entry_def intr_disable_off)
  then obtain s' where "schedule (yield_entry s) = Some s'" "switched (yield_entry s) s'" "sched_ok s'"
    using schedule_result switched_ok yield_entry_pre[OF assms] by blast
  then show ?thesis using n by (auto simp: thread_yield_def yield_entry_def Let_def split: prod.splits)
qed

definition tick_entry :: "sched \<Rightarrow> sched" where
  "tick_entry s = (task_upd (running s) (\<lambda>p. p\<lparr>elapsed_ticks := elapsed_ticks p + 1\<rparr>)
     (s\<lparr>eflags_reg := eflags_reg s AND NOT EFLAGS_IF, saved_if := (saved_if s)(running s := INTR_ON)\<rparr>))
     \<lparr>total_ticks := total_ticks s + 1\<rparr>"

lemma tick_entry_simps [simp]:
  "tasks (tick_entry s) = (tasks s)(running s := (tasks s (running s))\<lparr>elapsed_ticks := elapsed_ticks (tasks s (running s)) + 1\<rparr>)"
  "running (tick_entry s) = running s" "thread_ready_list (tick_entry s) = thread_ready_list s"
  "thread_all_list (tick_entry s) = thread_all_list s" "idle_thread (tick_entry s) = idle_thread s"
  "saved_if (tick_entry s) = (saved_if s)(running s := INTR_ON)"
  "intr_get_status (eflags_reg (tick_entry s)) = INTR_OFF"
  by (simp_all add: tick_entry_def intr_status_cases bit_simps)

lemma tick_entry_ok: "sched_ok s \<Longrightarrow> sched_ok (tick_entry s)"
  by (subst sched_pre_cong(2)[of _ s]) simp_all

lemma clock_interrupt_keep:
  assumes "stack_magic (tasks s (running s)) = 0x19970630" "ticks (tasks s (running s)) \<noteq> 0"
  shows "clock_interrupt s =
    Some (resume (task_upd (running s) (\<lambda>p. p\<lparr>ticks := ticks p - 1\<rparr>) (tick_entry s)))"
  using assms by (simp add: clock_interrupt_def intr_timer_handler_def Let_def tick_entry_def)

lemma clock_interrupt_switch:
  assumes "sched_ok s" "stack_magic (tasks s (running s)) = 0x19970630" "ticks (tasks s (running s)) = 0"
  shows "\<exists>s'. clock_interrupt s = Some (resume s') \<and> switched (tick_entry s) s' \<and> sched_ok s'"
proof -
  have "sched_pre (tick_entry s)" using tick_entry_ok[OF assms(1)] by (simp add: sched_ok_def)
  then obtain s' where "schedule (tick_entry s) = Some s'" "switched (tick_entry s) s'" "sched_ok s'"
    using schedule_result switched_ok tick_entry_simps(7) by blast
  then show ?thesis using assms(2,3)
    by (auto simp: clock_interrupt_def intr_timer_handler_def Let_def tick_entry_def)
qed

lemma intr_set_on: "intr_get_status (snd (intr_set_status INTR_ON e)) = INTR_ON"
  by (auto simp: intr_set_status_def intr_enable_def intr_get_status_bit bit_simps)

lemma resume_on: "saved_if s (running s) = INTR_ON \<Longrightarrow> intr_get_status (eflags_reg (resume s)) = INTR_ON"
  by (simp add: resume_def intr_set_on)

section \<open>Every operation keeps the scheduler in order\<close>

datatype sched_event = Tick | Block task_status | Unblock u32 | Yield

fun sched_do :: "sched_event \<Rightarrow> sched \<Rightarrow> sched option" where
  "sched_do Tick s = clock_interrupt s"
| "sched_do (Block st) s = thread_block st s"
| "sched_do (Unblock t) s = thread_unblock t s"
| "sched_do Yield s = thread_yield s"

text \<open>When the kernel may call them: the clock with interrupts on and an intact stack, block with a
  blocked state, unblock on a thread that is blocked.\<close>

fun sched_may :: "sched_event \<Rightarrow> sched \<Rightarrow> bool" where
  "sched_may Tick s \<longleftrightarrow> stack_magic (tasks s (running s)) = 0x19970630 \<and> intr_get_status (eflags_reg s) = INTR_ON"
| "sched_may (Block st) s \<longleftrightarrow> st \<in> {TASK_BLOCKED, TASK_WAITING, TASK_HANGING}"
| "sched_may (Unblock t) s \<longleftrightarrow> t \<in> set (thread_all_list s) \<and> stat s t \<in> {TASK_BLOCKED, TASK_WAITING, TASK_HANGING}"
| "sched_may Yield s \<longleftrightarrow> True"

lemma thread_unblock_ok:
  assumes "sched_ok s" "t \<in> set (thread_all_list s)" "stat s t \<in> {TASK_BLOCKED, TASK_WAITING, TASK_HANGING}"
  shows "\<exists>s'. thread_unblock t s = Some s' \<and> sched_ok s' \<and> stat s' t = TASK_READY
    \<and> thread_ready_list s' = t # thread_ready_list s"
proof -
  note ok = sched_okD[OF assms(1)]
  have n: "t \<notin> set (thread_ready_list s)" using ok(1)[of t] assms(3) by auto
  have r: "t \<noteq> running s" using ok(8) assms(3) by auto
  let ?s = "set_status t TASK_READY (s\<lparr>thread_ready_list := t # thread_ready_list s\<rparr>)"
  have "sched_ok ?s"
    unfolding sched_ok_def sched_pre_def using ok n r assms(2) by auto
  then show ?thesis using thread_unblock_result[OF assms(3) n] by simp
qed

lemma sched_do_ok:
  assumes "sched_ok s" "sched_may e s"
  shows "\<exists>s'. sched_do e s = Some s' \<and> sched_ok s'"
proof (cases e)
  case Tick
  show ?thesis
  proof (cases "ticks (tasks s (running s)) = 0")
    case True
    then show ?thesis using clock_interrupt_switch[OF assms(1)] assms(2) Tick by auto
  next
    case False
    have "sched_ok (task_upd (running s) (\<lambda>p. p\<lparr>ticks := ticks p - 1\<rparr>) (tick_entry s))"
      by (subst sched_pre_cong(2)[of _ s]) (simp_all add: assms(1))
    then show ?thesis using clock_interrupt_keep False assms(2) Tick by simp
  qed
next
  case (Block st)
  then obtain s' where "thread_block st s = Some (resume s')" "sched_ok s'"
    using thread_block_result[OF assms(1), of st] assms(2) by auto
  then show ?thesis using Block by simp
next
  case (Unblock t)
  then show ?thesis using thread_unblock_ok[OF assms(1)] assms(2) by auto
next
  case Yield
  then show ?thesis using thread_yield_result[OF assms(1)] by auto
qed

inductive sched_reach :: "sched \<Rightarrow> sched \<Rightarrow> bool" for s0 where
  start: "sched_reach s0 s0"
| event: "sched_reach s0 s \<Longrightarrow> sched_may e s \<Longrightarrow> sched_do e s = Some s' \<Longrightarrow> sched_reach s0 s'"

lemma sched_reach_ok: "sched_reach s0 s \<Longrightarrow> sched_ok s0 \<Longrightarrow> sched_ok s"
  by (induction rule: sched_reach.induct) (use sched_do_ok in force)+

section \<open>Round robin\<close>

text \<open>\<open>clocks n s\<close>: the state after \<open>n\<close> clock interrupts, each taken with interrupts on.\<close>

primrec clocks :: "nat \<Rightarrow> sched \<Rightarrow> sched option" where
  "clocks 0 s = Some s"
| "clocks (Suc n) s =
     (if intr_get_status (eflags_reg s) = INTR_ON
      then do { s1 \<leftarrow> clock_interrupt s; clocks n s1 } else None)"

lemma clocks_add: "clocks (m + n) s = do { s1 \<leftarrow> clocks m s; clocks n s1 }"
  by (induction m arbitrary: s) (auto simp: bind_eq_Some_conv split: Option.bind_split)

definition quantum :: "sched \<Rightarrow> u32 \<Rightarrow> nat" where
  "quantum s t = unat (ticks (tasks s t)) + 1"

definition stacks_ok :: "sched \<Rightarrow> bool" where
  "stacks_ok s \<longleftrightarrow> (\<forall>t\<in>set (thread_all_list s). stack_magic (tasks s t) = 0x19970630)"

lemma word_pred_unat: "(w :: u8) \<noteq> 0 \<Longrightarrow> unat (w - 1) = unat w - 1"
  by (simp add: unat_minus_one)

text \<open>A whole turn: the running thread uses up its ticks, then the next one runs.\<close>

lemma one_turn:
  assumes "sched_ok s" "stacks_ok s" "intr_get_status (eflags_reg s) = INTR_ON" "\<And>t. saved_if s t = INTR_ON"
  shows "\<exists>s'. clocks (quantum s (running s)) s = Some s' \<and> sched_ok s' \<and> stacks_ok s'
    \<and> intr_get_status (eflags_reg s') = INTR_ON \<and> (\<forall>t. saved_if s' t = INTR_ON)
    \<and> running s' # thread_ready_list s' = thread_ready_list s @ [running s]
    \<and> (\<forall>t. t \<noteq> running s \<longrightarrow> ticks (tasks s' t) = ticks (tasks s t))"
  using assms
proof (induction "unat (ticks (tasks s (running s)))" arbitrary: s)
  case 0
  then have t0: "ticks (tasks s (running s)) = 0" by (simp add: unat_eq_zero)
  have m: "stack_magic (tasks s (running s)) = 0x19970630"
    using 0 sched_okD(7)[of s] by (auto simp: stacks_ok_def)
  obtain s1 where s1: "clock_interrupt s = Some (resume s1)" "switched (tick_entry s) s1" "sched_ok s1"
    using clock_interrupt_switch[OF 0(2) m t0] by blast
  have q: "run_queue (tick_entry s) = thread_ready_list s @ [running s]"
    using sched_okD(8)[OF 0(2)] by (simp add: run_queue_def)
  have f: "running s1 = hd (thread_ready_list s @ [running s])" "thread_ready_list s1 = tl (thread_ready_list s @ [running s])"
    "thread_all_list s1 = thread_all_list s" "saved_if s1 = (saved_if s)(running s := INTR_ON)"
    "\<And>t. tasks s1 t = (tasks (tick_entry s) t)\<lparr>ticks := (if t = running s \<and> stat (tick_entry s) t = TASK_RUNNING
         then priority (tasks (tick_entry s) t) else ticks (tasks (tick_entry s) t)), status := stat s1 t\<rparr>"
    using s1(2) unfolding switched_def q tick_entry_simps(2,4,6) by blast+
  have mt: "stack_magic (tasks s1 t) = stack_magic (tasks s t)" for t by (subst f(5)) simp
  have tt: "t \<noteq> running s \<Longrightarrow> ticks (tasks s1 t) = ticks (tasks s t)" for t by (subst f(5)) simp
  have "intr_get_status (eflags_reg (resume s1)) = INTR_ON" by (rule resume_on) (simp add: f(4) 0(5))
  moreover have "quantum s (running s) = Suc 0" using t0 by (simp add: quantum_def)
  ultimately show ?case using s1(1,3) 0(4,5) f(1-4) mt tt 0(3)
    by (intro exI[of _ "resume s1"]) (auto simp: stacks_ok_def)
next
  case (Suc k)
  let ?r = "running s"
  have nz: "ticks (tasks s ?r) \<noteq> 0" using Suc(2) by auto
  have m: "stack_magic (tasks s ?r) = 0x19970630"
    using Suc sched_okD(7)[of s] by (auto simp: stacks_ok_def)
  define s1 where "s1 = resume (task_upd ?r (\<lambda>p. p\<lparr>ticks := ticks p - 1\<rparr>) (tick_entry s))"
  have c: "clock_interrupt s = Some s1" using clock_interrupt_keep[OF m nz] by (simp add: s1_def)
  have ok: "sched_ok s1" unfolding s1_def resume_ok by (subst sched_pre_cong(2)[of _ s]) (simp_all add: Suc(3))
  have k: "unat (ticks (tasks s1 (running s1))) = k" using Suc(2) word_pred_unat[OF nz] by (simp add: s1_def)
  have st: "stacks_ok s1" using Suc(4) by (simp add: stacks_ok_def s1_def)
  have on: "intr_get_status (eflags_reg s1) = INTR_ON" unfolding s1_def by (rule resume_on) simp
  have sv: "saved_if s1 t = INTR_ON" for t using Suc(6) by (simp add: s1_def)
  have sl: "quantum s ?r = Suc (quantum s1 (running s1))" using Suc(2) k by (simp add: quantum_def)
  have f: "running s1 = ?r" "thread_ready_list s1 = thread_ready_list s" "t \<noteq> ?r \<Longrightarrow> ticks (tasks s1 t) = ticks (tasks s t)" for t
    by (simp_all add: s1_def)
  obtain s' where "clocks (quantum s1 (running s1)) s1 = Some s'" "sched_ok s'" "stacks_ok s'"
    "intr_get_status (eflags_reg s') = INTR_ON" "\<forall>t. saved_if s' t = INTR_ON"
    "running s' # thread_ready_list s' = thread_ready_list s1 @ [running s1]"
    "\<forall>t. t \<noteq> running s1 \<longrightarrow> ticks (tasks s' t) = ticks (tasks s1 t)"
    using Suc(1)[OF k[symmetric] ok st on sv] by blast
  then show ?case using c sl f Suc(5) by auto
qed

lemma turns:
  assumes "sched_ok s" "stacks_ok s" "intr_get_status (eflags_reg s) = INTR_ON" "\<And>t. saved_if s t = INTR_ON"
    and "thread_ready_list s = us @ t # vs"
  shows "\<exists>s'. clocks (\<Sum>u\<leftarrow>running s # us. quantum s u) s = Some s' \<and> running s' = t
    \<and> thread_ready_list s' = vs @ running s # us \<and> sched_ok s'"
  using assms
proof (induction us arbitrary: s vs)
  case Nil
  then show ?case using one_turn[of s] by auto
next
  case (Cons u us)
  obtain s1 where s1: "clocks (quantum s (running s)) s = Some s1" "sched_ok s1" "stacks_ok s1"
    "intr_get_status (eflags_reg s1) = INTR_ON" "\<forall>t. saved_if s1 t = INTR_ON"
    "running s1 # thread_ready_list s1 = thread_ready_list s @ [running s]"
    "\<forall>t. t \<noteq> running s \<longrightarrow> ticks (tasks s1 t) = ticks (tasks s t)"
    using one_turn[OF Cons(2-5)] by blast
  have r: "running s1 = u" "thread_ready_list s1 = us @ t # (vs @ [running s])" using s1(6) Cons(6) by auto
  have "running s \<notin> set (u # us)"
    using sched_okD(1,8)[OF Cons(2)] Cons(6) by (metis (no_types) Un_iff append_Cons set_append task_status.distinct(1))
  then have "quantum s1 x = quantum s x" if "x \<in> set (u # us)" for x
    using s1(7) that by (metis quantum_def)
  then have sl: "(\<Sum>u\<leftarrow>u # us. quantum s1 u) = (\<Sum>u\<leftarrow>u # us. quantum s u)"
    by (metis (no_types, lifting) map_cong)
  obtain s' where "clocks (\<Sum>u\<leftarrow>running s1 # us. quantum s1 u) s1 = Some s'" "running s' = t"
    "thread_ready_list s' = (vs @ [running s]) @ running s1 # us" "sched_ok s'"
    using Cons(1)[OF s1(2,3,4) _ r(2)] s1(5) by blast
  moreover have "clocks (\<Sum>v\<leftarrow>running s # u # us. quantum s v) s = clocks (\<Sum>v\<leftarrow>u # us. quantum s v) s1"
    using s1(1) by (simp only: list.map(2)[of _ "running s"] sum_list.Cons[of "quantum s (running s)"] clocks_add bind.bind_lunit)
  ultimately show ?case using r(1) sl by (intro exI[of _ s']) simp
qed

section \<open>Pids, creation and end of threads\<close>

text \<open>The PCB of the running thread starts at the page its kernel stack lies in.\<close>

definition running_thread :: "u32 \<Rightarrow> u32" where
  "running_thread esp = esp AND 0xfffff000"

definition pid_pool_init :: "sched \<Rightarrow> sched" where
  "pid_pool_init s = s\<lparr>pid_bitmap := bitmap_init \<lparr>btmp_bytes_len = 128, bits = bits (pid_bitmap s)\<rparr>\<rparr>"

definition pid_start :: "16 word" where
  "pid_start = 1"

definition allocate_pid :: "sched \<Rightarrow> (16 word \<times> sched) option" where
  "allocate_pid s =
     do {
       bit_idx \<leftarrow> bitmap_scan (pid_bitmap s) 1;
       b \<leftarrow> bitmap_set (pid_bitmap s) (unat (of_int bit_idx :: u32)) 1;
       Some (of_int bit_idx + pid_start, s\<lparr>pid_bitmap := b\<rparr>)
     }"

definition release_pid :: "16 word \<Rightarrow> sched \<Rightarrow> sched option" where
  "release_pid p s =
     (let bit_idx = scast p - ucast pid_start :: u32 in
      do { b \<leftarrow> bitmap_set (pid_bitmap s) (unat bit_idx) 0; Some (s\<lparr>pid_bitmap := b\<rparr>) })"

definition zero_task :: task_struct where
  "zero_task = \<lparr>self_kstack = 0, pid = 0, status = TASK_RUNNING, pname = [], priority = 0, ticks = 0,
     elapsed_ticks = 0, pgdir = 0, fd_table = replicate MAX_FILES_OPEN_PER_PROC 0, cwd_inode_nr = 0,
     parent_pid = 0, exit_status = 0, stack_magic = 0\<rparr>"

text \<open>A name of 16 chars or more runs over the end of its array: no defined result.\<close>

definition init_thread :: "u32 \<Rightarrow> string \<Rightarrow> int \<Rightarrow> sched \<Rightarrow> sched option" where
  "init_thread pthread name prio s =
     do {
       ASSERT (pthread \<noteq> 0);
       (p, s1) \<leftarrow> allocate_pid (task_upd pthread (\<lambda>_. zero_task) s);
       ASSERT (length name < 16);
       Some (task_upd pthread (\<lambda>t. t\<lparr>
         pid := p, pname := name,
         status := (if pthread = main_thread s1 then TASK_RUNNING else TASK_READY),
         self_kstack := pthread + 4096, priority := of_int prio, ticks := of_int prio,
         elapsed_ticks := 0, pgdir := 0,
         fd_table := [0, 1, 2] @ replicate (MAX_FILES_OPEN_PER_PROC - 3) (-1),
         cwd_inode_nr := 0, parent_pid := -1, stack_magic := 0x19970630\<rparr>) s1)
     }"

text \<open>The subtractions are on a \<open>uint32_t*\<close>: 76 and 32 words of four bytes.\<close>

definition thread_create :: "u32 \<Rightarrow> u32 \<Rightarrow> u32 \<Rightarrow> u32 \<Rightarrow> sched \<Rightarrow> sched" where
  "thread_create kernel_thread pthread function arg s =
     (let s1 = task_upd pthread (\<lambda>t. t\<lparr>self_kstack := self_kstack t - 4 * 76\<rparr>) s;
          s2 = task_upd pthread (\<lambda>t. t\<lparr>self_kstack := self_kstack t - 4 * 32\<rparr>) s1;
          kthread_stack = self_kstack (tasks s2 pthread)
      in s2\<lparr>kstacks := (kstacks s2)(kthread_stack := (kstacks s2 kthread_stack)\<lparr>
              ts_eip := kernel_thread, ts_function := function, func_arg := arg,
              ts_ebp := 0, ts_ebx := 0, ts_esi := 0, ts_edi := 0\<rparr>)\<rparr>)"

text \<open>\<open>thread\<close> is the page get_kernel_pages returned (0 when it failed).\<close>

definition thread_start :: "u32 \<Rightarrow> u32 \<Rightarrow> string \<Rightarrow> int \<Rightarrow> u32 \<Rightarrow> u32 \<Rightarrow> sched \<Rightarrow> sched option" where
  "thread_start kernel_thread thread name prio function arg s =
     do {
       s1 \<leftarrow> init_thread thread name prio s;
       let s2 = thread_create kernel_thread thread function arg s1 in
       do {
         ASSERT (thread \<notin> set (thread_ready_list s2));
         let s3 = s2\<lparr>thread_ready_list := thread_ready_list s2 @ [thread]\<rparr> in
         do {
           ASSERT (thread \<notin> set (thread_all_list s3));
           Some (s3\<lparr>thread_all_list := thread_all_list s3 @ [thread]\<rparr>)
         }
       }
     }"

definition make_main_thread :: "u32 \<Rightarrow> sched \<Rightarrow> sched option" where
  "make_main_thread esp s =
     (let s0 = s\<lparr>main_thread := running_thread esp, running := running_thread esp\<rparr> in
      do {
        s1 \<leftarrow> init_thread (main_thread s0) ''main'' 31 s0;
        ASSERT (main_thread s1 \<notin> set (thread_all_list s1));
        Some (s1\<lparr>thread_all_list := thread_all_list s1 @ [main_thread s1]\<rparr>)
      })"

text \<open>The callback compares the pid of a thread with an int.\<close>

definition pid_check :: "sched \<Rightarrow> u32 \<Rightarrow> int \<Rightarrow> bool" where
  "pid_check s t p \<longleftrightarrow> sint (pid (tasks s t)) = p"

definition pid2thread :: "int \<Rightarrow> sched \<Rightarrow> u32" where
  "pid2thread p s =
     (case find (\<lambda>t. pid_check s t p) (thread_all_list s) of None \<Rightarrow> 0 | Some t \<Rightarrow> t)"

definition mfree_page :: "u32 \<Rightarrow> sched \<Rightarrow> sched" where
  "mfree_page page s = s\<lparr>freed_pages := freed_pages s @ [page]\<rparr>"

text \<open>
  The PCB keeps its contents after its page is freed: interrupts are off, so nobody takes the
  page before the pid is read. The last step calls schedule for a thread that ended itself and
  does not come back (\<open>PANIC\<close> when it does); the state is then the one of the next thread.
\<close>

definition thread_exit :: "u32 \<Rightarrow> bool \<Rightarrow> sched \<Rightarrow> sched option" where
  "thread_exit thread_over need_schedule s =
     (let s0 = s\<lparr>eflags_reg := snd (intr_disable (eflags_reg s))\<rparr>;
          s1 = set_status thread_over TASK_DIED s0;
          s2 = (if thread_over \<in> set (thread_ready_list s1)
                then s1\<lparr>thread_ready_list := remove1 thread_over (thread_ready_list s1)\<rparr> else s1);
          s3 = (if pgdir (tasks s2 thread_over) \<noteq> 0 then mfree_page (pgdir (tasks s2 thread_over)) s2 else s2);
          s4 = s3\<lparr>thread_all_list := remove1 thread_over (thread_all_list s3)\<rparr>;
          s5 = (if thread_over \<noteq> main_thread s4 then mfree_page thread_over s4 else s4)
      in do {
        s6 \<leftarrow> release_pid (pid (tasks s5 thread_over)) s5;
        if need_schedule then do { s7 \<leftarrow> schedule s6; Some (resume s7) } else Some s6
      })"

section \<open>Pids are unique\<close>

text \<open>A pid in use is a number from 1 to 1024 whose bit is set, and no two threads share one.\<close>

definition pids_ok :: "sched \<Rightarrow> bool" where
  "pids_ok s \<longleftrightarrow> btmp_bytes_len (pid_bitmap s) = 128
     \<and> (\<forall>t\<in>set (thread_all_list s). \<exists>i<1024. pid (tasks s t) = of_nat (i + 1) \<and> bitmap_scan_test (pid_bitmap s) i)
     \<and> inj_on (\<lambda>t. pid (tasks s t)) (set (thread_all_list s))"

lemma pids_okD:
  "pids_ok s \<Longrightarrow> t \<in> set (thread_all_list s) \<Longrightarrow>
   \<exists>i<1024. pid (tasks s t) = of_nat (i + 1) \<and> bitmap_scan_test (pid_bitmap s) i"
  unfolding pids_ok_def by (elim conjE) (drule (1) bspec)

definition free_pid :: "sched \<Rightarrow> nat \<Rightarrow> bool" where
  "free_pid s i \<longleftrightarrow> i < 1024 \<and> \<not> bitmap_scan_test (pid_bitmap s) i"

lemma allocate_pid_result:
  assumes "btmp_bytes_len (pid_bitmap s) = 128" "free_pid s j"
  shows "\<exists>i b. allocate_pid s = Some (of_nat (i + 1), s\<lparr>pid_bitmap := b\<rparr>) \<and> free_pid s i
    \<and> btmp_bytes_len b = 128 \<and> (\<forall>k. bitmap_scan_test b k \<longleftrightarrow> k = i \<or> bitmap_scan_test (pid_bitmap s) k)"
proof -
  obtain r where r: "bitmap_scan (pid_bitmap s) 1 = Some r"
    using bm.scan_total[of j "pid_bitmap s"] assms by (auto simp: free_pid_def)
  then obtain i where i: "i < 1024" "r = int i" "\<not> bitmap_scan_test (pid_bitmap s) i"
    using bm.scan_found[of "pid_bitmap s" r] assms(1) by auto
  have u: "unat (of_int r :: u32) = i" using i(1,2) by (simp add: unat_of_nat take_bit_nat_eq_self)
  obtain b where b: "bitmap_set (pid_bitmap s) i 1 = Some b" "btmp_bytes_len b = 128"
    "\<forall>k. bitmap_scan_test b k \<longleftrightarrow> k = i \<or> bitmap_scan_test (pid_bitmap s) k"
    using bm.set_mark[of "pid_bitmap s" i] assms(1) by auto
  have "allocate_pid s = Some (of_nat (i + 1), s\<lparr>pid_bitmap := b\<rparr>)"
    using r u b(1) i(2) by (simp add: allocate_pid_def pid_start_def)
  then show ?thesis using i b by (intro exI[of _ i] exI[of _ b]) (simp add: free_pid_def)
qed

lemma sint_pid: "i < 1024 \<Longrightarrow> sint (of_nat (i + 1) :: 16 word) = int (i + 1)"
proof -
  assume "i < 1024"
  then have "unat (of_nat (i + 1) :: 16 word) = i + 1"
    by (simp only: unat_of_nat) (simp add: take_bit_nat_eq_self)
  then have "uint (of_nat (i + 1) :: 16 word) = int (i + 1)" by (simp only: uint_nat)
  then show ?thesis using \<open>i < 1024\<close> sint_eq_uint_minus[of 15 "of_nat (i + 1) :: 16 word"] by simp
qed

lemma pid_of_nat_inj: "i < 1024 \<Longrightarrow> j < 1024 \<Longrightarrow> (of_nat (i + 1) :: 16 word) = of_nat (j + 1) \<longleftrightarrow> i = j"
proof -
  assume a: "i < 1024" "j < 1024"
  then have "unat (of_nat (i + 1) :: 16 word) = i + 1" "unat (of_nat (j + 1) :: 16 word) = j + 1"
    by (simp_all only: unat_of_nat) (simp_all add: take_bit_nat_eq_self)
  then show ?thesis by (metis add_right_cancel)
qed

lemma thread_start_result:
  assumes "pids_ok s" "free_pid s j" "th \<notin> set (thread_all_list s)" "th \<noteq> 0" "length name < 16"
    "th \<notin> set (thread_ready_list s)" "th \<noteq> main_thread s"
  shows "\<exists>i s'. thread_start kt th name prio f a s = Some s' \<and> free_pid s i
    \<and> pid (tasks s' th) = of_nat (i + 1) \<and> stat s' th = TASK_READY
    \<and> stack_magic (tasks s' th) = 0x19970630
    \<and> self_kstack (tasks s' th) = th + 4096 - 432
    \<and> thread_ready_list s' = thread_ready_list s @ [th] \<and> thread_all_list s' = thread_all_list s @ [th]
    \<and> running s' = running s \<and> idle_thread s' = idle_thread s \<and> eflags_reg s' = eflags_reg s
    \<and> btmp_bytes_len (pid_bitmap s') = 128
    \<and> (\<forall>k. bitmap_scan_test (pid_bitmap s') k \<longleftrightarrow> k = i \<or> bitmap_scan_test (pid_bitmap s) k)
    \<and> (\<forall>t. t \<noteq> th \<longrightarrow> tasks s' t = tasks s t)"
proof -
  let ?s0 = "task_upd th (\<lambda>_. zero_task) s"
  have "btmp_bytes_len (pid_bitmap ?s0) = 128" "free_pid ?s0 j"
    using assms(1,2) by (simp_all add: pids_ok_def free_pid_def task_upd_def)
  then obtain i b where i: "allocate_pid ?s0 = Some (of_nat (i + 1), ?s0\<lparr>pid_bitmap := b\<rparr>)" "free_pid ?s0 i"
    "btmp_bytes_len b = 128" "\<forall>k. bitmap_scan_test b k \<longleftrightarrow> k = i \<or> bitmap_scan_test (pid_bitmap ?s0) k"
    using allocate_pid_result by blast
  have m: "main_thread ?s0 = main_thread s" "pid_bitmap ?s0 = pid_bitmap s" by (simp_all add: task_upd_def)
  obtain s' where "thread_start kt th name prio f a s = Some s'" "s' = thread_create kt th f a (task_upd th (\<lambda>t. t\<lparr>
         pid := of_nat (i + 1), pname := name, status := TASK_READY,
         self_kstack := th + 4096, priority := of_int prio, ticks := of_int prio,
         elapsed_ticks := 0, pgdir := 0,
         fd_table := [0, 1, 2] @ replicate (MAX_FILES_OPEN_PER_PROC - 3) (-1),
         cwd_inode_nr := 0, parent_pid := -1, stack_magic := 0x19970630\<rparr>) (?s0\<lparr>pid_bitmap := b\<rparr>))
         \<lparr>thread_ready_list := thread_ready_list s @ [th], thread_all_list := thread_all_list s @ [th]\<rparr>"
    using assms(3-7) i(1) m by (simp add: thread_start_def init_thread_def thread_create_def Let_def)
  then show ?thesis using i m
    by (intro exI[of _ i] exI[of _ s'])
      (simp add: thread_create_def Let_def free_pid_def task_upd_def)
qed

lemma find_unique:
  "x \<in> set xs \<Longrightarrow> P x \<Longrightarrow> (\<And>y. y \<in> set xs \<Longrightarrow> P y \<Longrightarrow> y = x) \<Longrightarrow> find P xs = Some x"
  by (induction xs) (simp, metis find.simps(2) list.set_intros set_ConsD)

lemma pid2thread_found:
  assumes "pids_ok s" "t \<in> set (thread_all_list s)"
  shows "pid2thread (sint (pid (tasks s t))) s = t"
proof -
  have "find (\<lambda>u. pid_check s u (sint (pid (tasks s t)))) (thread_all_list s) = Some t"
  proof (rule find_unique[OF assms(2)])
    show "u = t" if "u \<in> set (thread_all_list s)" "pid_check s u (sint (pid (tasks s t)))" for u
      using that assms by (auto simp: pids_ok_def pid_check_def inj_on_def intro: signed_word_eqI)
  qed (simp add: pid_check_def)
  then show ?thesis by (simp add: pid2thread_def)
qed

text \<open>A new ready thread at the end of both lists, with a pid that was free.\<close>

lemma sched_ok_new:
  assumes "sched_ok s" "th \<notin> set (thread_all_list s)" "th \<noteq> 0" "stat s' th = TASK_READY"
    and "thread_ready_list s' = thread_ready_list s @ [th]" "thread_all_list s' = thread_all_list s @ [th]"
    and "running s' = running s" "idle_thread s' = idle_thread s" "\<forall>t. t \<noteq> th \<longrightarrow> tasks s' t = tasks s t"
  shows "sched_ok s'"
proof -
  note ok = sched_okD[OF assms(1)]
  have ne: "running s \<noteq> th" "idle_thread s \<noteq> th" using ok(4,7) assms(2) by auto
  have r: "th \<notin> set (thread_ready_list s)" using ok(1) assms(2) by simp
  have o: "tasks s' t = tasks s t" if "t \<in> set (thread_all_list s)" for t using assms(2,9) that by metis
  show ?thesis
    unfolding sched_ok_def sched_pre_def assms(5-8) using ok ne r assms(3,4) o[OF ok(7)] o[OF ok(4)] o
    by (auto simp: assms(9)[rule_format])
qed

lemma pids_ok_new:
  assumes "pids_ok s" "free_pid s i" "th \<notin> set (thread_all_list s)" "thread_all_list s' = thread_all_list s @ [th]"
    and "pid (tasks s' th) = of_nat (i + 1)" "\<forall>t. t \<noteq> th \<longrightarrow> tasks s' t = tasks s t" "btmp_bytes_len (pid_bitmap s') = 128"
    and "\<forall>k. bitmap_scan_test (pid_bitmap s') k \<longleftrightarrow> k = i \<or> bitmap_scan_test (pid_bitmap s) k"
  shows "pids_ok s'"
proof -
  have o: "tasks s' t = tasks s t" if "t \<in> set (thread_all_list s)" for t using assms(3,6) that by metis
  have i: "i < 1024" "\<not> bitmap_scan_test (pid_bitmap s) i" using assms(2) by (auto simp: free_pid_def)
  have new: "pid (tasks s t) \<noteq> of_nat (i + 1)" if "t \<in> set (thread_all_list s)" for t
    using pids_okD[OF assms(1) that] i pid_of_nat_inj by metis
  have "\<exists>i<1024. pid (tasks s' t) = of_nat (i + 1) \<and> bitmap_scan_test (pid_bitmap s') i"
    if "t \<in> insert th (set (thread_all_list s))" for t
  proof (cases "t = th")
    case True
    then show ?thesis using assms(5,8) i(1) by blast
  next
    case False
    then show ?thesis using that pids_okD[OF assms(1), of t] o[of t] assms(8) by auto
  qed
  moreover have "inj_on (\<lambda>t. pid (tasks s' t)) (insert th (set (thread_all_list s)))"
  proof (rule inj_onI)
    fix t u assume a: "t \<in> insert th (set (thread_all_list s))" "u \<in> insert th (set (thread_all_list s))"
      "pid (tasks s' t) = pid (tasks s' u)"
    show "t = u"
    proof (cases "t = th \<or> u = th")
      case True
      then show ?thesis using a new[of t] new[of u] o[of t] o[of u] assms(5) by (metis insertE)
    next
      case False
      then show ?thesis using a o[of t] o[of u] assms(1) by (auto simp: pids_ok_def inj_on_def)
    qed
  qed
  ultimately show ?thesis using assms(4,7) by (simp add: pids_ok_def)
qed

lemma thread_start_ok:
  assumes "sched_ok s" "pids_ok s" "free_pid s j" "th \<notin> set (thread_all_list s)" "th \<noteq> 0"
    "length name < 16" "th \<noteq> main_thread s"
  shows "\<exists>s'. thread_start kt th name prio f a s = Some s' \<and> sched_ok s' \<and> pids_ok s'
    \<and> thread_all_list s' = thread_all_list s @ [th] \<and> thread_ready_list s' = thread_ready_list s @ [th]
    \<and> self_kstack (tasks s' th) = th + 4096 - 432
    \<and> (\<forall>t. t \<noteq> th \<longrightarrow> tasks s' t = tasks s t)"
proof -
  have r: "th \<notin> set (thread_ready_list s)" using sched_okD(1)[OF assms(1)] assms(4) by simp
  obtain i s' where s': "thread_start kt th name prio f a s = Some s'" "free_pid s i"
    "pid (tasks s' th) = of_nat (i + 1)" "stat s' th = TASK_READY"
    "thread_ready_list s' = thread_ready_list s @ [th]" "thread_all_list s' = thread_all_list s @ [th]"
    "running s' = running s" "idle_thread s' = idle_thread s" "btmp_bytes_len (pid_bitmap s') = 128"
    "self_kstack (tasks s' th) = th + 4096 - 432"
    "\<forall>k. bitmap_scan_test (pid_bitmap s') k \<longleftrightarrow> k = i \<or> bitmap_scan_test (pid_bitmap s) k"
    "\<forall>t. t \<noteq> th \<longrightarrow> tasks s' t = tasks s t"
    using thread_start_result[OF assms(2-5,6) r assms(7)] by blast
  have "sched_ok s'" by (rule sched_ok_new[OF assms(1,4,5) s'(4-8,12)])
  moreover have "pids_ok s'" by (rule pids_ok_new[OF assms(2) s'(2) assms(4) s'(6,3,12,9,11)])
  ultimately show ?thesis using s' by blast
qed

text \<open>The end of another thread, as wait does it for a child.\<close>

lemma thread_exit_other:
  assumes "sched_ok s" "pids_ok s" "distinct (thread_all_list s)"
    and "t \<in> set (thread_all_list s)" "t \<noteq> running s" "t \<noteq> idle_thread s" "t \<noteq> main_thread s"
  shows "\<exists>s' i. thread_exit t False s = Some s' \<and> sched_ok s' \<and> pids_ok s'
    \<and> pid (tasks s t) = of_nat (i + 1) \<and> free_pid s' i
    \<and> set (thread_all_list s') = set (thread_all_list s) - {t}
    \<and> freed_pages s' = freed_pages s @ (if pgdir (tasks s t) = 0 then [] else [pgdir (tasks s t)]) @ [t]
    \<and> running s' = running s \<and> idle_thread s' = idle_thread s \<and> main_thread s' = main_thread s
    \<and> thread_all_list s' = remove1 t (thread_all_list s) \<and> tasks s' = (tasks s)(t := (tasks s t)\<lparr>status := TASK_DIED\<rparr>)"
proof -
  note ok = sched_okD[OF assms(1)]
  obtain i where i: "i < 1024" "pid (tasks s t) = of_nat (i + 1)" "bitmap_scan_test (pid_bitmap s) i"
    using assms(2,4) by (auto simp: pids_ok_def)
  have len: "btmp_bytes_len (pid_bitmap s) = 128" using assms(2) by (simp add: pids_ok_def)
  have idx: "unat (scast (of_nat (i + 1) :: 16 word) - ucast pid_start :: u32) = i"
  proof -
    have "sint (of_nat (i + 1) :: 16 word) = int (i + 1)" using sint_pid[OF i(1)] .
    then have "scast (of_nat (i + 1) :: 16 word) = (of_nat (i + 1) :: u32)"
      by (simp add: scast_eq)
    moreover have "(of_nat (i + 1) :: u32) - 1 = of_nat i" by simp
    ultimately show ?thesis using i(1) by (simp add: pid_start_def unat_of_nat take_bit_nat_eq_self del: of_nat_Suc)
  qed
  obtain b where b: "bitmap_set (pid_bitmap s) i 0 = Some b" "btmp_bytes_len b = 128"
    "\<forall>k. bitmap_scan_test b k \<longleftrightarrow> k \<noteq> i \<and> bitmap_scan_test (pid_bitmap s) k"
    using bm.set_clear[of "pid_bitmap s" i] len by auto
  have idx: "unat (scast (pid (tasks s t)) - ucast pid_start :: u32) = i" unfolding i(2) by (rule idx)
  have rm: "remove1 t (thread_ready_list s) = thread_ready_list s" if "t \<notin> set (thread_ready_list s)"
    using that by (rule remove1_idem)
  obtain s' where s': "thread_exit t False s = Some s'" "thread_ready_list s' = remove1 t (thread_ready_list s)"
    "thread_all_list s' = remove1 t (thread_all_list s)" "pid_bitmap s' = b" "running s' = running s"
    "idle_thread s' = idle_thread s" "tasks s' = (tasks s)(t := (tasks s t)\<lparr>status := TASK_DIED\<rparr>)"
    "freed_pages s' = freed_pages s @ (if pgdir (tasks s t) = 0 then [] else [pgdir (tasks s t)]) @ [t]"
    "main_thread s' = main_thread s"
    using assms(7) b(1) rm
    by (cases "t \<in> set (thread_ready_list s)"; cases "pgdir (tasks s t) = 0")
      (simp_all add: thread_exit_def release_pid_def Let_def idx set_status_def task_upd_def mfree_page_def)
  have rset: "set (remove1 t (thread_all_list s)) = set (thread_all_list s) - {t}" using assms(3) by simp
  have rr: "u \<in> set (remove1 t (thread_ready_list s)) \<longleftrightarrow> u \<in> set (thread_ready_list s) \<and> u \<noteq> t" for u
    using ok(3) by simp
  have "sched_ok s'"
    unfolding sched_ok_def sched_pre_def s'(2,3,5-7) rset rr using ok assms(5,6) by auto
  moreover have "pids_ok s'"
  proof -
    have old: "\<exists>k<1024. pid (tasks s u) = of_nat (k + 1) \<and> bitmap_scan_test b k"
      if u: "u \<in> set (thread_all_list s) - {t}" for u
    proof -
      obtain k where k: "k < 1024" "pid (tasks s u) = of_nat (k + 1)" "bitmap_scan_test (pid_bitmap s) k"
        using pids_okD[OF assms(2), of u] u by blast
      have "pid (tasks s u) \<noteq> pid (tasks s t)" using assms(2,4) u by (auto simp: pids_ok_def inj_on_def)
      then have "k \<noteq> i" using k(2) i(2) by auto
      then show ?thesis using k b(3) by auto
    qed
    have "inj_on (\<lambda>u. pid (tasks s u)) (set (thread_all_list s) - {t})"
      using assms(2) by (auto simp: pids_ok_def intro: inj_on_diff)
    then have "inj_on (\<lambda>u. pid (tasks s' u)) (set (thread_all_list s) - {t})"
      by (rule inj_on_cong[THEN iffD1, rotated]) (simp add: s'(7))
    moreover have p: "pid (tasks s' u) = pid (tasks s u)" for u by (simp add: s'(7))
    ultimately show ?thesis unfolding pids_ok_def s'(3,4) rset p using b(2) old by blast
  qed
  moreover have "free_pid s' i" using i(1) b(3) s'(4) by (simp add: free_pid_def)
  moreover have "set (thread_all_list s') = set (thread_all_list s) - {t}" unfolding s'(3) by (rule rset)
  ultimately show ?thesis using s'(1,3,5-9) i(2) by (intro exI[of _ s'] exI[of _ i] conjI) assumption+
qed

section \<open>Properties\<close>

text \<open>C6: from a state in order, whatever sequence of clock interrupts, blocks, unblocks and yields
  follows, the scheduler stays in order: the ready list holds the READY threads, each once, and
  exactly the running thread is RUNNING; and no such operation stops the kernel.\<close>
theorem scheduler_invariant:
  assumes "sched_ok s0" "sched_reach s0 s"
  shows "sched_ok s \<and> (sched_may e s \<longrightarrow> (\<exists>s'. sched_do e s = Some s' \<and> sched_reach s0 s'))"
  using sched_reach_ok[OF assms(2,1)] sched_do_ok sched_reach.event[OF assms(2)] by blast

definition demo_task :: "16 word \<Rightarrow> task_status \<Rightarrow> task_struct" where
  "demo_task p st = zero_task\<lparr>pid := p, status := st, priority := 2, ticks := 2, stack_magic := 0x19970630\<rparr>"

definition demo_sched :: sched where
  "demo_sched = \<lparr>tasks = (\<lambda>_. zero_task)(0x1000 := demo_task 1 TASK_BLOCKED, 0x2000 := demo_task 2 TASK_RUNNING,
       0x3000 := demo_task 3 TASK_READY, 0x4000 := demo_task 4 TASK_READY),
     running = 0x2000, thread_ready_list = [0x3000, 0x4000], thread_all_list = [0x1000, 0x2000, 0x3000, 0x4000],
     idle_thread = 0x1000, main_thread = 0x2000,
     pid_bitmap = \<lparr>btmp_bytes_len = 128, bits = (\<lambda>i. if i = 0 then 0xF else 0)\<rparr>,
     eflags_reg = 0x202, saved_if = (\<lambda>_. INTR_ON), total_ticks = 0, cr3 = 0x100000, tss_esp0 = 0,
     page_walk = (\<lambda>v. v), kstacks = (\<lambda>_. \<lparr>ts_ebp = 0, ts_ebx = 0, ts_edi = 0, ts_esi = 0, ts_eip = 0,
       unused_retaddr = 0, ts_function = 0, func_arg = 0\<rparr>), freed_pages = []\<rparr>"

lemma demo_sched_ok: "sched_ok demo_sched" "stacks_ok demo_sched"
  by (auto simp: demo_sched_def demo_task_def sched_ok_def sched_pre_def stacks_ok_def zero_task_def)

lemma demo_pids_ok: "pids_ok demo_sched" "free_pid demo_sched 4"
proof -
  have b: "bitmap_scan_test (pid_bitmap demo_sched) k \<longleftrightarrow> k < 4" if "k < 8" for k
  proof -
    have "bit (15 :: u8) k \<longleftrightarrow> k < 4" using that by (simp add: bit_simps numeral_eq_Suc less_Suc_eq) auto
    then show ?thesis using that by (simp add: demo_sched_def scan_test_bit)
  qed
  show "free_pid demo_sched 4" using b[of 4] by (simp add: free_pid_def)
  have "\<exists>i<1024. pid (tasks demo_sched t) = of_nat (i + 1) \<and> bitmap_scan_test (pid_bitmap demo_sched) i"
    if "t \<in> set (thread_all_list demo_sched)" for t
  proof -
    have "t = 0x1000 \<or> t = 0x2000 \<or> t = 0x3000 \<or> t = 0x4000" using that by (simp add: demo_sched_def)
    moreover have "bitmap_scan_test (pid_bitmap demo_sched) k" if "k < 4" for k using b[of k] that by simp
    ultimately show ?thesis
      by (elim disjE; intro exI[of _ "unat (pid (tasks demo_sched t)) - 1"])
        (simp_all add: demo_sched_def demo_task_def)
  qed
  then show "pids_ok demo_sched"
    by (auto simp: pids_ok_def demo_sched_def demo_task_def)
qed

theorem scheduler_invariant_witness:
  "sched_ok demo_sched \<and> (\<exists>s'. thread_block TASK_WAITING demo_sched = Some s' \<and> sched_reach demo_sched s')"
  using scheduler_invariant[OF demo_sched_ok(1) sched_reach.start, of "Block TASK_WAITING"] by simp

text \<open>C29: round robin: when nothing but the clock intervenes, a ready thread runs after the turns of
  the running thread and of the threads before it in the ready list, a turn being the ticks of the
  thread and one more interrupt; the threads that ran are then at the end of the list in order.\<close>
theorem round_robin:
  assumes "sched_ok s" "stacks_ok s" "intr_get_status (eflags_reg s) = INTR_ON" "\<And>t. saved_if s t = INTR_ON"
    and "thread_ready_list s = us @ t # vs"
  shows "\<exists>s'. clocks (\<Sum>u\<leftarrow>running s # us. unat (ticks (tasks s u)) + 1) s = Some s' \<and> running s' = t
    \<and> stat s' t = TASK_RUNNING \<and> thread_ready_list s' = vs @ running s # us"
  using turns[OF assms] sched_okD(8) unfolding quantum_def by blast

theorem round_robin_witness: "\<exists>s'. clocks 6 demo_sched = Some s' \<and> running s' = 0x4000"
proof -
  have "intr_get_status (eflags_reg demo_sched) = INTR_ON" "\<And>t. saved_if demo_sched t = INTR_ON"
    "thread_ready_list demo_sched = [0x3000] @ 0x4000 # []"
    by (simp_all add: demo_sched_def intr_get_status_def EFLAGS_IF_def)
  from round_robin[OF demo_sched_ok this] show ?thesis
    by (auto simp: demo_sched_def demo_task_def)
qed

text \<open>C30: thread_start on a fresh page appends a ready thread to both lists, gives it a pid no other
  thread has, so that pid2thread finds it, and leaves its switch frame 432 bytes below the end of
  its page; the scheduler stays in order. A free pid and a name of at most 15 chars are needed.\<close>
theorem thread_start_correct:
  assumes "sched_ok s" "pids_ok s" "free_pid s j" "th \<notin> set (thread_all_list s)" "th \<noteq> 0"
    "length name < 16" "th \<noteq> main_thread s"
  shows "\<exists>s'. thread_start kt th name prio f a s = Some s' \<and> sched_ok s' \<and> pids_ok s'
    \<and> thread_ready_list s' = thread_ready_list s @ [th]
    \<and> pid2thread (sint (pid (tasks s' th))) s' = th
    \<and> self_kstack (tasks s' th) = th + 4096 - 432"
proof -
  obtain s' where "thread_start kt th name prio f a s = Some s'" "sched_ok s'" "pids_ok s'"
    "thread_all_list s' = thread_all_list s @ [th]" "thread_ready_list s' = thread_ready_list s @ [th]"
    "self_kstack (tasks s' th) = th + 4096 - 432"
    using thread_start_ok[OF assms] by blast
  then show ?thesis using pid2thread_found[of s' th] by simp
qed

theorem thread_start_witness:
  "\<exists>s'. thread_start 0xC0001000 0x5000 ''k_a'' 31 0xC0002000 0 demo_sched = Some s' \<and> pids_ok s'"
proof -
  have "0x5000 \<notin> set (thread_all_list demo_sched)" "0x5000 \<noteq> main_thread demo_sched"
    by (simp_all add: demo_sched_def)
  then show ?thesis
    using thread_start_correct[OF demo_sched_ok(1) demo_pids_ok, of "0x5000" "''k_a''" "0xC0001000" 31 "0xC0002000" 0] by auto
qed

text \<open>C31: thread_exit of another thread takes it out of both lists, frees its page directory and its
  PCB page, makes its pid free again, and keeps the scheduler and the pids in order.\<close>
theorem thread_exit_correct:
  assumes "sched_ok s" "pids_ok s" "distinct (thread_all_list s)"
    and "t \<in> set (thread_all_list s)" "t \<noteq> running s" "t \<noteq> idle_thread s" "t \<noteq> main_thread s"
  shows "\<exists>s' i. thread_exit t False s = Some s' \<and> sched_ok s' \<and> pids_ok s'
    \<and> pid (tasks s t) = of_nat (i + 1) \<and> free_pid s' i
    \<and> set (thread_all_list s') = set (thread_all_list s) - {t} \<and> t \<notin> set (thread_ready_list s')
    \<and> freed_pages s' = freed_pages s @ (if pgdir (tasks s t) = 0 then [] else [pgdir (tasks s t)]) @ [t]"
  using thread_exit_other[OF assms] sched_okD(1) by blast

theorem thread_exit_witness:
  "\<exists>s'. thread_exit 0x3000 False demo_sched = Some s' \<and> 0x3000 \<notin> set (thread_ready_list s')"
proof -
  have "distinct (thread_all_list demo_sched)" "0x3000 \<in> set (thread_all_list demo_sched)"
    "0x3000 \<noteq> running demo_sched" "0x3000 \<noteq> idle_thread demo_sched" "0x3000 \<noteq> main_thread demo_sched"
    by (simp_all add: demo_sched_def)
  from thread_exit_correct[OF demo_sched_ok(1) demo_pids_ok(1) this] show ?thesis by blast
qed

end
