(* ===== verification/Sync.thy ===== *)
theory Sync
  imports Thread
begin

text \<open>
  sync.c: the binary semaphore and the recursive lock, under preemption. One lock and the
  scheduler of Thread make up the state, with the place every thread has reached in
  lock_acquire and lock_release. A step is one statement of the running thread or, where the
  code runs with interrupts off, the statements up to the next point where another thread can
  run; between two steps the clock may interrupt whenever the flag is set.
\<close>

section \<open>Semaphores and locks\<close>

record semaphore =
  sema_value :: u8
  waiters :: "u32 list"

record lock =
  holder :: u32
  sema :: semaphore
  holder_repeat_nr :: u32

definition sema_init :: "u8 \<Rightarrow> semaphore" where
  "sema_init v = \<lparr>sema_value = v, waiters = []\<rparr>"

definition lock_init :: lock where
  "lock_init = \<lparr>holder = 0, sema = sema_init 1, holder_repeat_nr = 0\<rparr>"

text \<open>Where a thread is in lock_acquire and lock_release; \<open>Inside\<close> is between the two.\<close>

datatype lock_pc =
    Outside
  | Down_entry       \<comment> \<open>before sema_down\<close>
  | Down_loop        \<comment> \<open>in the loop of sema_down, interrupts off\<close>
  | Down_done        \<comment> \<open>before holder is set\<close>
  | Holder_set       \<comment> \<open>before holder_repeat_nr is set to 1\<close>
  | Inside
  | Holder_cleared   \<comment> \<open>before holder_repeat_nr is set to 0\<close>
  | Count_cleared    \<comment> \<open>before sema_up\<close>

record sync =
  sch :: sched
  lck :: lock
  pc :: "u32 \<Rightarrow> lock_pc"
  old_if :: "u32 \<Rightarrow> intr_status"

definition goto :: "lock_pc \<Rightarrow> sync \<Rightarrow> sync" where
  "goto p s = s\<lparr>pc := (pc s)(running (sch s) := p)\<rparr>"

definition intr_restore :: "intr_status \<Rightarrow> sched \<Rightarrow> sched" where
  "intr_restore old s = s\<lparr>eflags_reg := snd (intr_set_status old (eflags_reg s))\<rparr>"

definition sema_upd :: "(semaphore \<Rightarrow> semaphore) \<Rightarrow> sync \<Rightarrow> sync" where
  "sema_upd f s = s\<lparr>lck := (lck s)\<lparr>sema := f (sema (lck s))\<rparr>\<rparr>"

text \<open>One iteration of the loop of sema_down, and what follows the loop.\<close>

definition sema_down_loop :: "sync \<Rightarrow> sync option" where
  "sema_down_loop s =
     (let cur = running (sch s); psema = sema (lck s) in
      if sema_value psema = 0 then
        do {
          ASSERT (cur \<notin> set (waiters psema));
          let s1 = goto Down_loop (sema_upd (\<lambda>m. m\<lparr>waiters := waiters m @ [cur]\<rparr>) s) in
          do { k \<leftarrow> thread_block TASK_BLOCKED (sch s1); Some (s1\<lparr>sch := k\<rparr>) }
        }
      else
        let s1 = sema_upd (\<lambda>m. m\<lparr>sema_value := sema_value m - 1\<rparr>) s in
        do {
          ASSERT (sema_value (sema (lck s1)) = 0);
          Some (goto Down_done (s1\<lparr>sch := intr_restore (old_if s1 cur) (sch s1)\<rparr>))
        })"

definition sema_down_enter :: "sync \<Rightarrow> sync option" where
  "sema_down_enter s =
     (let (old_status, fl) = intr_disable (eflags_reg (sch s)) in
      sema_down_loop (s\<lparr>sch := (sch s)\<lparr>eflags_reg := fl\<rparr>, old_if := (old_if s)(running (sch s) := old_status)\<rparr>))"

definition sema_up :: "sync \<Rightarrow> sync option" where
  "sema_up s =
     (let (old_status, fl) = intr_disable (eflags_reg (sch s));
          s0 = s\<lparr>sch := (sch s)\<lparr>eflags_reg := fl\<rparr>\<rparr> in
      do {
        ASSERT (sema_value (sema (lck s0)) = 0);
        s1 \<leftarrow> (if waiters (sema (lck s0)) \<noteq> [] then
                 let thread_blocked = hd (waiters (sema (lck s0)));
                     s' = sema_upd (\<lambda>m. m\<lparr>waiters := tl (waiters m)\<rparr>) s0 in
                 do { k \<leftarrow> thread_unblock thread_blocked (sch s'); Some (s'\<lparr>sch := k\<rparr>) }
               else Some s0);
        let s2 = sema_upd (\<lambda>m. m\<lparr>sema_value := sema_value m + 1\<rparr>) s1 in
        do {
          ASSERT (sema_value (sema (lck s2)) = 1);
          Some (s2\<lparr>sch := intr_restore old_status (sch s2)\<rparr>)
        }
      })"

text \<open>lock_acquire: the test of the holder; then, for a thread that is not the holder, sema_down
  and the two assignments.\<close>

definition lock_acquire_test :: "sync \<Rightarrow> sync" where
  "lock_acquire_test s =
     (if holder (lck s) \<noteq> running (sch s) then goto Down_entry s
      else s\<lparr>lck := (lck s)\<lparr>holder_repeat_nr := holder_repeat_nr (lck s) + 1\<rparr>\<rparr>)"

definition lock_acquire_holder :: "sync \<Rightarrow> sync" where
  "lock_acquire_holder s = goto Holder_set (s\<lparr>lck := (lck s)\<lparr>holder := running (sch s)\<rparr>\<rparr>)"

definition lock_acquire_count :: "sync \<Rightarrow> sync option" where
  "lock_acquire_count s =
     do {
       ASSERT (holder_repeat_nr (lck s) = 0);
       Some (goto Inside (s\<lparr>lck := (lck s)\<lparr>holder_repeat_nr := 1\<rparr>\<rparr>))
     }"

definition lock_release_test :: "sync \<Rightarrow> sync option" where
  "lock_release_test s =
     do {
       ASSERT (holder (lck s) = running (sch s));
       if holder_repeat_nr (lck s) > 1
       then Some (s\<lparr>lck := (lck s)\<lparr>holder_repeat_nr := holder_repeat_nr (lck s) - 1\<rparr>\<rparr>)
       else do {
         ASSERT (holder_repeat_nr (lck s) = 1);
         Some (goto Holder_cleared (s\<lparr>lck := (lck s)\<lparr>holder := 0\<rparr>\<rparr>))
       }
     }"

definition lock_release_count :: "sync \<Rightarrow> sync" where
  "lock_release_count s = goto Count_cleared (s\<lparr>lck := (lck s)\<lparr>holder_repeat_nr := 0\<rparr>\<rparr>)"

definition lock_release_up :: "sync \<Rightarrow> sync option" where
  "lock_release_up s = do { s1 \<leftarrow> sema_up s; Some (goto Outside s1) }"

section \<open>The system\<close>

datatype sync_event = Acquire | Release | Go | Sched sched_event

definition sched_lift :: "sched_event \<Rightarrow> sync \<Rightarrow> sync option" where
  "sched_lift e s = do { k \<leftarrow> sched_do e (sch s); Some (s\<lparr>sch := k\<rparr>) }"

definition go_on :: "sync \<Rightarrow> sync option" where
  "go_on s =
     (case pc s (running (sch s)) of
        Down_entry \<Rightarrow> sema_down_enter s
      | Down_loop \<Rightarrow> sema_down_loop s
      | Down_done \<Rightarrow> Some (lock_acquire_holder s)
      | Holder_set \<Rightarrow> lock_acquire_count s
      | Holder_cleared \<Rightarrow> Some (lock_release_count s)
      | Count_cleared \<Rightarrow> lock_release_up s
      | Outside \<Rightarrow> Some s
      | Inside \<Rightarrow> Some s)"

fun sync_do :: "sync_event \<Rightarrow> sync \<Rightarrow> sync option" where
  "sync_do Acquire s = Some (lock_acquire_test s)"
| "sync_do Release s = lock_release_test s"
| "sync_do Go s = go_on s"
| "sync_do (Sched e) s = sched_lift e s"

text \<open>
  The discipline of the callers: a thread releases what it holds, does not nest 2^32 - 1 times,
  the idle thread takes no lock, a thread blocks or yields on its own account only outside
  these functions, and nobody else wakes a thread that waits in sema_down.
\<close>

definition own_code :: "lock_pc \<Rightarrow> bool" where
  "own_code p \<longleftrightarrow> p = Outside \<or> p = Inside"

fun sync_may :: "sync_event \<Rightarrow> sync \<Rightarrow> bool" where
  "sync_may Acquire s \<longleftrightarrow> own_code (pc s (running (sch s))) \<and> running (sch s) \<noteq> idle_thread (sch s)
     \<and> holder_repeat_nr (lck s) < 0xFFFFFFFF"
| "sync_may Release s \<longleftrightarrow> pc s (running (sch s)) = Inside"
| "sync_may Go s \<longleftrightarrow> \<not> own_code (pc s (running (sch s)))"
| "sync_may (Sched Tick) s \<longleftrightarrow> sched_may Tick (sch s)"
| "sync_may (Sched (Block st)) s \<longleftrightarrow> sched_may (Block st) (sch s) \<and> own_code (pc s (running (sch s)))"
| "sync_may (Sched (Unblock t)) s \<longleftrightarrow> sched_may (Unblock t) (sch s) \<and> own_code (pc s t)"
| "sync_may (Sched Yield) s \<longleftrightarrow> own_code (pc s (running (sch s)))"

inductive sync_reach :: "sync \<Rightarrow> sync \<Rightarrow> bool" for s0 where
  start: "sync_reach s0 s0"
| step: "sync_reach s0 s \<Longrightarrow> sync_may e s \<Longrightarrow> sync_do e s = Some s' \<Longrightarrow> sync_reach s0 s'"

section \<open>What the scheduler does to the threads of the lock\<close>

definition awake :: "sched \<Rightarrow> u32 \<Rightarrow> bool" where
  "awake k t \<longleftrightarrow> stat k t = TASK_RUNNING \<or> stat k t = TASK_READY"

lemma switched_frame:
  assumes "sched_pre k" "switched k k'" "t \<noteq> idle_thread k"
  shows "awake k' t = awake k t" "\<not> awake k t \<Longrightarrow> stat k' t = stat k t"
proof -
  have sw: "stat k' t = (if t = hd (run_queue k) then TASK_RUNNING
      else if t = running k \<and> stat k t = TASK_RUNNING then TASK_READY else stat k t)"
    using assms(2) unfolding switched_def by blast
  have "awake k t" if "t = hd (run_queue k)"
  proof (cases "thread_ready_list k")
    case Nil
    then show ?thesis using that assms(3) by (auto simp: run_queue_def Let_def awake_def split: if_splits)
  next
    case (Cons u us)
    then have "t \<in> set (thread_ready_list k)" using that by (simp add: run_queue_def Let_def)
    then show ?thesis using assms(1) by (simp add: sched_pre_def awake_def)
  qed
  then show "awake k' t = awake k t" "\<not> awake k t \<Longrightarrow> stat k' t = stat k t"
    using sw by (auto simp: awake_def)
qed

text \<open>\<open>same_threads\<close>: the scheduler is in order and knows the same threads.\<close>

definition same_threads :: "sched \<Rightarrow> sched \<Rightarrow> bool" where
  "same_threads k k' \<longleftrightarrow> sched_ok k' \<and> thread_all_list k' = thread_all_list k \<and> idle_thread k' = idle_thread k"

lemma switched_same: "sched_pre k \<Longrightarrow> switched k k' \<Longrightarrow> same_threads k k'"
  using switched_ok unfolding same_threads_def switched_def by blast

lemma awake_resume [simp]: "awake (resume k) t = awake k t"
  by (simp add: awake_def)

lemma entry_pre:
  "sched_ok k \<Longrightarrow> st \<in> {TASK_BLOCKED, TASK_WAITING, TASK_HANGING} \<Longrightarrow> sched_pre (block_entry st k)"
  "sched_ok k \<Longrightarrow> sched_pre (yield_entry k)"
proof -
  assume k: "sched_ok k"
  note ok = sched_okD[OF k]
  show "sched_pre (yield_entry k)"
    unfolding sched_pre_def yield_entry_def using ok by auto
  assume "st \<in> {TASK_BLOCKED, TASK_WAITING, TASK_HANGING}"
  then have "st \<noteq> TASK_RUNNING" "st \<noteq> TASK_READY" "st \<noteq> TASK_DIED" by auto
  then show "sched_pre (block_entry st k)"
    unfolding sched_pre_def block_entry_def using ok by auto
qed

lemma block_frame:
  assumes "sched_ok k" "st \<in> {TASK_BLOCKED, TASK_WAITING, TASK_HANGING}"
  shows "\<exists>k'. thread_block st k = Some k' \<and> same_threads k k'
    \<and> (\<forall>t. t \<noteq> idle_thread k \<longrightarrow> (awake k' t \<longleftrightarrow> t \<noteq> running k \<and> awake k t)
        \<and> (\<not> awake k' t \<longrightarrow> stat k' t = (if t = running k then st else stat k t)))"
proof -
  obtain k' where k': "thread_block st k = Some (resume k')" "switched (block_entry st k) k'"
    using thread_block_result[OF assms] by blast
  note pre = entry_pre(1)[OF assms]
  have e: "stat (block_entry st k) t = (if t = running k then st else stat k t)"
    "idle_thread (block_entry st k) = idle_thread k" "thread_all_list (block_entry st k) = thread_all_list k" for t
    by (simp_all add: block_entry_def)
  have a: "awake (block_entry st k) t \<longleftrightarrow> t \<noteq> running k \<and> awake k t" for t
    using assms(2) unfolding awake_def e by auto
  have "same_threads k (resume k')" using switched_same[OF pre k'(2)] by (simp add: same_threads_def e)
  then show ?thesis
    using k'(1) switched_frame[OF pre k'(2)] unfolding e a by (intro exI[of _ "resume k'"]) (simp add: e(1))
qed

lemma unblock_frame:
  assumes "sched_ok k" "u \<in> set (thread_all_list k)" "stat k u \<in> {TASK_BLOCKED, TASK_WAITING, TASK_HANGING}"
  shows "\<exists>k'. thread_unblock u k = Some k' \<and> same_threads k k' \<and> running k' = running k
    \<and> (\<forall>t. (awake k' t \<longleftrightarrow> t = u \<or> awake k t) \<and> (\<not> awake k' t \<longrightarrow> stat k' t = stat k t))"
proof -
  have "u \<notin> set (thread_ready_list k)" using sched_okD(1)[OF assms(1), of u] assms(3) by auto
  from thread_unblock_result[OF assms(3) this] show ?thesis
    using thread_unblock_ok[OF assms] by (auto simp: same_threads_def awake_def)
qed

lemma sched_frame:
  assumes "sched_ok k" "sched_may e k" "e \<in> {Tick, Yield}"
  shows "\<exists>k'. sched_do e k = Some k' \<and> same_threads k k'
    \<and> (\<forall>t. t \<noteq> idle_thread k \<longrightarrow> (awake k' t \<longleftrightarrow> awake k t) \<and> (\<not> awake k' t \<longrightarrow> stat k' t = stat k t))"
proof (cases "e = Yield")
  case True
  obtain k' where k': "thread_yield k = Some (resume k')" "switched (yield_entry k) k'"
    using thread_yield_result[OF assms(1)] by blast
  note pre = entry_pre(2)[OF assms(1)]
  have e: "stat (yield_entry k) t = (if t = running k then TASK_READY else stat k t)"
    "idle_thread (yield_entry k) = idle_thread k" "thread_all_list (yield_entry k) = thread_all_list k" for t
    by (simp_all add: yield_entry_def)
  have a: "awake (yield_entry k) t \<longleftrightarrow> awake k t" for t
    using sched_okD(8)[OF assms(1)] unfolding awake_def e by auto
  have "same_threads k (resume k')" using switched_same[OF pre k'(2)] by (simp add: same_threads_def e)
  moreover have "stat k (running k) = TASK_RUNNING" by (rule sched_okD(8)[OF assms(1)])
  ultimately show ?thesis
    using k'(1) switched_frame[OF pre k'(2)] True unfolding e a
    by (intro exI[of _ "resume k'"]) (auto simp: e(1) awake_def split: if_splits)
next
  case False
  then have t: "e = Tick" using assms(3) by simp
  show ?thesis
  proof (cases "ticks (tasks k (running k)) = 0")
    case True
    obtain k' where k': "clock_interrupt k = Some (resume k')" "switched (tick_entry k) k'"
      using clock_interrupt_switch[OF assms(1) _ True] assms(2) t by auto
    have pre: "sched_pre (tick_entry k)" using tick_entry_ok[OF assms(1)] by (simp add: sched_ok_def)
    have e: "stat (tick_entry k) t = stat k t" for t by simp
    have a: "awake (tick_entry k) t = awake k t" for t unfolding awake_def e ..
    have "same_threads k (resume k')" using switched_same[OF pre k'(2)] by (simp add: same_threads_def)
    then show ?thesis using k'(1) switched_frame[OF pre k'(2)] t unfolding a e tick_entry_simps(5)
      by (intro exI[of _ "resume k'"]) simp
  next
    case False
    let ?k = "resume (task_upd (running k) (\<lambda>p. p\<lparr>ticks := ticks p - 1\<rparr>) (tick_entry k))"
    have "clock_interrupt k = Some ?k" using clock_interrupt_keep[OF _ False] assms(2) t by simp
    moreover have "stat ?k t = stat k t" for t by simp
    moreover have "sched_ok ?k"
      unfolding resume_ok by (subst sched_pre_cong(2)[of _ k]) (simp_all add: assms(1))
    ultimately show ?thesis using t by (simp add: same_threads_def awake_def)
  qed
qed

section \<open>The invariant of the lock\<close>

text \<open>A thread owns the lock from its decrement of the semaphore to its sema_up.\<close>

definition owns :: "lock_pc \<Rightarrow> bool" where
  "owns p \<longleftrightarrow> p = Down_done \<or> p = Holder_set \<or> p = Inside \<or> p = Holder_cleared \<or> p = Count_cleared"

definition count_ok :: "lock_pc \<Rightarrow> u32 \<Rightarrow> bool" where
  "count_ok p n \<longleftrightarrow> (p = Inside \<longrightarrow> n \<noteq> 0) \<and> (p = Down_done \<or> p = Holder_set \<or> p = Count_cleared \<longrightarrow> n = 0)"

definition threads_inv :: "sync \<Rightarrow> bool" where
  "threads_inv s \<longleftrightarrow> sched_ok (sch s) \<and> pc s (idle_thread (sch s)) = Outside
     \<and> (\<forall>t. t \<notin> set (thread_all_list (sch s)) \<longrightarrow> pc s t = Outside)"

definition queue_inv :: "sync \<Rightarrow> bool" where
  "queue_inv s \<longleftrightarrow> distinct (waiters (sema (lck s)))
     \<and> (\<forall>t. t \<in> set (waiters (sema (lck s))) \<longleftrightarrow> pc s t = Down_loop \<and> \<not> awake (sch s) t)
     \<and> (\<forall>t\<in>set (waiters (sema (lck s))). stat (sch s) t = TASK_BLOCKED)"

definition owner_inv :: "u32 option \<Rightarrow> sync \<Rightarrow> bool" where
  "owner_inv ow s \<longleftrightarrow> (\<forall>t. owns (pc s t) \<longleftrightarrow> ow = Some t)
     \<and> (case ow of
          None \<Rightarrow> sema_value (sema (lck s)) = 1 \<and> holder (lck s) = 0 \<and> holder_repeat_nr (lck s) = 0
            \<and> (waiters (sema (lck s)) \<noteq> [] \<longrightarrow> (\<exists>t. pc s t = Down_loop \<and> awake (sch s) t))
        | Some t \<Rightarrow> sema_value (sema (lck s)) = 0 \<and> count_ok (pc s t) (holder_repeat_nr (lck s))
            \<and> holder (lck s) = (if pc s t = Holder_set \<or> pc s t = Inside then t else 0))"

definition sync_inv :: "sync \<Rightarrow> bool" where
  "sync_inv s \<longleftrightarrow> threads_inv s \<and> queue_inv s \<and> (\<exists>ow. owner_inv ow s)"

lemma threads_invD:
  assumes "threads_inv s"
  shows "sched_ok (sch s)" "pc s (idle_thread (sch s)) = Outside"
    "t \<notin> set (thread_all_list (sch s)) \<Longrightarrow> pc s t = Outside"
  using assms unfolding threads_inv_def by blast+

text \<open>Steps of the scheduler alone, seen from the lock: the owner and the queue do not change.\<close>

lemma sync_inv_sched:
  assumes "sync_inv s" "same_threads (sch s) k"
    and "\<And>t. \<not> own_code (pc s t) \<Longrightarrow> awake k t = awake (sch s) t"
    and "\<And>t. \<not> own_code (pc s t) \<Longrightarrow> \<not> awake k t \<Longrightarrow> stat k t = stat (sch s) t"
  shows "sync_inv (s\<lparr>sch := k\<rparr>)"
proof -
  have th: "threads_inv s" and q: "queue_inv s" using assms(1) by (auto simp: sync_inv_def)
  obtain ow where ow: "owner_inv ow s" using assms(1) by (auto simp: sync_inv_def)
  have loop: "\<not> own_code (pc s t)" if "pc s t = Down_loop" for t using that by (simp add: own_code_def)
  have aw: "pc s t = Down_loop \<and> awake k t \<longleftrightarrow> pc s t = Down_loop \<and> awake (sch s) t" for t
    using assms(3)[OF loop] by blast
  have "threads_inv (s\<lparr>sch := k\<rparr>)" using th assms(2) by (simp add: threads_inv_def same_threads_def)
  moreover have "queue_inv (s\<lparr>sch := k\<rparr>)"
  proof -
    have m: "t \<in> set (waiters (sema (lck s))) \<longleftrightarrow> pc s t = Down_loop \<and> \<not> awake k t" for t
      using q aw[of t] by (auto simp: queue_inv_def)
    have "stat k t = TASK_BLOCKED" if "t \<in> set (waiters (sema (lck s)))" for t
      using assms(4)[OF loop, of t] m[of t] that q by (simp add: queue_inv_def)
    then show ?thesis using q m by (simp add: queue_inv_def)
  qed
  moreover have "owner_inv ow (s\<lparr>sch := k\<rparr>)"
    using ow aw by (auto simp: owner_inv_def split: option.splits)
  ultimately show ?thesis by (auto simp: sync_inv_def)
qed

lemma sync_sched_step:
  assumes "sync_inv s" "sync_may (Sched e) s"
  shows "\<exists>s'. sync_do (Sched e) s = Some s' \<and> sync_inv s'"
proof -
  have th: "threads_inv s" using assms(1) by (simp add: sync_inv_def)
  note ok = threads_invD(1)[OF th]
  have ni: "\<not> own_code (pc s t) \<Longrightarrow> t \<noteq> idle_thread (sch s)" for t
    using threads_invD(2)[OF th] by (auto simp: own_code_def)
  obtain k where k: "sched_do e (sch s) = Some k" "same_threads (sch s) k"
    "\<And>t. \<not> own_code (pc s t) \<Longrightarrow> awake k t = awake (sch s) t"
    "\<And>t. \<not> own_code (pc s t) \<Longrightarrow> \<not> awake k t \<Longrightarrow> stat k t = stat (sch s) t"
  proof (cases e)
    case (Block st)
    then have st: "st \<in> {TASK_BLOCKED, TASK_WAITING, TASK_HANGING}" "own_code (pc s (running (sch s)))"
      using assms(2) by simp_all
    obtain k where "thread_block st (sch s) = Some k" "same_threads (sch s) k"
      "\<forall>t. t \<noteq> idle_thread (sch s) \<longrightarrow> (awake k t \<longleftrightarrow> t \<noteq> running (sch s) \<and> awake (sch s) t)
        \<and> (\<not> awake k t \<longrightarrow> stat k t = (if t = running (sch s) then st else stat (sch s) t))"
      using block_frame[OF ok st(1)] by blast
    then show ?thesis using that[of k] Block ni st(2) by (metis sched_do.simps(2))
  next
    case (Unblock u)
    then have u: "u \<in> set (thread_all_list (sch s))" "stat (sch s) u \<in> {TASK_BLOCKED, TASK_WAITING, TASK_HANGING}"
      "own_code (pc s u)" using assms(2) by simp_all
    from unblock_frame[OF ok u(1,2)] show ?thesis using that Unblock u(3) by (metis sched_do.simps(3))
  next
    case Tick
    from sched_frame[OF ok, of e] show ?thesis using that ni Tick assms(2) by (metis insertCI sync_may.simps(4))
  next
    case Yield
    from sched_frame[OF ok, of e] show ?thesis using that ni Yield
      by (metis insertCI sched_may.simps(4))
  qed
  show ?thesis using sync_inv_sched[OF assms(1) k(2-4)] k(1) by (simp add: sched_lift_def)
qed

section \<open>The steps of the lock\<close>

lemma sched_ok_flag [simp]: "sched_ok (k\<lparr>eflags_reg := f\<rparr>) = sched_ok k"
  by (rule sched_pre_cong(2)) simp_all

lemma awake_flag [simp]: "awake (k\<lparr>eflags_reg := f\<rparr>) t = awake k t"
  by (simp add: awake_def)

lemma intr_restore_simps [simp]:
  "sched_ok (intr_restore old k) = sched_ok k" "awake (intr_restore old k) t = awake k t"
  "running (intr_restore old k) = running k" "thread_all_list (intr_restore old k) = thread_all_list k"
  "idle_thread (intr_restore old k) = idle_thread k" "tasks (intr_restore old k) = tasks k"
  by (simp_all add: intr_restore_def)

lemma goto_simps [simp]:
  "sch (goto p s) = sch s" "lck (goto p s) = lck s" "pc (goto p s) = (pc s)(running (sch s) := p)"
  "old_if (goto p s) = old_if s"
  by (simp_all add: goto_def)

lemma sema_upd_simps [simp]:
  "sch (sema_upd f s) = sch s" "lck (sema_upd f s) = (lck s)\<lparr>sema := f (sema (lck s))\<rparr>"
  "pc (sema_upd f s) = pc s" "old_if (sema_upd f s) = old_if s"
  by (simp_all add: sema_upd_def)

text \<open>The running thread is awake, so it is in no queue, and a thread in the lock is not idle.\<close>

lemma running_facts:
  assumes "sync_inv s"
  shows "awake (sch s) (running (sch s))" "running (sch s) \<notin> set (waiters (sema (lck s)))"
    "running (sch s) \<in> set (thread_all_list (sch s))" "running (sch s) \<noteq> 0"
    "pc s (running (sch s)) \<noteq> Outside \<Longrightarrow> running (sch s) \<noteq> idle_thread (sch s)"
proof -
  have th: "threads_inv s" and q: "queue_inv s" using assms by (auto simp: sync_inv_def)
  note ok = sched_okD[OF threads_invD(1)[OF th]]
  show aw: "awake (sch s) (running (sch s))" using ok(8) by (simp add: awake_def)
  then show "running (sch s) \<notin> set (waiters (sema (lck s)))" using q by (simp add: queue_inv_def)
  show m: "running (sch s) \<in> set (thread_all_list (sch s))" by (rule ok(7))
  then show "running (sch s) \<noteq> 0" using ok(6) by metis
  show "pc s (running (sch s)) \<noteq> Outside \<Longrightarrow> running (sch s) \<noteq> idle_thread (sch s)"
    using threads_invD(2)[OF th] by metis
qed

text \<open>A step of the running thread that keeps the semaphore's queue and switches to nobody.\<close>

lemma sync_inv_goto:
  assumes inv: "sync_inv s"
    and r: "running (sch s) \<noteq> idle_thread (sch s)"
    and q: "waiters (sema L) = waiters (sema (lck s))"
    and ow: "owner_inv ow (s\<lparr>lck := L, pc := (pc s)(running (sch s) := p)\<rparr>)"
    and k: "sched_ok k" "running k = running (sch s)" "thread_all_list k = thread_all_list (sch s)"
      "idle_thread k = idle_thread (sch s)" "\<And>t. stat k t = stat (sch s) t"
  shows "sync_inv (s\<lparr>lck := L, pc := (pc s)(running (sch s) := p), sch := k\<rparr>)"
proof -
  note f = running_facts[OF inv]
  have th: "threads_inv s" and qi: "queue_inv s" using inv by (auto simp: sync_inv_def)
  have a: "awake k t = awake (sch s) t" for t using k(5) by (simp add: awake_def)
  have "threads_inv (s\<lparr>lck := L, pc := (pc s)(running (sch s) := p), sch := k\<rparr>)"
    using th r f(3) k by (auto simp: threads_inv_def)
  moreover have "queue_inv (s\<lparr>lck := L, pc := (pc s)(running (sch s) := p), sch := k\<rparr>)"
    using qi q f(1,2) a k(5) by (auto simp: queue_inv_def)
  moreover have "owner_inv ow (s\<lparr>lck := L, pc := (pc s)(running (sch s) := p), sch := k\<rparr>)"
    using ow a by (cases ow) (simp_all add: owner_inv_def)
  ultimately show ?thesis by (auto simp: sync_inv_def)
qed

lemma sync_inv_goto0:
  assumes "sync_inv s" "running (sch s) \<noteq> idle_thread (sch s)" "waiters (sema L) = waiters (sema (lck s))"
    and "owner_inv ow (s\<lparr>lck := L, pc := (pc s)(running (sch s) := p)\<rparr>)"
  shows "sync_inv (goto p (s\<lparr>lck := L\<rparr>))"
proof -
  have "sched_ok (sch s)" using assms(1) threads_invD(1) by (simp add: sync_inv_def)
  from sync_inv_goto[OF assms this] show ?thesis by (simp add: goto_def)
qed

lemma goto_same: "pc s (running (sch s)) = p \<Longrightarrow> goto p (s\<lparr>lck := L\<rparr>) = s\<lparr>lck := L\<rparr>"
  by (cases s) (simp add: goto_def fun_upd_idem)

lemma owner_inv_cases:
  assumes "owner_inv ow s" "owns (pc s t)"
  shows "ow = Some t" "sema_value (sema (lck s)) = 0" "count_ok (pc s t) (holder_repeat_nr (lck s))"
    "holder (lck s) = (if pc s t = Holder_set \<or> pc s t = Inside then t else 0)"
    "owns (pc s u) \<Longrightarrow> u = t"
  using assms by (auto simp: owner_inv_def)

lemma holder_owner:
  assumes "owner_inv ow s" "holder (lck s) = t" "t \<noteq> 0"
  shows "ow = Some t \<and> (pc s t = Holder_set \<or> pc s t = Inside)"
  using assms by (cases ow) (simp_all add: owner_inv_def split: if_splits)

text \<open>The owner moves on and stays the owner.\<close>

lemma owner_moves:
  assumes inv: "sync_inv s" and own: "owns (pc s (running (sch s)))" "owns p"
    and L: "sema L = sema (lck s)" "count_ok p (holder_repeat_nr L)"
      "holder L = (if p = Holder_set \<or> p = Inside then running (sch s) else 0)"
  shows "sync_inv (goto p (s\<lparr>lck := L\<rparr>))"
proof -
  let ?r = "running (sch s)"
  obtain ow where ow: "owner_inv ow s" using inv by (auto simp: sync_inv_def)
  note o = owner_inv_cases[OF ow own(1)]
  have "owner_inv (Some ?r) (s\<lparr>lck := L, pc := (pc s)(?r := p)\<rparr>)"
  proof -
    have "owns (((pc s)(?r := p)) t) \<longleftrightarrow> Some ?r = Some t" for t
      using own(2) ow unfolding owner_inv_def o(1) by simp
    then show ?thesis using o(2) L by (simp add: owner_inv_def)
  qed
  moreover have "?r \<noteq> idle_thread (sch s)"
    using running_facts(5)[OF inv] own(1) by (auto simp: owns_def)
  ultimately show ?thesis using sync_inv_goto0[OF inv] L(1) by simp
qed

lemma acquire_step:
  assumes "sync_inv s" "sync_may Acquire s"
  shows "sync_inv (lock_acquire_test s)"
proof -
  let ?r = "running (sch s)"
  note f = running_facts[OF assms(1)]
  have may: "own_code (pc s ?r)" "?r \<noteq> idle_thread (sch s)" "holder_repeat_nr (lck s) < 0xFFFFFFFF"
    using assms(2) by simp_all
  obtain ow where ow: "owner_inv ow s" using assms(1) by (auto simp: sync_inv_def)
  show ?thesis
  proof (cases "holder (lck s) = ?r")
    case True
    then have o: "ow = Some ?r" "pc s ?r = Inside"
      using holder_owner[OF ow True f(4)] may(1) by (auto simp: own_code_def)
    have "holder_repeat_nr (lck s) + 1 \<noteq> 0"
    proof
      assume "holder_repeat_nr (lck s) + 1 = 0"
      then have "holder_repeat_nr (lck s) = -1" by (simp add: eq_neg_iff_add_eq_0)
      then show False using may(3) by simp
    qed
    then have "sync_inv (goto Inside (s\<lparr>lck := (lck s)\<lparr>holder_repeat_nr := holder_repeat_nr (lck s) + 1\<rparr>\<rparr>))"
      using o True by (intro owner_moves[OF assms(1)]) (auto simp: owns_def count_ok_def)
    then show ?thesis using o(2) True by (simp add: lock_acquire_test_def goto_same)
  next
    case False
    then have p: "pc s ?r = Outside"
      using owner_inv_cases(4)[OF ow, of ?r] may(1) by (auto simp: own_code_def owns_def)
    have "owner_inv ow (s\<lparr>lck := lck s, pc := (pc s)(?r := Down_entry)\<rparr>)"
    proof -
      have "owns (((pc s)(?r := Down_entry)) t) \<longleftrightarrow> owns (pc s t)" for t using p by (simp add: owns_def)
      moreover have "((pc s)(?r := Down_entry)) t = Down_loop \<longleftrightarrow> pc s t = Down_loop" for t using p by simp
      moreover have "((pc s)(?r := Down_entry)) t = pc s t" if "ow = Some t" for t
      proof -
        have "owns (pc s t)" using ow that by (simp add: owner_inv_def)
        then have "t \<noteq> ?r" using p by (auto simp: owns_def)
        then show ?thesis by simp
      qed
      ultimately show ?thesis using ow by (cases ow) (simp_all add: owner_inv_def)
    qed
    from sync_inv_goto0[OF assms(1) may(2) refl this] have "sync_inv (goto Down_entry (s\<lparr>lck := lck s\<rparr>))" .
    then show ?thesis using False by (simp add: lock_acquire_test_def)
  qed
qed

text \<open>sema_down: either the thread joins the queue and blocks, or it becomes the owner.\<close>

lemma down_step:
  assumes inv: "sync_inv s" and p: "pc s (running (sch s)) = Down_entry \<or> pc s (running (sch s)) = Down_loop"
  shows "\<exists>s'. sema_down_loop s = Some s' \<and> sync_inv s'"
proof -
  let ?r = "running (sch s)"
  note f = running_facts[OF inv]
  have th: "threads_inv s" and q: "queue_inv s" using inv by (auto simp: sync_inv_def)
  obtain ow where ow: "owner_inv ow s" using inv by (auto simp: sync_inv_def)
  have ni: "?r \<noteq> idle_thread (sch s)" using f(5) p by auto
  have np: "\<not> owns (pc s ?r)" using p by (auto simp: owns_def)
  show ?thesis
  proof (cases ow)
    case None
    then have v: "sema_value (sema (lck s)) = 1" "holder (lck s) = 0" "holder_repeat_nr (lck s) = 0"
      "\<And>t. \<not> owns (pc s t)" using ow by (simp_all add: owner_inv_def)
    define L where "L = (lck s)\<lparr>sema := (sema (lck s))\<lparr>sema_value := 0\<rparr>\<rparr>"
    have "owner_inv (Some ?r) (s\<lparr>lck := L, pc := (pc s)(?r := Down_done)\<rparr>)"
      using v by (auto simp: owner_inv_def L_def count_ok_def) (simp add: owns_def)
    then have "sync_inv (s\<lparr>lck := L, pc := (pc s)(?r := Down_done), sch := intr_restore (old_if s ?r) (sch s)\<rparr>)"
      using threads_invD(1)[OF th] by (intro sync_inv_goto[OF inv ni]) (simp_all add: L_def)
    moreover have "sema_down_loop s = Some (s\<lparr>lck := L, pc := (pc s)(?r := Down_done),
        sch := intr_restore (old_if s ?r) (sch s)\<rparr>)"
      using v(1) by (simp add: sema_down_loop_def Let_def goto_def sema_upd_def L_def)
    ultimately show ?thesis by blast
  next
    case (Some u)
    then have v: "sema_value (sema (lck s)) = 0" and ur: "u \<noteq> ?r" using ow np by (auto simp: owner_inv_def)
    define s1 where "s1 = goto Down_loop (sema_upd (\<lambda>m. m\<lparr>waiters := waiters m @ [?r]\<rparr>) s)"
    obtain k where k: "thread_block TASK_BLOCKED (sch s) = Some k" "same_threads (sch s) k"
      "\<And>t. t \<noteq> idle_thread (sch s) \<Longrightarrow> awake k t \<longleftrightarrow> t \<noteq> ?r \<and> awake (sch s) t"
      "\<And>t. t \<noteq> idle_thread (sch s) \<Longrightarrow> \<not> awake k t \<Longrightarrow> stat k t = (if t = ?r then TASK_BLOCKED else stat (sch s) t)"
      using block_frame[OF threads_invD(1)[OF th], of TASK_BLOCKED] by blast
    have "threads_inv (s1\<lparr>sch := k\<rparr>)"
      using th k(2) ni f(3) by (auto simp: threads_inv_def same_threads_def s1_def)
    moreover have "queue_inv (s1\<lparr>sch := k\<rparr>)"
    proof -
      have idle: "idle_thread (sch s) \<notin> set (waiters (sema (lck s)))"
        using q threads_invD(2)[OF th] by (simp add: queue_inv_def)
      have w: "t \<in> set (waiters (sema (lck s)) @ [?r]) \<longleftrightarrow> ((pc s)(?r := Down_loop)) t = Down_loop \<and> \<not> awake k t" for t
      proof (cases "t = idle_thread (sch s)")
        case True
        then show ?thesis using idle ni threads_invD(2)[OF th] by auto
      next
        case False
        then show ?thesis using k(3)[OF False] q by (auto simp: queue_inv_def)
      qed
      have "stat k t = TASK_BLOCKED" if "t \<in> set (waiters (sema (lck s)) @ [?r])" for t
        using that w[of t] k(4)[of t] idle ni q by (cases "t = ?r") (auto simp: queue_inv_def)
      then show ?thesis using w q f(2) unfolding queue_inv_def by (simp add: s1_def)
    qed
    moreover have "owner_inv ow (s1\<lparr>sch := k\<rparr>)"
    proof -
      have "owns (((pc s)(?r := Down_loop)) t) \<longleftrightarrow> owns (pc s t)" for t using np by (simp add: owns_def)
      then show ?thesis using ow Some ur by (simp add: owner_inv_def s1_def)
    qed
    moreover have "sema_down_loop s = Some (s1\<lparr>sch := k\<rparr>)"
      using v f(2) k(1) by (simp add: sema_down_loop_def Let_def s1_def)
    ultimately show ?thesis by (auto simp: sync_inv_def)
  qed
qed

lemma sync_inv_flags:
  "sync_inv s \<Longrightarrow> sync_inv (s\<lparr>sch := (sch s)\<lparr>eflags_reg := f\<rparr>, old_if := g\<rparr>)"
  unfolding sync_inv_def threads_inv_def queue_inv_def owner_inv_def
  by (simp cong: option.case_cong)

lemma down_enter_step:
  assumes "sync_inv s" "pc s (running (sch s)) = Down_entry"
  shows "\<exists>s'. sema_down_enter s = Some s' \<and> sync_inv s'"
  using down_step[OF sync_inv_flags[OF assms(1)]] assms(2)
  by (auto simp: sema_down_enter_def split: prod.splits)

text \<open>sema_up: the semaphore is free again, and the first waiter, if any, is awake.\<close>

lemma up_step:
  assumes inv: "sync_inv s" and p: "pc s (running (sch s)) = Count_cleared"
  shows "\<exists>s'. lock_release_up s = Some s' \<and> sync_inv s'"
proof -
  let ?r = "running (sch s)"
  note f = running_facts[OF inv]
  have th: "threads_inv s" and q: "queue_inv s" using inv by (auto simp: sync_inv_def)
  obtain ow where ow: "owner_inv ow s" using inv by (auto simp: sync_inv_def)
  have own: "owns (pc s ?r)" using p by (simp add: owns_def)
  note o = owner_inv_cases[OF ow own]
  have ni: "?r \<noteq> idle_thread (sch s)" using f(5) p by simp
  have z: "holder_repeat_nr (lck s) = 0" "holder (lck s) = 0" using o(3,4) p by (simp_all add: count_ok_def)
  have none: "\<not> owns (((pc s)(?r := Outside)) t)" for t
    using o(5)[of t] by (cases "t = ?r") (auto simp: owns_def)
  obtain old fl where fl: "intr_disable (eflags_reg (sch s)) = (old, fl)" by fastforce
  show ?thesis
  proof (cases "waiters (sema (lck s))")
    case Nil
    define L where "L = (lck s)\<lparr>sema := (sema (lck s))\<lparr>sema_value := 1\<rparr>\<rparr>"
    let ?k = "intr_restore old ((sch s)\<lparr>eflags_reg := fl\<rparr>)"
    have "owner_inv None (s\<lparr>lck := L, pc := (pc s)(?r := Outside)\<rparr>)"
      using none z Nil by (simp add: owner_inv_def L_def)
    then have "sync_inv (s\<lparr>lck := L, pc := (pc s)(?r := Outside), sch := ?k\<rparr>)"
      using threads_invD(1)[OF th] by (intro sync_inv_goto[OF inv ni]) (simp_all add: L_def)
    moreover have "lock_release_up s = Some (s\<lparr>lck := L, pc := (pc s)(?r := Outside), sch := ?k\<rparr>)"
      using Nil o(2) fl
      by (simp add: lock_release_up_def sema_up_def Let_def goto_def sema_upd_def L_def)
    ultimately show ?thesis by blast
  next
    case (Cons w ws)
    have w: "pc s w = Down_loop" "stat (sch s) w = TASK_BLOCKED" "w \<notin> set ws"
      using q Cons by (auto simp: queue_inv_def)
    have w_all: "w \<in> set (thread_all_list (sch s))" using threads_invD(3)[OF th, of w] w(1) by auto
    define k0 where "k0 = (sch s)\<lparr>eflags_reg := fl\<rparr>"
    have st0: "stat k0 t = stat (sch s) t" for t by (simp add: k0_def)
    obtain k where k: "thread_unblock w k0 = Some k" "same_threads k0 k" "running k = running k0"
      "\<And>t. awake k t \<longleftrightarrow> t = w \<or> awake k0 t" "\<And>t. \<not> awake k t \<Longrightarrow> stat k t = stat k0 t"
      using unblock_frame[of k0 w] w w_all threads_invD(1)[OF th] by (auto simp: k0_def)
    have aw: "awake k0 t = awake (sch s) t" for t by (simp add: k0_def)
    define s' where "s' = s\<lparr>lck := (lck s)\<lparr>sema := \<lparr>sema_value = 1, waiters = ws\<rparr>\<rparr>,
      pc := (pc s)(?r := Outside), sch := intr_restore old k\<rparr>"
    have "lock_release_up s = Some s'"
      using Cons o(2) fl k(1,3)
      by (simp add: lock_release_up_def sema_up_def Let_def goto_def sema_upd_def s'_def k0_def)
    moreover have "threads_inv s'"
      using th k(2) ni by (auto simp: threads_inv_def same_threads_def s'_def k0_def)
    moreover have "queue_inv s'"
    proof -
      have "t \<in> set ws \<longleftrightarrow> ((pc s)(?r := Outside)) t = Down_loop \<and> \<not> awake k t" for t
        using q Cons w(3) p f(1) aw[of t] unfolding k(4) queue_inv_def
        by (metis fun_upd_apply list.set_intros(2) lock_pc.distinct(3) set_ConsD)
      moreover have "stat k t = TASK_BLOCKED" if "t \<in> set ws" for t
        using that q Cons k(4,5)[of t] aw[of t] st0[of t] w(3) by (auto simp: queue_inv_def)
      ultimately show ?thesis using q Cons by (simp add: queue_inv_def s'_def)
    qed
    moreover have "owner_inv None s'"
    proof -
      have "w \<noteq> ?r" "awake k w" using w(1) p k(4) by auto
      then show ?thesis using none z w(1) by (auto simp: owner_inv_def s'_def intro!: exI[of _ w])
    qed
    ultimately show ?thesis by (auto simp: sync_inv_def)
  qed
qed

lemma sync_do_ok:
  assumes inv: "sync_inv s" and may: "sync_may e s"
  shows "\<exists>s'. sync_do e s = Some s' \<and> sync_inv s'"
proof -
  let ?r = "running (sch s)"
  obtain ow where ow: "owner_inv ow s" using inv by (auto simp: sync_inv_def)
  note o = owner_inv_cases[OF ow]
  show ?thesis
  proof (cases e)
    case Acquire
    then show ?thesis using acquire_step[OF inv] may by simp
  next
    case (Sched x)
    then show ?thesis using sync_sched_step[OF inv] may by simp
  next
    case Release
    then have p: "pc s ?r = Inside" using may by simp
    have h: "holder (lck s) = ?r" "holder_repeat_nr (lck s) \<noteq> 0"
      using o(3,4)[of ?r] p by (auto simp: owns_def count_ok_def)
    show ?thesis
    proof (cases "holder_repeat_nr (lck s) > 1")
      case True
      have "holder_repeat_nr (lck s) - 1 \<noteq> 0" using True by auto
      then have "sync_inv (goto Inside (s\<lparr>lck := (lck s)\<lparr>holder_repeat_nr := holder_repeat_nr (lck s) - 1\<rparr>\<rparr>))"
        using p h by (intro owner_moves[OF inv]) (auto simp: owns_def count_ok_def)
      then show ?thesis using True h p Release by (simp add: lock_release_test_def goto_same)
    next
      case False
      then have "holder_repeat_nr (lck s) = 1"
        using h(2) by (simp add: word_less_nat_alt unat_eq_zero[symmetric] word_unat_eq_iff)
      moreover have "sync_inv (goto Holder_cleared (s\<lparr>lck := (lck s)\<lparr>holder := 0\<rparr>\<rparr>))"
        using p h by (intro owner_moves[OF inv]) (auto simp: owns_def count_ok_def)
      ultimately show ?thesis using h Release by (simp add: lock_release_test_def)
    qed
  next
    case Go
    show ?thesis
    proof (cases "pc s ?r")
      case Down_done
      have "sync_inv (goto Holder_set (s\<lparr>lck := (lck s)\<lparr>holder := ?r\<rparr>\<rparr>))"
        using Down_done o(3)[of ?r] by (intro owner_moves[OF inv]) (auto simp: owns_def count_ok_def)
      then show ?thesis using Down_done Go by (simp add: go_on_def lock_acquire_holder_def)
    next
      case Holder_set
      have "sync_inv (goto Inside (s\<lparr>lck := (lck s)\<lparr>holder_repeat_nr := 1\<rparr>\<rparr>))"
        using Holder_set o(4)[of ?r] by (intro owner_moves[OF inv]) (auto simp: owns_def count_ok_def)
      then show ?thesis using Holder_set Go o(3)[of ?r]
        by (simp add: go_on_def lock_acquire_count_def owns_def count_ok_def)
    next
      case Holder_cleared
      have "sync_inv (goto Count_cleared (s\<lparr>lck := (lck s)\<lparr>holder_repeat_nr := 0\<rparr>\<rparr>))"
        using Holder_cleared o(4)[of ?r] by (intro owner_moves[OF inv]) (auto simp: owns_def count_ok_def)
      then show ?thesis using Holder_cleared Go by (simp add: go_on_def lock_release_count_def)
    next
      case Count_cleared
      then show ?thesis using up_step[OF inv] Go by (simp add: go_on_def)
    next
      case Down_entry
      then show ?thesis using down_enter_step[OF inv] Go by (simp add: go_on_def)
    next
      case Down_loop
      then show ?thesis using down_step[OF inv] Go by (simp add: go_on_def)
    qed (use may Go in \<open>simp_all add: own_code_def\<close>)
  qed
qed

lemma sync_reach_inv: "sync_reach s0 s \<Longrightarrow> sync_inv s0 \<Longrightarrow> sync_inv s"
  by (induction rule: sync_reach.induct) (use sync_do_ok in force)+

section \<open>Properties\<close>

text \<open>A system in which nobody has touched the lock yet.\<close>

definition sync_start :: "sync \<Rightarrow> bool" where
  "sync_start s \<longleftrightarrow> sched_ok (sch s) \<and> lck s = lock_init \<and> (\<forall>t. pc s t = Outside)"

lemma sync_start_inv: "sync_start s \<Longrightarrow> sync_inv s"
  by (auto simp: sync_start_def sync_inv_def threads_inv_def queue_inv_def owner_inv_def owns_def
      lock_init_def sema_init_def intro: exI[of _ None])

text \<open>C2: mutual exclusion under every interleaving of the clock, of blocking and of the threads'
  calls: at most one thread is between lock_acquire and lock_release, it is the holder, and while
  it is there the semaphore is 0. No step, lock operation or switch, fails an ASSERT.\<close>
theorem lock_mutual_exclusion:
  assumes "sync_start s0" "sync_reach s0 s"
  shows "(pc s t = Inside \<and> pc s u = Inside \<longrightarrow> t = u)
    \<and> (pc s t = Inside \<longrightarrow> holder (lck s) = t \<and> holder_repeat_nr (lck s) \<noteq> 0 \<and> sema_value (sema (lck s)) = 0)
    \<and> (sync_may e s \<longrightarrow> (\<exists>s'. sync_do e s = Some s' \<and> sync_reach s0 s'))"
proof -
  have inv: "sync_inv s" using sync_reach_inv[OF assms(2) sync_start_inv[OF assms(1)]] .
  then obtain ow where ow: "owner_inv ow s" by (auto simp: sync_inv_def)
  have own: "pc s v = Inside \<Longrightarrow> owns (pc s v)" for v by (simp add: owns_def)
  have "pc s t = Inside \<Longrightarrow> pc s u = Inside \<Longrightarrow> t = u"
    using owner_inv_cases(5)[OF ow own[of t], of u] own[of u] by blast
  moreover have "pc s t = Inside \<Longrightarrow> holder (lck s) = t \<and> holder_repeat_nr (lck s) \<noteq> 0 \<and> sema_value (sema (lck s)) = 0"
    using owner_inv_cases(2-4)[OF ow own[of t]] by (simp add: count_ok_def)
  ultimately show ?thesis using sync_do_ok[OF inv] sync_reach.step[OF assms(2)] by blast
qed

definition demo_sync :: sync where
  "demo_sync = \<lparr>sch = demo_sched, lck = lock_init, pc = (\<lambda>_. Outside), old_if = (\<lambda>_. INTR_ON)\<rparr>"

lemma demo_sync_start: "sync_start demo_sync"
  using demo_sched_ok(1) by (simp add: sync_start_def demo_sync_def)

lemma demo_acquire:
  "sync_may Acquire demo_sync" "sync_do Acquire demo_sync = Some (goto Down_entry demo_sync)"
  by (simp_all add: demo_sync_def own_code_def lock_acquire_test_def lock_init_def demo_sched_def)

theorem lock_mutual_exclusion_witness:
  "sync_reach demo_sync (goto Down_entry demo_sync)
   \<and> (\<exists>s'. sync_do Go (goto Down_entry demo_sync) = Some s' \<and> sync_reach demo_sync s')"
proof -
  have r: "sync_reach demo_sync (goto Down_entry demo_sync)"
    using sync_reach.step[OF sync_reach.start demo_acquire] .
  have "sync_may Go (goto Down_entry demo_sync)" by (simp add: own_code_def)
  then show ?thesis using r lock_mutual_exclusion[OF demo_sync_start r, of 0 0 Go] by blast
qed

text \<open>C5: no wakeup is lost: a thread that sleeps in sema_down is in the queue of the semaphore, in
  state TASK_BLOCKED, and whenever the semaphore is free while threads wait, one thread that is in
  the loop of sema_down is awake, so it will test the semaphore.\<close>
theorem lock_no_lost_wakeup:
  assumes "sync_start s0" "sync_reach s0 s"
  shows "(t \<in> set (waiters (sema (lck s))) \<longleftrightarrow> pc s t = Down_loop \<and> \<not> awake (sch s) t)
    \<and> (t \<in> set (waiters (sema (lck s))) \<longrightarrow> stat (sch s) t = TASK_BLOCKED \<and> t \<notin> set (thread_ready_list (sch s)))
    \<and> (sema_value (sema (lck s)) \<noteq> 0 \<and> waiters (sema (lck s)) \<noteq> []
       \<longrightarrow> (\<exists>u. pc s u = Down_loop \<and> awake (sch s) u))"
proof -
  have inv: "threads_inv s" "queue_inv s" "\<exists>ow. owner_inv ow s"
    using sync_reach_inv[OF assms(2) sync_start_inv[OF assms(1)]] by (auto simp: sync_inv_def)
  have "sema_value (sema (lck s)) \<noteq> 0 \<and> waiters (sema (lck s)) \<noteq> []
      \<longrightarrow> (\<exists>u. pc s u = Down_loop \<and> awake (sch s) u)"
    using inv(3) by (auto simp: owner_inv_def split: option.splits)
  moreover have "stat (sch s) t = TASK_BLOCKED \<longrightarrow> t \<notin> set (thread_ready_list (sch s))"
    using sched_okD(1)[OF threads_invD(1)[OF inv(1)], of t] by auto
  ultimately show ?thesis using inv(2) unfolding queue_inv_def by blast
qed

theorem lock_no_lost_wakeup_witness:
  "sync_reach demo_sync (goto Down_entry demo_sync)
   \<and> (0x2000 \<in> set (waiters (sema (lck (goto Down_entry demo_sync)))) \<longleftrightarrow> False)"
proof -
  have r: "sync_reach demo_sync (goto Down_entry demo_sync)"
    using sync_reach.step[OF sync_reach.start demo_acquire] .
  then show ?thesis using lock_no_lost_wakeup[OF demo_sync_start r, of "0x2000"] by (auto simp: demo_sync_def)
qed

end
