(* ===== verification/Ioqueue.thy ===== *)
theory Ioqueue
  imports Sync
begin

text \<open>
  ioqueue.c: the ring buffer between producers and consumers, and the transfer loops of pipe.c.
  The state of a call is the ring together with the scheduler, because getting and putting wake
  the thread that waits on the other side. A call that would put the caller to sleep has the
  outcome \<open>None\<close>: it does not return before another thread acts. Positions start at 0 and are
  only set by next_pos, so they are natural numbers.
\<close>

section \<open>The ring\<close>

definition bufsize :: nat where
  "bufsize = 4096"

record ioqueue =
  ioq_lock :: lock
  producer :: u32
  consumer :: u32
  ioq_buf :: "u8 list"
  ioq_head :: nat
  ioq_tail :: nat

definition ioqueue_init :: "ioqueue \<Rightarrow> ioqueue" where
  "ioqueue_init ioq = ioq\<lparr>ioq_lock := lock_init, producer := 0, consumer := 0, ioq_head := 0, ioq_tail := 0\<rparr>"

definition next_pos :: "nat \<Rightarrow> nat" where
  "next_pos pos = (pos + 1) mod bufsize"

definition ioq_full :: "ioqueue \<Rightarrow> sched \<Rightarrow> bool option" where
  "ioq_full ioq k =
     do { ASSERT (intr_get_status (eflags_reg k) = INTR_OFF); Some (next_pos (ioq_head ioq) = ioq_tail ioq) }"

definition ioq_empty :: "ioqueue \<Rightarrow> sched \<Rightarrow> bool option" where
  "ioq_empty ioq k =
     do { ASSERT (intr_get_status (eflags_reg k) = INTR_OFF); Some (ioq_head ioq = ioq_tail ioq) }"

text \<open>wakeup unblocks the thread in a waiter field and clears the field.\<close>

definition wakeup :: "u32 \<Rightarrow> sched \<Rightarrow> (u32 \<times> sched) option" where
  "wakeup waiter k = do { ASSERT (waiter \<noteq> 0); k1 \<leftarrow> thread_unblock waiter k; Some (0, k1) }"

text \<open>ioq_wait stores the caller in a waiter field and blocks it.\<close>

definition ioq_wait :: "u32 \<Rightarrow> sched \<Rightarrow> (u32 \<times> sched) option" where
  "ioq_wait waiter k =
     do { ASSERT (waiter = 0); k1 \<leftarrow> thread_block TASK_BLOCKED k; Some (running k, k1) }"

definition ioq_getchar :: "ioqueue \<times> sched \<Rightarrow> (u8 \<times> ioqueue \<times> sched) option" where
  "ioq_getchar s =
     (let (ioq, k) = s in
      do {
        ASSERT (intr_get_status (eflags_reg k) = INTR_OFF);
        empty \<leftarrow> ioq_empty ioq k;
        if empty then None
        else
          let byte = ioq_buf ioq ! ioq_tail ioq; ioq1 = ioq\<lparr>ioq_tail := next_pos (ioq_tail ioq)\<rparr> in
          if producer ioq1 \<noteq> 0
          then do { (w, k1) \<leftarrow> wakeup (producer ioq1) k; Some (byte, ioq1\<lparr>producer := w\<rparr>, k1) }
          else Some (byte, ioq1, k)
      })"

definition ioq_putchar :: "u8 \<Rightarrow> ioqueue \<times> sched \<Rightarrow> (ioqueue \<times> sched) option" where
  "ioq_putchar byte s =
     (let (ioq, k) = s in
      do {
        ASSERT (intr_get_status (eflags_reg k) = INTR_OFF);
        full \<leftarrow> ioq_full ioq k;
        if full then None
        else
          let ioq1 = ioq\<lparr>ioq_buf := (ioq_buf ioq)[ioq_head ioq := byte]\<rparr>;
              ioq2 = ioq1\<lparr>ioq_head := next_pos (ioq_head ioq1)\<rparr> in
          if consumer ioq2 \<noteq> 0
          then do { (w, k1) \<leftarrow> wakeup (consumer ioq2) k; Some (ioq2\<lparr>consumer := w\<rparr>, k1) }
          else Some (ioq2, k)
      })"

definition ioq_length :: "ioqueue \<Rightarrow> nat" where
  "ioq_length ioq =
     (if ioq_head ioq \<ge> ioq_tail ioq then ioq_head ioq - ioq_tail ioq
      else bufsize - (ioq_tail ioq - ioq_head ioq))"

section \<open>The transfer loops of pipe.c\<close>

primrec pipe_read_loop :: "nat \<Rightarrow> ioqueue \<times> sched \<Rightarrow> (u8 list \<times> ioqueue \<times> sched) option" where
  "pipe_read_loop 0 s = Some ([], s)"
| "pipe_read_loop (Suc n) s =
     do { (c, s1) \<leftarrow> ioq_getchar s; (cs, s2) \<leftarrow> pipe_read_loop n s1; Some (c # cs, s2) }"

text \<open>The bytes read; the returned count is their number.\<close>

definition pipe_read :: "nat \<Rightarrow> ioqueue \<times> sched \<Rightarrow> (u8 list \<times> ioqueue \<times> sched) option" where
  "pipe_read cnt s =
     (let ioq_len = ioq_length (fst s); sz = (if ioq_len > cnt then cnt else ioq_len) in pipe_read_loop sz s)"

primrec pipe_write_loop :: "u8 list \<Rightarrow> ioqueue \<times> sched \<Rightarrow> (ioqueue \<times> sched) option" where
  "pipe_write_loop [] s = Some s"
| "pipe_write_loop (c # cs) s = do { s1 \<leftarrow> ioq_putchar c s; pipe_write_loop cs s1 }"

definition pipe_write :: "u8 list \<Rightarrow> ioqueue \<times> sched \<Rightarrow> (nat \<times> ioqueue \<times> sched) option" where
  "pipe_write buf s =
     (let ioq_left = bufsize - ioq_length (fst s);
          sz = (if ioq_left > length buf then length buf else ioq_left) in
      do { s1 \<leftarrow> pipe_write_loop (take sz buf) s; Some (sz, s1) })"

section \<open>The interface: a bounded queue\<close>

text \<open>\<open>put\<close> and \<open>get\<close> return, or have no outcome when the queue is full or empty.\<close>

locale bounded_fifo =
  fixes rep :: "'s \<Rightarrow> 'a list \<Rightarrow> bool"
    and cap :: nat
    and put :: "'a \<Rightarrow> 's \<Rightarrow> 's option"
    and get :: "'s \<Rightarrow> ('a \<times> 's) option"
    and len :: "'s \<Rightarrow> nat"
  assumes rep_cap: "rep s xs \<Longrightarrow> length xs \<le> cap \<and> len s = length xs"
    and put_room: "rep s xs \<Longrightarrow> length xs < cap \<Longrightarrow> \<exists>s'. put x s = Some s' \<and> rep s' (xs @ [x])"
    and put_full: "rep s xs \<Longrightarrow> length xs = cap \<Longrightarrow> put x s = None"
    and get_first: "rep s (x # xs) \<Longrightarrow> \<exists>s'. get s = Some (x, s') \<and> rep s' xs"
    and get_empty: "rep s [] \<Longrightarrow> get s = None"
begin

primrec put_all :: "'a list \<Rightarrow> 's \<Rightarrow> 's option" where
  "put_all [] s = Some s"
| "put_all (x # xs) s = Option.bind (put x s) (put_all xs)"

primrec get_n :: "nat \<Rightarrow> 's \<Rightarrow> ('a list \<times> 's) option" where
  "get_n 0 s = Some ([], s)"
| "get_n (Suc n) s = do { (x, s1) \<leftarrow> get s; (xs, s2) \<leftarrow> get_n n s1; Some (x # xs, s2) }"

lemma put_all_rep:
  "rep s xs \<Longrightarrow> length xs + length ys \<le> cap \<Longrightarrow> \<exists>s'. put_all ys s = Some s' \<and> rep s' (xs @ ys)"
proof (induction ys arbitrary: s xs)
  case (Cons y ys)
  then obtain s1 where "put y s = Some s1" "rep s1 (xs @ [y])" using put_room[of s xs y] by auto
  then show ?case using Cons.IH[of s1 "xs @ [y]"] Cons.prems by simp
qed simp

lemma put_all_over: "rep s xs \<Longrightarrow> cap < length xs + length ys \<Longrightarrow> put_all ys s = None"
proof (induction ys arbitrary: s xs)
  case Nil
  then show ?case using rep_cap by fastforce
next
  case (Cons y ys)
  show ?case
  proof (cases "length xs = cap")
    case True
    then show ?thesis using put_full[OF Cons.prems(1)] by simp
  next
    case False
    then obtain s1 where "put y s = Some s1" "rep s1 (xs @ [y])"
      using put_room[OF Cons.prems(1), of y] rep_cap[OF Cons.prems(1)] by auto
    then show ?thesis using Cons.IH[of s1 "xs @ [y]"] Cons.prems by simp
  qed
qed

lemma get_n_rep: "rep s (xs @ ys) \<Longrightarrow> \<exists>s'. get_n (length xs) s = Some (xs, s') \<and> rep s' ys"
proof (induction xs arbitrary: s)
  case (Cons x xs)
  then obtain s1 where "get s = Some (x, s1)" "rep s1 (xs @ ys)" using get_first[of s x "xs @ ys"] by auto
  then show ?case using Cons.IH[of s1] by auto
qed simp

lemma through:
  assumes "rep s []" "length xs \<le> cap"
  shows "\<exists>s1 s2. put_all xs s = Some s1 \<and> len s1 = length xs \<and> get_n (length xs) s1 = Some (xs, s2) \<and> rep s2 []"
  using put_all_rep[OF assms(1), of xs] get_n_rep[of _ xs "[]"] rep_cap[of _ xs] assms(2) by fastforce

end

section \<open>The ring is a bounded queue of 4095 bytes\<close>

definition ring :: "ioqueue \<Rightarrow> u8 list \<Rightarrow> bool" where
  "ring q xs \<longleftrightarrow> length (ioq_buf q) = bufsize \<and> ioq_tail q < bufsize \<and> length xs < bufsize
     \<and> ioq_head q = (ioq_tail q + length xs) mod bufsize
     \<and> (\<forall>i<length xs. ioq_buf q ! ((ioq_tail q + i) mod bufsize) = xs ! i)"

text \<open>A waiter field is empty or holds a blocked thread; the two do not hold the same thread.\<close>

definition waiter_ok :: "sched \<Rightarrow> u32 \<Rightarrow> bool" where
  "waiter_ok k w \<longleftrightarrow> w = 0 \<or> w \<in> set (thread_all_list k) \<and> stat k w = TASK_BLOCKED"

definition ioq_rep :: "ioqueue \<times> sched \<Rightarrow> u8 list \<Rightarrow> bool" where
  "ioq_rep s xs \<longleftrightarrow> ring (fst s) xs \<and> sched_ok (snd s) \<and> intr_get_status (eflags_reg (snd s)) = INTR_OFF
     \<and> waiter_ok (snd s) (producer (fst s)) \<and> waiter_ok (snd s) (consumer (fst s))
     \<and> (producer (fst s) = consumer (fst s) \<longrightarrow> producer (fst s) = 0)"

lemma wakeup_ok:
  assumes "sched_ok k" "waiter_ok k w" "w \<noteq> 0"
  shows "\<exists>k'. wakeup w k = Some (0, k') \<and> sched_ok k' \<and> eflags_reg k' = eflags_reg k
    \<and> (\<forall>v. v \<noteq> w \<longrightarrow> waiter_ok k v \<longrightarrow> waiter_ok k' v)"
proof -
  have w: "w \<in> set (thread_all_list k)" "stat k w = TASK_BLOCKED" using assms(2,3) by (auto simp: waiter_ok_def)
  then have n: "w \<notin> set (thread_ready_list k)" using sched_okD(1)[OF assms(1), of w] by simp
  let ?k = "set_status w TASK_READY (k\<lparr>thread_ready_list := w # thread_ready_list k\<rparr>)"
  have "thread_unblock w k = Some ?k" using thread_unblock_result[OF _ n] w(2) by simp
  moreover from this have "sched_ok ?k" using thread_unblock_ok[OF assms(1) w(1)] w(2) by auto
  ultimately show ?thesis using assms(3) by (auto simp: wakeup_def waiter_ok_def)
qed

lemma ring_length: "ring q xs \<Longrightarrow> ioq_length q = length xs"
  by (auto simp: ring_def ioq_length_def mod_if)

lemma ring_full: "ring q xs \<Longrightarrow> next_pos (ioq_head q) = ioq_tail q \<longleftrightarrow> length xs = bufsize - 1"
proof -
  assume r: "ring q xs"
  then have b: "ioq_tail q < bufsize" "length xs < bufsize" by (auto simp: ring_def)
  have "next_pos (ioq_head q) = (ioq_tail q + (length xs + 1)) mod bufsize"
    using r by (simp add: ring_def next_pos_def mod_Suc_eq)
  also have "\<dots> = ioq_tail q \<longleftrightarrow> length xs + 1 = bufsize"
    using b by (simp add: mod_if) linarith
  finally show ?thesis using b(1) by linarith
qed

lemma ring_empty: "ring q xs \<Longrightarrow> ioq_head q = ioq_tail q \<longleftrightarrow> xs = []"
proof -
  assume r: "ring q xs"
  then have "ioq_head q = ioq_tail q \<longleftrightarrow> length xs = 0"
    unfolding ring_def by (auto simp: mod_if split: if_splits)
  then show ?thesis by simp
qed

lemma pos_distinct: "i < j \<Longrightarrow> j < bufsize \<Longrightarrow> (t + i) mod bufsize \<noteq> (t + j) mod bufsize"
proof
  assume a: "i < j" "j < bufsize" "(t + i) mod bufsize = (t + j) mod bufsize"
  have "(t + j) mod bufsize = (t + i) mod bufsize \<longleftrightarrow> bufsize dvd (t + j - (t + i))"
    by (rule mod_eq_dvd_iff_nat) (use a in simp)
  then have "bufsize dvd (j - i)" using a(3) by simp
  then show False using a(1,2) by (auto dest!: dvd_imp_le)
qed

lemma ring_put:
  assumes "ring q xs" "length xs < bufsize - 1"
  shows "ring (q\<lparr>ioq_buf := (ioq_buf q)[ioq_head q := c], ioq_head := next_pos (ioq_head q)\<rparr>) (xs @ [c])"
proof -
  have b: "length (ioq_buf q) = bufsize" "ioq_tail q < bufsize" "length xs + 1 < bufsize"
    "ioq_head q = (ioq_tail q + length xs) mod bufsize"
    "\<And>i. i < length xs \<Longrightarrow> ioq_buf q ! ((ioq_tail q + i) mod bufsize) = xs ! i"
    using assms by (auto simp: ring_def)
  have h: "ioq_head q < bufsize" using b(2,4) by simp
  have "(ioq_buf q)[ioq_head q := c] ! ((ioq_tail q + i) mod bufsize) = (xs @ [c]) ! i" if "i < length (xs @ [c])" for i
  proof (cases "i = length xs")
    case True
    then show ?thesis using b(1,4) h by simp
  next
    case False
    then have "i < length xs" using that by simp
    then have "ioq_head q \<noteq> (ioq_tail q + i) mod bufsize" using pos_distinct[of i "length xs" "ioq_tail q"] b(3,4) by simp
    then show ?thesis using b(5)[OF \<open>i < length xs\<close>] \<open>i < length xs\<close> by (simp add: nth_append)
  qed
  then show ?thesis using b by (simp add: ring_def next_pos_def mod_Suc_eq)
qed

lemma ring_get:
  assumes "ring q (x # xs)"
  shows "ioq_buf q ! ioq_tail q = x" "ring (q\<lparr>ioq_tail := next_pos (ioq_tail q)\<rparr>) xs"
proof -
  have b: "length (ioq_buf q) = bufsize" "ioq_tail q < bufsize" "Suc (length xs) < bufsize"
    "ioq_head q = (ioq_tail q + Suc (length xs)) mod bufsize"
    "\<And>i. i < Suc (length xs) \<Longrightarrow> ioq_buf q ! ((ioq_tail q + i) mod bufsize) = (x # xs) ! i"
    using assms by (auto simp: ring_def)
  show "ioq_buf q ! ioq_tail q = x" using b(5)[of 0] b(2) by simp
  have "ioq_buf q ! ((next_pos (ioq_tail q) + i) mod bufsize) = xs ! i" if "i < length xs" for i
    using b(5)[of "Suc i"] that by (simp add: next_pos_def mod_add_left_eq)
  moreover have "next_pos (ioq_tail q) < bufsize" using b(2) by (simp add: next_pos_def)
  ultimately show "ring (q\<lparr>ioq_tail := next_pos (ioq_tail q)\<rparr>) xs"
    using b(1,3,4) by (simp add: ring_def next_pos_def mod_add_left_eq)
qed

lemma putchar_room:
  assumes "ioq_rep s xs" "length xs < bufsize - 1"
  shows "\<exists>s'. ioq_putchar c s = Some s' \<and> ioq_rep s' (xs @ [c])"
proof -
  obtain q k where s: "s = (q, k)" by fastforce
  have r: "ring q xs" "sched_ok k" "intr_get_status (eflags_reg k) = INTR_OFF" "waiter_ok k (producer q)"
    "waiter_ok k (consumer q)" "producer q = consumer q \<Longrightarrow> producer q = 0"
    using assms(1) by (auto simp: ioq_rep_def s)
  have nf: "next_pos (ioq_head q) \<noteq> ioq_tail q" using ring_full[OF r(1)] assms(2) by simp
  define q2 where "q2 = q\<lparr>ioq_buf := (ioq_buf q)[ioq_head q := c], ioq_head := next_pos (ioq_head q)\<rparr>"
  have r2: "ring q2 (xs @ [c])" unfolding q2_def by (rule ring_put[OF r(1) assms(2)])
  show ?thesis
  proof (cases "consumer q = 0")
    case True
    then show ?thesis using r r2 nf s
      by (intro exI[of _ "(q2, k)"]) (simp add: ioq_putchar_def ioq_full_def Let_def q2_def ioq_rep_def)
  next
    case False
    obtain k' where k': "wakeup (consumer q) k = Some (0, k')" "sched_ok k'" "eflags_reg k' = eflags_reg k"
      "\<forall>v. v \<noteq> consumer q \<longrightarrow> waiter_ok k v \<longrightarrow> waiter_ok k' v"
      using wakeup_ok[OF r(2,5) False] by blast
    have "ring (q2\<lparr>consumer := 0\<rparr>) (xs @ [c])" using r2 by (simp add: ring_def)
    moreover have "waiter_ok k' (producer q)" using k'(4) r(4,6) False by (cases "producer q = consumer q") auto
    ultimately show ?thesis using r nf s k' False
      by (intro exI[of _ "(q2\<lparr>consumer := 0\<rparr>, k')"])
        (simp add: ioq_putchar_def ioq_full_def Let_def q2_def ioq_rep_def waiter_ok_def[of k' 0])
  qed
qed

lemma getchar_first:
  assumes "ioq_rep s (x # xs)"
  shows "\<exists>s'. ioq_getchar s = Some (x, s') \<and> ioq_rep s' xs"
proof -
  obtain q k where s: "s = (q, k)" by fastforce
  have r: "ring q (x # xs)" "sched_ok k" "intr_get_status (eflags_reg k) = INTR_OFF" "waiter_ok k (producer q)"
    "waiter_ok k (consumer q)" "producer q = consumer q \<Longrightarrow> producer q = 0"
    using assms by (auto simp: ioq_rep_def s)
  have ne: "ioq_head q \<noteq> ioq_tail q" using ring_empty[OF r(1)] by simp
  note g = ring_get[OF r(1)]
  show ?thesis
  proof (cases "producer q = 0")
    case True
    then show ?thesis using r g ne s
      by (intro exI[of _ "(q\<lparr>ioq_tail := next_pos (ioq_tail q)\<rparr>, k)"])
        (simp add: ioq_getchar_def ioq_empty_def Let_def ioq_rep_def)
  next
    case False
    obtain k' where k': "wakeup (producer q) k = Some (0, k')" "sched_ok k'" "eflags_reg k' = eflags_reg k"
      "\<forall>v. v \<noteq> producer q \<longrightarrow> waiter_ok k v \<longrightarrow> waiter_ok k' v"
      using wakeup_ok[OF r(2,4) False] by blast
    have "ring (q\<lparr>ioq_tail := next_pos (ioq_tail q), producer := 0\<rparr>) xs" using g(2) by (simp add: ring_def)
    moreover have "waiter_ok k' (consumer q)" using k'(4) r(5,6) False by (cases "producer q = consumer q") auto
    ultimately show ?thesis using r g(1) ne s k' False
      by (intro exI[of _ "(q\<lparr>ioq_tail := next_pos (ioq_tail q), producer := 0\<rparr>, k')"])
        (simp add: ioq_getchar_def ioq_empty_def Let_def ioq_rep_def waiter_ok_def[of k' 0])
  qed
qed

interpretation ioq: bounded_fifo ioq_rep "bufsize - 1" ioq_putchar ioq_getchar "\<lambda>s. ioq_length (fst s)"
proof
  fix s :: "ioqueue \<times> sched" and xs x
  show "ioq_rep s xs \<Longrightarrow> length xs \<le> bufsize - 1 \<and> ioq_length (fst s) = length xs"
    by (auto simp: ioq_rep_def ring_length) (auto simp: ring_def)
  show "ioq_rep s xs \<Longrightarrow> length xs < bufsize - 1 \<Longrightarrow> \<exists>s'. ioq_putchar x s = Some s' \<and> ioq_rep s' (xs @ [x])"
    by (rule putchar_room)
  show "ioq_rep s xs \<Longrightarrow> length xs = bufsize - 1 \<Longrightarrow> ioq_putchar x s = None"
    using ring_full[of "fst s" xs] by (cases s) (simp add: ioq_rep_def ioq_putchar_def ioq_full_def)
  show "ioq_rep s (x # xs) \<Longrightarrow> \<exists>s'. ioq_getchar s = Some (x, s') \<and> ioq_rep s' xs"
    by (rule getchar_first)
  show "ioq_rep s [] \<Longrightarrow> ioq_getchar s = None"
    using ring_empty[of "fst s" "[]"] by (cases s) (simp add: ioq_rep_def ioq_getchar_def ioq_empty_def)
qed

section \<open>Pipes\<close>

lemma read_loop_eq: "pipe_read_loop n s = ioq.get_n n s"
  by (induction n arbitrary: s) simp_all

lemma write_loop_eq: "pipe_write_loop cs s = ioq.put_all cs s"
  by (induction cs arbitrary: s) simp_all

lemma pipe_write_rep:
  assumes "ioq_rep s xs"
  shows "length xs + length buf < bufsize \<Longrightarrow>
      \<exists>s'. pipe_write buf s = Some (length buf, s') \<and> ioq_rep s' (xs @ buf)"
    and "bufsize \<le> length xs + length buf \<Longrightarrow> pipe_write buf s = None"
proof -
  have len: "ioq_length (fst s) = length xs" "length xs \<le> bufsize - 1" using ioq.rep_cap[OF assms] by auto
  show "\<exists>s'. pipe_write buf s = Some (length buf, s') \<and> ioq_rep s' (xs @ buf)"
    if room: "length xs + length buf < bufsize"
  proof -
    obtain s' where "ioq.put_all buf s = Some s'" "ioq_rep s' (xs @ buf)"
    proof -
      have "length xs + length buf \<le> bufsize - 1" using room by linarith
      from ioq.put_all_rep[OF assms this] show ?thesis using that by blast
    qed
    moreover have "length buf < bufsize - length xs" using room by linarith
    ultimately show ?thesis
      by (intro exI[of _ s']) (simp add: pipe_write_def Let_def write_loop_eq len)
  qed
  show "pipe_write buf s = None" if "bufsize \<le> length xs + length buf"
  proof -
    let ?sz = "bufsize - length xs"
    have "\<not> length buf < ?sz" "bufsize - 1 < length xs + length (take ?sz buf)"
      using that len(2) by (simp_all add: bufsize_def)
    then show ?thesis
      using ioq.put_all_over[OF assms, of "take ?sz buf"]
      by (simp add: pipe_write_def Let_def write_loop_eq len(1))
  qed
qed

lemma pipe_read_rep:
  assumes "ioq_rep s xs"
  shows "\<exists>s'. pipe_read n s = Some (take n xs, s') \<and> ioq_rep s' (drop n xs)"
proof -
  have len: "ioq_length (fst s) = length xs" using ioq.rep_cap[OF assms] by auto
  have "ioq_rep s (take n xs @ drop n xs)" using assms by simp
  from ioq.get_n_rep[OF this] show ?thesis
    by (cases "length xs > n") (auto simp: pipe_read_def len read_loop_eq)
qed

lemma init_rep:
  "sched_ok k \<Longrightarrow> intr_get_status (eflags_reg k) = INTR_OFF \<Longrightarrow> length (ioq_buf q) = bufsize \<Longrightarrow>
   ioq_rep (ioqueue_init q, k) []"
  by (simp add: ioq_rep_def ring_def ioqueue_init_def waiter_ok_def bufsize_def)

definition demo_ioq :: "ioqueue \<times> sched" where
  "demo_ioq = (ioqueue_init \<lparr>ioq_lock = lock_init, producer = 0, consumer = 0, ioq_buf = replicate bufsize 0,
     ioq_head = 0, ioq_tail = 0\<rparr>, demo_sched\<lparr>eflags_reg := 0\<rparr>)"

lemma demo_ioq_rep: "ioq_rep demo_ioq []"
  unfolding demo_ioq_def using demo_sched_ok(1) by (intro init_rep) (simp_all add: intr_get_status_def)

section \<open>Properties\<close>

text \<open>C28: the ring buffer is a first-in first-out queue of at most 4095 bytes: the bytes that
  ioq_putchar stores come out of ioq_getchar in order, and ioq_length counts them; getting from an
  empty queue and putting into a full one do not return.\<close>
theorem ioqueue_fifo:
  assumes "ioq_rep s xs"
  shows "ioq_length (fst s) = length xs
    \<and> (if length xs = 4095 then ioq_putchar c s = None
       else \<exists>s'. ioq_putchar c s = Some s' \<and> ioq_rep s' (xs @ [c]))
    \<and> (case xs of [] \<Rightarrow> ioq_getchar s = None
       | y # ys \<Rightarrow> \<exists>s'. ioq_getchar s = Some (y, s') \<and> ioq_rep s' ys)"
proof -
  have len: "ioq_length (fst s) = length xs" "length xs \<le> 4095" using ioq.rep_cap[OF assms] by (simp_all add: bufsize_def)
  moreover have "if length xs = 4095 then ioq_putchar c s = None
       else \<exists>s'. ioq_putchar c s = Some s' \<and> ioq_rep s' (xs @ [c])"
    using ioq.put_full[OF assms] ioq.put_room[OF assms, of c] len(2) by (simp add: bufsize_def)
  ultimately show ?thesis
    using ioq.get_first[of s] ioq.get_empty[of s] assms by (cases xs) auto
qed

theorem ioqueue_fifo_witness: "\<exists>s'. ioq_putchar 0x41 demo_ioq = Some s' \<and> ioq_rep s' [0x41]"
  using ioqueue_fifo[OF demo_ioq_rep, of "0x41"] by simp

text \<open>What is written to a pipe is read from it, in pieces of any size: a write that leaves the
  queue below 4096 bytes stores all bytes, a read of n bytes returns the oldest n, or all there
  are, and leaves the rest.\<close>
theorem pipe_transfer:
  assumes "ioq_rep s xs" "length xs + length buf < 4096"
  shows "\<exists>s1 s2. pipe_write buf s = Some (length buf, s1)
    \<and> pipe_read n s1 = Some (take n (xs @ buf), s2) \<and> ioq_rep s2 (drop n (xs @ buf))"
  using pipe_write_rep(1)[OF assms(1), of buf] pipe_read_rep[of _ "xs @ buf" n] assms(2)
  unfolding bufsize_def by blast

theorem pipe_transfer_witness:
  "\<exists>s1 s2. pipe_write [1, 2, 3] demo_ioq = Some (Suc (Suc (Suc 0)), s1) \<and> pipe_read 2 s1 = Some ([1, 2], s2)"
  using pipe_transfer[OF demo_ioq_rep, of "[1, 2, 3]" 2] by simp blast

text \<open>A write that would bring the queue to 4096 bytes or more does not return although pipe_write
  limits its size to avoid blocking: the free space it computes is one byte more than the ring
  holds, so its last ioq_putchar finds the queue full and sleeps.\<close>
theorem pipe_write_blocks:
  assumes "ioq_rep s xs" "4096 \<le> length xs + length buf"
  shows "pipe_write buf s = None"
  using pipe_write_rep(2)[OF assms(1)] assms(2) by (simp add: bufsize_def)

theorem pipe_write_blocks_witness: "pipe_write (replicate 4096 7) demo_ioq = None"
  using pipe_write_blocks[OF demo_ioq_rep] by simp

end
