(* ===== verification/Keyboard.thy ===== *)
theory Keyboard
  imports Ioqueue
begin

text \<open>
  keyboard.c: the interrupt handler that turns scan codes into chars for the ring buffer
  \<open>kbd_buf\<close>. The argument of the handler is the byte it reads from port 0x60. The state holds the
  modifier keys, the e0 prefix flag, the ring with the scheduler (a reader may be woken), and
  the number of times the message for an unknown key was printed.
\<close>

section \<open>Scan codes and the key map\<close>

definition shift_l_make :: u16 where "shift_l_make = 0x2a"
definition shift_r_make :: u16 where "shift_r_make = 0x36"
definition alt_l_make :: u16 where "alt_l_make = 0x38"
definition alt_r_make :: u16 where "alt_r_make = 0xe038"
definition ctrl_l_make :: u16 where "ctrl_l_make = 0x1d"
definition ctrl_r_make :: u16 where "ctrl_r_make = 0xe01d"
definition caps_lock_make :: u16 where "caps_lock_make = 0x3a"

lemmas make_codes = shift_l_make_def shift_r_make_def alt_l_make_def alt_r_make_def ctrl_l_make_def
  ctrl_r_make_def caps_lock_make_def

definition keymap :: "(u8 \<times> u8) list" where
  "keymap =
    [(0x00, 0x00), (0x1b, 0x1b), (0x31, 0x21), (0x32, 0x40), (0x33, 0x23), (0x34, 0x24), (0x35, 0x25), (0x36, 0x5e),
     (0x37, 0x26), (0x38, 0x2a), (0x39, 0x28), (0x30, 0x29), (0x2d, 0x5f), (0x3d, 0x2b), (0x08, 0x08), (0x09, 0x09),
     (0x71, 0x51), (0x77, 0x57), (0x65, 0x45), (0x72, 0x52), (0x74, 0x54), (0x79, 0x59), (0x75, 0x55), (0x69, 0x49),
     (0x6f, 0x4f), (0x70, 0x50), (0x5b, 0x7b), (0x5d, 0x7d), (0x0d, 0x0d), (0x00, 0x00), (0x61, 0x41), (0x73, 0x53),
     (0x64, 0x44), (0x66, 0x46), (0x67, 0x47), (0x68, 0x48), (0x6a, 0x4a), (0x6b, 0x4b), (0x6c, 0x4c), (0x3b, 0x3a),
     (0x27, 0x22), (0x60, 0x7e), (0x00, 0x00), (0x5c, 0x7c), (0x7a, 0x5a), (0x78, 0x58), (0x63, 0x43), (0x76, 0x56),
     (0x62, 0x42), (0x6e, 0x4e), (0x6d, 0x4d), (0x2c, 0x3c), (0x2e, 0x3e), (0x2f, 0x3f), (0x00, 0x00), (0x2a, 0x2a),
     (0x00, 0x00), (0x20, 0x20), (0x00, 0x00)]"

record kbd =
  ctrl_status :: bool
  shift_status :: bool
  alt_status :: bool
  caps_lock_status :: bool
  ext_scancode :: bool
  kbd_buf :: "ioqueue \<times> sched"
  unknown_keys :: nat

text \<open>The keys with two symbols, for which caps lock does not count.\<close>

definition two_symbol_key :: "u16 \<Rightarrow> bool" where
  "two_symbol_key scancode \<longleftrightarrow> scancode < 0x0e \<or> scancode = 0x29 \<or> scancode = 0x1a \<or> scancode = 0x1b
     \<or> scancode = 0x2b \<or> scancode = 0x27 \<or> scancode = 0x28 \<or> scancode = 0x33 \<or> scancode = 0x34
     \<or> scancode = 0x35"

definition shift_for :: "u16 \<Rightarrow> bool \<Rightarrow> bool \<Rightarrow> bool" where
  "shift_for scancode shift_down_last caps_lock_last =
     (if two_symbol_key scancode then (if shift_down_last then True else False)
      else if shift_down_last \<and> caps_lock_last then False
      else if shift_down_last \<or> caps_lock_last then True
      else False)"

definition break_code :: "u16 \<Rightarrow> kbd \<Rightarrow> kbd" where
  "break_code scancode s =
     (let make_code = scancode AND 0xff7f in
      if make_code = ctrl_l_make \<or> make_code = ctrl_r_make then s\<lparr>ctrl_status := False\<rparr>
      else if make_code = shift_l_make \<or> make_code = shift_r_make then s\<lparr>shift_status := False\<rparr>
      else if make_code = alt_l_make \<or> make_code = alt_r_make then s\<lparr>alt_status := False\<rparr>
      else s)"

definition make_code :: "u16 \<Rightarrow> kbd \<Rightarrow> kbd option" where
  "make_code scancode0 s =
     (let ctrl_down_last = ctrl_status s; shift_down_last = shift_status s; caps_lock_last = caps_lock_status s;
          shift = shift_for scancode0 shift_down_last caps_lock_last;
          scancode = scancode0 AND 0x00ff;
          cur_char = (if shift then snd else fst) (keymap ! unat scancode) in
      if cur_char \<noteq> 0 then
        let c = (if (ctrl_down_last \<and> cur_char = 0x6c) \<or> (ctrl_down_last \<and> cur_char = 0x75)
                 then cur_char - 0x61 else cur_char) in
        do {
          full \<leftarrow> ioq_full (fst (kbd_buf s)) (snd (kbd_buf s));
          if \<not> full then do { q \<leftarrow> ioq_putchar c (kbd_buf s); Some (s\<lparr>kbd_buf := q\<rparr>) } else Some s
        }
      else if scancode = ctrl_l_make \<or> scancode = ctrl_r_make then Some (s\<lparr>ctrl_status := True\<rparr>)
      else if scancode = shift_l_make \<or> scancode = shift_r_make then Some (s\<lparr>shift_status := True\<rparr>)
      else if scancode = alt_l_make \<or> scancode = alt_r_make then Some (s\<lparr>alt_status := True\<rparr>)
      else if scancode = caps_lock_make then Some (s\<lparr>caps_lock_status := \<not> caps_lock_status s\<rparr>)
      else Some s)"

definition intr_keyboard_handler :: "u8 \<Rightarrow> kbd \<Rightarrow> kbd option" where
  "intr_keyboard_handler inb s =
     (let scancode0 = ucast inb :: u16 in
      if scancode0 = 0xe0 then Some (s\<lparr>ext_scancode := True\<rparr>)
      else
        let scancode = (if ext_scancode s then 0xe000 OR scancode0 else scancode0);
            s1 = (if ext_scancode s then s\<lparr>ext_scancode := False\<rparr> else s) in
        if scancode AND 0x0080 \<noteq> 0 then Some (break_code scancode s1)
        else if (scancode > 0x00 \<and> scancode < 0x3b) \<or> scancode = alt_r_make \<or> scancode = ctrl_r_make
        then make_code scancode s1
        else Some (s1\<lparr>unknown_keys := unknown_keys s1 + 1\<rparr>))"

definition keyboard_init :: "ioqueue \<Rightarrow> sched \<Rightarrow> kbd" where
  "keyboard_init q k = \<lparr>ctrl_status = False, shift_status = False, alt_status = False, caps_lock_status = False,
     ext_scancode = False, kbd_buf = (ioqueue_init q, k), unknown_keys = 0\<rparr>"

fun keys :: "u8 list \<Rightarrow> kbd \<Rightarrow> kbd option" where
  "keys [] s = Some s"
| "keys (b # bs) s = do { s1 \<leftarrow> intr_keyboard_handler b s; keys bs s1 }"

section \<open>The char a key stands for\<close>

text \<open>For a letter caps lock and shift cancel out, for another key only shift counts; ctrl turns l and u
  into the control chars 11 and 20.\<close>

definition is_letter :: "u8 \<Rightarrow> bool" where
  "is_letter c \<longleftrightarrow> 0x61 \<le> c \<and> c \<le> 0x7a"

definition key_char :: "nat \<Rightarrow> bool \<Rightarrow> bool \<Rightarrow> bool \<Rightarrow> u8" where
  "key_char k shift caps ctrl =
     (let (plain, shifted) = keymap ! k;
          c = (if is_letter plain then if shift \<noteq> caps then shifted else plain
               else if shift then shifted else plain)
      in if ctrl \<and> c = 0x6c then 11 else if ctrl \<and> c = 0x75 then 20 else c)"

lemma key_char_table:
  "list_all (\<lambda>k. \<forall>shift caps.
     (if shift_for (of_nat k) shift caps then snd else fst) (keymap ! k) =
     (let (plain, shifted) = keymap ! k
      in if is_letter plain then if shift \<noteq> caps then shifted else plain
         else if shift then shifted else plain)) [0..<59]"
  by (simp add: upt_rec[of _ 59] keymap_def shift_for_def two_symbol_key_def is_letter_def all_bool_eq)

lemma keymap_char:
  assumes "k < 59"
  shows "(if shift_for (of_nat k) shift caps then snd else fst) (keymap ! k) =
     (let (plain, shifted) = keymap ! k
      in if is_letter plain then if shift \<noteq> caps then shifted else plain
         else if shift then shifted else plain)"
  using key_char_table assms unfolding list_all_iff by auto

lemma keymap_rows: "length keymap = 59" "keymap ! 0 = (0, 0)"
  by (simp_all add: keymap_def)

lemma keymap_zero: "list_all (\<lambda>r. fst r = 0 \<longleftrightarrow> snd r = 0) keymap"
  by (simp add: keymap_def)

lemma keymap_printable: "k < 59 \<Longrightarrow> fst (keymap ! k) = 0 \<longleftrightarrow> snd (keymap ! k) = 0"
  using keymap_zero keymap_rows(1) by (simp add: list_all_length)

text \<open>What the ring receives: one more char, unless it is full.\<close>

definition typed :: "u8 \<Rightarrow> u8 list \<Rightarrow> u8 list" where
  "typed c xs = (if length xs = bufsize - 1 then xs else xs @ [c])"

lemma key_char_eq:
  assumes "k < 59"
  shows "key_char k shift caps ctrl =
    (let c = (if shift_for (of_nat k) shift caps then snd else fst) (keymap ! k)
     in if (ctrl \<and> c = 0x6c) \<or> (ctrl \<and> c = 0x75) then c - 0x61 else c)"
proof -
  have "(if ctrl \<and> c = 0x6c then 11 else if ctrl \<and> c = 0x75 then 20 else c) =
      (if (ctrl \<and> c = 0x6c) \<or> (ctrl \<and> c = 0x75) then c - 0x61 else c)" for c :: u8
    by simp
  then show ?thesis unfolding keymap_char[OF assms] key_char_def Let_def case_prod_beta by simp
qed

lemma low_byte: "(ucast (b :: u8) :: u16) AND 0x00ff = ucast b"
proof (rule bit_word_eqI)
  fix n assume "n < LENGTH(16)"
  show "bit ((ucast b :: u16) AND 0x00ff) n = bit (ucast b :: u16) n"
    using bit_imp_le_length[of b n] by (auto simp: bit_simps mask_simps)
qed

lemma make_code_char:
  assumes "ioq_rep (kbd_buf s) xs" "k < 59" "fst (keymap ! k) \<noteq> 0" "sc AND 0x00ff = of_nat k"
    and "shift_for sc = shift_for (of_nat k)"
  shows "\<exists>q. make_code sc s = Some (s\<lparr>kbd_buf := q\<rparr>)
    \<and> ioq_rep q (typed (key_char k (shift_status s) (caps_lock_status s) (ctrl_status s)) xs)"
proof -
  obtain q k0 where q: "kbd_buf s = (q, k0)" by fastforce
  have rep: "ioq_rep (q, k0) xs" using assms(1) q by simp
  let ?cur = "(if shift_for (of_nat k) (shift_status s) (caps_lock_status s) then snd else fst) (keymap ! k)"
  let ?c = "key_char k (shift_status s) (caps_lock_status s) (ctrl_status s)"
  have u: "unat (of_nat k :: u16) = k" using assms(2) by (simp add: unat_of_nat take_bit_nat_eq_self)
  have nz: "?cur \<noteq> 0" using assms(3) keymap_printable[OF assms(2)] by simp
  have full: "ioq_full q k0 = Some (length xs = bufsize - 1)"
    using rep ring_full[of q xs] by (simp add: ioq_rep_def ioq_full_def)
  have c: "?c = (if (ctrl_status s \<and> ?cur = 0x6c) \<or> (ctrl_status s \<and> ?cur = 0x75) then ?cur - 0x61 else ?cur)"
    unfolding key_char_eq[OF assms(2)] Let_def ..
  have mc: "make_code sc s = (if length xs = bufsize - 1 then Some s
      else do { q' \<leftarrow> ioq_putchar ?c (q, k0); Some (s\<lparr>kbd_buf := q'\<rparr>) })"
    unfolding make_code_def Let_def assms(4,5) u c using nz full q by simp
  show ?thesis
  proof (cases "length xs = bufsize - 1")
    case True
    have "s\<lparr>kbd_buf := (q, k0)\<rparr> = s" by (cases s) (use q in simp)
    then show ?thesis using True mc rep by (intro exI[of _ "(q, k0)"]) (simp add: typed_def)
  next
    case False
    then have "length xs < bufsize - 1" using ioq.rep_cap[OF rep] by simp
    then obtain q' where "ioq_putchar ?c (q, k0) = Some q'" "ioq_rep q' (xs @ [?c])"
      using ioq.put_room[OF rep, of ?c] by blast
    then show ?thesis using False mc by (intro exI[of _ q']) (simp add: typed_def)
  qed
qed

lemma handler_char:
  assumes "ioq_rep (kbd_buf s) xs" "\<not> ext_scancode s" "unat b < 59" "fst (keymap ! unat b) \<noteq> 0"
  shows "\<exists>q. intr_keyboard_handler b s = Some (s\<lparr>kbd_buf := q\<rparr>)
    \<and> ioq_rep q (typed (key_char (unat b) (shift_status s) (caps_lock_status s) (ctrl_status s)) xs)"
proof -
  have sc: "(ucast b :: u16) = of_nat (unat b)" by (simp add: of_nat_unat)
  have nz: "b \<noteq> 0" using assms(4) keymap_rows(2) by auto
  have lt: "(ucast b :: u16) < 0x3b" using assms(3) by (simp add: word_less_nat_alt)
  have gt: "(0 :: u16) < ucast b"
    using nz by (simp add: word_less_nat_alt unat_gt_0)
  have ne: "(ucast b :: u16) \<noteq> 0xe0" using lt by auto
  have b7: "(ucast b :: u16) AND 0x0080 = 0"
  proof -
    have "\<not> bit b 7"
    proof
      assume "bit b 7"
      then have "bit (unat b) 7" by (simp add: bit_unsigned_iff)
      then have "odd (unat b div 128)" by (simp add: bit_iff_odd)
      then show False using assms(3) by simp
    qed
    then show ?thesis by (auto simp: word_and_eq_0 bit_simps mask_simps)
  qed
  have "(ucast b :: u16) AND 0x00ff = of_nat (unat b)" unfolding low_byte by (rule sc)
  moreover have "shift_for (ucast b) = shift_for (of_nat (unat b))" by (simp only: sc)
  ultimately have "\<exists>q. make_code (ucast b) s = Some (s\<lparr>kbd_buf := q\<rparr>)
      \<and> ioq_rep q (typed (key_char (unat b) (shift_status s) (caps_lock_status s) (ctrl_status s)) xs)"
    by (rule make_code_char[OF assms(1,3,4)])
  moreover have "intr_keyboard_handler b s = make_code (ucast b) s"
    unfolding intr_keyboard_handler_def Let_def using lt gt ne b7 assms(2) by simp
  ultimately show ?thesis by simp
qed

text \<open>Any byte: the handler returns, and the ring grows by at most one char, which is not NUL.\<close>

lemma key_char_ne_0: "k < 59 \<Longrightarrow> fst (keymap ! k) \<noteq> 0 \<Longrightarrow> key_char k shift caps ctrl \<noteq> 0"
  using keymap_printable[of k] by (simp add: key_char_eq Let_def)

lemma make_code_range:
  "(0 < sc \<and> sc < 0x3b) \<or> sc = alt_r_make \<or> sc = ctrl_r_make \<Longrightarrow>
   \<exists>k<59. sc AND 0x00ff = of_nat k \<and> (fst (keymap ! k) \<noteq> 0 \<longrightarrow> shift_for sc = shift_for (of_nat k))"
proof (elim disjE)
  assume a: "0 < sc \<and> sc < 0x3b"
  then have k: "unat sc < 59" by (simp add: word_less_nat_alt)
  have "sc AND 0x00ff = sc"
  proof (rule bit_word_eqI)
    fix n assume "n < LENGTH(16)"
    have "n < 8" if "bit sc n"
    proof (rule ccontr)
      assume "\<not> n < 8"
      then have "(2 :: nat) ^ 8 \<le> 2 ^ n" by (intro power_increasing) auto
      moreover have "bit (unat sc) n" using that by (simp add: bit_unsigned_iff)
      then have "2 ^ n \<le> unat sc" by (metis bit_iff_odd div_less even_zero not_le)
      ultimately show False using k by simp
    qed
    then show "bit (sc AND 0x00ff) n = bit sc n" by (auto simp: bit_simps mask_simps)
  qed
  then show ?thesis using k by (intro exI[of _ "unat sc"]) (simp add: of_nat_unat)
next
  assume "sc = alt_r_make"
  then show ?thesis by (intro exI[of _ "0x38"]) (simp add: alt_r_make_def keymap_def)
next
  assume "sc = ctrl_r_make"
  then show ?thesis by (intro exI[of _ "0x1d"]) (simp add: ctrl_r_make_def keymap_def)
qed

lemma make_code_total:
  assumes "ioq_rep (kbd_buf s) xs" "(0 < sc \<and> sc < 0x3b) \<or> sc = alt_r_make \<or> sc = ctrl_r_make"
  shows "\<exists>s' ys. make_code sc s = Some s' \<and> ioq_rep (kbd_buf s') (xs @ ys) \<and> length ys \<le> 1 \<and> 0 \<notin> set ys"
proof -
  obtain k where k: "k < 59" "sc AND 0x00ff = of_nat k"
    "fst (keymap ! k) \<noteq> 0 \<longrightarrow> shift_for sc = shift_for (of_nat k)" using make_code_range[OF assms(2)] by blast
  show ?thesis
  proof (cases "fst (keymap ! k) = 0")
    case True
    have "unat (of_nat k :: u16) = k" using k(1) by (simp add: unat_of_nat take_bit_nat_eq_self)
    moreover have "snd (keymap ! k) = 0" using True keymap_printable[OF k(1)] by simp
    moreover have "\<exists>ys. ioq_rep (kbd_buf s) (xs @ ys) \<and> length ys \<le> Suc 0 \<and> 0 \<notin> set ys"
      using assms(1) by (intro exI[of _ "[]"]) simp
    ultimately show ?thesis using True by (simp add: make_code_def Let_def k(2))
  next
    case False
    let ?c = "key_char k (shift_status s) (caps_lock_status s) (ctrl_status s)"
    obtain q where q: "make_code sc s = Some (s\<lparr>kbd_buf := q\<rparr>)" "ioq_rep q (typed ?c xs)"
      using make_code_char[OF assms(1) k(1) False k(2)] k(3) False by blast
    then show ?thesis using key_char_ne_0[OF k(1) False]
      by (intro exI[of _ "s\<lparr>kbd_buf := q\<rparr>"] exI[of _ "if length xs = bufsize - 1 then [] else [?c]"])
        (simp add: typed_def split: if_splits)
  qed
qed

lemma handler_total:
  assumes "ioq_rep (kbd_buf s) xs"
  shows "\<exists>s' ys. intr_keyboard_handler b s = Some s' \<and> ioq_rep (kbd_buf s') (xs @ ys) \<and> length ys \<le> 1 \<and> 0 \<notin> set ys"
proof -
  have same: "\<exists>ys. ioq_rep (kbd_buf s) (xs @ ys) \<and> length ys \<le> 1 \<and> 0 \<notin> set ys"
    using assms by (intro exI[of _ "[]"]) simp
  define sc where "sc = (if ext_scancode s then 0xe000 OR ucast b else ucast b :: u16)"
  define s1 where "s1 = (if ext_scancode s then s\<lparr>ext_scancode := False\<rparr> else s)"
  have b1: "kbd_buf s1 = kbd_buf s" by (simp add: s1_def)
  have h: "intr_keyboard_handler b s = (if (ucast b :: u16) = 0xe0 then Some (s\<lparr>ext_scancode := True\<rparr>)
      else if sc AND 0x0080 \<noteq> 0 then Some (break_code sc s1)
      else if (0 < sc \<and> sc < 0x3b) \<or> sc = alt_r_make \<or> sc = ctrl_r_make then make_code sc s1
      else Some (s1\<lparr>unknown_keys := unknown_keys s1 + 1\<rparr>))"
    by (simp only: intr_keyboard_handler_def Let_def sc_def s1_def)
  have br: "kbd_buf (break_code sc s1) = kbd_buf s" by (simp add: break_code_def Let_def b1)
  show ?thesis
  proof (cases "(ucast b :: u16) = 0xe0 \<or> sc AND 0x0080 \<noteq> 0 \<or> \<not> ((0 < sc \<and> sc < 0x3b) \<or> sc = alt_r_make \<or> sc = ctrl_r_make)")
    case True
    then show ?thesis unfolding h using same br b1 by auto
  next
    case False
    then show ?thesis unfolding h using make_code_total[of s1 xs sc] assms b1 by simp
  qed
qed

section \<open>Properties\<close>

text \<open>C37: a key with a symbol delivers the char of its key: a letter in upper case exactly when one of
  shift and caps lock is on, another key's second symbol exactly when shift is down, ctrl+l and
  ctrl+u as control chars; on a full ring the char is dropped. No modifier changes.\<close>
theorem key_press_delivers:
  assumes "ioq_rep (kbd_buf s) xs" "\<not> ext_scancode s" "unat b < 59" "fst (keymap ! unat b) \<noteq> 0"
  shows "\<exists>q. intr_keyboard_handler b s = Some (s\<lparr>kbd_buf := q\<rparr>)
    \<and> ioq_rep q (if length xs = 4095 then xs
        else xs @ [key_char (unat b) (shift_status s) (caps_lock_status s) (ctrl_status s)])"
  using handler_char[OF assms] by (simp add: typed_def bufsize_def)

definition demo_kbd :: kbd where
  "demo_kbd = \<lparr>ctrl_status = False, shift_status = True, alt_status = False, caps_lock_status = False,
     ext_scancode = False, kbd_buf = demo_ioq, unknown_keys = 0\<rparr>"

theorem key_press_witness:
  "\<exists>q. intr_keyboard_handler 0x1e demo_kbd = Some (demo_kbd\<lparr>kbd_buf := q\<rparr>) \<and> ioq_rep q [0x41]"
proof -
  have "key_char 0x1e True False False = 0x41" by (simp add: key_char_def keymap_def is_letter_def)
  then show ?thesis
    using key_press_delivers[of demo_kbd "[]" "0x1e"] demo_ioq_rep by (simp add: demo_kbd_def keymap_def)
qed

text \<open>Whatever bytes the keyboard sends, the handler returns after each of them: it neither waits
  on a full ring nor stops the kernel, it appends at most one char per byte, and never a NUL.\<close>
theorem keyboard_never_blocks:
  assumes "ioq_rep (kbd_buf s) xs"
  shows "\<exists>s' ys. keys bs s = Some s' \<and> ioq_rep (kbd_buf s') (xs @ ys)
    \<and> length ys \<le> length bs \<and> 0 \<notin> set ys"
  using assms
proof (induction bs arbitrary: s xs)
  case Nil
  then show ?case by (intro exI[of _ s] exI[of _ "[]"]) simp
next
  case (Cons b bs)
  obtain s1 ys where s1: "intr_keyboard_handler b s = Some s1" "ioq_rep (kbd_buf s1) (xs @ ys)"
    "length ys \<le> 1" "0 \<notin> set ys" using handler_total[OF Cons.prems] by blast
  obtain s' zs where s': "keys bs s1 = Some s'" "ioq_rep (kbd_buf s') ((xs @ ys) @ zs)"
    "length zs \<le> length bs" "0 \<notin> set zs" using Cons.IH[OF s1(2)] by blast
  then show ?case using s1 by (intro exI[of _ s'] exI[of _ "ys @ zs"]) simp
qed

theorem keyboard_never_blocks_witness:
  "\<exists>s'. keys [0xe0, 0x1d, 0x26, 0xe0, 0x9d, 0x45] demo_kbd = Some s'"
  using keyboard_never_blocks[of demo_kbd "[]"] demo_ioq_rep by (simp only: demo_kbd_def kbd.simps) blast

end
