(* ===== verification/Paging.thy ===== *)
theory Paging
  imports Bitmap
begin

text \<open>
  memory.c, pages: the two-level page tables, which the kernel edits through the recursive entry
  1023 of the page directory, and the pools of physical frames and virtual pages. The machine is
  a memory of 32-bit words by physical address and the register that points to the page
  directory; \<open>walk\<close> is the translation the processor does (\<open>None\<close> is a page fault), and every
  access of the code to a table entry goes through it, at the virtual address the code computes.
  The model has no TLB. The locks of the pools bracket whole operations, which are atomic here.
\<close>

section \<open>Translation\<close>

definition PG_SIZE :: u32 where
  "PG_SIZE = 4096"

definition PDE_IDX :: "u32 \<Rightarrow> u32" where
  "PDE_IDX addr = drop_bit 22 (addr AND 0xffc00000)"

definition PTE_IDX :: "u32 \<Rightarrow> u32" where
  "PTE_IDX addr = drop_bit 12 (addr AND 0x003ff000)"

definition pte_ptr :: "u32 \<Rightarrow> u32" where
  "pte_ptr vaddr = 0xffc00000 + drop_bit 10 (vaddr AND 0xffc00000) + PTE_IDX vaddr * 4"

definition pde_ptr :: "u32 \<Rightarrow> u32" where
  "pde_ptr vaddr = 0xfffff000 + PDE_IDX vaddr * 4"

record machine =
  phys :: "u32 \<Rightarrow> u32"
  pg_root :: u32

text \<open>The frame an entry or an address lies in: the upper 20 bits.\<close>

definition frame :: "u32 \<Rightarrow> u32" where
  "frame e = e AND 0xfffff000"

text \<open>The entry of an index in the table a frame holds.\<close>

definition slot :: "u32 \<Rightarrow> u32 \<Rightarrow> u32" where
  "slot f i = frame f + i * 4"

definition present :: "u32 \<Rightarrow> bool" where
  "present e \<longleftrightarrow> e AND 0x00000001 \<noteq> 0"

definition pde_of :: "machine \<Rightarrow> u32 \<Rightarrow> u32" where
  "pde_of m v = phys m (slot (pg_root m) (PDE_IDX v))"

definition pte_addr :: "machine \<Rightarrow> u32 \<Rightarrow> u32" where
  "pte_addr m v = slot (pde_of m v) (PTE_IDX v)"

definition pte_of :: "machine \<Rightarrow> u32 \<Rightarrow> u32" where
  "pte_of m v = phys m (pte_addr m v)"

definition walk :: "machine \<Rightarrow> u32 \<Rightarrow> u32 option" where
  "walk m v =
     (if present (pde_of m v) \<and> present (pte_of m v)
      then Some (frame (pte_of m v) + (v AND 0x00000fff)) else None)"

definition load :: "u32 \<Rightarrow> machine \<Rightarrow> u32 option" where
  "load v m = map_option (phys m) (walk m v)"

definition store :: "u32 \<Rightarrow> u32 \<Rightarrow> machine \<Rightarrow> machine option" where
  "store v w m = map_option (\<lambda>a. m\<lparr>phys := (phys m)(a := w)\<rparr>) (walk m v)"

section \<open>Bits of addresses\<close>

lemma bit_PDE_IDX: "bit (PDE_IDX v) n \<longleftrightarrow> n < 10 \<and> bit v (n + 22)"
  by (auto simp: PDE_IDX_def bit_simps mask_simps ac_simps dest: bit_imp_le_length)

lemma bit_PTE_IDX: "bit (PTE_IDX v) n \<longleftrightarrow> n < 10 \<and> bit v (n + 12)"
  by (auto simp: PTE_IDX_def bit_simps mask_simps ac_simps)

lemma times4: "(w :: u32) * 4 = push_bit 2 w"
  by (simp add: push_bit_eq_mult)

lemma slot_or: "\<forall>n. bit i n \<longrightarrow> n < 10 \<Longrightarrow> slot f i = frame f OR push_bit 2 i"
  unfolding slot_def times4 frame_def by (rule disjunctive_add) (auto simp: bit_simps mask_simps)

lemma bit_slot:
  assumes "\<forall>n. bit i n \<longrightarrow> n < 10"
  shows "bit (slot f i) n \<longleftrightarrow> (if n < 12 then 2 \<le> n \<and> bit i (n - 2) else bit f n)"
  unfolding slot_or[OF assms] frame_def using assms
  by (auto simp: bit_simps mask_simps dest: bit_imp_le_length)

lemma pte_ptr_bits: "bit (pte_ptr v) n \<longleftrightarrow>
  n < 32 \<and> (22 \<le> n \<or> (12 \<le> n \<and> n < 22 \<and> bit v (n + 10)) \<or> (2 \<le> n \<and> n < 12 \<and> bit v (n + 10)))"
proof -
  have a: "(0xffc00000 :: u32) + drop_bit 10 (v AND 0xffc00000) = 0xffc00000 OR drop_bit 10 (v AND 0xffc00000)"
    by (rule disjunctive_add) (auto simp: bit_simps mask_simps)
  have "pte_ptr v = (0xffc00000 OR drop_bit 10 (v AND 0xffc00000)) OR push_bit 2 (PTE_IDX v)"
    unfolding pte_ptr_def a times4
    by (rule disjunctive_add) (auto simp: bit_simps mask_simps bit_PTE_IDX)
  then show ?thesis by (auto simp: bit_simps mask_simps bit_PTE_IDX ac_simps)
qed

lemma pde_ptr_bits: "bit (pde_ptr v) n \<longleftrightarrow> n < 32 \<and> (12 \<le> n \<or> (2 \<le> n \<and> n < 12 \<and> bit v (n + 20)))"
proof -
  have "pde_ptr v = 0xfffff000 OR push_bit 2 (PDE_IDX v)"
    unfolding pde_ptr_def times4
    by (rule disjunctive_add) (auto simp: bit_simps mask_simps bit_PDE_IDX)
  then show ?thesis by (auto simp: bit_simps mask_simps bit_PDE_IDX ac_simps)
qed

lemma bit_frame: "bit (frame e) n \<longleftrightarrow> 12 \<le> n \<and> bit e n"
  by (auto simp: frame_def bit_simps mask_simps dest: bit_imp_le_length)

lemma frame_frame [simp]: "frame (frame e) = frame e"
  by (rule bit_word_eqI) (auto simp: bit_frame)

lemma slot_frame [simp]: "slot (frame f) i = slot f i"
  by (simp add: slot_def)

lemma idx10: "\<forall>n. bit (PDE_IDX v) n \<longrightarrow> n < 10" "\<forall>n. bit (PTE_IDX v) n \<longrightarrow> n < 10"
  by (auto simp: bit_PDE_IDX bit_PTE_IDX)

lemma frame_slot: "\<forall>n. bit i n \<longrightarrow> n < 10 \<Longrightarrow> frame (slot f i) = frame f"
  by (rule bit_word_eqI) (auto simp: bit_frame bit_slot)

lemma slot_inj:
  assumes "\<forall>n. bit i n \<longrightarrow> n < 10" "\<forall>n. bit j n \<longrightarrow> n < 10"
  shows "slot f i = slot g j \<longleftrightarrow> frame f = frame g \<and> i = j"
proof
  assume e: "slot f i = slot g j"
  then have "frame f = frame g" by (metis frame_slot assms)
  moreover have "i = j"
  proof (rule bit_word_eqI)
    fix n assume "n < LENGTH(32)"
    have "bit (slot f i) (n + 2) = bit (slot g j) (n + 2)" using e by simp
    then show "bit i n = bit j n"
      using assms by (cases "n < 10") (auto simp: bit_slot)
  qed
  ultimately show "frame f = frame g \<and> i = j" ..
next
  assume "frame f = frame g \<and> i = j"
  then show "slot f i = slot g j" by (metis slot_frame)
qed

lemma bit_low: "bit (v AND 0x00000fff) n \<longleftrightarrow> n < 12 \<and> bit (v :: u32) n"
  by (auto simp: bit_simps mask_simps)

lemma bit_0x3FF [mask_simps]: "bit (0x3FF :: int) n \<longleftrightarrow> n < 10"
proof -
  have eq: "(0x3FF :: int) = mask 10" by (simp add: mask_eq_exp_minus_1)
  show ?thesis unfolding eq bit_mask_iff by auto
qed

text \<open>A virtual address splits into directory index, table index and offset.\<close>

lemma addr_eqI:
  assumes "PDE_IDX v = PDE_IDX w" "PTE_IDX v = PTE_IDX w" "v AND 0x00000fff = w AND 0x00000fff"
  shows "v = w"
proof (rule bit_word_eqI)
  fix n assume n: "n < LENGTH(32)"
  then consider "n < 12" | "12 \<le> n" "n < 22" | "22 \<le> n" "n < 32" by force
  then show "bit v n = bit w n"
  proof cases
    case 1
    then show ?thesis using arg_cong[OF assms(3), of "\<lambda>x. bit x n"] by (simp only: bit_low) simp
  next
    case 2
    then have "n - 12 < 10" by simp
    then show ?thesis using 2 arg_cong[OF assms(2), of "\<lambda>x. bit x (n - 12)"] by (simp only: bit_PTE_IDX) simp
  next
    case 3
    then have "n - 22 < 10" by simp
    then show ?thesis using 3 arg_cong[OF assms(1), of "\<lambda>x. bit x (n - 22)"] by (simp only: bit_PDE_IDX) simp
  qed
qed

lemma pte_ptr_parts:
  "PDE_IDX (pte_ptr v) = 0x3FF" "PTE_IDX (pte_ptr v) = PDE_IDX v" "pte_ptr v AND 0x00000fff = push_bit 2 (PTE_IDX v)"
  by (rule bit_word_eqI; auto simp: bit_PDE_IDX bit_PTE_IDX bit_low pte_ptr_bits bit_push_bit_iff mask_simps ac_simps)+

lemma pde_ptr_parts:
  "PDE_IDX (pde_ptr v) = 0x3FF" "PTE_IDX (pde_ptr v) = 0x3FF" "pde_ptr v AND 0x00000fff = push_bit 2 (PDE_IDX v)"
  by (rule bit_word_eqI; auto simp: bit_PDE_IDX bit_PTE_IDX bit_low pde_ptr_bits bit_push_bit_iff mask_simps ac_simps)+

lemma slot_parts:
  assumes "\<forall>n. bit i n \<longrightarrow> n < 10"
  shows "PDE_IDX (slot v i) = PDE_IDX v" "PTE_IDX (slot v i) = PTE_IDX v"
    "slot v i AND 0x00000fff = push_bit 2 i"
  by (rule bit_word_eqI; use assms in \<open>auto simp: bit_PDE_IDX bit_PTE_IDX bit_slot bit_low bit_push_bit_iff
      dest: bit_imp_le_length\<close>)+

section \<open>The recursive entry\<close>

definition root_ok :: "machine \<Rightarrow> bool" where
  "root_ok m \<longleftrightarrow> frame (pg_root m) = pg_root m \<and> present (phys m (slot (pg_root m) 0x3FF))
     \<and> frame (phys m (slot (pg_root m) 0x3FF)) = pg_root m"

lemma walk_pte_ptr:
  assumes "root_ok m" "present (pde_of m v)"
  shows "walk m (pte_ptr v) = Some (pte_addr m v)"
proof -
  have e: "pde_of m (pte_ptr v) = phys m (slot (pg_root m) 0x3FF)"
    by (simp add: pde_of_def pte_ptr_parts)
  then have s: "slot (pde_of m (pte_ptr v)) i = slot (pg_root m) i" for i
    using assms(1) by (metis root_ok_def slot_frame)
  have "pte_of m (pte_ptr v) = pde_of m v"
    by (simp add: pte_of_def pte_addr_def pte_ptr_parts s) (simp add: pde_of_def)
  moreover have "present (pde_of m (pte_ptr v))" using assms(1) e by (simp only: root_ok_def)
  ultimately show ?thesis using assms(2)
    by (simp add: walk_def pte_ptr_parts pte_addr_def slot_def times4)
qed

lemma walk_pde_ptr:
  assumes "root_ok m"
  shows "walk m (pde_ptr v) = Some (slot (pg_root m) (PDE_IDX v))"
proof -
  have e: "pde_of m (pde_ptr v) = phys m (slot (pg_root m) 0x3FF)"
    by (simp add: pde_of_def pde_ptr_parts)
  then have s: "slot (pde_of m (pde_ptr v)) i = slot (pg_root m) i" for i
    using assms(1) by (metis root_ok_def slot_frame)
  have "pte_of m (pde_ptr v) = phys m (slot (pg_root m) 0x3FF)"
    by (simp add: pte_of_def pte_addr_def pde_ptr_parts s)
  moreover have "present (phys m (slot (pg_root m) 0x3FF))"
    "frame (phys m (slot (pg_root m) 0x3FF)) = frame (pg_root m)" using assms by (simp_all only: root_ok_def)
  ultimately show ?thesis using e
    by (simp only: walk_def pde_ptr_parts slot_def[of _ "PDE_IDX v"] times4) simp
qed

lemma load_pde: "root_ok m \<Longrightarrow> load (pde_ptr v) m = Some (pde_of m v)"
  by (simp add: load_def walk_pde_ptr pde_of_def)

lemma load_pte: "root_ok m \<Longrightarrow> present (pde_of m v) \<Longrightarrow> load (pte_ptr v) m = Some (pte_of m v)"
  by (simp add: load_def walk_pte_ptr pte_of_def)

section \<open>Pools\<close>

datatype pool_flags = PF_KERNEL | PF_USER

record pool =
  pool_bitmap :: bitmap
  phy_addr_start :: u32
  pool_size :: u32

record virtual_addr =
  vaddr_bitmap :: bitmap
  vaddr_start :: u32

text \<open>\<open>userprog_vaddr\<close> and \<open>cur_pgdir\<close> belong to the running thread; its page directory is 0 for a
  kernel thread.\<close>

record memory =
  mach :: machine
  kernel_pool :: pool
  user_pool :: pool
  kernel_vaddr :: virtual_addr
  userprog_vaddr :: virtual_addr
  cur_pgdir :: u32

definition K_HEAP_START :: u32 where
  "K_HEAP_START = 0xc0100000"

definition pool_of :: "pool_flags \<Rightarrow> memory \<Rightarrow> pool" where
  "pool_of pf s = (if pf = PF_KERNEL then kernel_pool s else user_pool s)"

definition set_pool :: "pool_flags \<Rightarrow> pool \<Rightarrow> memory \<Rightarrow> memory" where
  "set_pool pf p s = (if pf = PF_KERNEL then s\<lparr>kernel_pool := p\<rparr> else s\<lparr>user_pool := p\<rparr>)"

definition vaddr_of :: "pool_flags \<Rightarrow> memory \<Rightarrow> virtual_addr" where
  "vaddr_of pf s = (if pf = PF_KERNEL then kernel_vaddr s else userprog_vaddr s)"

definition set_vaddr :: "pool_flags \<Rightarrow> virtual_addr \<Rightarrow> memory \<Rightarrow> memory" where
  "set_vaddr pf p s = (if pf = PF_KERNEL then s\<lparr>kernel_vaddr := p\<rparr> else s\<lparr>userprog_vaddr := p\<rparr>)"

text \<open>The loops that mark or clear \<open>n\<close> bits from a start.\<close>

primrec set_bits :: "nat \<Rightarrow> nat \<Rightarrow> int \<Rightarrow> bitmap \<Rightarrow> bitmap option" where
  "set_bits 0 start v b = Some b"
| "set_bits (Suc n) start v b = do { b1 \<leftarrow> bitmap_set b start v; set_bits n (Suc start) v b1 }"

definition vaddr_get :: "pool_flags \<Rightarrow> nat \<Rightarrow> memory \<Rightarrow> (u32 \<times> memory) option" where
  "vaddr_get pf pg_cnt s =
     (let va = vaddr_of pf s in
      do {
        bit_idx_start \<leftarrow> bitmap_scan (vaddr_bitmap va) pg_cnt;
        if bit_idx_start = -1 then Some (0, s)
        else do {
          b \<leftarrow> set_bits pg_cnt (nat bit_idx_start) 1 (vaddr_bitmap va);
          let vaddr = vaddr_start va + of_int bit_idx_start * PG_SIZE in
          do {
            ASSERT (pf = PF_USER \<longrightarrow> vaddr < 0xc0000000 - PG_SIZE);
            Some (vaddr, set_vaddr pf (va\<lparr>vaddr_bitmap := b\<rparr>) s)
          }
        }
      })"

definition palloc :: "pool \<Rightarrow> (u32 \<times> pool) option" where
  "palloc m_pool =
     do {
       bit_idx \<leftarrow> bitmap_scan (pool_bitmap m_pool) 1;
       if bit_idx = -1 then Some (0, m_pool)
       else do {
         b \<leftarrow> bitmap_set (pool_bitmap m_pool) (nat bit_idx) 1;
         Some (of_int bit_idx * PG_SIZE + phy_addr_start m_pool, m_pool\<lparr>pool_bitmap := b\<rparr>)
       }
     }"

text \<open>memset with 0 over \<open>n\<close> words of memory.\<close>

primrec clear_words :: "nat \<Rightarrow> u32 \<Rightarrow> machine \<Rightarrow> machine option" where
  "clear_words 0 v m = Some m"
| "clear_words (Suc n) v m = do { m1 \<leftarrow> store v 0 m; clear_words n (v + 4) m1 }"

definition page_table_add :: "u32 \<Rightarrow> u32 \<Rightarrow> memory \<Rightarrow> memory option" where
  "page_table_add vaddr page_phyaddr s =
     (let pde = pde_ptr vaddr; pte = pte_ptr vaddr in
      do {
        d \<leftarrow> load pde (mach s);
        if d AND 0x00000001 \<noteq> 0 then
          do {
            e \<leftarrow> load pte (mach s);
            ASSERT (\<not> e AND 0x00000001 \<noteq> 0);
            m1 \<leftarrow> store pte (page_phyaddr OR 4 OR 2 OR 1) (mach s);
            Some (s\<lparr>mach := m1\<rparr>)
          }
        else
          do {
            (pde_phyaddr, kp) \<leftarrow> palloc (kernel_pool s);
            m1 \<leftarrow> store pde (pde_phyaddr OR 4 OR 2 OR 1) (mach s);
            m2 \<leftarrow> clear_words 1024 (pte AND 0xfffff000) m1;
            e \<leftarrow> load pte m2;
            ASSERT (\<not> e AND 0x00000001 \<noteq> 0);
            m3 \<leftarrow> store pte (page_phyaddr OR 4 OR 2 OR 1) m2;
            Some (s\<lparr>mach := m3, kernel_pool := kp\<rparr>)
          }
      })"

text \<open>The loop of malloc_page; the result says whether a frame was found for every page.\<close>

primrec map_pages :: "nat \<Rightarrow> pool_flags \<Rightarrow> u32 \<Rightarrow> memory \<Rightarrow> (bool \<times> memory) option" where
  "map_pages 0 pf vaddr s = Some (True, s)"
| "map_pages (Suc cnt) pf vaddr s =
     do {
       (page_phyaddr, p) \<leftarrow> palloc (pool_of pf s);
       if page_phyaddr = 0 then Some (False, set_pool pf p s)
       else do {
         s1 \<leftarrow> page_table_add vaddr page_phyaddr (set_pool pf p s);
         map_pages cnt pf (vaddr + PG_SIZE) s1
       }
     }"

definition malloc_page :: "pool_flags \<Rightarrow> nat \<Rightarrow> memory \<Rightarrow> (u32 \<times> memory) option" where
  "malloc_page pf pg_cnt s =
     do {
       ASSERT (0 < pg_cnt \<and> pg_cnt < 3840);
       (vaddr, s1) \<leftarrow> vaddr_get pf pg_cnt s;
       if vaddr = 0 then Some (0, s1)
       else do {
         (ok, s2) \<leftarrow> map_pages pg_cnt pf vaddr s1;
         Some (if ok then vaddr else 0, s2)
       }
     }"

definition get_pages :: "pool_flags \<Rightarrow> nat \<Rightarrow> memory \<Rightarrow> (u32 \<times> memory) option" where
  "get_pages pf pg_cnt s =
     do {
       (vaddr, s1) \<leftarrow> malloc_page pf pg_cnt s;
       if vaddr \<noteq> 0
       then do { m \<leftarrow> clear_words (pg_cnt * 1024) vaddr (mach s1); Some (vaddr, s1\<lparr>mach := m\<rparr>) }
       else Some (0, s1)
     }"

definition get_kernel_pages :: "nat \<Rightarrow> memory \<Rightarrow> (u32 \<times> memory) option" where
  "get_kernel_pages = get_pages PF_KERNEL"

definition get_user_pages :: "nat \<Rightarrow> memory \<Rightarrow> (u32 \<times> memory) option" where
  "get_user_pages = get_pages PF_USER"


text \<open>The bit of one chosen page is marked before its frame is looked for; a thread may only ask for
  pages of its own side.\<close>

definition get_a_page :: "pool_flags \<Rightarrow> u32 \<Rightarrow> memory \<Rightarrow> (u32 \<times> memory) option" where
  "get_a_page pf vaddr s =
     do {
       ASSERT (cur_pgdir s \<noteq> 0 \<and> pf = PF_USER \<or> cur_pgdir s = 0 \<and> pf = PF_KERNEL);
       let va = vaddr_of pf s; bit_idx = unat ((vaddr - vaddr_start va) div PG_SIZE) in
       do {
         ASSERT (0 < bit_idx);
         b \<leftarrow> bitmap_set (vaddr_bitmap va) bit_idx 1;
         let s1 = set_vaddr pf (va\<lparr>vaddr_bitmap := b\<rparr>) s in
         do {
           (page_phyaddr, p) \<leftarrow> palloc (pool_of pf s1);
           if page_phyaddr = 0 then Some (0, set_pool pf p s1)
           else do {
             s2 \<leftarrow> page_table_add vaddr page_phyaddr (set_pool pf p s1);
             Some (vaddr, s2)
           }
         }
       }
     }"

definition get_a_page_without_opvaddrbitmap :: "pool_flags \<Rightarrow> u32 \<Rightarrow> memory \<Rightarrow> (u32 \<times> memory) option" where
  "get_a_page_without_opvaddrbitmap pf vaddr s =
     do {
       (page_phyaddr, p) \<leftarrow> palloc (pool_of pf s);
       if page_phyaddr = 0 then Some (0, set_pool pf p s)
       else do {
         s1 \<leftarrow> page_table_add vaddr page_phyaddr (set_pool pf p s);
         Some (vaddr, s1)
       }
     }"

definition addr_v2p :: "u32 \<Rightarrow> machine \<Rightarrow> u32 option" where
  "addr_v2p vaddr m = do { e \<leftarrow> load (pte_ptr vaddr) m; Some ((e AND 0xfffff000) + (vaddr AND 0x00000fff)) }"

section \<open>Release\<close>

definition pool_flag :: "u32 \<Rightarrow> memory \<Rightarrow> pool_flags" where
  "pool_flag pg_phy_addr s = (if phy_addr_start (user_pool s) \<le> pg_phy_addr then PF_USER else PF_KERNEL)"

definition pfree :: "u32 \<Rightarrow> memory \<Rightarrow> memory option" where
  "pfree pg_phy_addr s =
     (let pf = pool_flag pg_phy_addr s; p = pool_of pf s;
          bit_idx = unat ((pg_phy_addr - phy_addr_start p) div PG_SIZE)
      in do { b \<leftarrow> bitmap_set (pool_bitmap p) bit_idx 0; Some (set_pool pf (p\<lparr>pool_bitmap := b\<rparr>) s) })"

definition free_a_phy_page :: "u32 \<Rightarrow> memory \<Rightarrow> memory option" where
  "free_a_phy_page pg_phy_addr s =
     (let pf = pool_flag pg_phy_addr s; p = pool_of pf s;
          bit_idx = unat ((pg_phy_addr - phy_addr_start p) div PG_SIZE)
      in do { b \<leftarrow> bitmap_set (pool_bitmap p) bit_idx 0; Some (set_pool pf (p\<lparr>pool_bitmap := b\<rparr>) s) })"

definition page_table_pte_remove :: "u32 \<Rightarrow> memory \<Rightarrow> memory option" where
  "page_table_pte_remove vaddr s =
     (let pte = pte_ptr vaddr in
      do { e \<leftarrow> load pte (mach s); m \<leftarrow> store pte (e AND NOT 1) (mach s); Some (s\<lparr>mach := m\<rparr>) })"

definition vaddr_remove :: "pool_flags \<Rightarrow> u32 \<Rightarrow> nat \<Rightarrow> memory \<Rightarrow> memory option" where
  "vaddr_remove pf vaddr pg_cnt s =
     (let va = vaddr_of pf s; bit_idx_start = unat ((vaddr - vaddr_start va) div PG_SIZE)
      in do { b \<leftarrow> set_bits pg_cnt bit_idx_start 0 (vaddr_bitmap va);
              Some (set_vaddr pf (va\<lparr>vaddr_bitmap := b\<rparr>) s) })"

text \<open>The two loops of mfree_page, one for each pool; they differ in the range they allow.\<close>

primrec free_user_frames :: "nat \<Rightarrow> u32 \<Rightarrow> memory \<Rightarrow> memory option" where
  "free_user_frames 0 vaddr s = Some s"
| "free_user_frames (Suc cnt) vaddr s =
     do {
       pg_phy_addr \<leftarrow> addr_v2p vaddr (mach s);
       ASSERT (pg_phy_addr mod PG_SIZE = 0 \<and> phy_addr_start (user_pool s) \<le> pg_phy_addr);
       s1 \<leftarrow> pfree pg_phy_addr s;
       s2 \<leftarrow> page_table_pte_remove vaddr s1;
       free_user_frames cnt (vaddr + PG_SIZE) s2
     }"

primrec free_kernel_frames :: "nat \<Rightarrow> u32 \<Rightarrow> memory \<Rightarrow> memory option" where
  "free_kernel_frames 0 vaddr s = Some s"
| "free_kernel_frames (Suc cnt) vaddr s =
     do {
       pg_phy_addr \<leftarrow> addr_v2p vaddr (mach s);
       ASSERT (pg_phy_addr mod PG_SIZE = 0 \<and> phy_addr_start (kernel_pool s) \<le> pg_phy_addr
         \<and> pg_phy_addr < phy_addr_start (user_pool s));
       s1 \<leftarrow> pfree pg_phy_addr s;
       s2 \<leftarrow> page_table_pte_remove vaddr s1;
       free_kernel_frames cnt (vaddr + PG_SIZE) s2
     }"

definition mfree_page :: "pool_flags \<Rightarrow> u32 \<Rightarrow> nat \<Rightarrow> memory \<Rightarrow> memory option" where
  "mfree_page pf vaddr pg_cnt s =
     do {
       ASSERT (1 \<le> pg_cnt \<and> vaddr mod PG_SIZE = 0);
       pg_phy_addr \<leftarrow> addr_v2p vaddr (mach s);
       ASSERT (pg_phy_addr mod PG_SIZE = 0 \<and> 0x102000 \<le> pg_phy_addr);
       if phy_addr_start (user_pool s) \<le> pg_phy_addr
       then do { s1 \<leftarrow> free_user_frames pg_cnt vaddr s; vaddr_remove pf vaddr pg_cnt s1 }
       else do { s1 \<leftarrow> free_kernel_frames pg_cnt vaddr s; vaddr_remove pf vaddr pg_cnt s1 }
     }"

section \<open>The pools at start\<close>

text \<open>\<open>low\<close> is the memory below 1 MiB, where the bitmaps are placed: kernel frames, user frames
  and kernel pages, one behind the other.\<close>

definition MEM_BITMAP_BASE :: u32 where
  "MEM_BITMAP_BASE = 0xc009a000"

definition bitmap_at :: "(u32 \<Rightarrow> u8) \<Rightarrow> u32 \<Rightarrow> u32 \<Rightarrow> bitmap" where
  "bitmap_at low base len = \<lparr>btmp_bytes_len = unat len, bits = (\<lambda>i. low (base + of_nat i))\<rparr>"

definition mem_pool_init :: "u32 \<Rightarrow> (u32 \<Rightarrow> u8) \<Rightarrow> memory \<Rightarrow> memory" where
  "mem_pool_init all_mem low s =
     (let page_table_size = PG_SIZE * 256;
          used_mem = page_table_size + 0x100000;
          free_mem = all_mem - used_mem;
          all_free_pages = (ucast (free_mem div PG_SIZE) :: u16);
          kernel_free_pages = all_free_pages div 4;
          user_free_pages = all_free_pages - kernel_free_pages;
          kbm_length = (ucast (kernel_free_pages div 8) :: u32);
          ubm_length = (ucast (user_free_pages div 8) :: u32);
          kp_start = used_mem;
          up_start = kp_start + ucast kernel_free_pages * PG_SIZE
      in s\<lparr>kernel_pool := \<lparr>pool_bitmap = bitmap_init (bitmap_at low MEM_BITMAP_BASE kbm_length),
               phy_addr_start = kp_start, pool_size = ucast kernel_free_pages * PG_SIZE\<rparr>,
           user_pool := \<lparr>pool_bitmap = bitmap_init (bitmap_at low (MEM_BITMAP_BASE + kbm_length) ubm_length),
               phy_addr_start = up_start, pool_size = ucast user_free_pages * PG_SIZE\<rparr>,
           kernel_vaddr := \<lparr>vaddr_bitmap = bitmap_init (bitmap_at low (MEM_BITMAP_BASE + kbm_length + ubm_length) kbm_length),
               vaddr_start = K_HEAP_START\<rparr>\<rparr>)"

end
