(* ===== verification/Memory.thy ===== *)
theory Memory
  imports Paging
begin

text \<open>
  memory.c, pages: what holds of the page tables and the pools between two operations, and what
  the operations do to the translation of addresses. The invariant \<open>mem_ok\<close> says that no address
  translates to a frame that a pool counts as free, and that two pages share a pool frame only
  when they share the page table entry (directory entries 0 and 768 of the kernel lead to one
  table, so the first 4 MiB of kernel space have two names).
\<close>

section \<open>Frames of a pool\<close>

definition frame_at :: "pool \<Rightarrow> nat \<Rightarrow> u32" where
  "frame_at p i = phy_addr_start p + of_nat i * 4096"

definition pool_cap :: "pool \<Rightarrow> nat" where
  "pool_cap p = 8 * btmp_bytes_len (pool_bitmap p)"

definition pool_frame :: "pool \<Rightarrow> u32 \<Rightarrow> bool" where
  "pool_frame p a \<longleftrightarrow> (\<exists>i < pool_cap p. a = frame_at p i)"

definition free_frame :: "pool \<Rightarrow> u32 \<Rightarrow> bool" where
  "free_frame p a \<longleftrightarrow> (\<exists>i < pool_cap p. a = frame_at p i \<and> \<not> bitmap_scan_test (pool_bitmap p) i)"

definition pool_ok :: "pool \<Rightarrow> bool" where
  "pool_ok p \<longleftrightarrow> frame (phy_addr_start p) = phy_addr_start p \<and> 0x102000 \<le> phy_addr_start p
     \<and> unat (phy_addr_start p) + 4096 * pool_cap p \<le> 4294967296"

lemma free_pool_frame: "free_frame p a \<Longrightarrow> pool_frame p a"
  by (auto simp: free_frame_def pool_frame_def)

lemma unat_frame_at:
  assumes "pool_ok p" "i < pool_cap p"
  shows "unat (frame_at p i) = unat (phy_addr_start p) + 4096 * i"
proof -
  have "frame_at p i = of_nat (unat (phy_addr_start p) + 4096 * i)"
    by (simp add: frame_at_def ac_simps)
  moreover have "unat (phy_addr_start p) + 4096 * i < 4294967296"
    using assms by (simp add: pool_ok_def)
  ultimately show ?thesis by (simp only: unsigned_of_nat) (simp add: take_bit_nat_eq_self)
qed

lemma frame_at_inj:
  "pool_ok p \<Longrightarrow> i < pool_cap p \<Longrightarrow> j < pool_cap p \<Longrightarrow> frame_at p i = frame_at p j \<longleftrightarrow> i = j"
  by (metis unat_frame_at add_left_cancel mult_cancel1 zero_neq_numeral)

lemma times4096: "(w :: u32) * 4096 = push_bit 12 w"
  by (simp add: push_bit_eq_mult)

lemma frame_iff: "frame a = a \<longleftrightarrow> a AND 0x00000fff = 0"
proof
  assume "frame a = a"
  then have "a AND 0x00000fff = (a AND 0xfffff000) AND 0x00000fff" by (simp add: frame_def)
  also have "\<dots> = 0" by (rule bit_word_eqI) (auto simp: bit_simps mask_simps)
  finally show "a AND 0x00000fff = 0" .
next
  assume e: "a AND 0x00000fff = 0"
  show "frame a = a"
  proof (rule bit_word_eqI)
    fix n
    have "\<not> (n < 12 \<and> bit a n)" using e by (metis bit_low bit_0_eq bot_apply bot_bool_def)
    then show "bit (frame a) n = bit a n" by (auto simp: bit_frame)
  qed
qed

lemma low_take: "(a :: u32) AND 0x00000fff = take_bit 12 a"
proof -
  have "(0x00000fff :: u32) = mask 12" by (simp add: mask_eq_exp_minus_1)
  then show ?thesis by (simp add: take_bit_eq_mask)
qed

lemma low_mod: "(a :: u32) AND 0x00000fff = a mod 4096"
  by (simp add: low_take take_bit_eq_mod)

lemma frame_take: "frame a = a \<longleftrightarrow> take_bit 12 a = 0"
  by (simp add: frame_iff low_take)

lemma take_times4096: "take_bit 12 ((b :: u32) * 4096) = 0"
  unfolding times4096 by (rule bit_word_eqI) (auto simp: bit_simps)

lemma frame_times:
  assumes "frame a = a"
  shows "a = drop_bit 12 a * 4096"
  unfolding times4096
proof (rule bit_word_eqI)
  fix n assume "n < LENGTH(32)"
  then show "bit a n = bit (push_bit 12 (drop_bit 12 a)) n"
    using bit_frame[of a n] assms by (auto simp: bit_simps)
qed

lemma frame_add:
  assumes "frame a = a"
  shows "frame (a + b * 4096) = a + b * 4096" "(a + b * 4096) AND 0x00000fff = 0"
proof -
  have "a + b * 4096 = (drop_bit 12 a + b) * 4096"
    using frame_times[OF assms] by (simp only: distrib_right)
  then have "take_bit 12 (a + b * 4096) = 0" by (simp only: take_times4096)
  then show "frame (a + b * 4096) = a + b * 4096" "(a + b * 4096) AND 0x00000fff = 0"
    by (simp_all only: frame_take low_take)
qed

lemma frame_frame_at [simp]: "pool_ok p \<Longrightarrow> frame (frame_at p i) = frame_at p i"
  by (simp add: pool_ok_def frame_at_def frame_add)

lemma frame_at_pos: "pool_ok p \<Longrightarrow> i < pool_cap p \<Longrightarrow> frame_at p i \<noteq> 0 \<and> 0x102000 \<le> frame_at p i"
  using unat_frame_at[of p i] by (auto simp: pool_ok_def word_le_nat_alt)


lemma frame_plus_low [simp]: "frame f = f \<Longrightarrow> frame (f + (w AND 0x00000fff)) = f"
proof -
  assume f: "frame f = f"
  have "f + (w AND 0x00000fff) = f OR (w AND 0x00000fff)"
    using bit_frame[of f, unfolded f] by (intro disjunctive_add) (metis bit_low not_less)
  moreover have "bit (frame (f OR (w AND 0x00000fff))) n = bit f n" for n
    using bit_frame[of f n, unfolded f] unfolding bit_frame bit_or_iff bit_low by auto
  ultimately show ?thesis by (metis bit_word_eqI)
qed

text \<open>palloc takes a frame that was free; it never returns NULL.\<close>

lemma palloc_spec:
  assumes "pool_ok p" "palloc p = Some (a, p')"
  shows "free_frame p a" "a \<noteq> 0" "frame a = a" "free_frame p' b \<longleftrightarrow> free_frame p b \<and> b \<noteq> a"
    "phy_addr_start p' = phy_addr_start p" "pool_cap p' = pool_cap p" "pool_size p' = pool_size p"
proof -
  obtain r b where r: "bitmap_scan (pool_bitmap p) 1 = Some r" and r1: "r \<noteq> -1"
    and b: "bitmap_set (pool_bitmap p) (nat r) 1 = Some b"
    and a: "a = of_int r * PG_SIZE + phy_addr_start p" "p' = p\<lparr>pool_bitmap := b\<rparr>"
    using assms(2) bm.scan_never_minus_one[of "pool_bitmap p"]
    by (auto simp: palloc_def bind_Some_iff split: if_splits)
  obtain i where i: "r = int i" "i < pool_cap p" "\<not> bitmap_scan_test (pool_bitmap p) i"
    using bm.scan_found[OF r] by (auto simp: pool_cap_def)
  have ai: "a = frame_at p i" using a(1) i(1) by (simp add: frame_at_def PG_SIZE_def add.commute)
  have B: "8 * btmp_bytes_len b = 8 * btmp_bytes_len (pool_bitmap p)"
    "\<And>j. bitmap_scan_test b j \<longleftrightarrow> j = i \<or> bitmap_scan_test (pool_bitmap p) j"
    using bm.markD[OF b] i(1) by auto
  show "free_frame p a" using i ai by (auto simp: free_frame_def)
  show "a \<noteq> 0" "frame a = a" using frame_at_pos[OF assms(1) i(2)] ai assms(1) by simp_all
  show "phy_addr_start p' = phy_addr_start p" "pool_cap p' = pool_cap p" "pool_size p' = pool_size p"
    using a(2) B(1) by (simp_all add: pool_cap_def)
  have "free_frame p' b' \<longleftrightarrow> (\<exists>j < pool_cap p. b' = frame_at p j \<and> j \<noteq> i \<and> \<not> bitmap_scan_test (pool_bitmap p) j)" for b'
    using a(2) B by (auto simp: free_frame_def pool_cap_def frame_at_def)
  then show "free_frame p' b \<longleftrightarrow> free_frame p b \<and> b \<noteq> a" for b
    using ai frame_at_inj[OF assms(1) _ i(2)] by (auto simp: free_frame_def)
qed

lemma palloc_some:
  assumes "free_frame p b"
  shows "\<exists>a p'. palloc p = Some (a, p')"
proof -
  obtain i where "i < 8 * btmp_bytes_len (pool_bitmap p)" "\<not> bitmap_scan_test (pool_bitmap p) i"
    using assms by (auto simp: free_frame_def pool_cap_def)
  then obtain r where r: "bitmap_scan (pool_bitmap p) 1 = Some r" using bm.scan_total by blast
  obtain b where "bitmap_set (pool_bitmap p) (nat r) 1 = Some b" using bm.set_mark by blast
  then show ?thesis using r by (simp add: palloc_def)
qed

lemma pool_ok_cong:
  "phy_addr_start p' = phy_addr_start p \<Longrightarrow> pool_cap p' = pool_cap p \<Longrightarrow> pool_ok p' \<longleftrightarrow> pool_ok p"
  "phy_addr_start p' = phy_addr_start p \<Longrightarrow> pool_cap p' = pool_cap p \<Longrightarrow> pool_frame p' a \<longleftrightarrow> pool_frame p a"
  by (auto simp: pool_ok_def pool_frame_def frame_at_def)

section \<open>Writes to page tables\<close>

abbreviation poke :: "u32 \<Rightarrow> u32 \<Rightarrow> machine \<Rightarrow> machine" where
  "poke x w m \<equiv> m\<lparr>phys := (phys m)(x := w)\<rparr>"

abbreviation recursive :: "u32 \<Rightarrow> bool" where
  "recursive v \<equiv> PDE_IDX v = 0x3FF"

abbreviation heap :: "u32 \<Rightarrow> bool" where
  "heap v \<equiv> \<not> recursive v \<and> PDE_IDX v \<noteq> 0"

lemma frame_pte_addr [simp]: "frame (pte_addr m v) = frame (pde_of m v)"
  by (simp add: pte_addr_def frame_slot idx10)

lemma frame_pde_slot [simp]: "frame (slot r (PDE_IDX v)) = frame r"
  by (simp add: frame_slot idx10)

lemma pde_of_cong:
  "pg_root m' = pg_root m \<Longrightarrow> phys m' (slot (pg_root m) (PDE_IDX v)) = phys m (slot (pg_root m) (PDE_IDX v))
   \<Longrightarrow> pde_of m' v = pde_of m v"
  by (simp add: pde_of_def)

lemma entry_attr:
  "frame a = a \<Longrightarrow> frame (a OR 4 OR 2 OR 1) = a" "present (a OR 4 OR 2 OR 1)"
proof -
  have b: "bit (4 OR 2 OR 1 :: u32) n \<longleftrightarrow> n < 3" for n
  proof -
    have "(4 OR 2 OR 1 :: u32) = mask 3" by (simp add: mask_eq_exp_minus_1)
    then show ?thesis by (auto simp only: bit_mask_iff) auto
  qed
  show "frame a = a \<Longrightarrow> frame (a OR 4 OR 2 OR 1) = a"
  proof (rule bit_word_eqI)
    fix n assume a: "frame a = a"
    have "bit (frame (a OR (4 OR 2 OR 1))) n \<longleftrightarrow> 12 \<le> n \<and> bit a n"
      unfolding bit_frame bit_or_iff[of a] b by auto
    also have "\<dots> \<longleftrightarrow> bit a n" using bit_frame[of a n] a by auto
    finally show "bit (frame (a OR 4 OR 2 OR 1)) n = bit a n" .
  qed
  have "bit (a OR (4 OR 2 OR 1)) 0" unfolding bit_or_iff[of a] b by simp
  then show "present (a OR 4 OR 2 OR 1)" unfolding present_def by (simp only: and_one_eq bit_0) (simp add: odd_iff_mod_2_eq_one[symmetric])
qed

lemma entry7: "frame a = a \<Longrightarrow> frame (a OR 7) = a" "present (a OR 7)"
proof -
  have "(4 OR 2 OR 1 :: u32) = 7" by simp
  then show "frame a = a \<Longrightarrow> frame (a OR 7) = a" "present (a OR 7)"
    using entry_attr[of a] by simp_all
qed


section \<open>The invariant\<close>

definition pt_ok :: "machine \<Rightarrow> bool" where
  "pt_ok m \<longleftrightarrow> root_ok m
     \<and> (\<forall>v. \<not> recursive v \<longrightarrow> present (pde_of m v) \<longrightarrow> frame (pde_of m v) \<noteq> pg_root m)
     \<and> (\<forall>v w. heap v \<longrightarrow> heap w \<longrightarrow> present (pde_of m v) \<longrightarrow> present (pde_of m w) \<longrightarrow>
           frame (pde_of m v) = frame (pde_of m w) \<longrightarrow> PDE_IDX v = PDE_IDX w)"

definition pools_ok :: "memory \<Rightarrow> bool" where
  "pools_ok s \<longleftrightarrow> pool_ok (kernel_pool s) \<and> pool_ok (user_pool s)
     \<and> unat (phy_addr_start (kernel_pool s)) + 4096 * pool_cap (kernel_pool s)
         \<le> unat (phy_addr_start (user_pool s))"

definition any_free :: "memory \<Rightarrow> u32 \<Rightarrow> bool" where
  "any_free s a \<longleftrightarrow> free_frame (kernel_pool s) a \<or> free_frame (user_pool s) a"

definition any_frame :: "memory \<Rightarrow> u32 \<Rightarrow> bool" where
  "any_frame s a \<longleftrightarrow> pool_frame (kernel_pool s) a \<or> pool_frame (user_pool s) a"

definition sealed :: "memory \<Rightarrow> bool" where
  "sealed s \<longleftrightarrow> (\<forall>v p. walk (mach s) v = Some p \<longrightarrow> \<not> any_free s (frame p))"

definition owned :: "memory \<Rightarrow> bool" where
  "owned s \<longleftrightarrow> (\<forall>v w p q. \<not> recursive v \<longrightarrow> \<not> recursive w \<longrightarrow> walk (mach s) v = Some p \<longrightarrow>
     walk (mach s) w = Some q \<longrightarrow> frame p = frame q \<longrightarrow> any_frame s (frame p) \<longrightarrow>
     pte_addr (mach s) v = pte_addr (mach s) w)"

definition mem_ok :: "memory \<Rightarrow> bool" where
  "mem_ok s \<longleftrightarrow> pt_ok (mach s) \<and> pools_ok s \<and> sealed s \<and> owned s"

lemmas mem_ok_defs = mem_ok_def pt_ok_def pools_ok_def sealed_def owned_def

lemma pools_disjoint:
  assumes "pools_ok s" "pool_frame (kernel_pool s) a"
  shows "\<not> pool_frame (user_pool s) a" "a < phy_addr_start (user_pool s)" "phy_addr_start (kernel_pool s) \<le> a"
proof -
  obtain i where i: "i < pool_cap (kernel_pool s)" "a = frame_at (kernel_pool s) i"
    using assms(2) by (auto simp: pool_frame_def)
  then have u: "unat a < unat (phy_addr_start (user_pool s))" "unat (phy_addr_start (kernel_pool s)) \<le> unat a"
    using assms(1) unat_frame_at[of "kernel_pool s" i] by (simp_all add: pools_ok_def)
  then show "a < phy_addr_start (user_pool s)" "phy_addr_start (kernel_pool s) \<le> a"
    by (simp_all add: word_less_nat_alt word_le_nat_alt)
  have "unat (phy_addr_start (user_pool s)) \<le> unat (frame_at (user_pool s) j)" if "j < pool_cap (user_pool s)" for j
    using assms(1) unat_frame_at[of "user_pool s" j] that by (simp add: pools_ok_def)
  then show "\<not> pool_frame (user_pool s) a" using u(1) by (force simp: pool_frame_def)
qed

lemma frame_parts: "PDE_IDX (frame u) = PDE_IDX u" "PTE_IDX (frame u) = PTE_IDX u" "frame u AND 0x00000fff = 0"
  using slot_parts[of 0 u] by (simp_all add: slot_def)

text \<open>Two heap addresses share a table entry only within a page.\<close>

lemma same_page:
  assumes "pt_ok m" "heap v" "heap w" "present (pde_of m v)" "present (pde_of m w)" "pte_addr m v = pte_addr m w"
  shows "frame v = frame w"
proof -
  have f: "frame (pde_of m v) = frame (pde_of m w)" "PTE_IDX v = PTE_IDX w"
    using assms(6) by (auto simp: pte_addr_def slot_inj[OF idx10(2) idx10(2)])
  have p: "PDE_IDX v = PDE_IDX w"
    using assms(1-5) f(1) unfolding pt_ok_def by blast
  show ?thesis
    by (rule addr_eqI) (simp_all only: frame_parts(1)[of v] frame_parts(1)[of w] frame_parts(2)[of v]
      frame_parts(2)[of w] frame_parts(3)[of v] frame_parts(3)[of w] f(2) p)
qed

lemma ownedD:
  "owned s \<Longrightarrow> \<not> recursive v \<Longrightarrow> \<not> recursive w \<Longrightarrow> walk (mach s) v = Some p \<Longrightarrow>
   walk (mach s) w = Some q \<Longrightarrow> frame p = frame q \<Longrightarrow> any_frame s (frame p) \<Longrightarrow>
   pte_addr (mach s) v = pte_addr (mach s) w"
  unfolding owned_def by blast

text \<open>A free frame is none of the tables.\<close>

lemma free_not_table:
  assumes "mem_ok s" "any_free s a"
  shows "a \<noteq> pg_root (mach s)" "present (pde_of (mach s) v) \<Longrightarrow> frame (pde_of (mach s) v) \<noteq> a"
proof -
  have r: "root_ok (mach s)" and se: "sealed s" using assms(1) by (simp_all add: mem_ok_defs)
  show "a \<noteq> pg_root (mach s)"
    using walk_pde_ptr[OF r, of 0] se assms(2) r by (metis sealed_def frame_pde_slot root_ok_def)
  assume "present (pde_of (mach s) v)"
  from walk_pte_ptr[OF r this] show "frame (pde_of (mach s) v) \<noteq> a"
    using se assms(2) by (metis sealed_def frame_pte_addr)
qed

section \<open>Entering a page\<close>

text \<open>What a new entry does to the translation: the pages that share the entry lead to the frame,
  the other ones are as before; the recursive area may show a new table.\<close>

definition mapped :: "machine \<Rightarrow> u32 \<Rightarrow> u32 \<Rightarrow> machine \<Rightarrow> bool" where
  "mapped m v a m' \<longleftrightarrow> present (pde_of m' v)
     \<and> (\<forall>w. \<not> recursive w \<longrightarrow> walk m' w =
         (if present (pde_of m' w) \<and> pte_addr m' w = pte_addr m' v then Some (a + (w AND 0x00000fff))
          else walk m w))"

text \<open>A write outside the page directory leaves the directory entries alone.\<close>

lemma pde_poke:
  assumes "root_ok m" "frame x \<noteq> pg_root m"
  shows "pde_of (poke x w m) v = pde_of m v" "pte_addr (poke x w m) v = pte_addr m v"
    "pte_of (poke x w m) v = (if pte_addr m v = x then w else pte_of m v)" "root_ok (poke x w m)"
proof -
  have ne: "slot (pg_root m) (PDE_IDX v) \<noteq> x" "slot (pg_root m) 0x3FF \<noteq> x" for v
    using assms frame_pde_slot[of "pg_root m"] pte_ptr_parts(1)
    by (metis root_ok_def)+
  show 1: "pde_of (poke x w m) v = pde_of m v" using ne by (simp add: pde_of_def)
  then show 2: "pte_addr (poke x w m) v = pte_addr m v" by (simp add: pte_addr_def)
  then show "pte_of (poke x w m) v = (if pte_addr m v = x then w else pte_of m v)"
    by (simp add: pte_of_def)
  show "root_ok (poke x w m)" using assms(1) ne by (auto simp: root_ok_def)
qed

lemma walk_poke:
  assumes "root_ok m" "frame x \<noteq> pg_root m"
  shows "walk (poke x w m) u =
    (if present (pde_of m u) \<and> pte_addr m u = x
     then (if present w then Some (frame w + (u AND 0x00000fff)) else None) else walk m u)"
  by (simp add: walk_def pde_poke[OF assms])

lemma recursive_pte_addr: "root_ok m \<Longrightarrow> recursive w \<Longrightarrow> frame (pte_addr m w) = pg_root m"
  by (simp add: pde_of_def root_ok_def)

text \<open>The directory entry exists: one write.\<close>

lemma map_present:
  assumes "pt_ok m" "\<not> recursive v" "present (pde_of m v)" "frame a = a"
  defines "m' \<equiv> poke (pte_addr m v) (a OR 4 OR 2 OR 1) m"
  shows "store (pte_ptr v) (a OR 4 OR 2 OR 1) m = Some m'" "pt_ok m'" "mapped m v a m'"
    "recursive w \<Longrightarrow> walk m' w = walk m w" "pte_addr m' = pte_addr m" "pde_of m' = pde_of m" "pg_root m' = pg_root m"
proof -
  have r: "root_ok m" and ne: "frame (pte_addr m v) \<noteq> pg_root m"
    using assms(1-3) by (auto simp: pt_ok_def)
  note pk = pde_poke[OF r ne] walk_poke[OF r ne]
  show "store (pte_ptr v) (a OR 4 OR 2 OR 1) m = Some m'"
    by (simp add: store_def walk_pte_ptr[OF r assms(3)] m'_def)
  show ad: "pte_addr m' = pte_addr m" "pde_of m' = pde_of m" "pg_root m' = pg_root m"
    by (auto simp: m'_def pk)
  show "pt_ok m'" using assms(1) pk(4) by (simp add: pt_ok_def ad) (simp add: m'_def)
  show "mapped m v a m'" using assms(3) ad
    by (simp add: mapped_def) (simp add: m'_def pk(5) entry7(1)[OF assms(4)] entry7(2))
  assume "recursive w"
  then have "pte_addr m w \<noteq> pte_addr m v" using recursive_pte_addr[OF r, of w] ne by metis
  then show "walk m' w = walk m w" by (simp add: m'_def pk(5))
qed


text \<open>A run of cleared words within a frame.\<close>

definition wipe :: "u32 \<Rightarrow> nat \<Rightarrow> nat \<Rightarrow> machine \<Rightarrow> machine" where
  "wipe f k n m = m\<lparr>phys := (\<lambda>x. if \<exists>i. k \<le> i \<and> i < k + n \<and> x = slot f (of_nat i) then 0 else phys m x)\<rparr>"

lemma idx10_of_nat:
  assumes "k < 1024"
  shows "\<forall>n. bit (of_nat k :: u32) n \<longrightarrow> n < 10"
proof (intro allI impI)
  fix n assume "bit (of_nat k :: u32) n"
  then have "bit k n" by (simp add: bit_of_nat_iff)
  then have "k div 2 ^ n \<noteq> 0" by (metis bit_iff_odd even_zero)
  then have "2 ^ n \<le> k" by (metis div_less not_less)
  then have "(2 :: nat) ^ n < 2 ^ 10" using assms by simp
  then show "n < 10" by (rule power_less_imp_less_exp[rotated]) simp
qed

lemma PTE_IDX_nat: "\<exists>i<1024. PTE_IDX v = of_nat i"
proof -
  have "unat (PTE_IDX v) < 2 ^ 10"
  proof -
    have "PTE_IDX v = take_bit 10 (PTE_IDX v)"
      by (rule bit_word_eqI) (auto simp: bit_PTE_IDX bit_take_bit_iff)
    then have "unat (PTE_IDX v) = take_bit 10 (unat (PTE_IDX v))" by (metis unsigned_take_bit_eq)
    then show ?thesis by (metis take_bit_nat_less_exp)
  qed
  then show ?thesis by (intro exI[of _ "unat (PTE_IDX v)"]) simp
qed

lemma slot_Suc: "slot b (of_nat k) + 4 = slot b (of_nat (Suc k))"
  by (simp add: slot_def algebra_simps)

lemma walk_slot:
  assumes "walk m b = Some f" "frame b = b" "frame f = f" "k < 1024"
  shows "walk m (slot b (of_nat k)) = Some (slot f (of_nat k))"
proof -
  note sp = slot_parts[OF idx10_of_nat[OF assms(4)], of b]
  have "pde_of m (slot b (of_nat k)) = pde_of m b" "pte_of m (slot b (of_nat k)) = pte_of m b"
    by (simp_all only: pde_of_def pte_of_def pte_addr_def sp)
  moreover have "f = frame (pte_of m b)"
    using assms(1,2) by (auto simp: walk_def frame_iff split: if_splits)
  ultimately show ?thesis using assms(1,3)
    by (simp only: walk_def sp) (auto simp: slot_def times4 split: if_splits)
qed

lemma wipe_Suc: "wipe f (Suc k) n (poke (slot f (of_nat k)) 0 m) = wipe f k (Suc n) m"
proof -
  have "(\<exists>i. k \<le> i \<and> i < k + Suc n \<and> x = slot f (of_nat i)) \<longleftrightarrow>
    x = slot f (of_nat k) \<or> (\<exists>i. Suc k \<le> i \<and> i < Suc k + n \<and> x = slot f (of_nat i))" for x
    by (auto simp: le_eq_less_or_eq[of k] Suc_le_eq)
  then show ?thesis by (simp add: wipe_def cong: if_cong) (rule arg_cong[of _ _ "\<lambda>p. m\<lparr>phys := p\<rparr>"], auto simp: fun_eq_iff)
qed

lemma clear_words_page:
  assumes "root_ok m" "walk m b = Some f" "frame b = b" "frame f = f" "f \<noteq> pg_root m"
    and "frame (pde_of m b) \<noteq> f" "k + n \<le> 1024"
  shows "clear_words n (slot b (of_nat k)) m = Some (wipe f k n m)"
  using assms
proof (induction n arbitrary: k m)
  case 0
  have e: "(\<lambda>x. if \<exists>i. k \<le> i \<and> i < k + 0 \<and> x = slot f (of_nat i) then 0 else phys m x) = phys m"
    by (rule ext, rule if_not_P) auto
  show ?case unfolding wipe_def e by simp
next
  case (Suc n)
  define m1 where "m1 = poke (slot f (of_nat k)) 0 m"
  have k: "k < 1024" using Suc.prems by simp
  have fs: "frame (slot f (of_nat k)) = f" using Suc.prems(4) by (simp add: frame_slot idx10_of_nat[OF k])
  then have ne: "frame (slot f (of_nat k)) \<noteq> pg_root m" using Suc.prems(5) by simp
  have "pte_addr m b \<noteq> slot f (of_nat k)" using Suc.prems(6) fs by (metis frame_pte_addr)
  then have "walk m1 b = Some f" using Suc.prems(2) by (simp add: m1_def walk_poke[OF Suc.prems(1) ne])
  then have "clear_words n (slot b (of_nat (Suc k))) m1 = Some (wipe f (Suc k) n m1)"
    using Suc.prems pde_poke[OF Suc.prems(1) ne] by (intro Suc.IH) (simp_all add: m1_def)
  then have "clear_words n (slot b (of_nat k) + 4) m1 = Some (wipe f k (Suc n) m)"
    by (simp only: slot_Suc) (simp only: m1_def wipe_Suc)
  moreover have "store (slot b (of_nat k)) 0 m = Some m1"
    by (simp add: store_def walk_slot[OF Suc.prems(2-4) k] m1_def)
  ultimately show ?case by simp
qed


text \<open>A cleared frame that is no table: the directory and the other tables are as before.\<close>

lemma wipe_out: "n \<le> 1024 \<Longrightarrow> frame x \<noteq> frame f \<Longrightarrow> phys (wipe f 0 n m) x = phys m x"
  by (auto simp: wipe_def frame_slot[OF idx10_of_nat])

lemma pde_wipe:
  assumes "root_ok m" "frame f \<noteq> pg_root m"
  shows "pde_of (wipe f 0 1024 m) v = pde_of m v" "pg_root (wipe f 0 1024 m) = pg_root m"
    "pte_addr (wipe f 0 1024 m) v = pte_addr m v" "root_ok (wipe f 0 1024 m)"
proof -
  show rt: "pg_root (wipe f 0 1024 m) = pg_root m" by (simp add: wipe_def)
  have fr: "frame (slot (pg_root m) (PDE_IDX u)) \<noteq> frame f" for u
    using assms by (simp add: root_ok_def)
  have "phys (wipe f 0 1024 m) (slot (pg_root m) (PDE_IDX u)) = phys m (slot (pg_root m) (PDE_IDX u))" for u
    by (rule wipe_out) (simp_all only: fr le_refl not_False_eq_True)
  note ph = this this[of "pte_ptr 0", unfolded pte_ptr_parts]
  show pd: "pde_of (wipe f 0 1024 m) v = pde_of m v" by (simp only: pde_of_def rt ph)
  then show "pte_addr (wipe f 0 1024 m) v = pte_addr m v" by (simp add: pte_addr_def)
  show "root_ok (wipe f 0 1024 m)" using assms(1) by (simp only: root_ok_def rt ph)
qed

lemma walk_wipe:
  assumes "root_ok m" "frame f \<noteq> pg_root m" "frame f = f"
  shows "walk (wipe f 0 1024 m) v = (if frame (pde_of m v) = f then None else walk m v)"
proof (cases "frame (pde_of m v) = f")
  case True
  obtain i where i: "i < 1024" "PTE_IDX v = of_nat i" using PTE_IDX_nat by blast
  have "pte_addr m v = slot f (of_nat i)" using True i(2) by (metis pte_addr_def slot_frame)
  then have "phys (wipe f 0 1024 m) (pte_addr m v) = 0"
    using i(1) by (auto simp: wipe_def)
  then show ?thesis using True
    by (simp add: walk_def pde_wipe[OF assms(1,2)] pte_of_def present_def)
next
  case False
  then have "phys (wipe f 0 1024 m) (pte_addr m v) = phys m (pte_addr m v)"
    using assms(3) by (intro wipe_out) simp_all
  then show ?thesis using False
    by (simp add: walk_def pde_wipe[OF assms(1,2)] pte_of_def)
qed

text \<open>A write of a directory entry.\<close>

lemma pde_poke_root:
  fixes e :: u32
  assumes "root_ok m" "\<not> recursive v"
  defines "m1 \<equiv> poke (slot (pg_root m) (PDE_IDX v)) e m"
  shows "pde_of m1 w = (if PDE_IDX w = PDE_IDX v then e else pde_of m w)" "root_ok m1"
proof -
  show "pde_of m1 w = (if PDE_IDX w = PDE_IDX v then e else pde_of m w)"
    by (simp add: m1_def pde_of_def slot_inj[OF idx10(1) idx10(1)])
  have "slot (pg_root m) 0x3FF \<noteq> slot (pg_root m) (PDE_IDX v)"
    using slot_inj[OF idx10(1) idx10(1), of _ "pte_ptr 0" _ v] assms(2) by (simp add: pte_ptr_parts)
  then show "root_ok m1" using assms(1) by (simp add: root_ok_def m1_def)
qed

lemma page_of_pte: "frame (pte_ptr v) = pte_ptr (v AND 0xffc00000)"
  "PDE_IDX (v AND 0xffc00000) = PDE_IDX v" "PTE_IDX (v AND 0xffc00000) = 0"
  by (rule bit_word_eqI; auto simp: bit_PDE_IDX bit_PTE_IDX bit_frame pte_ptr_bits bit_simps mask_simps)+


text \<open>The directory entry is missing: a new table, cleared, then the entry.\<close>

lemma map_absent:
  assumes pt: "pt_ok m" and v: "\<not> recursive v" and np: "\<not> present (pde_of m v)" and a: "frame a = a"
    and f: "frame f = f" "f \<noteq> pg_root m" "\<And>u. present (pde_of m u) \<Longrightarrow> frame (pde_of m u) \<noteq> f"
  defines "m1 \<equiv> poke (slot (pg_root m) (PDE_IDX v)) (f OR 4 OR 2 OR 1) m"
  defines "m2 \<equiv> wipe f 0 1024 m1"
  defines "m3 \<equiv> poke (pte_addr m2 v) (a OR 4 OR 2 OR 1) m2"
  shows "store (pde_ptr v) (f OR 4 OR 2 OR 1) m = Some m1"
    "clear_words 1024 (pte_ptr v AND 0xfffff000) m1 = Some m2"
    "\<exists>e. load (pte_ptr v) m2 = Some e \<and> \<not> present e"
    "store (pte_ptr v) (a OR 4 OR 2 OR 1) m2 = Some m3" "pt_ok m3" "mapped m v a m3" "pg_root m3 = pg_root m"
    "\<And>w p. recursive w \<Longrightarrow> walk m3 w = Some p \<Longrightarrow> walk m w = Some p \<or> frame p = f"
    "\<And>w. \<not> recursive w \<Longrightarrow> PDE_IDX w \<noteq> PDE_IDX v \<Longrightarrow> pte_addr m3 w = pte_addr m w"
    "\<And>w. pde_of m3 w = (if PDE_IDX w = PDE_IDX v then f OR 7 else pde_of m w)"
proof -
  have r: "root_ok m" using pt by (simp add: pt_ok_def)
  have f7: "(f OR 4 OR 2 OR 1) = f OR 7" by simp
  note e7 = entry7[of f, simplified f(1)]
  have r1: "root_ok m1" and p1: "\<And>w. pde_of m1 w = (if PDE_IDX w = PDE_IDX v then f OR 7 else pde_of m w)"
    using pde_poke_root[OF r v, of "f OR 7"] by (simp_all add: m1_def f7)
  have rt: "pg_root m1 = pg_root m" by (simp add: m1_def)
  have fr: "frame f \<noteq> pg_root m1" using f rt by simp
  note p2 = pde_wipe[OF r1 fr, folded m2_def]
  show "store (pde_ptr v) (f OR 4 OR 2 OR 1) m = Some m1"
    by (simp add: store_def walk_pde_ptr[OF r] m1_def)
  define b where "b = pte_ptr (v AND 0xffc00000)"
  have pb: "pte_ptr v AND 0xfffff000 = b" by (simp add: b_def page_of_pte(1)[symmetric] frame_def)
  have fb: "frame b = b" by (simp add: b_def page_of_pte(1)[symmetric])
  have "present (pde_of m1 (v AND 0xffc00000))" by (simp add: p1 page_of_pte(2) e7)
  then have wb: "walk m1 b = Some f"
    using walk_pte_ptr[OF r1, of "v AND 0xffc00000"]
    by (simp add: b_def pte_addr_def p1 page_of_pte slot_def e7 f(1))
  have "frame (pde_of m1 b) \<noteq> f"
    using r1 fr f(1) rt by (simp add: b_def pde_of_def pte_ptr_parts root_ok_def)
  then have "clear_words 1024 (slot b (of_nat 0)) m1 = Some m2"
    unfolding m2_def using r1 wb fb f rt by (intro clear_words_page) simp_all
  then show "clear_words 1024 (pte_ptr v AND 0xfffff000) m1 = Some m2"
    by (simp add: pb slot_def fb)
  have pv: "present (pde_of m2 v)" by (simp add: p2 p1 e7)
  have w2: "walk m2 w = (if frame (pde_of m1 w) = f then None else walk m1 w)" for w
    unfolding m2_def by (rule walk_wipe[OF r1 fr f(1)])
  have "walk m2 v = None" by (simp add: w2 p1 e7)
  then have "\<not> present (pte_of m2 v)" using pv by (simp add: walk_def split: if_splits)
  then show "\<exists>e. load (pte_ptr v) m2 = Some e \<and> \<not> present e"
    using load_pte[OF p2(4) pv] by blast
  have "frame (pde_of m2 u) \<noteq> pg_root m2" if "\<not> recursive u" "present (pde_of m2 u)" for u
    using that pt f(2) by (simp add: pt_ok_def p2 p1 rt e7 split: if_splits)
  moreover have "PDE_IDX u = PDE_IDX w" if "heap u" "heap w" "present (pde_of m2 u)" "present (pde_of m2 w)"
    "frame (pde_of m2 u) = frame (pde_of m2 w)" for u w
    using that(3-5) f(3)[of u] f(3)[of w] pt that(1,2) by (simp add: p2 p1 e7 pt_ok_def split: if_splits)
  ultimately have pt2: "pt_ok m2" using p2(4) unfolding pt_ok_def by blast
  note mp = map_present[OF pt2 v pv a, folded m3_def]
  show "store (pte_ptr v) (a OR 4 OR 2 OR 1) m2 = Some m3" "pt_ok m3" "pg_root m3 = pg_root m"
    using mp p2 rt by simp_all
  have same: "walk m1 w = walk m w" if "\<not> recursive w" "PDE_IDX w \<noteq> PDE_IDX v" for w
  proof -
    have "pte_addr m1 w = pte_addr m w" using that by (simp add: pte_addr_def p1)
    moreover have "phys m1 (pte_addr m w) = phys m (pte_addr m w)" if "present (pde_of m w)"
    proof -
      have "frame (pte_addr m w) \<noteq> pg_root m"
        using pt that \<open>\<not> recursive w\<close> by (simp add: pt_ok_def)
      then have "pte_addr m w \<noteq> slot (pg_root m) (PDE_IDX v)" using r by (metis frame_pde_slot root_ok_def)
      then show ?thesis by (simp add: m1_def)
    qed
    ultimately show ?thesis using that by (auto simp: walk_def pte_of_def p1)
  qed
  have w2': "walk m2 w = walk m w" if "\<not> recursive w" for w
  proof (cases "PDE_IDX w = PDE_IDX v")
    case True
    then have "\<not> present (pde_of m w)" using np by (simp add: pde_of_def)
    then show ?thesis using True by (simp add: w2 p1 e7) (simp add: walk_def)
  next
    case False
    have "frame (pde_of m w) = f \<Longrightarrow> walk m w = None" using f(3)[of w] by (auto simp: walk_def)
    then show ?thesis using False same[OF that False] by (simp add: w2 p1)
  qed
  show "mapped m v a m3" using mp(3) w2' by (auto simp: mapped_def)
  show pd: "pde_of m3 w = (if PDE_IDX w = PDE_IDX v then f OR 7 else pde_of m w)" for w
    by (simp add: mp p2 p1)
  show "pte_addr m3 w = pte_addr m w" if "\<not> recursive w" "PDE_IDX w \<noteq> PDE_IDX v" for w
    using that by (simp add: pte_addr_def pd)
  fix w p assume w: "recursive w" "walk m3 w = Some p"
  then have w1: "walk m1 w = Some p" using mp(4)[OF w(1)] by (simp add: w2 split: if_splits)
  show "walk m w = Some p \<or> frame p = f"
  proof (cases "PTE_IDX w = PDE_IDX v")
    case True
    have ad: "pte_addr m1 w = slot (pg_root m) (PDE_IDX v)"
      using w(1) r1 True rt by (simp add: pte_addr_def pde_of_def root_ok_def) (metis slot_frame)
    then have "pte_of m1 w = f OR 7" by (simp add: pte_of_def m1_def)
    then have "p = f + (w AND 0x00000fff)" using w1 e7(1) by (simp add: walk_def split: if_splits)
    then show ?thesis using f(1) frame_plus_low by simp
  next
    case False
    have "pte_addr m1 w = pte_addr m w" using w(1) v by (simp add: pte_addr_def p1)
    moreover have "pte_addr m w \<noteq> slot (pg_root m) (PDE_IDX v)"
      using w(1) r False by (simp add: pte_addr_def slot_inj[OF idx10(2) idx10(1)])
    ultimately have "pte_of m1 w = pte_of m w" by (simp only: pte_of_def) (simp add: m1_def)
    then show ?thesis using w1 w(1) v by (auto simp: walk_def p1)
  qed
qed


text \<open>A frame that no address leads to and that no pool counts as free, as palloc returns it.\<close>

definition fresh :: "memory \<Rightarrow> u32 \<Rightarrow> bool" where
  "fresh s a \<longleftrightarrow> frame a = a \<and> \<not> any_free s a \<and> (\<forall>w p. walk (mach s) w = Some p \<longrightarrow> frame p \<noteq> a)"

text \<open>What stays when pages are added: the other state, the frames in use, the entry of every page
  that is mapped.\<close>

definition extends :: "memory \<Rightarrow> memory \<Rightarrow> bool" where
  "extends s s' \<longleftrightarrow> kernel_vaddr s' = kernel_vaddr s \<and> userprog_vaddr s' = userprog_vaddr s
     \<and> cur_pgdir s' = cur_pgdir s \<and> pg_root (mach s') = pg_root (mach s)
     \<and> (\<forall>a pf. free_frame (pool_of pf s') a \<longrightarrow> free_frame (pool_of pf s) a)
     \<and> (\<forall>a pf. pool_frame (pool_of pf s') a = pool_frame (pool_of pf s) a)
     \<and> (\<forall>w p. recursive w \<longrightarrow> walk (mach s') w = Some p \<longrightarrow>
          walk (mach s) w = Some p \<or> any_free s (frame p))
     \<and> (\<forall>w. \<not> recursive w \<longrightarrow> walk (mach s) w \<noteq> None \<longrightarrow>
          walk (mach s') w = walk (mach s) w \<and> pte_addr (mach s') w = pte_addr (mach s) w)
     \<and> (\<forall>w. present (pde_of (mach s) w) \<longrightarrow> present (pde_of (mach s') w))"

lemma any_free_pool: "any_free s a \<longleftrightarrow> (\<exists>pf. free_frame (pool_of pf s) a)"
  by (auto simp: any_free_def pool_of_def)

lemma extends_refl: "extends s s"
  by (simp add: extends_def)

lemma extends_free: "extends s t \<Longrightarrow> any_free t a \<Longrightarrow> any_free s a"
  by (auto simp: extends_def any_free_pool)

lemma extends_trans:
  assumes "extends s t" "extends t u"
  shows "extends s u"
proof -
  have r: "walk (mach s) w = Some p \<or> any_free s (frame p)" if "recursive w" "walk (mach u) w = Some p" for w p
    using assms that extends_free[OF assms(1), of "frame p"] unfolding extends_def by metis
  show ?thesis unfolding extends_def
  proof (intro conjI allI impI r)
    fix w assume "\<not> recursive w" "walk (mach s) w \<noteq> None"
    then show "walk (mach u) w = walk (mach s) w" "pte_addr (mach u) w = pte_addr (mach s) w"
      using assms unfolding extends_def by metis+
  qed (use assms in \<open>simp_all add: extends_def\<close>)
qed

lemma fresh_not_mapped: "fresh s a \<Longrightarrow> walk (mach s) w = Some p \<Longrightarrow> frame p \<noteq> a"
  by (auto simp: fresh_def)

lemma mapped_cases:
  assumes "mapped m v a m'" "frame a = a" "\<not> recursive w" "walk m' w = Some p"
  shows "(frame p = a \<and> pte_addr m' w = pte_addr m' v) \<or> walk m w = Some p"
  using assms(1,3,4) frame_plus_low[OF assms(2), of w] unfolding mapped_def by (force split: if_splits)

text \<open>The invariant after a page was entered, from what its two ways of doing so have in common.\<close>

lemma entered_ok:
  assumes ok: "mem_ok s" and fr: "fresh s a" and mp: "mapped (mach s) v a (mach s')"
    and pt: "pt_ok (mach s')" and po: "pools_ok s'"
    and free: "\<And>b. any_free s' b \<Longrightarrow> any_free s b" and fs: "\<And>b. any_frame s' b \<longleftrightarrow> any_frame s b"
    and rec: "\<And>w p. recursive w \<Longrightarrow> walk (mach s') w = Some p \<Longrightarrow> walk (mach s) w = Some p \<or> \<not> any_free s' (frame p)"
    and keep: "\<And>w. \<not> recursive w \<Longrightarrow> walk (mach s) w \<noteq> None \<Longrightarrow> pte_addr (mach s') w = pte_addr (mach s) w"
  shows "mem_ok s'"
proof -
  have fa: "frame a = a" using fr by (simp add: fresh_def)
  note cases = mapped_cases[OF mp fa]
  have "\<not> any_free s' (frame p)" if "walk (mach s') w = Some p" for w p
  proof (cases "recursive w")
    case True
    then show ?thesis using rec[OF True that] free[of "frame p"] ok unfolding mem_ok_def sealed_def by blast
  next
    case False
    then show ?thesis using cases[OF False that] free[of "frame p"] ok fr
      unfolding mem_ok_def sealed_def fresh_def by blast
  qed
  then have "sealed s'" by (auto simp: sealed_def)
  moreover have "pte_addr (mach s') u = pte_addr (mach s') w"
    if h: "\<not> recursive u" "\<not> recursive w" "walk (mach s') u = Some p" "walk (mach s') w = Some q"
      "frame p = frame q" "any_frame s' (frame p)" for u w p q
    using cases[OF h(1,3)] cases[OF h(2,4)]
  proof (elim disjE conjE)
    assume u: "walk (mach s) u = Some p" and w: "walk (mach s) w = Some q"
    then have "pte_addr (mach s) u = pte_addr (mach s) w"
      using ok h(1,2,5,6) fs unfolding mem_ok_def owned_def by blast
    then show ?thesis using u w h(1,2) by (simp add: keep)
  qed (use fresh_not_mapped[OF fr] h(5) in \<open>auto\<close>)
  then have "owned s'" unfolding owned_def by blast
  ultimately show ?thesis using pt po by (simp add: mem_ok_def)
qed

lemma entered_extends:
  assumes "walk m v = None" "mapped m v a m'" "\<not> recursive w" "walk m w \<noteq> None" "\<not> recursive v"
    and "\<And>u. \<not> recursive u \<Longrightarrow> walk m u \<noteq> None \<Longrightarrow> pte_addr m' u = pte_addr m u \<and> pde_of m' u = pde_of m u"
    and "present (pde_of m v) \<Longrightarrow> pte_addr m' v = pte_addr m v"
    and "\<not> present (pde_of m v) \<Longrightarrow> \<forall>u. present (pde_of m u) \<longrightarrow> frame (pde_of m u) \<noteq> frame (pde_of m' v)"
  shows "walk m' w = walk m w"
proof -
  have pw: "present (pde_of m w)" "present (pte_of m w)" using assms(4) by (auto simp: walk_def split: if_splits)
  have "pte_addr m' w \<noteq> pte_addr m' v"
  proof
    assume e: "pte_addr m' w = pte_addr m' v"
    have k: "pte_addr m' w = pte_addr m w" using assms(3,4,6) by blast
    show False
    proof (cases "present (pde_of m v)")
      case True
      then have "pte_of m v = pte_of m w" using e k assms(7) by (simp add: pte_of_def)
      then show ?thesis using True pw(2) assms(1) by (simp add: walk_def)
    next
      case False
      then show ?thesis using assms(8) pw(1) e k by (metis frame_pte_addr)
    qed
  qed
  then show ?thesis using assms(2,3) by (simp add: mapped_def)
qed


lemma free_frame_any: "free_frame (kernel_pool s) a \<Longrightarrow> any_free s a"
  by (simp add: any_free_def)

lemma page_table_add_present:
  assumes ok: "mem_ok s" and v: "\<not> recursive v" "walk (mach s) v = None" and fr: "fresh s a"
    and pd: "present (pde_of (mach s) v)"
  shows "\<exists>s'. page_table_add v a s = Some s' \<and> mem_ok s' \<and> extends s s' \<and> mapped (mach s) v a (mach s')
    \<and> kernel_pool s' = kernel_pool s \<and> user_pool s' = user_pool s \<and> pde_of (mach s') = pde_of (mach s)"
proof -
  have pt: "pt_ok (mach s)" and r: "root_ok (mach s)" using ok by (simp_all add: mem_ok_def pt_ok_def)
  have fa: "frame a = a" using fr by (simp add: fresh_def)
  note mp = map_present[OF pt v(1) pd fa]
  define m' where "m' = poke (pte_addr (mach s) v) (a OR 4 OR 2 OR 1) (mach s)"
  note mp = mp[folded m'_def]
  have np: "\<not> present (pte_of (mach s) v)" using v(2) pd by (simp add: walk_def split: if_splits)
  have eq: "page_table_add v a s = Some (s\<lparr>mach := m'\<rparr>)"
    using mp(1) pd np by (simp add: page_table_add_def load_pde[OF r] load_pte[OF r pd] present_def)
  have mem: "mem_ok (s\<lparr>mach := m'\<rparr>)"
    by (rule entered_ok[OF ok fr]) (use mp ok in \<open>simp_all add: any_free_def any_frame_def mem_ok_def pools_ok_def\<close>)
  have ext: "extends s (s\<lparr>mach := m'\<rparr>)"
    using entered_extends[OF v(2) mp(3) _ _ v(1)] mp(4-7) pd
    by (simp add: extends_def pool_of_def)
  show ?thesis using eq mem ext mp(3,6) by simp
qed

lemma page_table_add_absent:
  assumes ok: "mem_ok s" and v: "\<not> recursive v" "walk (mach s) v = None" and fr: "fresh s a"
    and pd: "\<not> present (pde_of (mach s) v)" and av: "free_frame (kernel_pool s) b"
  shows "\<exists>s' f. page_table_add v a s = Some s' \<and> mem_ok s' \<and> extends s s' \<and> mapped (mach s) v a (mach s')
    \<and> palloc (kernel_pool s) = Some (f, kernel_pool s') \<and> user_pool s' = user_pool s"
proof -
  have pt: "pt_ok (mach s)" and r: "root_ok (mach s)" and po: "pools_ok s"
    using ok by (simp_all add: mem_ok_def pt_ok_def)
  have fa: "frame a = a" using fr by (simp add: fresh_def)
  obtain f kp where pal: "palloc (kernel_pool s) = Some (f, kp)" using palloc_some[OF av] by auto
  have kok: "pool_ok (kernel_pool s)" using po by (simp add: pools_ok_def)
  note ps = palloc_spec[OF kok pal]
  note nt = free_not_table[OF ok free_frame_any[OF ps(1)]]
  note mp = map_absent[OF pt v(1) pd fa ps(3) nt]
  define m1 where "m1 = poke (slot (pg_root (mach s)) (PDE_IDX v)) (f OR 4 OR 2 OR 1) (mach s)"
  define m2 where "m2 = wipe f 0 1024 m1"
  define m3 where "m3 = poke (pte_addr m2 v) (a OR 4 OR 2 OR 1) m2"
  note mp = mp[folded m1_def, folded m2_def, folded m3_def]
  define s' where "s' = s\<lparr>mach := m3, kernel_pool := kp\<rparr>"
  have st: "mach s' = m3" "kernel_pool s' = kp" "user_pool s' = user_pool s" "kernel_vaddr s' = kernel_vaddr s"
    "userprog_vaddr s' = userprog_vaddr s" "cur_pgdir s' = cur_pgdir s" by (simp_all add: s'_def)
  obtain e where e: "load (pte_ptr v) m2 = Some e" "\<not> present e" using mp(3) by blast
  have eq: "page_table_add v a s = Some s'"
    using pd mp(1,2,4) pal e by (simp add: page_table_add_def load_pde[OF r] present_def s'_def)
  have free: "any_free s' c \<longleftrightarrow> any_free s c \<and> c \<noteq> f" for c
    using ps(1,4) pools_disjoint(1)[OF po free_pool_frame[OF ps(1)]] free_pool_frame[of "user_pool s" c]
    by (auto simp: any_free_def st)
  have po': "pools_ok s'" using po ps(5,6) pool_ok_cong(1)[OF ps(5,6)] by (simp add: pools_ok_def st)
  have fs: "any_frame s' c \<longleftrightarrow> any_frame s c" for c
    by (simp add: any_frame_def st pool_ok_cong(2)[OF ps(5,6)])
  have keep: "pte_addr m3 w = pte_addr (mach s) w \<and> pde_of m3 w = pde_of (mach s) w"
    if "\<not> recursive w" "walk (mach s) w \<noteq> None" for w
  proof -
    have "PDE_IDX w \<noteq> PDE_IDX v" using that(2) pd by (auto simp: walk_def pde_of_def split: if_splits)
    then show ?thesis using that(1) mp(9,10) by simp
  qed
  have mem: "mem_ok s'"
    by (rule entered_ok[OF ok fr]) (use mp keep free fs po' in \<open>auto simp: st\<close>)
  have fv: "frame (pde_of m3 v) = f" using mp(10)[of v] entry7(1)[OF ps(3)] by simp
  have "extends s s'" unfolding extends_def st
  proof (intro conjI allI impI)
    fix w assume w: "\<not> recursive w" "walk (mach s) w \<noteq> None"
    show "walk m3 w = walk (mach s) w"
      by (rule entered_extends[OF v(2) mp(6) w v(1)]) (use keep pd fv nt(2) in \<open>auto\<close>)
    show "pte_addr m3 w = pte_addr (mach s) w" using keep w by blast
  next
    fix w assume "present (pde_of (mach s) w)"
    then show "present (pde_of m3 w)" using mp(10)[of w] entry7(2) by simp
  next
    fix b pf show "free_frame (pool_of pf s') b \<Longrightarrow> free_frame (pool_of pf s) b"
      using ps(4) by (simp add: pool_of_def st split: if_splits)
  next
    fix w p assume "recursive w" "walk m3 w = Some p"
    then show "walk (mach s) w = Some p \<or> any_free s (frame p)"
      using mp(8) free_frame_any[OF ps(1)] by blast
  next
    fix b pf show "pool_frame (pool_of pf s') b = pool_frame (pool_of pf s) b"
      by (simp add: pool_of_def st pool_ok_cong(2)[OF ps(5,6)])
  qed (use mp(7) in \<open>auto\<close>)
  then show ?thesis using eq mem mp(6) pal st by auto
qed


section \<open>Allocation of pages\<close>

definition page :: "u32 \<Rightarrow> nat \<Rightarrow> u32" where
  "page v i = v + of_nat i * PG_SIZE"

definition nfree :: "pool \<Rightarrow> nat" where
  "nfree p = card {i. i < pool_cap p \<and> \<not> bitmap_scan_test (pool_bitmap p) i}"

definition missing :: "machine \<Rightarrow> u32 \<Rightarrow> nat \<Rightarrow> nat" where
  "missing m v n = card {i. i < n \<and> \<not> present (pde_of m (page v i))}"

lemma page_simps: "page v 0 = v" "page (v + PG_SIZE) i = page v (Suc i)"
  by (simp_all add: page_def algebra_simps)

lemma nfree_pos: "0 < nfree p \<longleftrightarrow> (\<exists>a. free_frame p a)"
  by (auto simp: nfree_def free_frame_def card_gt_0_iff)

lemma palloc_nfree: "palloc p = Some (a, p') \<Longrightarrow> Suc (nfree p') = nfree p"
  using bm.take_avail[of "pool_bitmap p"] bm.scan_never_minus_one[of "pool_bitmap p"]
  by (clarsimp simp: palloc_def bind_Some_iff nfree_def pool_cap_def split: if_splits)

lemma missing_Suc:
  assumes "\<And>w. present (pde_of m w) \<Longrightarrow> present (pde_of m' w)"
  shows "missing m' (v + PG_SIZE) n + (if present (pde_of m v) then 0 else 1) \<le> missing m v (Suc n)"
proof -
  let ?A = "{i. i < n \<and> \<not> present (pde_of m' (page v (Suc i)))}"
  let ?B = "{i. i < Suc n \<and> \<not> present (pde_of m (page v i))}"
  have fin: "finite ?B" by simp
  have sub: "Suc ` ?A \<subseteq> ?B - {0}" using assms by auto
  have "card ?A = card (Suc ` ?A)" by (simp add: card_image)
  also have "\<dots> \<le> card (?B - {0})" by (rule card_mono[OF _ sub]) simp
  also have "\<dots> = card ?B - (if present (pde_of m v) then 0 else 1)"
    by (simp add: card_Diff_singleton_if page_simps)
  finally have "card ?A \<le> card ?B - (if present (pde_of m v) then 0 else 1)" .
  moreover have "0 < card ?B" if "\<not> present (pde_of m v)"
    using that fin by (auto simp: card_gt_0_iff page_simps intro!: exI[of _ 0])
  ultimately show ?thesis by (auto simp: missing_def page_simps)
qed

lemma pool_of_simps [simp]:
  "pool_of pf (set_pool pf p s) = p" "mach (set_pool pf p s) = mach s"
  "pf \<noteq> pf' \<Longrightarrow> pool_of pf' (set_pool pf p s) = pool_of pf' s"
  "pool_of PF_KERNEL s = kernel_pool s" "pool_of PF_USER s = user_pool s"
  "kernel_vaddr (set_pool pf p s) = kernel_vaddr s" "userprog_vaddr (set_pool pf p s) = userprog_vaddr s"
  "cur_pgdir (set_pool pf p s) = cur_pgdir s"
  by (cases pf; cases pf'; simp add: pool_of_def set_pool_def)+

lemma any_frame_pool: "any_frame s a \<longleftrightarrow> (\<exists>pf. pool_frame (pool_of pf s) a)"
  by (auto simp: any_frame_def pool_of_def)

text \<open>A frame taken from a pool is fresh.\<close>

lemma palloc_fresh:
  assumes ok: "mem_ok s" and pal: "palloc (pool_of pf s) = Some (a, p)"
  defines "s0 \<equiv> set_pool pf p s"
  shows "mem_ok s0" "fresh s0 a" "extends s s0" "free_frame (pool_of pf s) a" "a \<noteq> 0"
proof -
  have po: "pools_ok s" using ok by (simp add: mem_ok_def)
  then have "pool_ok (pool_of pf s)" by (simp add: pools_ok_def pool_of_def)
  note ps = palloc_spec[OF this pal]
  show 1: "free_frame (pool_of pf s) a" "a \<noteq> 0" using ps by simp_all
  have fr: "free_frame (pool_of q s0) b \<longleftrightarrow> free_frame (pool_of q s) b \<and> (q = pf \<longrightarrow> b \<noteq> a)" for q b
    using ps(4) by (cases "q = pf") (auto simp: s0_def)
  have pf: "pool_frame (pool_of q s0) b \<longleftrightarrow> pool_frame (pool_of q s) b" for q b
    using pool_ok_cong(2)[OF ps(5,6)] by (cases "q = pf") (auto simp: s0_def)
  have m0: "mach s0 = mach s" by (simp add: s0_def)
  have "pools_ok s0" using po pool_ok_cong(1)[OF ps(5,6)] ps(5,6)
    by (cases pf) (simp_all add: pools_ok_def s0_def set_pool_def)
  moreover have "sealed s0" using ok by (auto simp: mem_ok_def sealed_def any_free_pool fr m0)
  moreover have "owned s0" using ok unfolding mem_ok_def owned_def any_frame_pool pf m0 by (elim conjE)
  ultimately show "mem_ok s0" using ok by (simp add: mem_ok_def s0_def)
  have "\<not> free_frame (pool_of q s) a" if "q \<noteq> pf" for q
    using that 1(1) po pools_disjoint(1)[OF po] free_pool_frame
    by (cases q; cases pf) (auto simp: pool_of_def)
  then have "\<not> any_free s0 a" by (auto simp: any_free_pool fr)
  moreover have "any_free s a" using ps(1) any_free_pool by blast
  ultimately show "fresh s0 a" using ps(3) ok unfolding fresh_def mem_ok_def sealed_def m0 by blast
  show "extends s s0" by (simp add: extends_def fr pf) (simp add: s0_def)
qed


text \<open>What page_table_add does for a fresh frame, whether the table is there or not.\<close>

lemma page_table_add_ok:
  assumes ok: "mem_ok s" and v: "\<not> recursive v" "walk (mach s) v = None" and fr: "fresh s a"
    and av: "present (pde_of (mach s) v) \<or> 0 < nfree (kernel_pool s)"
  shows "\<exists>s'. page_table_add v a s = Some s' \<and> mem_ok s' \<and> extends s s' \<and> mapped (mach s) v a (mach s')
    \<and> user_pool s' = user_pool s
    \<and> nfree (kernel_pool s') + (if present (pde_of (mach s) v) then 0 else 1) = nfree (kernel_pool s)"
proof (cases "present (pde_of (mach s) v)")
  case True
  then show ?thesis using page_table_add_present[OF ok v fr True] by auto
next
  case False
  then obtain b where "free_frame (kernel_pool s) b" using av nfree_pos by blast
  from page_table_add_absent[OF ok v fr False this] show ?thesis using False palloc_nfree by fastforce
qed

text \<open>A page beside the one entered stays unmapped.\<close>

lemma mapped_other:
  assumes "mapped m v a m'" "pt_ok m'" "heap v" "heap w" "frame w \<noteq> frame v"
  shows "walk m' w = walk m w"
  using assms same_page[OF assms(2,3,4)] by (auto simp: mapped_def)

definition room :: "pool_flags \<Rightarrow> nat \<Rightarrow> u32 \<Rightarrow> memory \<Rightarrow> bool" where
  "room pf n v s \<longleftrightarrow> (if pf = PF_KERNEL then n else 0) + missing (mach s) v n \<le> nfree (kernel_pool s)
     \<and> (pf = PF_USER \<longrightarrow> n \<le> nfree (user_pool s))"

text \<open>One turn of the loop of malloc_page.\<close>

lemma map_step:
  assumes ok: "mem_ok s" and v: "heap v" "walk (mach s) v = None" and rm: "room pf (Suc n) v s"
  shows "\<exists>a p s1. palloc (pool_of pf s) = Some (a, p) \<and> a \<noteq> 0 \<and> page_table_add v a (set_pool pf p s) = Some s1
    \<and> mem_ok s1 \<and> extends s s1 \<and> mapped (mach s) v a (mach s1) \<and> room pf n (v + PG_SIZE) s1
    \<and> free_frame (pool_of pf s) a \<and> frame a = a
    \<and> \<not> any_free s1 a \<and> (\<forall>w p. recursive w \<longrightarrow> walk (mach s1) w = Some p \<longrightarrow> frame p \<noteq> a)"
proof -
  have "0 < nfree (pool_of pf s)" using rm by (cases pf) (auto simp: room_def)
  then obtain b where "free_frame (pool_of pf s) b" using nfree_pos by blast
  then obtain a p where pal: "palloc (pool_of pf s) = Some (a, p)" using palloc_some by blast
  define s0 where "s0 = set_pool pf p s"
  note pf = palloc_fresh[OF ok pal, folded s0_def]
  have m0: "mach s0 = mach s" by (simp add: s0_def)
  have n0: "nfree (kernel_pool s0) + (if pf = PF_KERNEL then 1 else 0) = nfree (kernel_pool s)"
    "nfree (user_pool s0) + (if pf = PF_USER then 1 else 0) = nfree (user_pool s)"
    using palloc_nfree[OF pal] by (cases pf; simp add: s0_def set_pool_def)+
  have mi: "(if present (pde_of (mach s) v) then 0 else 1) \<le> missing (mach s) v (Suc n)"
    using missing_Suc[of "mach s" "mach s" v n] by simp
  have "present (pde_of (mach s0) v) \<or> 0 < nfree (kernel_pool s0)"
    using rm n0(1) mi by (auto simp: room_def m0 split: if_splits)
  then obtain s1 where s1: "page_table_add v a s0 = Some s1" "mem_ok s1" "extends s0 s1"
    "mapped (mach s) v a (mach s1)" "user_pool s1 = user_pool s0"
    "nfree (kernel_pool s1) + (if present (pde_of (mach s) v) then 0 else 1) = nfree (kernel_pool s0)"
    using page_table_add_ok[OF pf(1) _ _ pf(2), of v] v by (auto simp: m0)
  have ex: "extends s s1" by (rule extends_trans[OF pf(3) s1(3)])
  have "missing (mach s1) (v + PG_SIZE) n + (if present (pde_of (mach s) v) then 0 else 1) \<le> missing (mach s) v (Suc n)"
    by (rule missing_Suc) (use ex in \<open>simp add: extends_def\<close>)
  then have room: "room pf n (v + PG_SIZE) s1"
    using rm n0 s1(5,6) by (auto simp: room_def split: if_splits)
  have na: "\<not> any_free s0 a" "frame a = a" using pf(2) by (simp_all add: fresh_def)
  then have "\<not> any_free s1 a" using extends_free[OF s1(3)] by blast
  moreover have "frame q \<noteq> a" if "recursive w" "walk (mach s1) w = Some q" for w q
    using s1(3) that na(1) pf(2) unfolding extends_def fresh_def by metis
  ultimately show ?thesis using pal pf s1 ex room na(2) by (auto simp: s0_def)
qed


text \<open>Distinct pages of a range.\<close>

lemma frame_page: "frame v = v \<Longrightarrow> frame (page v i) = page v i"
  by (simp add: page_def PG_SIZE_def frame_add)

lemma page_low: "frame v = v \<Longrightarrow> page v i AND 0x00000fff = 0"
  by (simp add: page_def PG_SIZE_def frame_add)

lemma page_inj:
  assumes "i < 1048576" "j < 1048576"
  shows "page v i = page v j \<longleftrightarrow> i = j"
proof
  assume "page v i = page v j"
  then have "(of_nat (i * 4096) :: u32) = of_nat (j * 4096)" by (simp add: page_def PG_SIZE_def)
  then have "take_bit 32 (i * 4096) = take_bit 32 (j * 4096)"
    by (simp only: word_of_nat_eq_iff) simp
  then show "i = j" using assms by (simp add: take_bit_nat_eq_self)
qed simp

text \<open>Leaf: a frame the recursive area does not show, so no table of the current directory.\<close>

definition leaf :: "memory \<Rightarrow> u32 \<Rightarrow> bool" where
  "leaf s a \<longleftrightarrow> (\<forall>w p. recursive w \<longrightarrow> walk (mach s) w = Some p \<longrightarrow> frame p \<noteq> a)"

lemma leaf_extends: "extends s s' \<Longrightarrow> leaf s a \<Longrightarrow> \<not> any_free s a \<Longrightarrow> leaf s' a"
  unfolding leaf_def extends_def by metis

lemma map_pages_ok:
  assumes "mem_ok s" "frame v = v" "n \<le> 3840" "room pf n v s"
    and "\<And>i. i < n \<Longrightarrow> heap (page v i) \<and> walk (mach s) (page v i) = None"
  shows "\<exists>s'. map_pages n pf v s = Some (True, s') \<and> mem_ok s' \<and> extends s s'
    \<and> (\<forall>i<n. \<exists>a. walk (mach s') (page v i) = Some a \<and> frame a = a \<and> free_frame (pool_of pf s) a \<and> leaf s' a)
    \<and> (\<forall>w. heap w \<longrightarrow> (\<forall>i<n. frame w \<noteq> page v i) \<longrightarrow> walk (mach s') w = walk (mach s) w)"
  using assms
proof (induction n arbitrary: v s)
  case 0
  then show ?case by (simp add: extends_refl)
next
  case (Suc n)
  have v0: "heap v" "walk (mach s) v = None" using Suc.prems(5)[of 0] by (simp_all add: page_simps)
  obtain a p s1 where s1: "palloc (pool_of pf s) = Some (a, p)" "a \<noteq> 0"
    "page_table_add v a (set_pool pf p s) = Some s1" "mem_ok s1" "extends s s1" "mapped (mach s) v a (mach s1)"
    "room pf n (v + PG_SIZE) s1" "free_frame (pool_of pf s) a" "frame a = a" "\<not> any_free s1 a" "leaf s1 a"
    using map_step[OF Suc.prems(1) v0 Suc.prems(4)] unfolding leaf_def by blast
  have pt1: "pt_ok (mach s1)" using s1(4) by (simp add: mem_ok_def)
  have rest: "walk (mach s1) w = walk (mach s) w" if "heap w" "frame w \<noteq> v" for w
    using mapped_other[OF s1(6) pt1 v0(1)] that Suc.prems(2) by simp
  have fv: "frame (v + PG_SIZE) = v + PG_SIZE" using frame_page[OF Suc.prems(2), of 1] by (simp add: page_def)
  have nv: "frame (page v (Suc i)) \<noteq> v" if "i < n" for i
    using page_inj[of "Suc i" 0 v] that Suc.prems(3) frame_page[OF Suc.prems(2)] by (simp add: page_simps)
  have "heap (page (v + PG_SIZE) i) \<and> walk (mach s1) (page (v + PG_SIZE) i) = None" if "i < n" for i
    using Suc.prems(5)[of "Suc i"] rest[OF _ nv[OF that]] that by (simp add: page_simps)
  from Suc.IH[OF s1(4) fv _ s1(7) this] obtain s' where s': "map_pages n pf (v + PG_SIZE) s1 = Some (True, s')"
    "mem_ok s'" "extends s1 s'"
    "\<forall>i<n. \<exists>a. walk (mach s') (page v (Suc i)) = Some a \<and> frame a = a \<and> free_frame (pool_of pf s1) a \<and> leaf s' a"
    "\<forall>w. heap w \<longrightarrow> (\<forall>i<n. frame w \<noteq> page v (Suc i)) \<longrightarrow> walk (mach s') w = walk (mach s1) w"
    using Suc.prems(3) by (auto simp: page_simps)
  have "walk (mach s1) v = Some a"
    using s1(6) v0(1) Suc.prems(2) by (simp add: mapped_def frame_iff)
  then have w0: "walk (mach s') v = Some a" using s'(3) v0(1) by (simp add: extends_def)
  have lf: "leaf s' a" by (rule leaf_extends[OF s'(3) s1(11,10)])
  have "\<exists>a. walk (mach s') (page v i) = Some a \<and> frame a = a \<and> free_frame (pool_of pf s) a \<and> leaf s' a"
    if "i < Suc n" for i
    using that w0 lf s1(8,9) s'(4) s1(5) by (cases i) (auto simp: page_simps extends_def)
  moreover have "walk (mach s') w = walk (mach s) w" if "heap w" "\<forall>i<Suc n. frame w \<noteq> page v i" for w
  proof -
    have "frame w \<noteq> v" using that(2) page_simps(1)[of v] by force
    moreover have "\<forall>i<n. frame w \<noteq> page v (Suc i)" using that(2) by simp
    ultimately show ?thesis using rest that(1) s'(5) by simp
  qed
  ultimately show ?case using s'(1,2) extends_trans[OF s1(5) s'(3)] s1(1-3) by simp
qed

text \<open>Two of the new pages do not share a frame.\<close>

lemma frames_distinct:
  assumes "mem_ok s" "frame v = v" "i < 3840" "j < 3840" "heap (page v i)" "heap (page v j)"
    and "walk (mach s) (page v i) = Some a" "walk (mach s) (page v j) = Some a" "any_frame s (frame a)"
  shows "i = j"
proof -
  have "owned s" using assms(1) by (simp add: mem_ok_def)
  then have "pte_addr (mach s) (page v i) = pte_addr (mach s) (page v j)"
    using ownedD[OF _ _ _ assms(7,8) refl assms(9)] assms(5,6) by blast
  moreover have "present (pde_of (mach s) (page v i))" "present (pde_of (mach s) (page v j))"
    using assms(7,8) by (auto simp: walk_def split: if_splits)
  ultimately have "frame (page v i) = frame (page v j)"
    using same_page[OF _ assms(5,6)] assms(1) unfolding mem_ok_def by blast
  then show ?thesis using page_inj assms(3,4) frame_page[OF assms(2)] by simp
qed

end
