(* ===== verification/Pages.thy ===== *)
theory Pages
  imports Memory
begin

text \<open>
  memory.c, pages: the properties of malloc_page, get_kernel_pages, get_user_pages, mfree_page and
  mem_pool_init, and the state the boot loader and mem_pool_init leave.
\<close>

section \<open>Virtual pages\<close>

lemma set_bits_spec:
  assumes "v = 0 \<or> v = 1"
  shows "\<exists>b'. set_bits n st v b = Some b' \<and> btmp_bytes_len b' = btmp_bytes_len b
    \<and> (\<forall>j. bitmap_scan_test b' j \<longleftrightarrow> (if st \<le> j \<and> j < st + n then v = 1 else bitmap_scan_test b j))"
proof (induction n arbitrary: st b)
  case 0
  show ?case by auto
next
  case (Suc n)
  have "\<exists>b1. bitmap_set b st v = Some b1 \<and> btmp_bytes_len b1 = btmp_bytes_len b
      \<and> (\<forall>j. bitmap_scan_test b1 j \<longleftrightarrow> (if j = st then v = 1 else bitmap_scan_test b j))"
    using assms bm.set_mark[of b st] bm.set_clear[of b st] by auto
  then obtain b1 where b1: "bitmap_set b st v = Some b1" "btmp_bytes_len b1 = btmp_bytes_len b"
    "\<And>j. bitmap_scan_test b1 j \<longleftrightarrow> (if j = st then v = 1 else bitmap_scan_test b j)" by blast
  obtain b' where b': "set_bits n (Suc st) v b1 = Some b'" "btmp_bytes_len b' = btmp_bytes_len b1"
    "\<And>j. bitmap_scan_test b' j \<longleftrightarrow> (if Suc st \<le> j \<and> j < Suc st + n then v = 1 else bitmap_scan_test b1 j)"
    using Suc.IH[of "Suc st" b1] by blast
  have "bitmap_scan_test b' j \<longleftrightarrow> (if st \<le> j \<and> j < st + Suc n then v = 1 else bitmap_scan_test b j)" for j
    by (cases "j = st") (auto simp: b'(3) b1(3))
  then show ?case using b1(1,2) b'(1,2) by simp
qed

text \<open>What an address space promises of its bitmap: the pages it counts as free are unmapped
  heap pages, and for a process they lie below its stack page.\<close>

definition vspace :: "pool_flags \<Rightarrow> memory \<Rightarrow> bool" where
  "vspace pf s \<longleftrightarrow> (let va = vaddr_of pf s; base = vaddr_start va; b = vaddr_bitmap va in
     frame base = base \<and> base \<noteq> 0 \<and> unat base + 4096 * (8 * btmp_bytes_len b) \<le> 4294967296
     \<and> (\<forall>i < 8 * btmp_bytes_len b. \<not> bitmap_scan_test b i \<longrightarrow>
          heap (page base i) \<and> walk (mach s) (page base i) = None
          \<and> (pf = PF_USER \<longrightarrow> page base i < 0xc0000000 - PG_SIZE)))"

text \<open>A bit set behind the end of the bitmap keeps a scan for several pages inside it.\<close>

definition guarded :: "nat \<Rightarrow> bitmap \<Rightarrow> bool" where
  "guarded n b \<longleftrightarrow> n = 1 \<or> bitmap_scan_test b (8 * btmp_bytes_len b)"

lemma scan_run_ok:
  assumes "0 < n" "guarded n b" "free_run b r n" "r + n \<le> 8 * btmp_bytes_len b"
  shows "\<exists>k. bitmap_scan b n = Some (int k) \<and> k + n \<le> 8 * btmp_bytes_len b \<and> free_run b k n
    \<and> (\<forall>j<k. \<not> free_run b j n)"
proof -
  have fr: "r < 8 * btmp_bytes_len b" "\<not> bitmap_scan_test b r"
    using assms(1,3,4) by (auto simp: free_run_def)
  show ?thesis
  proof (cases "n = 1")
    case True
    then show ?thesis using bitmap_scan_first[OF fr] by (fastforce simp: free_run_def le_less_Suc_eq)
  next
    case False
    then have "2 \<le> n" using assms(1) by simp
    then obtain x where x: "bitmap_scan b n = Some x" "first_run b n 0 (8 * btmp_bytes_len b + 1) x"
      using bitmap_scan_many fr by blast
    have "x \<noteq> -1" using x(2) assms(3,4) by (fastforce simp: first_run_def)
    then obtain k where k: "x = int k" "k + n \<le> 8 * btmp_bytes_len b + 1" "free_run b k n" "\<forall>j<k. \<not> free_run b j n"
      using x(2) by (auto simp: first_run_def)
    have "bitmap_scan_test b (8 * btmp_bytes_len b)" using assms(2) False by (simp add: guarded_def)
    then have "k + n \<noteq> 8 * btmp_bytes_len b + 1" using k(3) assms(1) by (auto simp: free_run_def)
    then show ?thesis using k x(1) by auto
  qed
qed

lemma mem_ok_cong:
  "mach s' = mach s \<Longrightarrow> kernel_pool s' = kernel_pool s \<Longrightarrow> user_pool s' = user_pool s \<Longrightarrow> mem_ok s' \<longleftrightarrow> mem_ok s"
  by (simp add: mem_ok_def pools_ok_def sealed_def owned_def any_free_def any_frame_def)

lemma set_vaddr_simps [simp]:
  "mach (set_vaddr pf va s) = mach s" "kernel_pool (set_vaddr pf va s) = kernel_pool s"
  "user_pool (set_vaddr pf va s) = user_pool s" "vaddr_of pf (set_vaddr pf va s) = va"
  "pool_of q (set_vaddr pf va s) = pool_of q s" "cur_pgdir (set_vaddr pf va s) = cur_pgdir s"
  by (cases pf; simp add: set_vaddr_def vaddr_of_def pool_of_def)+

text \<open>vaddr_get takes the first run of free pages.\<close>

lemma vaddr_get_ok:
  assumes vs: "vspace pf s" and "0 < n" "guarded n (vaddr_bitmap (vaddr_of pf s))"
    and "free_run (vaddr_bitmap (vaddr_of pf s)) r n" "r + n \<le> 8 * btmp_bytes_len (vaddr_bitmap (vaddr_of pf s))"
  shows "\<exists>k b. vaddr_get pf n s
      = Some (page (vaddr_start (vaddr_of pf s)) k, set_vaddr pf (vaddr_of pf s\<lparr>vaddr_bitmap := b\<rparr>) s)
    \<and> k + n \<le> 8 * btmp_bytes_len (vaddr_bitmap (vaddr_of pf s))
    \<and> free_run (vaddr_bitmap (vaddr_of pf s)) k n \<and> (\<forall>j<k. \<not> free_run (vaddr_bitmap (vaddr_of pf s)) j n)
    \<and> btmp_bytes_len b = btmp_bytes_len (vaddr_bitmap (vaddr_of pf s))
    \<and> (\<forall>j. bitmap_scan_test b j \<longleftrightarrow> (k \<le> j \<and> j < k + n) \<or> bitmap_scan_test (vaddr_bitmap (vaddr_of pf s)) j)"
proof -
  define va where "va = vaddr_of pf s"
  note A = assms[folded va_def]
  obtain k where k: "bitmap_scan (vaddr_bitmap va) n = Some (int k)" "k + n \<le> 8 * btmp_bytes_len (vaddr_bitmap va)"
    "free_run (vaddr_bitmap va) k n" "\<forall>j<k. \<not> free_run (vaddr_bitmap va) j n"
    using scan_run_ok[OF A(2-5)] by blast
  obtain b where b: "set_bits n k 1 (vaddr_bitmap va) = Some b" "btmp_bytes_len b = btmp_bytes_len (vaddr_bitmap va)"
    "\<And>j. bitmap_scan_test b j \<longleftrightarrow> (if k \<le> j \<and> j < k + n then True else bitmap_scan_test (vaddr_bitmap va) j)"
    using set_bits_spec[of 1 n k "vaddr_bitmap va"] by auto
  have "k < 8 * btmp_bytes_len (vaddr_bitmap va)" "\<not> bitmap_scan_test (vaddr_bitmap va) k"
    using k(2,3) A(2) by (auto simp: free_run_def)
  then have "pf = PF_USER \<longrightarrow> page (vaddr_start va) k < 0xc0000000 - PG_SIZE"
    using vs unfolding vspace_def Let_def va_def by blast
  then have "vaddr_get pf n s = Some (page (vaddr_start va) k, set_vaddr pf (va\<lparr>vaddr_bitmap := b\<rparr>) s)"
    using k(1) b(1) by (simp add: vaddr_get_def Let_def va_def[symmetric] page_def)
  then show ?thesis using k b(2,3) unfolding va_def by (intro exI[of _ k] exI[of _ b]) auto
qed

lemma page_page: "page (page v k) i = page v (k + i)"
  by (simp add: page_def algebra_simps)

lemma unat_page:
  assumes "unat v + 4096 * i < 4294967296"
  shows "unat (page v i) = unat v + 4096 * i"
proof -
  have "page v i = of_nat (unat v + 4096 * i)" by (simp add: page_def PG_SIZE_def ac_simps)
  then show ?thesis using assms by (simp only: unsigned_of_nat) (simp add: take_bit_nat_eq_self)
qed


section \<open>malloc_page and get_pages\<close>

text \<open>\<open>n\<close> pages from \<open>v\<close> on are new: they lead to distinct frames, which were free in the pool and
  are no tables, and every translation that existed is as before.\<close>

definition maps_new :: "pool_flags \<Rightarrow> nat \<Rightarrow> u32 \<Rightarrow> memory \<Rightarrow> memory \<Rightarrow> bool" where
  "maps_new pf n v s s' \<longleftrightarrow>
     (\<forall>i<n. walk (mach s) (page v i) = None
        \<and> (\<exists>a. walk (mach s') (page v i) = Some a \<and> frame a = a \<and> free_frame (pool_of pf s) a \<and> leaf s' a))
     \<and> (\<forall>i<n. \<forall>j<n. walk (mach s') (page v i) = walk (mach s') (page v j) \<longrightarrow> i = j)
     \<and> (\<forall>w. \<not> recursive w \<longrightarrow> walk (mach s) w \<noteq> None \<longrightarrow> walk (mach s') w = walk (mach s) w)
     \<and> (\<forall>q a. pool_frame (pool_of q s') a = pool_frame (pool_of q s) a)
     \<and> (\<forall>a. leaf s a \<longrightarrow> \<not> any_free s a \<longrightarrow> leaf s' a) \<and> cur_pgdir s' = cur_pgdir s
     \<and> vaddr_start (vaddr_of pf s') = vaddr_start (vaddr_of pf s)
     \<and> btmp_bytes_len (vaddr_bitmap (vaddr_of pf s')) = btmp_bytes_len (vaddr_bitmap (vaddr_of pf s))"

text \<open>Frames suffice for the pages and for the tables they may need, wherever they are placed.\<close>

definition stocked :: "pool_flags \<Rightarrow> nat \<Rightarrow> memory \<Rightarrow> bool" where
  "stocked pf n s \<longleftrightarrow> (\<forall>k < 8 * btmp_bytes_len (vaddr_bitmap (vaddr_of pf s)).
     room pf n (page (vaddr_start (vaddr_of pf s)) k) s)"

definition first_fit :: "bitmap \<Rightarrow> nat \<Rightarrow> nat \<Rightarrow> bool" where
  "first_fit b n k \<longleftrightarrow> k + n \<le> 8 * btmp_bytes_len b \<and> free_run b k n \<and> (\<forall>j<k. \<not> free_run b j n)"

lemma vspace_run:
  assumes "vspace pf s" "k + n \<le> 8 * btmp_bytes_len (vaddr_bitmap (vaddr_of pf s))"
    "free_run (vaddr_bitmap (vaddr_of pf s)) k n" "i < n"
  shows "heap (page (page (vaddr_start (vaddr_of pf s)) k) i)"
    "walk (mach s) (page (page (vaddr_start (vaddr_of pf s)) k) i) = None"
  using assms unfolding vspace_def Let_def page_page free_run_def by auto

lemma vaddr_remaps:
  assumes "vaddr_start va = vaddr_start (vaddr_of pf s)"
  shows "vspace pf (set_vaddr pf va s) \<longleftrightarrow> (let base = vaddr_start va; b = vaddr_bitmap va in
     frame base = base \<and> base \<noteq> 0 \<and> unat base + 4096 * (8 * btmp_bytes_len b) \<le> 4294967296
     \<and> (\<forall>i < 8 * btmp_bytes_len b. \<not> bitmap_scan_test b i \<longrightarrow>
          heap (page base i) \<and> walk (mach s) (page base i) = None
          \<and> (pf = PF_USER \<longrightarrow> page base i < 0xc0000000 - PG_SIZE)))"
  by (simp add: vspace_def Let_def)

lemma malloc_page_ok:
  assumes ok: "mem_ok s" and vs: "vspace pf s" and n: "0 < n" "n < 3840"
    and gd: "guarded n (vaddr_bitmap (vaddr_of pf s))"
    and run: "free_run (vaddr_bitmap (vaddr_of pf s)) r n" "r + n \<le> 8 * btmp_bytes_len (vaddr_bitmap (vaddr_of pf s))"
    and sup: "stocked pf n s"
  shows "\<exists>k s'. malloc_page pf n s = Some (page (vaddr_start (vaddr_of pf s)) k, s')
    \<and> first_fit (vaddr_bitmap (vaddr_of pf s)) n k \<and> page (vaddr_start (vaddr_of pf s)) k \<noteq> 0
    \<and> mem_ok s' \<and> vspace pf s' \<and> maps_new pf n (page (vaddr_start (vaddr_of pf s)) k) s s'"
proof -
  define va where "va = vaddr_of pf s"
  define base where "base = vaddr_start va"
  define B where "B = vaddr_bitmap va"
  note defs = va_def base_def B_def
  note unf = defs[symmetric]
  obtain k b where k: "vaddr_get pf n s = Some (page base k, set_vaddr pf (va\<lparr>vaddr_bitmap := b\<rparr>) s)"
    "k + n \<le> 8 * btmp_bytes_len B" "free_run B k n" "\<forall>j<k. \<not> free_run B j n" "btmp_bytes_len b = btmp_bytes_len B"
    "\<And>j. bitmap_scan_test b j \<longleftrightarrow> (k \<le> j \<and> j < k + n) \<or> bitmap_scan_test B j"
    using vaddr_get_ok[OF vs n(1) gd run] unfolding unf by blast
  define s1 where "s1 = set_vaddr pf (va\<lparr>vaddr_bitmap := b\<rparr>) s"
  have m1: "mach s1 = mach s" "pool_of q s1 = pool_of q s" "any_frame s1 = any_frame s" for q
    by (simp_all add: s1_def any_frame_pool fun_eq_iff)
  have ok1: "mem_ok s1" using ok mem_ok_cong[of s1 s] by (simp add: s1_def)
  have vb: "frame base = base" "base \<noteq> 0" "unat base + 4096 * (8 * btmp_bytes_len B) \<le> 4294967296"
    using vs by (simp_all add: vspace_def Let_def defs)
  define v where "v = page base k"
  have fv: "frame v = v" using frame_page[OF vb(1)] by (simp add: v_def)
  have rm: "room pf n v s1"
  proof -
    have "k < 8 * btmp_bytes_len B" using k(2) n(1) by simp
    then have "room pf n v s" using sup by (simp add: stocked_def unf v_def)
    then show ?thesis by (simp add: room_def m1(1) m1(2)[of PF_KERNEL, simplified] m1(2)[of PF_USER, simplified])
  qed
  note pg = vspace_run[OF vs, folded defs, OF k(2,3), folded v_def]
  obtain s' where s': "map_pages n pf v s1 = Some (True, s')" "mem_ok s'" "extends s1 s'"
    "\<And>i. i < n \<Longrightarrow> \<exists>a. walk (mach s') (page v i) = Some a \<and> frame a = a \<and> free_frame (pool_of pf s) a \<and> leaf s' a"
    "\<And>w. heap w \<Longrightarrow> \<forall>i<n. frame w \<noteq> page v i \<Longrightarrow> walk (mach s') w = walk (mach s) w"
    using map_pages_ok[OF ok1 fv _ rm] n(2) pg by (fastforce simp: m1)
  have "unat v = unat base + 4096 * k" unfolding v_def by (rule unat_page) (use vb(3) k(2) n(1) in linarith)
  moreover have "unat base \<noteq> 0" using vb(2) by (simp add: unat_eq_zero)
  ultimately have v0: "v \<noteq> 0" using unat_eq_zero[of v] by auto
  have "malloc_page pf n s = Some (v, s')"
    using n k(1) v0 s'(1) by (simp add: malloc_page_def s1_def[symmetric] v_def[symmetric])
  moreover have "first_fit B n k" using k by (simp add: first_fit_def)
  moreover have va': "vaddr_of pf s' = va\<lparr>vaddr_bitmap := b\<rparr>"
    using s'(3) by (cases pf) (simp_all add: extends_def vaddr_of_def s1_def set_vaddr_def)
  moreover have "vspace pf s'"
  proof -
    have "heap (page base i) \<and> walk (mach s') (page base i) = None \<and> (pf = PF_USER \<longrightarrow> page base i < 0xc0000000 - PG_SIZE)"
      if i: "i < 8 * btmp_bytes_len B" "\<not> bitmap_scan_test b i" for i
    proof -
      have h: "heap (page base i)" "walk (mach s) (page base i) = None"
        "pf = PF_USER \<longrightarrow> page base i < 0xc0000000 - PG_SIZE"
        using vs i k(6) unfolding vspace_def Let_def unf by blast+
      have "frame (page base i) \<noteq> page v j" if "j < n" for j
      proof -
        have "i \<noteq> k + j" using i(2) k(6)[of i] that by auto
        then show ?thesis using frame_page[OF vb(1)] page_inj[of i "k + j" base] i(1) k(2) that vb(3)
          by (simp add: v_def page_page)
      qed
      then show ?thesis using h s'(5) by simp
    qed
    then show ?thesis using vb k(5) by (simp add: vspace_def Let_def va' base_def[symmetric])
  qed
  moreover have "maps_new pf n v s s'"
  proof -
    have af: "any_frame s' (frame a)" if "free_frame (pool_of pf s) a" "frame a = a" for a
      using that free_pool_frame s'(3) by (auto simp: extends_def m1 any_frame_pool)
    have "i = j" if h: "i < n" "j < n" "walk (mach s') (page v i) = walk (mach s') (page v j)" for i j
    proof -
      obtain a where a: "walk (mach s') (page v i) = Some a" "frame a = a" "free_frame (pool_of pf s) a"
        using s'(4)[OF h(1)] by blast
      show ?thesis
        by (rule frames_distinct[OF s'(2) fv _ _ pg(1)[OF h(1)] pg(1)[OF h(2)] a(1)])
          (use a h n(2) af[OF a(3,2)] in simp_all)
    qed
    moreover have "leaf s' a" if "leaf s a" "\<not> any_free s a" for a
      using leaf_extends[OF s'(3), of a] that by (simp add: leaf_def m1 any_free_pool)
    moreover have "cur_pgdir s' = cur_pgdir s" using s'(3) by (simp add: extends_def s1_def)
    ultimately show ?thesis using s'(3,4) pg(2) k(5) va' by (simp add: maps_new_def extends_def m1 defs)
  qed
  ultimately show ?thesis using s'(2) v0 unfolding unf v_def[symmetric] by (intro exI[of _ k] exI[of _ s']) (simp add: v_def)
qed


text \<open>Clearing pages that are no tables leaves the translation alone.\<close>

lemma clear_words_add:
  "clear_words (a + b) v m = do { m1 \<leftarrow> clear_words a v m; clear_words b (v + of_nat a * 4) m1 }"
proof (induction a arbitrary: v m)
  case (Suc a)
  show ?case by (cases "store v 0 m") (simp_all add: Suc.IH algebra_simps)
qed simp

definition leaf_frame :: "machine \<Rightarrow> u32 \<Rightarrow> bool" where
  "leaf_frame m a \<longleftrightarrow> frame a = a \<and> (\<forall>w p. recursive w \<longrightarrow> walk m w = Some p \<longrightarrow> frame p \<noteq> a)"

lemma leaf_not_table:
  assumes "root_ok m" "leaf_frame m a"
  shows "a \<noteq> pg_root m" "present (pde_of m w) \<Longrightarrow> frame (pde_of m w) \<noteq> a"
proof -
  show "a \<noteq> pg_root m"
    using walk_pde_ptr[OF assms(1), of 0] assms pde_ptr_parts(1) unfolding leaf_frame_def root_ok_def
    by (metis frame_pde_slot)
  assume "present (pde_of m w)"
  from walk_pte_ptr[OF assms(1) this] show "frame (pde_of m w) \<noteq> a"
    using assms(2) pte_ptr_parts(1) unfolding leaf_frame_def by (metis frame_pte_addr)
qed

lemma wipe_leaf:
  assumes "root_ok m" "leaf_frame m a"
  shows "walk (wipe a 0 1024 m) w = walk m w" "pde_of (wipe a 0 1024 m) w = pde_of m w"
    "pte_addr (wipe a 0 1024 m) w = pte_addr m w" "root_ok (wipe a 0 1024 m)" "pg_root (wipe a 0 1024 m) = pg_root m"
proof -
  have a: "frame a = a" "frame a \<noteq> pg_root m" using leaf_not_table(1)[OF assms] assms(2) by (simp_all add: leaf_frame_def)
  show "pde_of (wipe a 0 1024 m) w = pde_of m w" "pte_addr (wipe a 0 1024 m) w = pte_addr m w"
    "root_ok (wipe a 0 1024 m)" "pg_root (wipe a 0 1024 m) = pg_root m"
    using pde_wipe[OF assms(1) a(2)] by simp_all
  have "walk m w = None" if "frame (pde_of m w) = a"
    using that leaf_not_table(2)[OF assms, of w] by (auto simp: walk_def)
  then show "walk (wipe a 0 1024 m) w = walk m w" using walk_wipe[OF assms(1) a(2,1)] by simp
qed

lemma clear_pages:
  assumes "root_ok m" "frame v = v"
    and "\<forall>i<n. \<exists>a. walk m (page v i) = Some a \<and> leaf_frame m a"
  shows "\<exists>m'. clear_words (n * 1024) v m = Some m' \<and> (\<forall>w. walk m' w = walk m w)
    \<and> (\<forall>w. pde_of m' w = pde_of m w \<and> pte_addr m' w = pte_addr m w) \<and> root_ok m' \<and> pg_root m' = pg_root m
    \<and> (\<forall>i<n. \<forall>j<1024. load (page v i + of_nat j * 4) m' = Some 0)
    \<and> (\<forall>x. phys m' x = phys m x \<or> phys m' x = 0)"
  using assms
proof (induction n arbitrary: v m)
  case 0
  then show ?case by simp
next
  case (Suc n)
  obtain a where a: "walk m v = Some a" "leaf_frame m a" "frame a = a"
    using Suc.prems(3)[rule_format, of 0] by (auto simp: page_simps leaf_frame_def)
  define m1 where "m1 = wipe a 0 1024 m"
  note w1 = wipe_leaf[OF Suc.prems(1) a(2), folded m1_def]
  have pv: "present (pde_of m v)" using a(1) by (auto simp: walk_def split: if_splits)
  have c1: "clear_words 1024 v m = Some m1"
    using clear_words_page[OF Suc.prems(1) a(1) Suc.prems(2) a(3) leaf_not_table(1)[OF Suc.prems(1) a(2)]
        leaf_not_table(2)[OF Suc.prems(1) a(2) pv], of 0 1024] Suc.prems(2) by (simp add: m1_def slot_def)
  have lf: "leaf_frame m1 b \<longleftrightarrow> leaf_frame m b" for b by (simp add: leaf_frame_def w1)
  have fv: "frame (v + PG_SIZE) = v + PG_SIZE" using frame_page[OF Suc.prems(2), of 1] by (simp add: page_def)
  have nx: "\<forall>i<n. \<exists>b. walk m1 (page (v + PG_SIZE) i) = Some b \<and> leaf_frame m1 b"
    using Suc.prems(3) by (simp add: w1 lf page_simps)
  from Suc.IH[OF w1(4) fv nx] obtain m' where m': "clear_words (n * 1024) (v + PG_SIZE) m1 = Some m'"
    "\<forall>w. walk m' w = walk m1 w" "\<forall>w. pde_of m' w = pde_of m1 w \<and> pte_addr m' w = pte_addr m1 w"
    "root_ok m'" "pg_root m' = pg_root m1"
    "\<forall>i<n. \<forall>j<1024. load (page v (Suc i) + of_nat j * 4) m' = Some 0"
    "\<forall>x. phys m' x = phys m1 x \<or> phys m' x = 0" by (auto simp: page_simps)
  have "v + of_nat 1024 * 4 = v + PG_SIZE" by (simp add: PG_SIZE_def)
  then have cl: "clear_words (Suc n * 1024) v m = Some m'"
    using clear_words_add[of 1024 "n * 1024" v m] c1 m'(1) by simp
  have z0: "load (v + of_nat j * 4) m' = Some 0" if "j < 1024" for j
  proof -
    have "walk m' v = Some a" using m'(2) w1 a(1) by simp
    from walk_slot[OF this Suc.prems(2) a(3) that]
    have "walk m' (v + of_nat j * 4) = Some (slot a (of_nat j))" using Suc.prems(2) by (simp add: slot_def)
    moreover have "phys m1 (slot a (of_nat j)) = 0" using that by (auto simp: m1_def wipe_def)
    ultimately show ?thesis using m'(7) by (auto simp: load_def) metis
  qed
  have z: "load (page v i + of_nat j * 4) m' = Some 0" if "i < Suc n" "j < 1024" for i j
    using that z0 m'(6) by (cases i) (simp_all add: page_simps)
  have ph: "phys m' x = phys m x \<or> phys m' x = 0" for x
    using m'(7) by (cases "phys m1 x = phys m x") (auto simp: m1_def wipe_def, metis+)
  show ?case using cl m'(2-5) w1 z ph by (intro exI[of _ m']) simp
qed


section \<open>Release of pages\<close>

lemma pfree_ok:
  assumes po: "pools_ok s" and a: "pool_frame (pool_of q s) a"
  shows "\<exists>p. pfree a s = Some (set_pool q p s) \<and> pool_flag a s = q
    \<and> phy_addr_start p = phy_addr_start (pool_of q s) \<and> pool_cap p = pool_cap (pool_of q s)
    \<and> (\<forall>b. free_frame p b \<longleftrightarrow> b = a \<or> free_frame (pool_of q s) b)"
proof -
  have pk: "pool_ok (pool_of q s)" using po by (simp add: pools_ok_def pool_of_def)
  obtain i where i: "i < pool_cap (pool_of q s)" "a = frame_at (pool_of q s) i"
    using a by (auto simp: pool_frame_def)
  have ua: "unat a = unat (phy_addr_start (pool_of q s)) + 4096 * i"
    using unat_frame_at[OF pk i(1)] i(2) by simp
  have fl: "pool_flag a s = q"
  proof (cases q)
    case PF_KERNEL
    then show ?thesis using pools_disjoint(2)[OF po, of a] a by (simp add: pool_flag_def)
  next
    case PF_USER
    then show ?thesis using ua by (simp add: pool_flag_def word_le_nat_alt)
  qed
  have "a - phy_addr_start (pool_of q s) = of_nat (4096 * i)" using i(2) by (simp add: frame_at_def)
  moreover have "4096 * i < 4294967296" using ua unat_lt_u32[of a] by simp
  ultimately have "unat (a - phy_addr_start (pool_of q s)) = 4096 * i"
    by (simp only: unsigned_of_nat) (simp add: take_bit_nat_eq_self)
  then have ix: "unat ((a - phy_addr_start (pool_of q s)) div PG_SIZE) = i"
    by (simp add: unat_div_distrib PG_SIZE_def)
  obtain b where b: "bitmap_set (pool_bitmap (pool_of q s)) i 0 = Some b"
    "btmp_bytes_len b = btmp_bytes_len (pool_bitmap (pool_of q s))"
    "\<And>j. bitmap_scan_test b j \<longleftrightarrow> j \<noteq> i \<and> bitmap_scan_test (pool_bitmap (pool_of q s)) j"
    using bm.set_clear[of "pool_bitmap (pool_of q s)" i] by auto
  define p where "p = pool_of q s\<lparr>pool_bitmap := b\<rparr>"
  have "pfree a s = Some (set_pool q p s)" by (simp add: pfree_def fl ix b(1) p_def Let_def)
  moreover have cap: "pool_cap p = pool_cap (pool_of q s)" by (simp add: p_def pool_cap_def b(2))
  moreover have "free_frame p c \<longleftrightarrow> c = a \<or> free_frame (pool_of q s) c" for c
  proof -
    have "free_frame p c \<longleftrightarrow> (\<exists>j < pool_cap (pool_of q s). c = frame_at (pool_of q s) j \<and>
        (j = i \<or> \<not> bitmap_scan_test (pool_bitmap (pool_of q s)) j))"
      unfolding free_frame_def cap by (simp add: p_def frame_at_def b(3))
    then show ?thesis using i by (auto simp: free_frame_def)
  qed
  ultimately show ?thesis using fl by (intro exI[of _ p]) (simp add: p_def)
qed

lemma clear_present: "\<not> present (e AND NOT 1)"
  by (simp add: present_def and.assoc)

lemma pte_remove_ok:
  assumes pt: "pt_ok (mach s)" and v: "\<not> recursive v" "present (pde_of (mach s) v)"
  shows "\<exists>m'. page_table_pte_remove v s = Some (s\<lparr>mach := m'\<rparr>) \<and> pt_ok m' \<and> pde_of m' = pde_of (mach s)
    \<and> pte_addr m' = pte_addr (mach s) \<and> (\<forall>w. walk m' w =
        (if present (pde_of (mach s) w) \<and> pte_addr (mach s) w = pte_addr (mach s) v then None else walk (mach s) w))"
proof -
  let ?m = "mach s"
  have r: "root_ok ?m" and ne: "frame (pte_addr ?m v) \<noteq> pg_root ?m" using pt v by (auto simp: pt_ok_def)
  define m' where "m' = poke (pte_addr ?m v) (pte_of ?m v AND NOT 1) ?m"
  have w: "walk m' w = (if present (pde_of ?m w) \<and> pte_addr ?m w = pte_addr ?m v then None else walk ?m w)" for w
    using clear_present[of "pte_of ?m v"] by (simp add: m'_def walk_poke[OF r ne])
  have pd: "pde_of m' = pde_of ?m" "pte_addr m' = pte_addr ?m" "root_ok m'" "pg_root m' = pg_root ?m"
    using pde_poke[OF r ne] by (auto simp: m'_def)
  have "pt_ok m'" using pt pd unfolding pt_ok_def by simp
  moreover have "page_table_pte_remove v s = Some (s\<lparr>mach := m'\<rparr>)"
    by (simp add: page_table_pte_remove_def load_pte[OF r v(2)] store_def walk_pte_ptr[OF r v(2)] m'_def)
  ultimately show ?thesis using pd w by (intro exI[of _ m']) simp
qed

text \<open>One turn of the loops of mfree_page.\<close>

lemma free_step:
  assumes ok: "mem_ok s" and v: "heap v" "frame v = v" "walk (mach s) v = Some a" "frame a = a"
    and a: "pool_frame (pool_of q s) a" "leaf s a"
  shows "\<exists>s1 s2. addr_v2p v (mach s) = Some a \<and> pool_flag a s = q \<and> pfree a s = Some s1 \<and> page_table_pte_remove v s1 = Some s2
    \<and> mem_ok s2 \<and> (\<forall>p b. free_frame (pool_of p s2) b \<longleftrightarrow> (p = q \<and> b = a) \<or> free_frame (pool_of p s) b)
    \<and> (\<forall>p. phy_addr_start (pool_of p s2) = phy_addr_start (pool_of p s) \<and> pool_cap (pool_of p s2) = pool_cap (pool_of p s))
    \<and> kernel_vaddr s2 = kernel_vaddr s \<and> userprog_vaddr s2 = userprog_vaddr s \<and> cur_pgdir s2 = cur_pgdir s
    \<and> walk (mach s2) v = None \<and> (\<forall>w. heap w \<longrightarrow> frame w \<noteq> v \<longrightarrow> walk (mach s2) w = walk (mach s) w)
    \<and> (\<forall>b. leaf s b \<longrightarrow> leaf s2 b)"
proof -
  let ?m = "mach s"
  have po: "pools_ok s" and pt: "pt_ok ?m" and se: "sealed s" and ow: "owned s" using ok by (simp_all add: mem_ok_def)
  have r: "root_ok ?m" using pt by (simp add: pt_ok_def)
  have pv: "present (pde_of ?m v)" "present (pte_of ?m v)" using v(3) by (auto simp: walk_def split: if_splits)
  have a2: "a = frame (pte_of ?m v)" using v(2,3) pv by (simp add: walk_def frame_iff)
  have v2p: "addr_v2p v ?m = Some a"
    using v(2) a2 by (simp add: addr_v2p_def load_pte[OF r pv(1)] frame_iff) (simp add: frame_def)
  obtain p where p: "pfree a s = Some (set_pool q p s)" "pool_flag a s = q"
    "phy_addr_start p = phy_addr_start (pool_of q s)" "pool_cap p = pool_cap (pool_of q s)"
    "\<And>b. free_frame p b \<longleftrightarrow> b = a \<or> free_frame (pool_of q s) b" using pfree_ok[OF po a(1)] by blast
  define s1 where "s1 = set_pool q p s"
  have m1: "mach s1 = ?m" by (simp add: s1_def)
  have pt1: "pt_ok (mach s1)" "present (pde_of (mach s1) v)" using pt pv(1) by (simp_all add: m1)
  obtain m' where m': "page_table_pte_remove v s1 = Some (s1\<lparr>mach := m'\<rparr>)" "pt_ok m'" "pde_of m' = pde_of ?m"
    "pte_addr m' = pte_addr ?m"
    "\<And>w. walk m' w = (if present (pde_of ?m w) \<and> pte_addr ?m w = pte_addr ?m v then None else walk ?m w)"
    using pte_remove_ok[OF pt1(1) _ pt1(2)] v(1) unfolding m1 by blast
  define s2 where "s2 = s1\<lparr>mach := m'\<rparr>"
  have m2: "mach s2 = m'" by (simp add: s2_def)
  have ps: "pool_of x s2 = pool_of x s1" for x by (cases x) (simp_all add: s2_def pool_of_def)
  have fr: "free_frame (pool_of x s2) b \<longleftrightarrow> (x = q \<and> b = a) \<or> free_frame (pool_of x s) b" for x b
    using p(5) by (cases "x = q") (auto simp: ps s1_def)
  have ge: "phy_addr_start (pool_of x s2) = phy_addr_start (pool_of x s)" "pool_cap (pool_of x s2) = pool_cap (pool_of x s)" for x
    using p(3,4) by (cases "x = q"; simp add: ps s1_def)+
  have fs: "any_frame s2 b \<longleftrightarrow> any_frame s b" for b using pool_ok_cong(2)[OF ge] by (simp add: any_frame_pool)
  have po2: "pools_ok s2"
    using po ge[of PF_KERNEL] ge[of PF_USER] pool_ok_cong(1)[OF ge, of PF_KERNEL] pool_ok_cong(1)[OF ge, of PF_USER]
    by (simp add: pools_ok_def)
  have af: "any_frame s a" using a(1) by (auto simp: any_frame_pool)
  have old: "walk ?m w = Some x" if "walk m' w = Some x" for w x using that m'(5)[of w] by (simp split: if_splits)
  have na: "frame x \<noteq> a" if w: "walk m' w = Some x" for w x
  proof (cases "recursive w")
    case True
    then show ?thesis using a(2) old[OF w] by (auto simp: leaf_def)
  next
    case False
    show ?thesis
    proof
      assume e: "frame x = a"
      have "pte_addr ?m w = pte_addr ?m v"
        using ownedD[OF ow False _ old[OF w] v(3)] v(1,4) e af by simp
      moreover have "present (pde_of ?m w)" using old[OF w] by (auto simp: walk_def split: if_splits)
      ultimately show False using w m'(5)[of w] by simp
    qed
  qed
  have "\<not> any_free s2 (frame x)" if w: "walk m' w = Some x" for w x
    using na[OF w] old[OF w] se unfolding sealed_def any_free_pool fr by blast
  then have "sealed s2" by (simp add: sealed_def m2)
  moreover have "owned s2" using ow old unfolding owned_def m2 m'(4) fs by blast
  ultimately have mem: "mem_ok s2" using m'(2) po2 by (simp add: mem_ok_def m2)
  have wv: "walk m' v = None" using m'(5) pv(1) by simp
  have wo: "walk m' w = walk ?m w" if "heap w" "frame w \<noteq> v" for w
    using m'(5)[of w] same_page[OF pt v(1) that(1) pv(1)] that(2) v(2) by auto
  have lf: "leaf s2 b" if "leaf s b" for b using that old by (simp add: leaf_def m2)
  have vs: "kernel_vaddr s2 = kernel_vaddr s" "userprog_vaddr s2 = userprog_vaddr s" "cur_pgdir s2 = cur_pgdir s"
    by (simp_all add: s2_def s1_def)
  show ?thesis using v2p p(1,2) m'(1) mem fr ge vs wv wo lf
    unfolding s1_def[symmetric] s2_def[symmetric] by (intro exI[of _ s1] exI[of _ s2]) (simp add: m2)
qed


definition free_frames :: "pool_flags \<Rightarrow> nat \<Rightarrow> u32 \<Rightarrow> memory \<Rightarrow> memory option" where
  "free_frames q = (if q = PF_USER then free_user_frames else free_kernel_frames)"

text \<open>\<open>holds_pages q n v s\<close>: the pages lead to frames of pool \<open>q\<close> that are no tables.\<close>

definition holds_pages :: "pool_flags \<Rightarrow> nat \<Rightarrow> u32 \<Rightarrow> memory \<Rightarrow> bool" where
  "holds_pages q n v s \<longleftrightarrow> (\<forall>i<n. heap (page v i) \<and>
     (\<exists>a. walk (mach s) (page v i) = Some a \<and> frame a = a \<and> pool_frame (pool_of q s) a \<and> leaf s a))"

lemma pool_range:
  assumes "pools_ok s" "pool_frame (pool_of q s) a"
  shows "phy_addr_start (pool_of q s) \<le> a" "q = PF_KERNEL \<Longrightarrow> a < phy_addr_start (user_pool s)" "0x102000 \<le> a"
proof -
  have pk: "pool_ok (pool_of q s)" using assms(1) by (simp add: pools_ok_def pool_of_def)
  obtain i where i: "i < pool_cap (pool_of q s)" "a = frame_at (pool_of q s) i"
    using assms(2) by (auto simp: pool_frame_def)
  show "phy_addr_start (pool_of q s) \<le> a" using unat_frame_at[OF pk i(1)] i(2) by (simp add: word_le_nat_alt)
  show "0x102000 \<le> a" using frame_at_pos[OF pk i(1)] i(2) by simp
  show "q = PF_KERNEL \<Longrightarrow> a < phy_addr_start (user_pool s)" using pools_disjoint(2)[OF assms(1)] assms(2) by simp
qed

lemma free_frames_ok:
  assumes "mem_ok s" "frame v = v" "n \<le> 3840" "holds_pages q n v s"
  shows "\<exists>s'. free_frames q n v s = Some s' \<and> mem_ok s'
    \<and> (\<forall>p b. free_frame (pool_of p s') b \<longleftrightarrow>
         (p = q \<and> (\<exists>i<n. walk (mach s) (page v i) = Some b)) \<or> free_frame (pool_of p s) b)
    \<and> kernel_vaddr s' = kernel_vaddr s \<and> userprog_vaddr s' = userprog_vaddr s \<and> cur_pgdir s' = cur_pgdir s
    \<and> (\<forall>b. leaf s b \<longrightarrow> leaf s' b) \<and> (\<forall>p b. pool_frame (pool_of p s') b = pool_frame (pool_of p s) b)
    \<and> (\<forall>i<n. walk (mach s') (page v i) = None)
    \<and> (\<forall>w. heap w \<longrightarrow> (\<forall>i<n. frame w \<noteq> page v i) \<longrightarrow> walk (mach s') w = walk (mach s) w)"
  using assms
proof (induction n arbitrary: v s)
  case 0
  then show ?case by (simp add: free_frames_def)
next
  case (Suc n)
  obtain a where a: "heap v" "walk (mach s) v = Some a" "frame a = a" "pool_frame (pool_of q s) a" "leaf s a"
    using Suc.prems(4) page_simps(1)[of v] unfolding holds_pages_def by force
  obtain s1 s2 where st: "addr_v2p v (mach s) = Some a" "pfree a s = Some s1" "page_table_pte_remove v s1 = Some s2"
    "mem_ok s2" "\<forall>p b. free_frame (pool_of p s2) b \<longleftrightarrow> (p = q \<and> b = a) \<or> free_frame (pool_of p s) b"
    "\<forall>p. phy_addr_start (pool_of p s2) = phy_addr_start (pool_of p s) \<and> pool_cap (pool_of p s2) = pool_cap (pool_of p s)"
    "kernel_vaddr s2 = kernel_vaddr s" "userprog_vaddr s2 = userprog_vaddr s" "cur_pgdir s2 = cur_pgdir s"
    "walk (mach s2) v = None" "\<forall>w. heap w \<longrightarrow> frame w \<noteq> v \<longrightarrow> walk (mach s2) w = walk (mach s) w"
    "\<forall>b. leaf s b \<longrightarrow> leaf s2 b"
    using free_step[OF Suc.prems(1) a(1) Suc.prems(2) a(2-5)] by (elim exE conjE) (rule that)
  have fv: "frame (v + PG_SIZE) = v + PG_SIZE" using frame_page[OF Suc.prems(2), of 1] by (simp add: page_def)
  have nv: "frame (page v (Suc i)) \<noteq> v" if "i < n" for i
    using page_inj[of "Suc i" 0 v] that Suc.prems(3) frame_page[OF Suc.prems(2)] by (simp add: page_simps)
  have ws: "walk (mach s2) (page v (Suc i)) = walk (mach s) (page v (Suc i))" if "i < n" for i
  proof -
    have "heap (page v (Suc i))" using Suc.prems(4) that unfolding holds_pages_def by blast
    then show ?thesis using st(11) nv[OF that] by blast
  qed
  have pf: "pool_frame (pool_of x s2) b = pool_frame (pool_of x s) b" for x b
    using pool_ok_cong(2) st(6) by blast
  have hp: "holds_pages q n (v + PG_SIZE) s2"
    unfolding holds_pages_def page_simps pf using Suc.prems(4) ws st(12) unfolding holds_pages_def by (metis Suc_less_eq)
  from Suc.IH[OF st(4) fv _ hp] obtain s' where s': "free_frames q n (v + PG_SIZE) s2 = Some s'" "mem_ok s'"
    "\<forall>p b. free_frame (pool_of p s') b \<longleftrightarrow>
         (p = q \<and> (\<exists>i<n. walk (mach s2) (page v (Suc i)) = Some b)) \<or> free_frame (pool_of p s2) b"
    "kernel_vaddr s' = kernel_vaddr s2 \<and> userprog_vaddr s' = userprog_vaddr s2 \<and> cur_pgdir s' = cur_pgdir s2"
    "\<forall>b. leaf s2 b \<longrightarrow> leaf s' b" "\<forall>p b. pool_frame (pool_of p s') b = pool_frame (pool_of p s2) b"
    "\<forall>i<n. walk (mach s') (page v (Suc i)) = None"
    "\<forall>w. heap w \<longrightarrow> (\<forall>i<n. frame w \<noteq> page v (Suc i)) \<longrightarrow> walk (mach s') w = walk (mach s2) w"
    using Suc.prems(3) by (auto simp: page_simps)
  have po: "pools_ok s" using Suc.prems(1) by (simp add: mem_ok_def)
  have md: "a mod PG_SIZE = 0" using a(3) by (simp add: frame_iff low_mod PG_SIZE_def)
  have eq: "free_frames q (Suc n) v s = Some s'"
    using s'(1) st(1-3) md pool_range[OF po a(4)] by (cases q) (simp_all add: free_frames_def)
  have "walk (mach s') v = walk (mach s2) v"
  proof -
    have "\<forall>i<n. frame v \<noteq> page v (Suc i)" using nv Suc.prems(2) frame_page[OF Suc.prems(2)] by metis
    then show ?thesis using s'(8) a(1) by blast
  qed
  then have un: "walk (mach s') (page v i) = None" if "i < Suc n" for i
    using that st(10) s'(7) by (cases i) (simp_all add: page_simps)
  have fr: "free_frame (pool_of p s') b \<longleftrightarrow>
      (p = q \<and> (\<exists>i<Suc n. walk (mach s) (page v i) = Some b)) \<or> free_frame (pool_of p s) b" for p b
  proof -
    have "(\<exists>i<Suc n. walk (mach s) (page v i) = Some b) \<longleftrightarrow> b = a \<or> (\<exists>i<n. walk (mach s2) (page v (Suc i)) = Some b)"
      using ws a(2) by (auto simp: Ex_less_Suc2 page_simps)
    then show ?thesis using s'(3) st(5) by blast
  qed
  have ot: "walk (mach s') w = walk (mach s) w" if "heap w" "\<forall>i<Suc n. frame w \<noteq> page v i" for w
    using that s'(8) st(11) by (simp add: All_less_Suc2 page_simps)
  show ?case using eq s'(2,4-6) st(7-9,12) un fr ot pf by (intro exI[of _ s']) simp
qed


lemma mfree_page_ok:
  assumes ok: "mem_ok s" and vs: "vspace pf s" and n: "0 < n" "n \<le> 3840"
    and k: "k + n \<le> 8 * btmp_bytes_len (vaddr_bitmap (vaddr_of pf s))"
    and v: "v = page (vaddr_start (vaddr_of pf s)) k"
    and hp: "holds_pages q n v s" and us: "pf = PF_USER \<longrightarrow> (\<forall>i<n. page v i < 0xc0000000 - PG_SIZE)"
  shows "\<exists>s'. mfree_page pf v n s = Some s' \<and> mem_ok s' \<and> vspace pf s'
    \<and> (\<forall>b. free_frame (pool_of q s') b \<longleftrightarrow> (\<exists>i<n. walk (mach s) (page v i) = Some b) \<or> free_frame (pool_of q s) b)
    \<and> (\<forall>i<n. walk (mach s') (page v i) = None)
    \<and> (\<forall>j. bitmap_scan_test (vaddr_bitmap (vaddr_of pf s')) j \<longleftrightarrow>
         \<not> (k \<le> j \<and> j < k + n) \<and> bitmap_scan_test (vaddr_bitmap (vaddr_of pf s)) j)
    \<and> (\<forall>w. heap w \<longrightarrow> (\<forall>i<n. frame w \<noteq> page v i) \<longrightarrow> walk (mach s') w = walk (mach s) w)
    \<and> (\<forall>b. leaf s b \<longrightarrow> leaf s' b) \<and> (\<forall>p b. pool_frame (pool_of p s') b = pool_frame (pool_of p s) b)
    \<and> cur_pgdir s' = cur_pgdir s \<and> vaddr_start (vaddr_of pf s') = vaddr_start (vaddr_of pf s)
    \<and> btmp_bytes_len (vaddr_bitmap (vaddr_of pf s')) = btmp_bytes_len (vaddr_bitmap (vaddr_of pf s))"
proof -
  define va where "va = vaddr_of pf s"
  define base where "base = vaddr_start va"
  define B where "B = vaddr_bitmap va"
  note unf = B_def[symmetric] base_def[symmetric] va_def[symmetric]
  have unf1: "vaddr_bitmap (vaddr_of pf s) = B" "vaddr_start (vaddr_of pf s) = base"
    by (simp_all add: B_def base_def va_def)
  have vb: "frame base = base" "base \<noteq> 0" "unat base + 4096 * (8 * btmp_bytes_len B) \<le> 4294967296"
    using vs by (simp_all add: vspace_def Let_def unf1)
  have v': "v = page base k" and k': "k + n \<le> 8 * btmp_bytes_len B" using v k by (simp_all add: unf1)
  have fv: "frame v = v" using frame_page[OF vb(1)] by (simp add: v')
  obtain s1 where s1: "free_frames q n v s = Some s1" "mem_ok s1"
    "\<And>p b. free_frame (pool_of p s1) b \<longleftrightarrow>
         (p = q \<and> (\<exists>i<n. walk (mach s) (page v i) = Some b)) \<or> free_frame (pool_of p s) b"
    "kernel_vaddr s1 = kernel_vaddr s" "userprog_vaddr s1 = userprog_vaddr s" "cur_pgdir s1 = cur_pgdir s"
    "\<And>i. i < n \<Longrightarrow> walk (mach s1) (page v i) = None"
    "\<And>w. heap w \<Longrightarrow> \<forall>i<n. frame w \<noteq> page v i \<Longrightarrow> walk (mach s1) w = walk (mach s) w"
    "\<And>b. leaf s b \<Longrightarrow> leaf s1 b" "\<And>p b. pool_frame (pool_of p s1) b = pool_frame (pool_of p s) b"
    using free_frames_ok[OF ok fv n(2) hp] by blast
  have va1: "vaddr_of pf s1 = va" using s1(4,5) by (cases pf) (simp_all add: vaddr_of_def va_def)
  have "unat v = unat base + 4096 * k" unfolding v' by (rule unat_page) (use vb(3) k' n(1) in linarith)
  moreover have "v - base = of_nat (4096 * k)" by (simp add: v' page_def PG_SIZE_def)
  moreover have "4096 * k < 4294967296" using calculation(1) unat_lt_u32[of v] by simp
  ultimately have "unat (v - base) = 4096 * k"
    by (simp only: unsigned_of_nat) (simp add: take_bit_nat_eq_self)
  then have ix: "unat ((v - base) div PG_SIZE) = k" by (simp add: unat_div_distrib PG_SIZE_def)
  obtain b where b: "set_bits n k 0 B = Some b" "btmp_bytes_len b = btmp_bytes_len B"
    "\<And>j. bitmap_scan_test b j \<longleftrightarrow> \<not> (k \<le> j \<and> j < k + n) \<and> bitmap_scan_test B j"
    using set_bits_spec[of 0 n k B] by auto
  define s' where "s' = set_vaddr pf (va\<lparr>vaddr_bitmap := b\<rparr>) s1"
  have vr: "vaddr_remove pf v n s1 = Some s'"
    using ix b(1) by (simp add: vaddr_remove_def va1 Let_def s'_def unf)
  obtain a where a: "walk (mach s) v = Some a" "frame a = a" "pool_frame (pool_of q s) a" "leaf s a" "heap v"
    using hp n(1) page_simps(1)[of v] unfolding holds_pages_def by force
  have po: "pools_ok s" using ok by (simp add: mem_ok_def)
  obtain s1' s2' where v2p: "addr_v2p v (mach s) = Some a" "pool_flag a s = q"
    using free_step[OF ok a(5) fv a(1-4)] by blast
  have md: "v mod PG_SIZE = 0" "a mod PG_SIZE = 0" using fv a(2) by (simp_all add: frame_iff low_mod PG_SIZE_def)
  have "mfree_page pf v n s = Some s'"
    using n(1) md v2p pool_range(3)[OF po a(3)] s1(1) vr
    by (cases q) (auto simp: mfree_page_def free_frames_def pool_flag_def split: if_splits)
  moreover have "mem_ok s'" using s1(2) mem_ok_cong[of s' s1] by (simp add: s'_def)
  moreover have "vspace pf s'"
  proof -
    have va': "vaddr_of pf s' = va\<lparr>vaddr_bitmap := b\<rparr>" and m': "mach s' = mach s1" by (simp_all add: s'_def)
    have "heap (page base i) \<and> walk (mach s1) (page base i) = None \<and> (pf = PF_USER \<longrightarrow> page base i < 0xc0000000 - PG_SIZE)"
      if i: "i < 8 * btmp_bytes_len B" "\<not> bitmap_scan_test b i" for i
    proof (cases "k \<le> i \<and> i < k + n")
      case True
      then have "page base i = page v (i - k)" "i - k < n" by (simp add: v' page_page, arith)
      then show ?thesis using s1(7) hp us unfolding holds_pages_def by metis
    next
      case False
      then have "\<not> bitmap_scan_test B i" using i(2) b(3) by blast
      then have h: "heap (page base i)" "walk (mach s) (page base i) = None"
        "pf = PF_USER \<longrightarrow> page base i < 0xc0000000 - PG_SIZE"
        using vs i unfolding vspace_def Let_def unf1 by blast+
      have "frame (page base i) \<noteq> page v j" if "j < n" for j
      proof -
        have "i \<noteq> k + j" using False that by auto
        then show ?thesis using frame_page[OF vb(1)] page_inj[of i "k + j" base] i(1) k' that vb(3)
          by (simp add: v' page_page)
      qed
      then show ?thesis using h s1(8) by simp
    qed
    then show ?thesis using vb b(2) by (simp add: vspace_def Let_def va' base_def[symmetric] m')
  qed
  moreover have "leaf s' x \<longleftrightarrow> leaf s1 x" for x by (simp add: leaf_def s'_def)
  ultimately show ?thesis using s1(3,6-10) b(2,3)
    by (intro exI[of _ s']) (simp add: s'_def unf1 B_def[symmetric] base_def[symmetric])
qed

end
