(* ===== verification/Boot.thy ===== *)
theory Boot
  imports Pages
begin

text \<open>
  The state of memory when the kernel starts to allocate: the page tables that \<open>setup_page\<close> of
  the boot loader builds, and the pools of \<open>mem_pool_init\<close>. It is the first state of the
  invariant of the page allocator.
\<close>

section \<open>Indices as numbers\<close>

lemma unat_PDE_IDX: "unat (PDE_IDX v) = unat v div 4194304"
proof -
  have "PDE_IDX v = drop_bit 22 v"
    by (rule bit_word_eqI) (auto simp: bit_PDE_IDX bit_drop_bit_eq add.commute dest: bit_imp_le_length)
  then show ?thesis by (simp add: unsigned_drop_bit_eq drop_bit_eq_div unat_div_distrib)
qed

lemma unat_PTE_IDX: "unat (PTE_IDX v) = unat v div 4096 mod 1024"
proof -
  have "PTE_IDX v = take_bit 10 (drop_bit 12 v)"
    by (rule bit_word_eqI) (auto simp: bit_PTE_IDX bit_take_bit_iff bit_drop_bit_eq add.commute)
  then have "unat (PTE_IDX v) = take_bit 10 (unat (drop_bit 12 v :: u32))" by (simp only: unsigned_take_bit_eq)
  then show ?thesis by (simp add: unsigned_drop_bit_eq drop_bit_eq_div take_bit_eq_mod unat_div_distrib)
qed

section \<open>The tables of the loader\<close>

definition word_index :: "u32 \<Rightarrow> u32" where
  "word_index x = drop_bit 2 (x AND 0x00000fff)"

text \<open>The page directory at 1 MiB: entries 0 and 768 lead to the first table, 769 to 1022 to
  the tables behind it, 1023 to the directory. The first table maps the first MiB.\<close>

definition boot_machine :: machine where
  "boot_machine = \<lparr>phys = (\<lambda>x.
     let i = word_index x in
     if frame x = 0x100000 then
       (if i = 0 \<or> i = 768 then 0x101007
        else if i = 1023 then 0x100007
        else if 768 < i then (0x101000 + (i - 768) * 4096) OR 7 else 0)
     else if frame x = 0x101000 then (if i < 256 then (0 + i * 4096) OR 7 else 0)
     else 0), pg_root = 0x100000\<rparr>"

lemma word_index_slot: "\<forall>n. bit i n \<longrightarrow> n < 10 \<Longrightarrow> word_index (slot f i) = i"
  unfolding word_index_def
  by (simp only: slot_parts(3)) (rule bit_word_eqI, auto simp: bit_drop_bit_eq bit_push_bit_iff)

lemma frame_consts [simp]: "frame 0x100000 = 0x100000" "frame 0x101000 = 0x101000" "frame 0x101007 = 0x101000"
  "frame 0x100007 = 0x100000" "frame 0 = 0"
  by (simp_all add: frame_def)

lemma boot_root: "pg_root boot_machine = 0x100000"
  by (simp add: boot_machine_def)

lemma boot_slot:
  assumes "\<forall>n. bit i n \<longrightarrow> n < 10" "frame f = g"
  shows "phys boot_machine (slot f i) =
    (if g = 0x100000 then (if i = 0 \<or> i = 768 then 0x101007 else if i = 1023 then 0x100007
        else if 768 < i then (0x101000 + (i - 768) * 4096) OR 7 else 0)
     else if g = 0x101000 then (if i < 256 then (0 + i * 4096) OR 7 else 0) else 0)"
  using assms by (simp add: boot_machine_def word_index_slot frame_slot Let_def)

text \<open>The frame of a table of the kernel.\<close>

definition table_frame :: "u32 \<Rightarrow> u32" where
  "table_frame i = 0x101000 + (i - 768) * 4096"

lemma table_frame_aligned: "frame (table_frame i) = table_frame i"
  unfolding table_frame_def by (rule frame_add(1)) simp

lemma unat_table_frame:
  assumes "768 \<le> i" "i < 1024"
  shows "unat (table_frame i) = 1052672 + (unat i - 768) * 4096"
proof -
  have i: "768 \<le> unat i" "unat i < 1024" using assms by (simp_all add: word_le_nat_alt word_less_nat_alt)
  have "i = of_nat (unat i)" by simp
  then have "i - 768 = of_nat (unat i - 768)" using i(1) by (simp add: of_nat_diff)
  then have "table_frame i = of_nat (1052672 + (unat i - 768) * 4096)" by (simp add: table_frame_def)
  then show ?thesis using i(2) by (simp only: unsigned_of_nat) (simp add: take_bit_nat_eq_self)
qed

lemma PDE_IDX_less: "PDE_IDX v < 1024"
  using unat_lt_u32[of v] by (simp add: word_less_nat_alt unat_PDE_IDX div_less_iff_less_mult)

lemma boot_pde:
  "pde_of boot_machine v =
    (if PDE_IDX v = 0 \<or> PDE_IDX v = 768 then 0x101007 else if recursive v then 0x100007
     else if 768 < PDE_IDX v then table_frame (PDE_IDX v) OR 7 else 0)"
  by (simp add: pde_of_def boot_root boot_slot[OF idx10(1), of "0x100000" "0x100000"] table_frame_def)

lemma present_consts [simp]: "present 0x101007" "present 0x100007" "\<not> present 0"
  by (simp_all add: present_def)

lemma table_7: "frame (table_frame i OR 7) = table_frame i" "present (table_frame i OR 7)"
  by (simp_all only: entry7(1)[OF table_frame_aligned] entry7(2))

lemma boot_pde_frame:
  "present (pde_of boot_machine v) \<longleftrightarrow> PDE_IDX v = 0 \<or> 768 \<le> PDE_IDX v"
  "heap v \<Longrightarrow> 768 \<le> PDE_IDX v \<Longrightarrow> frame (pde_of boot_machine v) = table_frame (PDE_IDX v)"
proof -
  have "768 \<le> PDE_IDX v \<longleftrightarrow> PDE_IDX v = 768 \<or> 768 < PDE_IDX v" by (auto simp: order_le_less)
  moreover have "recursive v \<Longrightarrow> 768 \<le> PDE_IDX v" by simp
  ultimately show "present (pde_of boot_machine v) \<longleftrightarrow> PDE_IDX v = 0 \<or> 768 \<le> PDE_IDX v"
    by (auto simp: boot_pde table_7)
  have "table_frame 768 = 0x101000" by (simp add: table_frame_def)
  then show "heap v \<Longrightarrow> 768 \<le> PDE_IDX v \<Longrightarrow> frame (pde_of boot_machine v) = table_frame (PDE_IDX v)"
    by (auto simp: boot_pde table_7 order_le_less)
qed


lemma table_frame_inj:
  assumes "768 \<le> i" "i < 1024" "768 \<le> j" "j < 1024" "table_frame i = table_frame j"
  shows "i = j"
proof -
  have "unat i = unat j"
    using unat_table_frame[OF assms(1,2)] unat_table_frame[OF assms(3,4)] assms
    by (simp add: word_le_nat_alt word_less_nat_alt)
  then show ?thesis by (rule unsigned_word_eqI)
qed

lemma boot_pt_ok: "pt_ok boot_machine"
proof -
  have "phys boot_machine (slot 0x100000 0x3FF) = 0x100007"
    using boot_slot[OF idx10(1)[of "pte_ptr 0", unfolded pte_ptr_parts(1)], of "0x100000" "0x100000"] by simp
  then have "root_ok boot_machine" by (simp add: root_ok_def boot_root)
  moreover have "frame (pde_of boot_machine v) \<noteq> 0x100000"
    if "\<not> recursive v" "present (pde_of boot_machine v)" for v
  proof (cases "PDE_IDX v = 0")
    case True
    then show ?thesis by (simp add: boot_pde)
  next
    case False
    then have "768 \<le> PDE_IDX v" "frame (pde_of boot_machine v) = table_frame (PDE_IDX v)"
      using that boot_pde_frame by auto
    moreover from this have "unat (frame (pde_of boot_machine v)) \<noteq> 1048576"
      using unat_table_frame[OF _ PDE_IDX_less[of v]] by simp
    ultimately show ?thesis by auto
  qed
  moreover have "PDE_IDX v = PDE_IDX w" if "heap v" "heap w" "present (pde_of boot_machine v)"
    "present (pde_of boot_machine w)" "frame (pde_of boot_machine v) = frame (pde_of boot_machine w)" for v w
  proof -
    have h: "768 \<le> PDE_IDX v" "768 \<le> PDE_IDX w" using that boot_pde_frame(1) by blast+
    show ?thesis using that(5) boot_pde_frame(2)[OF that(1) h(1)] boot_pde_frame(2)[OF that(2) h(2)]
      by (intro table_frame_inj[OF h(1) PDE_IDX_less h(2) PDE_IDX_less]) simp
  qed
  ultimately show ?thesis unfolding pt_ok_def boot_root by blast
qed

lemma unat_1023: "unat (i :: u32) = 1023 \<longleftrightarrow> i = 1023"
proof
  assume "unat i = 1023"
  then have "unat i = unat (1023 :: u32)" by simp
  then show "i = 1023" by (rule unsigned_word_eqI)
qed simp

text \<open>Only the first MiB and the tables are reachable.\<close>

lemma boot_table_low: "768 \<le> i \<Longrightarrow> i < 1024 \<Longrightarrow> table_frame i < 0x201000"
  by (simp add: word_less_nat_alt unat_table_frame word_le_nat_alt)

lemma identity_entry:
  assumes "(i :: u32) < 256"
  shows "frame ((0 + i * 4096) OR 7) < 0x100000"
proof -
  have u: "unat i < 256" using assms by (simp add: word_less_nat_alt)
  have "i * 4096 = of_nat (unat i * 4096)" by simp
  then have "unat (i * 4096) = unat i * 4096"
    using u by (simp only: unsigned_of_nat) (simp add: take_bit_nat_eq_self)
  moreover have "frame (0 + i * 4096) = 0 + i * 4096" by (rule frame_add(1)) simp
  ultimately show ?thesis using u by (simp add: entry7(1) word_less_nat_alt)
qed

lemma boot_pte:
  assumes "present (pde_of boot_machine v)" "present (pte_of boot_machine v)"
  shows "frame (pte_of boot_machine v) < 0x200000"
    "\<not> recursive v \<Longrightarrow> (PDE_IDX v = 0 \<or> PDE_IDX v = 768) \<and> PTE_IDX v < 256"
proof -
  define f where "f = frame (pde_of boot_machine v)"
  note bs = boot_slot[OF idx10(2), of "pde_of boot_machine v" f v, folded f_def]
  have pe: "pte_of boot_machine v = (if f = 0x100000 then pde_of boot_machine (push_bit 22 (PTE_IDX v))
     else if f = 0x101000 then (if PTE_IDX v < 256 then (0 + PTE_IDX v * 4096) OR 7 else 0) else 0)"
  proof -
    have "PDE_IDX (push_bit 22 (PTE_IDX v)) = PTE_IDX v"
      by (rule bit_word_eqI) (auto simp: bit_PDE_IDX bit_PTE_IDX bit_push_bit_iff)
    then show ?thesis using boot_slot[OF idx10(2) f_def[symmetric], of v]
      by (simp add: pte_of_def pte_addr_def boot_pde table_frame_def)
  qed
  show 1: "\<not> recursive v \<Longrightarrow> (PDE_IDX v = 0 \<or> PDE_IDX v = 768) \<and> PTE_IDX v < 256"
  proof -
    assume r: "\<not> recursive v"
    have "f \<noteq> 0x100000" using boot_pt_ok r assms(1) by (simp add: pt_ok_def f_def boot_root)
    then have f: "f = 0x101000" "PTE_IDX v < 256" using assms(2) pe by (auto split: if_splits)
    moreover have "PDE_IDX v = 768" if "PDE_IDX v \<noteq> 0"
    proof -
      have h: "768 \<le> PDE_IDX v" using assms(1) that boot_pde_frame(1) by blast
      have "table_frame 768 = 0x101000" by (simp add: table_frame_def)
      then have "table_frame (PDE_IDX v) = table_frame 768"
        using boot_pde_frame(2)[OF _ h] r that f(1) by (simp add: f_def)
      then show ?thesis by (intro table_frame_inj[OF h PDE_IDX_less]) simp_all
    qed
    ultimately show ?thesis by blast
  qed
  show "frame (pte_of boot_machine v) < 0x200000"
  proof (cases "recursive v")
    case False
    then have "f = 0x101000 \<and> PTE_IDX v < 256"
      using assms(2) pe boot_pt_ok assms(1) by (auto simp: pt_ok_def f_def boot_root split: if_splits)
    then show ?thesis using pe identity_entry[of "PTE_IDX v"] by (auto simp: word_less_nat_alt)
  next
    case True
    define w where "w = push_bit 22 (PTE_IDX v)"
    have e: "pte_of boot_machine v = pde_of boot_machine w" using True pe by (simp add: f_def boot_pde w_def)
    show ?thesis
    proof (cases "PDE_IDX w = 0 \<or> recursive w")
      case True
      then show ?thesis using e by (auto simp: boot_pde)
    next
      case False
      then have h: "768 \<le> PDE_IDX w" "heap w" using assms(2) e boot_pde_frame(1)[of w] by auto
      have "unat (PDE_IDX w) \<noteq> 1023" using h(2) by (metis unat_1023)
      then have "unat (PDE_IDX w) < 1023" using PDE_IDX_less[of w] by (simp add: word_less_nat_alt)
      then show ?thesis using e boot_pde_frame(2)[OF h(2,1)] unat_table_frame[OF h(1) PDE_IDX_less] h(1)
        by (simp add: word_less_nat_alt word_le_nat_alt)
    qed
  qed
qed


section \<open>The pools\<close>

text \<open>Pages \<open>mem_pool_init\<close> counts: a 16-bit number.\<close>

definition free_pages :: "u32 \<Rightarrow> nat" where
  "free_pages all_mem = (unat all_mem - 2097152) div 4096 mod 65536"

lemma unat_free_pages:
  assumes "0x200000 \<le> all_mem"
  shows "unat (ucast ((all_mem - 0x200000) div PG_SIZE) :: u16) = free_pages all_mem"
proof -
  have "unat (all_mem - 0x200000) = unat all_mem - 2097152"
    using assms by (simp add: unat_sub)
  then have "unat ((all_mem - 0x200000) div PG_SIZE) = (unat all_mem - 2097152) div 4096"
    by (simp add: unat_div_distrib PG_SIZE_def)
  then show ?thesis by (simp add: unsigned_ucast_eq take_bit_eq_mod free_pages_def)
qed

lemma mem_pool_init_pools:
  fixes s :: memory
  assumes "0x200000 \<le> all_mem" and s'_def: "s' = mem_pool_init all_mem low s"
  defines "n \<equiv> free_pages all_mem"
  shows "unat (phy_addr_start (kernel_pool s')) = 2097152"
    "unat (phy_addr_start (user_pool s')) = 2097152 + n div 4 * 4096"
    "btmp_bytes_len (pool_bitmap (kernel_pool s')) = n div 4 div 8"
    "btmp_bytes_len (pool_bitmap (user_pool s')) = (n - n div 4) div 8"
    "btmp_bytes_len (vaddr_bitmap (kernel_vaddr s')) = n div 4 div 8"
    "vaddr_start (kernel_vaddr s') = K_HEAP_START" "mach s' = mach s"
    "j < n div 4 div 8 \<Longrightarrow> bits (pool_bitmap (kernel_pool s')) j = 0"
    "j < (n - n div 4) div 8 \<Longrightarrow> bits (pool_bitmap (user_pool s')) j = 0"
    "j < n div 4 div 8 \<Longrightarrow> bits (vaddr_bitmap (kernel_vaddr s')) j = 0"
    "phy_addr_start (kernel_pool s') = 0x200000"
    "phy_addr_start (user_pool s') = 0x200000 + of_nat (n div 4) * 4096"
proof -
  define w where "w = (ucast ((all_mem - 0x200000) div PG_SIZE) :: u16)"
  have w: "unat w = n" using unat_free_pages[OF assms(1)] by (simp add: w_def n_def)
  have nl: "n < 65536" by (simp add: n_def free_pages_def)
  define k where "k = w div 4"
  have k: "unat k = n div 4" by (simp add: k_def unat_div_distrib w)
  define u where "u = w - k"
  have "k \<le> w" by (simp add: word_le_nat_alt k w)
  then have u: "unat u = n - n div 4" by (simp add: u_def unat_sub k w)
  define kb where "kb = (ucast (k div 8) :: u32)"
  define ub where "ub = (ucast (u div 8) :: u32)"
  have ucw: "unat (ucast (x :: u16) :: u32) = unat x" for x
    using unsigned_less[of x, where ?'a = nat] by (simp add: unsigned_ucast_eq take_bit_nat_eq_self)
  have kb: "unat kb = n div 4 div 8" and ub: "unat ub = (n - n div 4) div 8"
    by (simp_all add: kb_def ub_def ucw unat_div_distrib k u)
  have um: "PG_SIZE * 256 + 0x100000 = (0x200000 :: u32)" by (simp add: PG_SIZE_def)
  have s': "s' = s\<lparr>kernel_pool := \<lparr>pool_bitmap = bitmap_init (bitmap_at low MEM_BITMAP_BASE kb),
               phy_addr_start = 0x200000, pool_size = ucast k * PG_SIZE\<rparr>,
           user_pool := \<lparr>pool_bitmap = bitmap_init (bitmap_at low (MEM_BITMAP_BASE + kb) ub),
               phy_addr_start = 0x200000 + ucast k * PG_SIZE, pool_size = ucast u * PG_SIZE\<rparr>,
           kernel_vaddr := \<lparr>vaddr_bitmap = bitmap_init (bitmap_at low (MEM_BITMAP_BASE + kb + ub) kb),
               vaddr_start = K_HEAP_START\<rparr>\<rparr>"
    unfolding s'_def mem_pool_init_def Let_def um w_def[symmetric] k_def[symmetric] u_def[symmetric]
      kb_def[symmetric] ub_def[symmetric] by simp
  have "of_nat (unat (ucast k :: u32)) = (ucast k :: u32)" by (simp del: unsigned_ucast_eq)
  then have kw: "(ucast k :: u32) = of_nat (n div 4)" by (simp only: ucw k)
  have pk: "0x200000 + ucast k * PG_SIZE = (of_nat (2097152 + n div 4 * 4096) :: u32)"
    by (simp add: kw PG_SIZE_def)
  show "unat (phy_addr_start (user_pool s')) = 2097152 + n div 4 * 4096"
  proof -
    have "phy_addr_start (user_pool s') = of_nat (2097152 + n div 4 * 4096)" by (simp add: s' pk[symmetric] PG_SIZE_def kw)
    then show ?thesis using nl by (simp only: unsigned_of_nat) (simp add: take_bit_nat_eq_self)
  qed
  show "phy_addr_start (user_pool s') = 0x200000 + of_nat (n div 4) * 4096" by (simp add: s' kw PG_SIZE_def)
  show "unat (phy_addr_start (kernel_pool s')) = 2097152"
    "btmp_bytes_len (pool_bitmap (kernel_pool s')) = n div 4 div 8"
    "btmp_bytes_len (pool_bitmap (user_pool s')) = (n - n div 4) div 8"
    "btmp_bytes_len (vaddr_bitmap (kernel_vaddr s')) = n div 4 div 8"
    "vaddr_start (kernel_vaddr s') = K_HEAP_START" "mach s' = mach s"
    "phy_addr_start (kernel_pool s') = 0x200000"
    "j < n div 4 div 8 \<Longrightarrow> bits (pool_bitmap (kernel_pool s')) j = 0"
    "j < (n - n div 4) div 8 \<Longrightarrow> bits (pool_bitmap (user_pool s')) j = 0"
    "j < n div 4 div 8 \<Longrightarrow> bits (vaddr_bitmap (kernel_vaddr s')) j = 0"
    by (simp_all add: s' bitmap_init_def bitmap_at_def kb ub)
qed


lemma test_zero: "bits b (i div 8) = 0 \<Longrightarrow> \<not> bitmap_scan_test b i"
  by (simp add: bitmap_scan_test_def Let_def)

lemma pool_ge:
  assumes "pool_ok p" "0x200000 \<le> phy_addr_start p" "pool_frame p a"
  shows "0x200000 \<le> a"
proof -
  obtain i where "i < pool_cap p" "a = frame_at p i" using assms(3) by (auto simp: pool_frame_def)
  then show ?thesis using unat_frame_at[OF assms(1)] assms(2) by (simp add: word_le_nat_alt)
qed

text \<open>The tables of the loader and the pools of mem_pool_init satisfy the invariant; every frame
  and every page of the kernel heap is free.\<close>

lemma boot_ok:
  assumes "0x200000 \<le> all_mem" "mach s = boot_machine" and s': "s' = mem_pool_init all_mem low s"
  shows "mem_ok s'" "vspace PF_KERNEL s'"
    "i < pool_cap (kernel_pool s') \<Longrightarrow> free_frame (kernel_pool s') (frame_at (kernel_pool s') i)"
    "i < pool_cap (user_pool s') \<Longrightarrow> free_frame (user_pool s') (frame_at (user_pool s') i)"
proof -
  define n where "n = free_pages all_mem"
  note pi = mem_pool_init_pools[OF assms(1) s', folded n_def]
  have n: "n < 65536" by (simp add: n_def free_pages_def)
  have caps: "pool_cap (kernel_pool s') \<le> n div 4" "pool_cap (user_pool s') \<le> n - n div 4"
    by (simp_all add: pool_cap_def pi(3,4))
  have f2: "frame (0x200000 + of_nat (n div 4) * 4096) = 0x200000 + of_nat (n div 4) * 4096" "frame 0x200000 = 0x200000"
    by (rule frame_add(1)) (simp_all add: frame_def)
  have pk: "pool_ok (kernel_pool s')" using pi(1) caps(1) n by (simp add: pool_ok_def pi(11) f2)
  have pu: "pool_ok (user_pool s')" using pi(2) caps(2) n unfolding pool_ok_def pi(12)
    by (simp add: f2 word_le_nat_alt)
  have po: "pools_ok s'" using pk pu pi(1,2) caps by (simp add: pools_ok_def)
  have m: "mach s' = boot_machine" using pi(7) assms(2) by simp
  have hi: "0x200000 \<le> a" if "any_frame s' a" for a
    using that pool_ge[OF pk] pool_ge[OF pu] pi(2) by (auto simp: any_frame_def pi(11) word_le_nat_alt)
  have lo: "frame p < 0x200000" if "walk boot_machine v = Some p" for v p
  proof -
    have pr: "present (pde_of boot_machine v)" "present (pte_of boot_machine v)"
      "p = frame (pte_of boot_machine v) + (v AND 0x00000fff)" using that by (auto simp: walk_def split: if_splits)
    then show ?thesis using boot_pte(1)[OF pr(1,2)] frame_plus_low[of "frame (pte_of boot_machine v)"] by simp
  qed
  have nf: "\<not> any_frame s' (frame p)" if "walk boot_machine v = Some p" for v p
    using hi[of "frame p"] lo[OF that] by (auto simp: not_less[symmetric])
  have "sealed s'" using nf free_pool_frame unfolding sealed_def m any_free_def any_frame_def by blast
  moreover have "owned s'" using nf unfolding owned_def m by blast
  ultimately show "mem_ok s'" using po boot_pt_ok by (simp add: mem_ok_def m)
  show "i < pool_cap (kernel_pool s') \<Longrightarrow> free_frame (kernel_pool s') (frame_at (kernel_pool s') i)"
    using test_zero pi(8)[of "i div 8"] by (auto simp: free_frame_def pool_cap_def pi(3))
  show "i < pool_cap (user_pool s') \<Longrightarrow> free_frame (user_pool s') (frame_at (user_pool s') i)"
    using test_zero pi(9)[of "i div 8"] by (auto simp: free_frame_def pool_cap_def pi(4))
  have base: "unat K_HEAP_START = 3222274048" by (simp add: K_HEAP_START_def)
  have pg: "heap (page K_HEAP_START j) \<and> walk boot_machine (page K_HEAP_START j) = None" if "j < n div 4" for j
  proof -
    define v where "v = page K_HEAP_START j"
    have u: "unat v = 3222274048 + 4096 * j" unfolding v_def using unat_page[of K_HEAP_START j] base that n by simp
    have ix: "unat (PDE_IDX v) = 768 + (256 + j) div 1024" "unat (PTE_IDX v) = (256 + j) mod 1024"
    proof -
      have "unat v div 4194304 = 768 + (256 + j) div 1024" using u by simp
      then show "unat (PDE_IDX v) = 768 + (256 + j) div 1024" by (simp only: unat_PDE_IDX)
      have "unat v div 4096 = (256 + j) + 1024 * 768" using u by simp
      then show "unat (PTE_IDX v) = (256 + j) mod 1024" by (simp only: unat_PTE_IDX mod_mult_self2)
    qed
    have h: "heap v" using ix(1) that n unat_1023[of "PDE_IDX v"] by (auto simp: unat_eq_zero[symmetric])
    have "walk boot_machine v = None"
    proof (rule ccontr)
      assume "walk boot_machine v \<noteq> None"
      then have "present (pde_of boot_machine v)" "present (pte_of boot_machine v)" by (auto simp: walk_def split: if_splits)
      then have "PDE_IDX v = 768" "PTE_IDX v < 256" using boot_pte(2) h by blast+
      then have "(256 + j) div 1024 = 0" "(256 + j) mod 1024 < 256" using ix by (simp_all add: word_less_nat_alt)
      then show False by (simp add: div_eq_0_iff)
    qed
    with h show ?thesis by (simp add: v_def)
  qed
  have "frame K_HEAP_START = K_HEAP_START" by (simp add: frame_def K_HEAP_START_def)
  then show "vspace PF_KERNEL s'"
    using pg base n pi(5) by (simp add: vspace_def Let_def vaddr_of_def pi(6) m) (simp add: K_HEAP_START_def)
qed


section \<open>Properties\<close>

lemma recursive_entry:
  assumes "root_ok m"
  shows "load (pde_ptr v) m = Some (pde_of m v)"
    "load (pte_ptr v) m = (if present (pde_of m v) then Some (pte_of m v) else None)"
    "walk m v = Some p \<Longrightarrow> addr_v2p v m = Some p"
proof -
  show 1: "load (pde_ptr v) m = Some (pde_of m v)" by (rule load_pde[OF assms])
  have n: "walk m (pte_ptr v) = None" if "\<not> present (pde_of m v)"
  proof -
    have "pte_of m (pte_ptr v) = pde_of m v"
      using walk_pde_ptr[OF assms, of v] assms
      by (simp add: pte_of_def pte_addr_def pte_ptr_parts pde_of_def root_ok_def) (metis slot_frame)
    then show ?thesis using that by (simp add: walk_def)
  qed
  show 2: "load (pte_ptr v) m = (if present (pde_of m v) then Some (pte_of m v) else None)"
    using load_pte[OF assms, of v] n by (simp add: load_def)
  show "walk m v = Some p \<Longrightarrow> addr_v2p v m = Some p"
    using 2 by (auto simp: addr_v2p_def walk_def frame_def split: if_splits)
qed

text \<open>The recursive directory entry: at the addresses \<open>pde_ptr v\<close> and \<open>pte_ptr v\<close> the kernel
  reads exactly the two entries the processor walks through to translate \<open>v\<close>, and addr_v2p
  returns the translation of every mapped address.\<close>
theorem recursive_entry_correct:
  assumes "root_ok m"
  shows "load (pde_ptr v) m = Some (pde_of m v)
    \<and> load (pte_ptr v) m = (if present (pde_of m v) then Some (pte_of m v) else None)
    \<and> (\<forall>p. walk m v = Some p \<longrightarrow> addr_v2p v m = Some p)"
  using recursive_entry[OF assms] by blast

theorem recursive_entry_witness:
  "load (pde_ptr 0xc0001234) boot_machine = Some (pde_of boot_machine 0xc0001234)
   \<and> addr_v2p 0xc0001234 boot_machine = Some 0x1234"
proof -
  have r: "root_ok boot_machine" using boot_pt_ok by (simp add: pt_ok_def)
  have "unat (PDE_IDX 0xc0001234) = unat (768 :: u32)" by (simp add: unat_PDE_IDX)
  then have ix: "PDE_IDX 0xc0001234 = 768" by (rule unsigned_word_eqI)
  have "unat (PTE_IDX 0xc0001234) = unat (1 :: u32)" by (simp add: unat_PTE_IDX)
  then have "PTE_IDX 0xc0001234 = 1" by (rule unsigned_word_eqI)
  note ix = ix this
  have pd: "pde_of boot_machine 0xc0001234 = 0x101007" by (simp add: boot_pde ix)
  have "pte_of boot_machine 0xc0001234 = 0x1007"
    using boot_slot[OF idx10(2)[of "0xc0001234"], of "0x101007" "0x101000"]
    by (simp add: pte_of_def pte_addr_def pd ix word_less_nat_alt)
  then have "walk boot_machine 0xc0001234 = Some 0x1234"
    by (simp add: walk_def pd present_def frame_def)
  then show ?thesis using recursive_entry_correct[OF r, of "0xc0001234"] by blast
qed



definition memory0 :: memory where
  "memory0 = \<lparr>mach = boot_machine, kernel_pool = \<lparr>pool_bitmap = \<lparr>btmp_bytes_len = 0, bits = (\<lambda>_. 0)\<rparr>,
     phy_addr_start = 0, pool_size = 0\<rparr>, user_pool = \<lparr>pool_bitmap = \<lparr>btmp_bytes_len = 0, bits = (\<lambda>_. 0)\<rparr>,
     phy_addr_start = 0, pool_size = 0\<rparr>, kernel_vaddr = \<lparr>vaddr_bitmap = \<lparr>btmp_bytes_len = 0, bits = (\<lambda>_. 0)\<rparr>,
     vaddr_start = 0\<rparr>, userprog_vaddr = \<lparr>vaddr_bitmap = \<lparr>btmp_bytes_len = 0, bits = (\<lambda>_. 0)\<rparr>,
     vaddr_start = 0\<rparr>, cur_pgdir = 0\<rparr>"


text \<open>512 MiB, the size the comment on the bitmaps names, leave 130560 pages; the pools get 65024.\<close>

lemma pool_truncation:
  "pool_cap (kernel_pool (mem_pool_init 0x20000000 low s)) + pool_cap (user_pool (mem_pool_init 0x20000000 low s)) = 65024
   \<and> (unat (0x20000000 :: u32) - 2097152) div 4096 = 130560"
proof -
  have "pool_cap (kernel_pool (mem_pool_init 0x20000000 low s)) = 16256"
    "pool_cap (user_pool (mem_pool_init 0x20000000 low s)) = 48768"
    using mem_pool_init_pools(3,4)[of "0x20000000" "mem_pool_init 0x20000000 low s" low s]
    by (simp_all add: pool_cap_def free_pages_def)
  then show ?thesis by simp
qed

lemma missing_le: "missing m v n \<le> n"
proof -
  have "card {i. i < n \<and> \<not> present (pde_of m (page v i))} \<le> card {i. i < n}" by (rule card_mono) auto
  then show ?thesis by (simp add: missing_def)
qed

lemma nfree_all:
  assumes "\<And>i. i < pool_cap p \<Longrightarrow> free_frame p (frame_at p i)" "pool_ok p"
  shows "nfree p = pool_cap p"
proof -
  have "\<not> bitmap_scan_test (pool_bitmap p) i" if i: "i < pool_cap p" for i
    using assms(1)[OF i] frame_at_inj[OF assms(2) i] by (auto simp: free_frame_def)
  then have "{i. i < pool_cap p \<and> \<not> bitmap_scan_test (pool_bitmap p) i} = {..<pool_cap p}" by auto
  then show ?thesis by (simp add: nfree_def)
qed

lemma get_pages_ok:
  assumes "mem_ok s" "vspace pf s" "0 < n" "n < 3840"
    and "guarded n (vaddr_bitmap (vaddr_of pf s))"
    and "free_run (vaddr_bitmap (vaddr_of pf s)) r n" "r + n \<le> 8 * btmp_bytes_len (vaddr_bitmap (vaddr_of pf s))"
    and "stocked pf n s"
  shows "\<exists>k s'. get_pages pf n s = Some (page (vaddr_start (vaddr_of pf s)) k, s')
    \<and> first_fit (vaddr_bitmap (vaddr_of pf s)) n k
    \<and> mem_ok s' \<and> vspace pf s' \<and> maps_new pf n (page (vaddr_start (vaddr_of pf s)) k) s s'
    \<and> (\<forall>i<n. \<forall>j<1024. load (page (page (vaddr_start (vaddr_of pf s)) k) i + of_nat j * 4) (mach s') = Some 0)"
proof -
  define base where "base = vaddr_start (vaddr_of pf s)"
  obtain k s1 where s1: "malloc_page pf n s = Some (page base k, s1)" "first_fit (vaddr_bitmap (vaddr_of pf s)) n k"
    "page base k \<noteq> 0" "mem_ok s1" "vspace pf s1" "maps_new pf n (page base k) s s1"
    using malloc_page_ok[OF assms] unfolding base_def by blast
  have r: "root_ok (mach s1)" using s1(4) by (simp add: mem_ok_def pt_ok_def)
  have fb: "frame (page base k) = page base k"
    by (rule frame_page) (use assms(2) in \<open>simp add: vspace_def Let_def base_def\<close>)
  have lf: "\<forall>i<n. \<exists>a. walk (mach s1) (page (page base k) i) = Some a \<and> leaf_frame (mach s1) a"
    using s1(6) unfolding maps_new_def leaf_def leaf_frame_def by blast
  obtain m where m: "clear_words (n * 1024) (page base k) (mach s1) = Some m" "\<forall>w. walk m w = walk (mach s1) w"
    "\<forall>w. pde_of m w = pde_of (mach s1) w \<and> pte_addr m w = pte_addr (mach s1) w" "root_ok m" "pg_root m = pg_root (mach s1)"
    "\<forall>i<n. \<forall>j<1024. load (page (page base k) i + of_nat j * 4) m = Some 0"
    using clear_pages[OF r fb lf] by (elim exE conjE) (rule that)
  define s' where "s' = s1\<lparr>mach := m\<rparr>"
  have st: "mach s' = m" "pool_of q s' = pool_of q s1" "vaddr_of pf s' = vaddr_of pf s1"
    "kernel_pool s' = kernel_pool s1" "user_pool s' = user_pool s1" "cur_pgdir s' = cur_pgdir s1" for q
    by (simp_all add: s'_def pool_of_def vaddr_of_def)
  have e: "walk m = walk (mach s1)" "pde_of m = pde_of (mach s1)" "pte_addr m = pte_addr (mach s1)"
    using m(2,3) by (auto simp: fun_eq_iff)
  have "pt_ok m" using s1(4) m(4) unfolding mem_ok_def pt_ok_def e m(5) by (elim conjE) (intro conjI)
  then have "mem_ok s'" using s1(4)
    unfolding mem_ok_def pools_ok_def sealed_def owned_def any_free_def any_frame_def st e by (elim conjE) (intro conjI)
  moreover have "vspace pf s'" using s1(5) unfolding vspace_def st e .
  moreover have "maps_new pf n (page base k) s s'" using s1(6) unfolding maps_new_def leaf_def st e .
  moreover have "get_pages pf n s = Some (page base k, s')"
    using s1(1,3) m(1) by (simp add: get_pages_def s'_def)
  ultimately show ?thesis using s1(2) m(6) unfolding base_def[symmetric] by (intro exI[of _ k] exI[of _ s']) (simp add: st)
qed


text \<open>The state after boot with 32 MiB, the bytes behind the bitmaps set.\<close>

definition memory1 :: memory where
  "memory1 = mem_pool_init 0x2000000 (\<lambda>_. 1) memory0"

lemma memory1_ok:
  "mem_ok memory1" "vspace PF_KERNEL memory1" "btmp_bytes_len (vaddr_bitmap (vaddr_of PF_KERNEL memory1)) = 240"
  "vaddr_start (vaddr_of PF_KERNEL memory1) = K_HEAP_START" "1920 = nfree (kernel_pool memory1)"
  "\<And>i. i < 1920 \<Longrightarrow> \<not> bitmap_scan_test (vaddr_bitmap (vaddr_of PF_KERNEL memory1)) i" "cur_pgdir memory1 = 0"
proof -
  have b: "0x200000 \<le> (0x2000000 :: u32)" "mach memory0 = boot_machine" by (simp_all add: memory0_def)
  note ok = boot_ok[OF b memory1_def] and pi = mem_pool_init_pools[OF b(1) memory1_def]
  have n: "free_pages 0x2000000 = 7680" by (simp add: free_pages_def)
  show "mem_ok memory1" "vspace PF_KERNEL memory1" by (rule ok)+
  show "btmp_bytes_len (vaddr_bitmap (vaddr_of PF_KERNEL memory1)) = 240"
    "vaddr_start (vaddr_of PF_KERNEL memory1) = K_HEAP_START"
    using pi(5,6) by (simp_all add: vaddr_of_def n)
  have "pool_ok (kernel_pool memory1)" using ok(1) by (simp add: mem_ok_def pools_ok_def)
  then show "1920 = nfree (kernel_pool memory1)" using nfree_all[OF ok(3)] pi(3) by (simp add: pool_cap_def n)
  show "\<not> bitmap_scan_test (vaddr_bitmap (vaddr_of PF_KERNEL memory1)) i" if "i < 1920" for i
    using pi(10)[of "i div 8"] that by (intro test_zero) (simp add: vaddr_of_def n)
  show "cur_pgdir memory1 = 0" by (simp add: memory1_def mem_pool_init_def Let_def memory0_def)
qed

lemma memory1_room: "n \<le> 960 \<Longrightarrow> room PF_KERNEL n v memory1"
  using memory1_ok(5) missing_le[of "mach memory1" v n] by (simp add: room_def)

lemma memory1_run: "n \<le> 1920 \<Longrightarrow> free_run (vaddr_bitmap (vaddr_of PF_KERNEL memory1)) 0 n"
  using memory1_ok(6) by (simp add: free_run_def)

lemma memory1_guard: "guarded n (vaddr_bitmap (vaddr_of PF_KERNEL memory1))"
proof -
  have "bitmap_scan_test (vaddr_bitmap (vaddr_of PF_KERNEL memory1)) 1920"
    using memory1_ok(3)
    by (simp add: bitmap_scan_test_def memory1_def mem_pool_init_def Let_def vaddr_of_def bitmap_init_def bitmap_at_def)
  then show ?thesis using memory1_ok(3) by (simp add: guarded_def)
qed

lemma first_fit_0: "free_run b 0 n \<Longrightarrow> first_fit b n k \<Longrightarrow> k = 0"
  by (auto simp: first_fit_def)





lemma get_a_page_ok:
  assumes "mem_ok s" "heap v" "frame v = v" "walk (mach s) v = None" "room pf 1 v s"
  defines "i \<equiv> unat ((v - vaddr_start (vaddr_of pf s)) div PG_SIZE)"
  defines "allowed \<equiv> (cur_pgdir s \<noteq> 0 \<and> pf = PF_USER \<or> cur_pgdir s = 0 \<and> pf = PF_KERNEL) \<and> 0 < i"
  shows "\<exists>a s1. get_a_page_without_opvaddrbitmap pf v s = Some (v, s1) \<and> mem_ok s1 \<and> extends s s1
      \<and> walk (mach s1) v = Some a \<and> free_frame (pool_of pf s) a"
    "\<not> allowed \<Longrightarrow> get_a_page pf v s = None"
    "allowed \<Longrightarrow> \<exists>a s2. get_a_page pf v s = Some (v, s2) \<and> mem_ok s2 \<and> walk (mach s2) v = Some a
      \<and> free_frame (pool_of pf s) a \<and> bitmap_scan_test (vaddr_bitmap (vaddr_of pf s2)) i
      \<and> (\<forall>w. \<not> recursive w \<longrightarrow> walk (mach s) w \<noteq> None \<longrightarrow> walk (mach s2) w = walk (mach s) w)"
proof -
  have step: "\<exists>a p s1. palloc (pool_of pf t) = Some (a, p) \<and> a \<noteq> 0 \<and> page_table_add v a (set_pool pf p t) = Some s1
      \<and> mem_ok s1 \<and> extends t s1 \<and> walk (mach s1) v = Some a \<and> free_frame (pool_of pf t) a"
    if t: "mem_ok t" "walk (mach t) v = None" "room pf 1 v t" for t
  proof -
    obtain a p s1 where "palloc (pool_of pf t) = Some (a, p)" "a \<noteq> 0" "page_table_add v a (set_pool pf p t) = Some s1"
      "mem_ok s1" "extends t s1" "mapped (mach t) v a (mach s1)" "free_frame (pool_of pf t) a"
      using map_step[OF t(1) assms(2) t(2), of pf 0] t(3) by auto
    then show ?thesis using assms(2,3) by (auto simp: mapped_def frame_iff)
  qed
  show "\<exists>a s1. get_a_page_without_opvaddrbitmap pf v s = Some (v, s1) \<and> mem_ok s1 \<and> extends s s1
      \<and> walk (mach s1) v = Some a \<and> free_frame (pool_of pf s) a"
    using step[OF assms(1,4,5)] by (auto simp: get_a_page_without_opvaddrbitmap_def)
  show "\<not> allowed \<Longrightarrow> get_a_page pf v s = None"
  proof -
    assume na: "\<not> allowed"
    define c where "c \<longleftrightarrow> cur_pgdir s \<noteq> 0 \<and> pf = PF_USER \<or> cur_pgdir s = 0 \<and> pf = PF_KERNEL"
    show ?thesis using na unfolding get_a_page_def allowed_def Let_def i_def[symmetric] c_def[symmetric]
      by (cases c) simp_all
  qed
  assume al: allowed
  define va where "va = vaddr_of pf s"
  obtain b where b: "bitmap_set (vaddr_bitmap va) i 1 = Some b"
    "\<And>j. bitmap_scan_test b j \<longleftrightarrow> j = i \<or> bitmap_scan_test (vaddr_bitmap va) j"
    using bm.set_mark[of "vaddr_bitmap va" i] by auto
  define t where "t = set_vaddr pf (va\<lparr>vaddr_bitmap := b\<rparr>) s"
  have t: "mem_ok t" "walk (mach t) v = None" "room pf 1 v t"
    using assms(1,4,5) mem_ok_cong[of t s] by (simp_all add: t_def room_def)
  obtain a p s2 where s2: "palloc (pool_of pf t) = Some (a, p)" "a \<noteq> 0" "page_table_add v a (set_pool pf p t) = Some s2"
    "mem_ok s2" "extends t s2" "walk (mach s2) v = Some a" "free_frame (pool_of pf t) a" using step[OF t] by blast
  have "get_a_page pf v s = Some (v, s2)"
    using al b(1) s2(1-3) by (simp add: get_a_page_def allowed_def i_def va_def t_def Let_def)
  moreover have "vaddr_of pf s2 = va\<lparr>vaddr_bitmap := b\<rparr>"
    using s2(5) by (cases pf) (simp_all add: extends_def vaddr_of_def t_def set_vaddr_def)
  ultimately show "\<exists>a s2. get_a_page pf v s = Some (v, s2) \<and> mem_ok s2 \<and> walk (mach s2) v = Some a
      \<and> free_frame (pool_of pf s) a \<and> bitmap_scan_test (vaddr_bitmap (vaddr_of pf s2)) i
      \<and> (\<forall>w. \<not> recursive w \<longrightarrow> walk (mach s) w \<noteq> None \<longrightarrow> walk (mach s2) w = walk (mach s) w)"
    using s2(4-7) b(2) by (intro exI[of _ a] exI[of _ s2]) (simp add: extends_def t_def)
qed

text \<open>C15: get_a_page and get_a_page_without_opvaddrbitmap at an unmapped heap page: both enter a frame
  that was free in the pool of the flag and keep every translation and the invariant; the first one
  also marks the bit of the page, and it stops the kernel when a process asks for a kernel page or a
  kernel thread for a user page, or when the page is the first one of its bitmap.\<close>
theorem get_a_page_correct:
  assumes "mem_ok s" "heap v" "frame v = v" "walk (mach s) v = None" "room pf 1 v s"
  defines "i \<equiv> unat ((v - vaddr_start (vaddr_of pf s)) div PG_SIZE)"
  shows "(\<exists>a s1. get_a_page_without_opvaddrbitmap pf v s = Some (v, s1) \<and> mem_ok s1 \<and> extends s s1
      \<and> walk (mach s1) v = Some a \<and> free_frame (pool_of pf s) a)
    \<and> (if (cur_pgdir s \<noteq> 0 \<and> pf = PF_USER \<or> cur_pgdir s = 0 \<and> pf = PF_KERNEL) \<and> 0 < i
       then \<exists>a s2. get_a_page pf v s = Some (v, s2) \<and> mem_ok s2 \<and> walk (mach s2) v = Some a
         \<and> free_frame (pool_of pf s) a \<and> bitmap_scan_test (vaddr_bitmap (vaddr_of pf s2)) i
         \<and> (\<forall>w. \<not> recursive w \<longrightarrow> walk (mach s) w \<noteq> None \<longrightarrow> walk (mach s2) w = walk (mach s) w)
       else get_a_page pf v s = None)"
  using get_a_page_ok[OF assms(1-5)] unfolding i_def by (simp only: split: if_split) blast

theorem get_a_page_witness:
  "get_a_page PF_USER 0xc0101000 memory1 = None
   \<and> (\<exists>a s1. get_a_page_without_opvaddrbitmap PF_KERNEL 0xc0101000 memory1 = Some (0xc0101000, s1)
        \<and> walk (mach s1) 0xc0101000 = Some a)"
proof -
  have p: "page K_HEAP_START 1 = 0xc0101000" by (simp add: page_def K_HEAP_START_def PG_SIZE_def)
  have f: "\<not> bitmap_scan_test (vaddr_bitmap (vaddr_of PF_KERNEL memory1)) 1" by (rule memory1_ok(6)) simp
  have h: "heap 0xc0101000" "walk (mach memory1) 0xc0101000 = None"
    using memory1_ok(2) f unfolding vspace_def Let_def memory1_ok(3,4) p[symmetric] by auto
  have fr: "frame 0xc0101000 = 0xc0101000" by (simp add: frame_def)
  have r: "room PF_KERNEL 1 0xc0101000 memory1" by (rule memory1_room) simp
  have "\<exists>a s1. get_a_page_without_opvaddrbitmap PF_KERNEL 0xc0101000 memory1 = Some (0xc0101000, s1)
      \<and> mem_ok s1 \<and> extends memory1 s1 \<and> walk (mach s1) 0xc0101000 = Some a
      \<and> free_frame (pool_of PF_KERNEL memory1) a"
    using get_a_page_correct[OF memory1_ok(1) h(1) fr h(2) r] by (rule conjunct1)
  then show ?thesis using memory1_ok(7) by (auto simp: get_a_page_def)
qed

end
