(* ===== verification/Malloc.thy ===== *)
theory Malloc
  imports Boot
begin

text \<open>
  memory.c, the heap: \<open>sys_malloc\<close> and \<open>sys_free\<close> over arenas. An arena is a run of pages with a
  header of 12 bytes; an arena for blocks of one size is one page, an arena of one large object as
  many pages as it needs. The headers and the links of the free lists, which lie in the pages, are
  kept apart from the words of memory: \<open>arenas\<close> holds the header of every page that is the start of an
  arena (\<open>None\<close> for an address without one, where an access of the code has no defined result), and
  the free lists are lists of addresses. Sizes are natural numbers: they stay below the size of a
  pool, which fits 32 bits.
\<close>

section \<open>Blocks\<close>

record mem_block_desc =
  block_size :: nat
  blocks_per_arena :: nat
  free_list :: "u32 list"

text \<open>\<open>desc\<close> is the index of the descriptor, \<open>None\<close> the NULL of a large arena.\<close>

record arena =
  desc :: "nat option"
  cnt :: nat
  large :: bool

record heap =
  mem :: memory
  k_block_descs :: "mem_block_desc list"
  u_block_desc :: "mem_block_desc list"
  arenas :: "u32 \<Rightarrow> arena option"

definition DESC_CNT :: nat where
  "DESC_CNT = 7"

definition sizeof_arena :: nat where
  "sizeof_arena = 12"

definition PG :: nat where
  "PG = 4096"

definition DIV_ROUND_UP :: "nat \<Rightarrow> nat \<Rightarrow> nat" where
  "DIV_ROUND_UP X STEP = (X + STEP - 1) div STEP"

primrec block_descs_from :: "nat \<Rightarrow> u16 \<Rightarrow> mem_block_desc list" where
  "block_descs_from 0 bsize = []"
| "block_descs_from (Suc n) bsize =
     \<lparr>block_size = unat bsize, blocks_per_arena = (PG - sizeof_arena) div unat bsize, free_list = []\<rparr>
     # block_descs_from n (bsize * 2)"

definition block_desc_init :: "mem_block_desc list" where
  "block_desc_init = block_descs_from DESC_CNT 16"

definition descs_of :: "pool_flags \<Rightarrow> heap \<Rightarrow> mem_block_desc list" where
  "descs_of pf h = (if pf = PF_KERNEL then k_block_descs h else u_block_desc h)"

definition set_descs :: "pool_flags \<Rightarrow> mem_block_desc list \<Rightarrow> heap \<Rightarrow> heap" where
  "set_descs pf ds h = (if pf = PF_KERNEL then h\<lparr>k_block_descs := ds\<rparr> else h\<lparr>u_block_desc := ds\<rparr>)"

text \<open>The list operations on the free list of a descriptor.\<close>

definition set_free :: "pool_flags \<Rightarrow> nat \<Rightarrow> u32 list \<Rightarrow> heap \<Rightarrow> heap" where
  "set_free pf i xs h = set_descs pf ((descs_of pf h)[i := (descs_of pf h ! i)\<lparr>free_list := xs\<rparr>]) h"

definition arena2block :: "u32 \<Rightarrow> nat \<Rightarrow> nat \<Rightarrow> u32" where
  "arena2block a bsize idx = a + of_nat (sizeof_arena + idx * bsize)"

definition block2arena :: "u32 \<Rightarrow> u32" where
  "block2arena b = b AND 0xfffff000"

section \<open>Allocation\<close>

text \<open>The loop that looks for the first descriptor whose blocks are large enough.\<close>

fun find_desc :: "nat \<Rightarrow> mem_block_desc list \<Rightarrow> nat" where
  "find_desc bytes [] = 0"
| "find_desc bytes (d # ds) = (if bytes \<le> block_size d then 0 else Suc (find_desc bytes ds))"

text \<open>The loop that adds the blocks of a new arena to the free list.\<close>

fun split_arena :: "u32 \<Rightarrow> nat \<Rightarrow> nat list \<Rightarrow> u32 list \<Rightarrow> u32 list option" where
  "split_arena a bsize [] fl = Some fl"
| "split_arena a bsize (k # ks) fl =
     do { ASSERT (arena2block a bsize k \<notin> set fl); split_arena a bsize ks (fl @ [arena2block a bsize k]) }"

definition clear_at :: "u32 \<Rightarrow> nat \<Rightarrow> heap \<Rightarrow> heap option" where
  "clear_at v bytes h = do { m \<leftarrow> clear_words (bytes div 4) v (mach (mem h)); Some (h\<lparr>mem := (mem h)\<lparr>mach := m\<rparr>\<rparr>) }"

definition malloc_large :: "pool_flags \<Rightarrow> nat \<Rightarrow> heap \<Rightarrow> (u32 \<times> heap) option" where
  "malloc_large PF bytes h =
     (let page_cnt = DIV_ROUND_UP (bytes + sizeof_arena) PG in
      do {
        (a, m) \<leftarrow> malloc_page PF page_cnt (mem h);
        let h1 = h\<lparr>mem := m\<rparr> in
        if a \<noteq> 0 then do {
          h2 \<leftarrow> clear_at a (page_cnt * PG) h1;
          Some (a + of_nat sizeof_arena, h2\<lparr>arenas := (arenas h2)(a \<mapsto> \<lparr>desc = None, cnt = page_cnt, large = True\<rparr>)\<rparr>)
        }
        else Some (0, h1)
      })"

definition new_arena :: "pool_flags \<Rightarrow> nat \<Rightarrow> heap \<Rightarrow> (bool \<times> heap) option" where
  "new_arena PF desc_idx h =
     do {
       (a, m) \<leftarrow> malloc_page PF 1 (mem h);
       let h1 = h\<lparr>mem := m\<rparr> in
       if a = 0 then Some (False, h1)
       else do {
         h2 \<leftarrow> clear_at a PG h1;
         let d = descs_of PF h2 ! desc_idx;
             h3 = h2\<lparr>arenas := (arenas h2)(a \<mapsto> \<lparr>desc = Some desc_idx, cnt = blocks_per_arena d, large = False\<rparr>)\<rparr>
         in do {
           fl \<leftarrow> split_arena a (block_size d) [0..<blocks_per_arena d] (free_list d);
           Some (True, set_free PF desc_idx fl h3)
         }
       }
     }"

definition take_block :: "pool_flags \<Rightarrow> nat \<Rightarrow> heap \<Rightarrow> (u32 \<times> heap) option" where
  "take_block PF desc_idx h =
     (case free_list (descs_of PF h ! desc_idx) of
        [] \<Rightarrow> None
      | b # fl \<Rightarrow> do {
          h1 \<leftarrow> clear_at b (block_size (descs_of PF h ! desc_idx)) (set_free PF desc_idx fl h);
          let a = block2arena b in
          do { A \<leftarrow> arenas h1 a; Some (b, h1\<lparr>arenas := (arenas h1)(a \<mapsto> A\<lparr>cnt := cnt A - 1\<rparr>)\<rparr>) }
        })"

definition sys_malloc :: "nat \<Rightarrow> heap \<Rightarrow> (u32 \<times> heap) option" where
  "sys_malloc bytes h =
     (let PF = (if cur_pgdir (mem h) = 0 then PF_KERNEL else PF_USER);
          psize = unat (pool_size (pool_of PF (mem h)))
      in if \<not> (0 < bytes \<and> bytes < psize) then Some (0, h)
         else if 1024 < bytes then malloc_large PF bytes h
         else
           let desc_idx = find_desc bytes (descs_of PF h) in
           if free_list (descs_of PF h ! desc_idx) = []
           then do {
             (ok, h1) \<leftarrow> new_arena PF desc_idx h;
             if ok then take_block PF desc_idx h1 else Some (0, h1)
           }
           else take_block PF desc_idx h)"

section \<open>Release\<close>

text \<open>The loop that takes the blocks of an empty arena off the free list.\<close>

fun unlist_arena :: "u32 \<Rightarrow> nat \<Rightarrow> nat list \<Rightarrow> u32 list \<Rightarrow> u32 list option" where
  "unlist_arena a bsize [] fl = Some fl"
| "unlist_arena a bsize (k # ks) fl =
     do { ASSERT (arena2block a bsize k \<in> set fl); unlist_arena a bsize ks (remove1 (arena2block a bsize k) fl) }"

definition drop_arena :: "pool_flags \<Rightarrow> u32 \<Rightarrow> nat \<Rightarrow> heap \<Rightarrow> heap option" where
  "drop_arena PF a pages h =
     do { m \<leftarrow> mfree_page PF a pages (mem h); Some (h\<lparr>mem := m, arenas := (arenas h)(a := None)\<rparr>) }"

definition sys_free :: "u32 \<Rightarrow> heap \<Rightarrow> heap option" where
  "sys_free ptr h =
     do {
       ASSERT (ptr \<noteq> 0);
       let PF = (if cur_pgdir (mem h) = 0 then PF_KERNEL else PF_USER) in
       do {
         ASSERT (PF = PF_KERNEL \<longrightarrow> K_HEAP_START \<le> ptr);
         let a = block2arena ptr in
         do {
           A \<leftarrow> arenas h a;
           if desc A = None \<and> large A then drop_arena PF a (cnt A) h
           else do {
             i \<leftarrow> desc A;
             let d = descs_of PF h ! i; fl = free_list d @ [ptr]; c = cnt A + 1;
                 h1 = (set_free PF i fl h)\<lparr>arenas := (arenas h)(a \<mapsto> A\<lparr>cnt := c\<rparr>)\<rparr> in
             if c = blocks_per_arena d
             then do {
               fl' \<leftarrow> unlist_arena a (block_size d) [0..<blocks_per_arena d] fl;
               drop_arena PF a 1 (set_free PF i fl' h1)
             }
             else Some h1
           }
         }
       }
     }"

text \<open>mem_init: the pools and the descriptors of the kernel; 0xb00 holds the size of memory.\<close>

definition mem_init :: "(u32 \<Rightarrow> u8) \<Rightarrow> heap \<Rightarrow> heap option" where
  "mem_init low h =
     do {
       mem_bytes_total \<leftarrow> load 0xb00 (mach (mem h));
       Some (h\<lparr>mem := mem_pool_init mem_bytes_total low (mem h), k_block_descs := block_desc_init\<rparr>)
     }"

end
