(* ===== verification/Heap.thy ===== *)
theory Heap
  imports Malloc
begin

text \<open>
  memory.c, the heap: what holds of arenas and free lists between two calls, and that
  \<open>sys_malloc\<close> and \<open>sys_free\<close> implement an allocator: a set of live objects that do not overlap, to which
  the one adds a new object and from which the other takes one.
\<close>

section \<open>Sizes\<close>

definition dsz :: "nat \<Rightarrow> nat" where
  "dsz i = 16 * 2 ^ i"

definition per :: "nat \<Rightarrow> nat" where
  "per i = (PG - sizeof_arena) div dsz i"

lemma dsz_pos: "0 < dsz i"
  by (simp add: dsz_def)

lemma less_7: "i < 7 \<Longrightarrow> i \<in> {0, 1, 2, 3, 4, 5, 6 :: nat}"
  by auto

lemma per_pos: "i < 7 \<Longrightarrow> 1 < per i"
  using less_7[of i] by (auto simp: per_def dsz_def PG_def sizeof_arena_def)

lemma block_end:
  assumes "i < 7" "k < per i"
  shows "sizeof_arena + k * dsz i + dsz i \<le> PG"
proof -
  have "Suc k * dsz i \<le> per i * dsz i" using assms(2) by (intro mult_le_mono1) simp
  also have "\<dots> \<le> PG - sizeof_arena" by (simp add: per_def)
  finally show ?thesis by (simp add: PG_def sizeof_arena_def)
qed

text \<open>Block sizes double from 16 to 1024, and the numbers of blocks are the ones that fit a page.\<close>

lemma block_descs_from_eq:
  "j + n \<le> 12 \<Longrightarrow> block_descs_from n (of_nat (dsz j)) =
   map (\<lambda>i. \<lparr>block_size = dsz (j + i), blocks_per_arena = per (j + i), free_list = []\<rparr>) [0..<n]"
proof (induction n arbitrary: j)
  case (Suc n)
  have "(2 :: nat) ^ j \<le> 2 ^ 11" using Suc.prems by (intro power_increasing) simp_all
  then have "unat (of_nat (dsz j) :: u16) = dsz j"
    by (simp only: unsigned_of_nat) (simp add: take_bit_nat_eq_self dsz_def)
  moreover have "(of_nat (dsz j) :: u16) * 2 = of_nat (dsz (Suc j))" by (simp add: dsz_def)
  ultimately show ?case using Suc by (simp only: block_descs_from.simps) (simp add: upt_rec map_Suc_upt[symmetric] per_def del: upt_Suc)
qed simp

lemma block_desc_init_eq:
  "block_desc_init = map (\<lambda>i. \<lparr>block_size = dsz i, blocks_per_arena = per i, free_list = []\<rparr>) [0..<7]"
  using block_descs_from_eq[of 0 7] by (simp add: block_desc_init_def DESC_CNT_def dsz_def)

definition descs_ok :: "mem_block_desc list \<Rightarrow> bool" where
  "descs_ok ds \<longleftrightarrow> length ds = 7 \<and> (\<forall>i<7. block_size (ds ! i) = dsz i \<and> blocks_per_arena (ds ! i) = per i)"

lemma find_desc_first:
  "bytes \<le> block_size (ds ! j) \<Longrightarrow> j < length ds \<Longrightarrow>
   find_desc bytes ds < length ds \<and> bytes \<le> block_size (ds ! find_desc bytes ds)
   \<and> (\<forall>j < find_desc bytes ds. block_size (ds ! j) < bytes)"
proof (induction ds arbitrary: j)
  case (Cons d ds)
  show ?case
  proof (cases "bytes \<le> block_size d")
    case False
    then obtain j' where "j = Suc j'" using Cons.prems by (cases j) auto
    then show ?thesis using Cons.IH[of j'] Cons.prems False by (auto simp: nth_Cons split: nat.splits)
  qed simp
qed simp

lemma find_desc_ok:
  assumes "descs_ok ds" "bytes \<le> 1024"
  shows "find_desc bytes ds < 7 \<and> bytes \<le> dsz (find_desc bytes ds) \<and> (\<forall>j < find_desc bytes ds. dsz j < bytes)"
proof -
  have "length ds = 7" "block_size (ds ! 6) = 1024" using assms(1) by (simp_all add: descs_ok_def dsz_def)
  then have "find_desc bytes ds < 7 \<and> bytes \<le> block_size (ds ! find_desc bytes ds)
      \<and> (\<forall>j < find_desc bytes ds. block_size (ds ! j) < bytes)"
    using find_desc_first[of bytes ds 6] assms(2) by simp
  then show ?thesis using assms(1) unfolding descs_ok_def by (metis less_trans)
qed

section \<open>Addresses of blocks\<close>

lemma unat_4096: "unat (4096 :: u32) = 4096"
  by simp

lemma frame_end:
  assumes "frame a = a"
  shows "unat a + 4096 \<le> 4294967296"
proof -
  have "unat a mod 4096 = 0"
    using assms by (simp add: frame_iff low_mod) (metis unat_0 unat_mod_distrib unat_4096)
  then have "unat a = unat a div 4096 * 4096" using div_mult_mod_eq[of "unat a" 4096] by linarith
  moreover have "unat a div 4096 < 1048576" using unat_lt_u32[of a] by (simp add: div_less_iff_less_mult)
  ultimately show ?thesis by linarith
qed

lemma offset_addr:
  assumes "frame a = a" "off < 4096"
  shows "unat (a + of_nat off) = unat a + off" "frame (a + of_nat off) = a"
proof -
  have "a + of_nat off = of_nat (unat a + off)" by simp
  then show "unat (a + of_nat off) = unat a + off"
    using frame_end[OF assms(1)] assms(2) by (simp only: unsigned_of_nat) (simp add: take_bit_nat_eq_self)
  have "of_nat off = (of_nat off :: u32) AND 0x00000fff"
    using assms(2) by (simp add: low_take take_bit_of_nat take_bit_nat_eq_self)
  then show "frame (a + of_nat off) = a" using frame_plus_low[OF assms(1), of "of_nat off"] by metis
qed

lemma arena2block_addr:
  assumes "frame a = a" "i < 7" "k < per i"
  shows "unat (arena2block a (dsz i) k) = unat a + sizeof_arena + k * dsz i"
    "frame (arena2block a (dsz i) k) = a" "block2arena (arena2block a (dsz i) k) = a"
proof -
  have "sizeof_arena + k * dsz i < 4096"
    using block_end[OF assms(2,3)] by (simp add: PG_def dsz_pos add_pos_pos) (use dsz_pos[of i] in linarith)
  note o = offset_addr[OF assms(1) this]
  show "unat (arena2block a (dsz i) k) = unat a + sizeof_arena + k * dsz i"
    "frame (arena2block a (dsz i) k) = a"
    unfolding arena2block_def using o by simp_all
  then show "block2arena (arena2block a (dsz i) k) = a" by (simp add: block2arena_def frame_def)
qed

lemma arena2block_inj:
  assumes "frame a = a" "i < 7" "k < per i" "l < per i" "arena2block a (dsz i) k = arena2block a (dsz i) l"
  shows "k = l"
proof -
  have "k * dsz i = l * dsz i"
    using arena2block_addr(1)[OF assms(1-3)] arena2block_addr(1)[OF assms(1,2,4)] assms(5) by (metis add_left_cancel)
  then show ?thesis using dsz_pos[of i] by simp
qed


section \<open>Writes to leaf pages\<close>

text \<open>Two states of memory with the same translation and the same allocators.\<close>

definition same_map :: "memory \<Rightarrow> memory \<Rightarrow> bool" where
  "same_map m m' \<longleftrightarrow> walk (mach m') = walk (mach m) \<and> pde_of (mach m') = pde_of (mach m)
     \<and> pte_addr (mach m') = pte_addr (mach m) \<and> pg_root (mach m') = pg_root (mach m)
     \<and> root_ok (mach m') = root_ok (mach m) \<and> kernel_pool m' = kernel_pool m \<and> user_pool m' = user_pool m
     \<and> kernel_vaddr m' = kernel_vaddr m \<and> userprog_vaddr m' = userprog_vaddr m \<and> cur_pgdir m' = cur_pgdir m"

lemma same_mapD:
  assumes "same_map m m'"
  shows "mem_ok m' = mem_ok m" "vspace pf m' = vspace pf m" "leaf m' = leaf m" "any_free m' = any_free m"
    "holds_pages q n v m' = holds_pages q n v m" "pool_of q m' = pool_of q m" "vaddr_of q m' = vaddr_of q m"
    "walk (mach m') = walk (mach m)" "cur_pgdir m' = cur_pgdir m"
proof -
  have s: "walk (mach m') = walk (mach m)" "pde_of (mach m') = pde_of (mach m)" "pte_addr (mach m') = pte_addr (mach m)"
    "pg_root (mach m') = pg_root (mach m)" "root_ok (mach m') = root_ok (mach m)" "kernel_pool m' = kernel_pool m"
    "user_pool m' = user_pool m" "kernel_vaddr m' = kernel_vaddr m" "userprog_vaddr m' = userprog_vaddr m"
    "cur_pgdir m' = cur_pgdir m" using assms by (simp_all only: same_map_def)
  show p: "pool_of q m' = pool_of q m" "vaddr_of q m' = vaddr_of q m" for q by (simp_all only: pool_of_def vaddr_of_def s)
  show l: "leaf m' = leaf m" by (simp only: fun_eq_iff leaf_def s) simp
  show "any_free m' = any_free m" by (simp only: fun_eq_iff any_free_def s) simp
  show "mem_ok m' = mem_ok m"
    unfolding mem_ok_def pt_ok_def pools_ok_def sealed_def owned_def any_free_def any_frame_def s ..
  show "vspace pf m' = vspace pf m" unfolding vspace_def p s ..
  show "holds_pages q n v m' = holds_pages q n v m" unfolding holds_pages_def p s l ..
  show "walk (mach m') = walk (mach m)" "cur_pgdir m' = cur_pgdir m" by (rule s)+
qed

lemma same_map_trans: "same_map a b \<Longrightarrow> same_map b c \<Longrightarrow> same_map a c"
  by (simp add: same_map_def)

lemma walk_outside:
  assumes "root_ok m" "leaf_frame m f" "pg_root m' = pg_root m" "\<And>x. frame x \<noteq> f \<Longrightarrow> phys m' x = phys m x"
  shows "walk m' = walk m" "pde_of m' = pde_of m" "pte_addr m' = pte_addr m" "root_ok m'"
proof -
  have nr: "f \<noteq> pg_root m" by (rule leaf_not_table(1)[OF assms(1,2)])
  have fr: "frame (pg_root m) = pg_root m" using assms(1) by (simp add: root_ok_def)
  have "phys m' (slot (pg_root m) (PDE_IDX v)) = phys m (slot (pg_root m) (PDE_IDX v))" for v
    by (rule assms(4)) (use nr fr in simp)
  note ph = this this[of "pte_ptr 0", unfolded pte_ptr_parts]
  show pd: "pde_of m' = pde_of m" by (simp add: fun_eq_iff pde_of_def assms(3) ph)
  then show ad: "pte_addr m' = pte_addr m" by (simp add: fun_eq_iff pte_addr_def)
  show "root_ok m'" using assms(1) by (simp only: root_ok_def assms(3) ph)
  have "pte_of m' v = pte_of m v" if "present (pde_of m v)" for v
    unfolding pte_of_def ad by (rule assms(4)) (use leaf_not_table(2)[OF assms(1,2) that] in simp)
  then show "walk m' = walk m" by (auto simp: fun_eq_iff walk_def pd)
qed

lemma of_nat_slot: "a + of_nat (4 * k) = slot a (of_nat k)" if "frame a = a"
  using that by (simp add: slot_def mult.commute)

text \<open>memset 0 on a block of a page.\<close>

lemma clear_block:
  assumes "mem_ok (mem h)" "frame a = a" "walk (mach (mem h)) a = Some f" "frame f = f" "leaf (mem h) f"
    and "4 * k + 4 * n \<le> 4096"
  shows "\<exists>m'. clear_at (a + of_nat (4 * k)) (4 * n) h = Some (h\<lparr>mem := m'\<rparr>) \<and> same_map (mem h) m'
    \<and> (\<forall>j<n. load (a + of_nat (4 * (k + j))) (mach m') = Some 0)"
proof -
  let ?m = "mach (mem h)"
  have r: "root_ok ?m" using assms(1) by (simp add: mem_ok_def pt_ok_def)
  have lf: "leaf_frame ?m f" using assms(4,5) by (simp add: leaf_frame_def leaf_def)
  note nt = leaf_not_table[OF r lf]
  have pv: "present (pde_of ?m a)" using assms(3) by (auto simp: walk_def split: if_splits)
  have c: "clear_words n (a + of_nat (4 * k)) ?m = Some (wipe f k n ?m)"
    unfolding of_nat_slot[OF assms(2)]
    by (rule clear_words_page[OF r assms(3,2,4) nt(1) nt(2)[OF pv]]) (use assms(6) in simp)
  define m where "m = wipe f k n ?m"
  have ou: "phys m x = phys ?m x" if "frame x \<noteq> f" for x
    using that assms(4,6) by (auto simp: m_def wipe_def frame_slot[OF idx10_of_nat])
  have rt: "pg_root m = pg_root ?m" by (simp add: m_def wipe_def)
  note w = walk_outside[OF r lf rt ou]
  have sm: "same_map (mem h) ((mem h)\<lparr>mach := m\<rparr>)" using w rt r by (simp add: same_map_def)
  have "load (a + of_nat (4 * (k + j))) m = Some 0" if "j < n" for j
  proof -
    have j: "k + j < 1024" using that assms(6) by simp
    have "walk m a = Some f" using w(1) assms(3) by simp
    from walk_slot[OF this assms(2,4) j] have "walk m (a + of_nat (4 * (k + j))) = Some (slot f (of_nat (k + j)))"
      unfolding of_nat_slot[OF assms(2)] .
    moreover have "\<exists>i. k \<le> i \<and> i < k + n \<and> slot f (of_nat (k + j)) = slot f (of_nat i)"
      using that by (intro exI[of _ "k + j"]) simp
    then have "phys m (slot f (of_nat (k + j))) = 0" unfolding m_def wipe_def by (simp del: of_nat_add)
    ultimately show ?thesis by (simp add: load_def)
  qed
  then show ?thesis using c sm by (intro exI[of _ "(mem h)\<lparr>mach := m\<rparr>"]) (simp add: clear_at_def m_def)
qed

text \<open>memset 0 on whole pages.\<close>

lemma clear_arena:
  assumes "mem_ok (mem h)" "frame a = a" "holds_pages q n a (mem h)"
  shows "\<exists>m'. clear_at a (n * PG) h = Some (h\<lparr>mem := m'\<rparr>) \<and> same_map (mem h) m'"
proof -
  have r: "root_ok (mach (mem h))" using assms(1) by (simp add: mem_ok_def pt_ok_def)
  have "\<forall>i<n. \<exists>b. walk (mach (mem h)) (page a i) = Some b \<and> leaf_frame (mach (mem h)) b"
    using assms(3) unfolding holds_pages_def leaf_def leaf_frame_def by blast
  from clear_pages[OF r assms(2) this] obtain m' where m': "clear_words (n * 1024) a (mach (mem h)) = Some m'"
    "\<forall>w. walk m' w = walk (mach (mem h)) w"
    "\<forall>w. pde_of m' w = pde_of (mach (mem h)) w \<and> pte_addr m' w = pte_addr (mach (mem h)) w" "root_ok m'"
    "pg_root m' = pg_root (mach (mem h))" by blast
  have "n * PG div 4 = n * 1024" by (simp add: PG_def)
  then show ?thesis using m' r
    by (intro exI[of _ "(mem h)\<lparr>mach := m'\<rparr>"]) (simp add: clear_at_def same_map_def fun_eq_iff)
qed


section \<open>The invariant of the heap\<close>

definition in_space :: "pool_flags \<Rightarrow> u32 \<Rightarrow> bool" where
  "in_space pf a \<longleftrightarrow> (0xc0000000 \<le> a \<longleftrightarrow> pf = PF_KERNEL)"

definition pages_of :: "arena \<Rightarrow> nat" where
  "pages_of A = (case desc A of None \<Rightarrow> cnt A | Some _ \<Rightarrow> 1)"

definition frees :: "pool_flags \<Rightarrow> heap \<Rightarrow> nat \<Rightarrow> u32 list" where
  "frees pf h i = free_list (descs_of pf h ! i)"

text \<open>An arena: pages of the address space, mapped to frames of the pool; a small one counts its
  blocks on the free list.\<close>

definition placed :: "pool_flags \<Rightarrow> memory \<Rightarrow> nat \<Rightarrow> u32 \<Rightarrow> bool" where
  "placed pf s n a \<longleftrightarrow> 0 < n \<and> n \<le> 3840 \<and> holds_pages pf n a s
     \<and> (\<exists>k. a = page (vaddr_start (vaddr_of pf s)) k \<and> k + n \<le> 8 * btmp_bytes_len (vaddr_bitmap (vaddr_of pf s)))
     \<and> (pf = PF_USER \<longrightarrow> (\<forall>i<n. page a i < 0xc0000000 - PG_SIZE))"

definition arena_ok :: "pool_flags \<Rightarrow> (nat \<Rightarrow> u32 list) \<Rightarrow> u32 \<Rightarrow> arena \<Rightarrow> bool" where
  "arena_ok pf fl a A \<longleftrightarrow> frame a = a \<and> (case desc A of None \<Rightarrow> large A
     | Some i \<Rightarrow> i < 7 \<and> \<not> large A \<and> cnt A = length (filter (\<lambda>b. frame b = a) (fl i)))"

definition listed :: "pool_flags \<Rightarrow> (u32 \<Rightarrow> arena option) \<Rightarrow> nat \<Rightarrow> u32 \<Rightarrow> bool" where
  "listed pf ar i b \<longleftrightarrow> (\<exists>a k A. b = arena2block a (dsz i) k \<and> k < per i \<and> ar a = Some A \<and> in_space pf a \<and> desc A = Some i)"

definition apart :: "pool_flags \<Rightarrow> (u32 \<Rightarrow> arena option) \<Rightarrow> bool" where
  "apart pf ar \<longleftrightarrow> (\<forall>a A b B i j. ar a = Some A \<longrightarrow> ar b = Some B \<longrightarrow> in_space pf a \<longrightarrow> in_space pf b \<longrightarrow>
     a \<noteq> b \<longrightarrow> i < pages_of A \<longrightarrow> j < pages_of B \<longrightarrow> page a i \<noteq> page b j)"

definition space_ok :: "pool_flags \<Rightarrow> memory \<Rightarrow> bool" where
  "space_ok pf s \<longleftrightarrow> mem_ok s \<and> vspace pf s \<and> (cur_pgdir s = 0 \<longleftrightarrow> pf = PF_KERNEL)
     \<and> (pf = PF_KERNEL \<longrightarrow> K_HEAP_START \<le> vaddr_start (vaddr_of pf s))"

definition heap_wf :: "pool_flags \<Rightarrow> heap \<Rightarrow> bool" where
  "heap_wf pf h \<longleftrightarrow> space_ok pf (mem h) \<and> descs_ok (descs_of pf h)
     \<and> (\<forall>a A. arenas h a = Some A \<longrightarrow> in_space pf a \<longrightarrow>
          arena_ok pf (frees pf h) a A \<and> placed pf (mem h) (pages_of A) a)
     \<and> (\<forall>i<7. distinct (frees pf h i) \<and> (\<forall>b \<in> set (frees pf h i). listed pf (arenas h) i b))
     \<and> apart pf (arenas h)"

text \<open>No small arena is without a live block, except in the middle of a call.\<close>

definition in_use :: "pool_flags \<Rightarrow> u32 set \<Rightarrow> heap \<Rightarrow> bool" where
  "in_use pf E h \<longleftrightarrow> (\<forall>a A i. arenas h a = Some A \<longrightarrow> in_space pf a \<longrightarrow> a \<notin> E \<longrightarrow> desc A = Some i \<longrightarrow> cnt A < per i)"

definition heap_ok :: "pool_flags \<Rightarrow> heap \<Rightarrow> bool" where
  "heap_ok pf h \<longleftrightarrow> heap_wf pf h \<and> in_use pf {} h"

text \<open>The objects an arena has handed out.\<close>

definition object_of :: "(nat \<Rightarrow> u32 list) \<Rightarrow> u32 \<Rightarrow> arena \<Rightarrow> u32 \<Rightarrow> bool" where
  "object_of fl a A b \<longleftrightarrow> (case desc A of None \<Rightarrow> b = a + of_nat sizeof_arena
     | Some i \<Rightarrow> \<exists>k<per i. b = arena2block a (dsz i) k \<and> b \<notin> set (fl i))"

definition live :: "pool_flags \<Rightarrow> heap \<Rightarrow> u32 set" where
  "live pf h = {b. \<exists>a A. arenas h a = Some A \<and> in_space pf a \<and> object_of (frees pf h) a A b}"

text \<open>How the updates of the model read.\<close>

lemma frees_set_free [simp]:
  assumes "descs_ok (descs_of pf h)" "i < 7"
  shows "frees pf (set_free pf i xs h) = (frees pf h)(i := xs)" "descs_ok (descs_of pf (set_free pf i xs h))"
    "arenas (set_free pf i xs h) = arenas h" "mem (set_free pf i xs h) = mem h"
  using assms
  by (auto simp: frees_def set_free_def descs_ok_def descs_of_def set_descs_def fun_eq_iff nth_list_update)

lemma descs_of_simps [simp]:
  "descs_of pf (h\<lparr>mem := m\<rparr>) = descs_of pf h" "descs_of pf (h\<lparr>arenas := r\<rparr>) = descs_of pf h"
  "frees pf (h\<lparr>mem := m\<rparr>) = frees pf h" "frees pf (h\<lparr>arenas := r\<rparr>) = frees pf h"
  by (simp_all add: descs_of_def frees_def fun_eq_iff)

lemma placed_walk:
  assumes "placed pf s n a" "i < n"
  shows "heap (page a i)" "\<exists>f. walk (mach s) (page a i) = Some f \<and> frame f = f \<and> leaf s f"
  using assms unfolding placed_def holds_pages_def by blast+

lemma placed_same_map: "same_map s s' \<Longrightarrow> placed pf s' n a = placed pf s n a"
  unfolding placed_def by (simp add: same_mapD)

lemma space_same_map: "same_map s s' \<Longrightarrow> space_ok pf s' = space_ok pf s"
  unfolding space_ok_def by (simp add: same_mapD)

text \<open>Arenas stay where they are when pages are added, and when other pages are released.\<close>

lemma placed_maps_new:
  assumes ok: "mem_ok s" and mn: "maps_new pf n v s s'" and pl: "placed pf s k a"
  shows "placed pf s' k a"
proof -
  note m = mn[unfolded maps_new_def]
  have "heap (page a i) \<and> (\<exists>f. walk (mach s') (page a i) = Some f \<and> frame f = f \<and> pool_frame (pool_of pf s') f \<and> leaf s' f)"
    if i: "i < k" for i
  proof -
    obtain f where f: "heap (page a i)" "walk (mach s) (page a i) = Some f" "frame f = f"
      "pool_frame (pool_of pf s) f" "leaf s f"
      using pl i unfolding placed_def holds_pages_def by blast
    have "\<not> any_free s f" using ok f(2,3) unfolding mem_ok_def sealed_def by metis
    then have "leaf s' f" using m f(5) by blast
    moreover have "walk (mach s') (page a i) = Some f" using m f(1,2) by auto
    ultimately show ?thesis using f m by blast
  qed
  then have "holds_pages pf k a s'" unfolding holds_pages_def by blast
  then show ?thesis using pl m unfolding placed_def by metis
qed

lemma new_not_placed:
  assumes "maps_new pf n v s s'" "placed pf s k a" "i < n" "j < k"
  shows "page v i \<noteq> page a j"
  using assms placed_walk(2)[OF assms(2,4)] unfolding maps_new_def by fastforce


section \<open>Taking and returning blocks\<close>

lemma block2arena_frame: "block2arena b = frame b"
  by (simp add: block2arena_def frame_def)

lemma update_ex:
  assumes "ar a = Some A" "P a A' \<longleftrightarrow> P a A"
  shows "(\<exists>x X. (ar(a \<mapsto> A')) x = Some X \<and> P x X) \<longleftrightarrow> (\<exists>x X. ar x = Some X \<and> P x X)"
proof
  assume "\<exists>x X. (ar(a \<mapsto> A')) x = Some X \<and> P x X"
  then obtain x X where "(ar(a \<mapsto> A')) x = Some X" "P x X" by blast
  then show "\<exists>x X. ar x = Some X \<and> P x X" using assms by (cases "x = a") auto
next
  assume "\<exists>x X. ar x = Some X \<and> P x X"
  then obtain x X where x: "ar x = Some X" "P x X" by blast
  show "\<exists>x X. (ar(a \<mapsto> A')) x = Some X \<and> P x X"
  proof (cases "x = a")
    case True
    then show ?thesis using x assms by (intro exI[of _ a] exI[of _ A']) simp
  next
    case False
    then show ?thesis using x by (intro exI[of _ x] exI[of _ X]) simp
  qed
qed

lemma apart_update:
  assumes "apart pf ar" "ar a = Some A" "pages_of A' = pages_of A"
  shows "apart pf (ar(a \<mapsto> A'))"
proof -
  have "\<exists>Y. ar x = Some Y \<and> pages_of Y = pages_of X" if "(ar(a \<mapsto> A')) x = Some X" for x X
    using that assms(2,3) by (cases "x = a") auto
  then show ?thesis using assms(1) unfolding apart_def by metis
qed

lemma heap_wfD:
  assumes "heap_wf pf h"
  shows "space_ok pf (mem h)" "descs_ok (descs_of pf h)" "apart pf (arenas h)"
    "\<And>a A. arenas h a = Some A \<Longrightarrow> in_space pf a \<Longrightarrow> arena_ok pf (frees pf h) a A \<and> placed pf (mem h) (pages_of A) a"
    "\<And>i. i < 7 \<Longrightarrow> distinct (frees pf h i)" "\<And>i b. i < 7 \<Longrightarrow> b \<in> set (frees pf h i) \<Longrightarrow> listed pf (arenas h) i b"
  using assms unfolding heap_wf_def by blast+

lemma listed_frame:
  assumes "heap_wf pf h" "i < 7" "listed pf (arenas h) i b"
  obtains k A where "b = arena2block (frame b) (dsz i) k" "k < per i" "arenas h (frame b) = Some A"
    "in_space pf (frame b)" "desc A = Some i" "block2arena b = frame b" "frame (frame b) = frame b"
proof -
  obtain a k A where a: "b = arena2block a (dsz i) k" "k < per i" "arenas h a = Some A" "in_space pf a" "desc A = Some i"
    using assms(3) unfolding listed_def by blast
  have "frame a = a" using heap_wfD(4)[OF assms(1) a(3,4)] by (simp add: arena_ok_def)
  then have "frame b = a" using arena2block_addr(2)[OF _ assms(2) a(2)] a(1) by simp
  then show ?thesis using a that[of k A] \<open>frame a = a\<close> by (simp add: block2arena_frame)
qed

text \<open>An object lies in the first page of its arena, behind the header.\<close>

lemma object_frame:
  assumes "arena_ok pf fl0 x X" "object_of fl x X b"
  shows "frame b = x" "unat x + sizeof_arena \<le> unat b"
proof -
  have fx: "frame x = x" using assms(1) by (simp add: arena_ok_def)
  have "frame b = x \<and> unat x + sizeof_arena \<le> unat b"
  proof (cases "desc X")
    case None
    then have "b = x + of_nat sizeof_arena" using assms(2) by (simp add: object_of_def)
    then show ?thesis using offset_addr[OF fx, of sizeof_arena] by (simp add: sizeof_arena_def)
  next
    case (Some i)
    then show ?thesis using assms arena2block_addr(1,2)[OF fx] by (auto simp: object_of_def arena_ok_def)
  qed
  then show "frame b = x" "unat x + sizeof_arena \<le> unat b" by blast+
qed

text \<open>An update of one small arena and of its free list that keeps the two in step.\<close>

lemma heap_wf_update:
  assumes wf: "heap_wf pf h" and i: "i < 7" and A: "arenas h a = Some A" "in_space pf a" "desc A = Some i"
    and sm: "same_map (mem h) (mem h')" and ds: "descs_ok (descs_of pf h')" and fr: "frees pf h' = (frees pf h)(i := xs)"
    and ar: "arenas h' = (arenas h)(a \<mapsto> A\<lparr>cnt := c\<rparr>)" and c: "c = length (filter (\<lambda>b. frame b = a) xs)"
    and xs: "distinct xs" "\<And>b. b \<in> set xs \<Longrightarrow> listed pf (arenas h) i b"
    and other: "\<And>a'. a' \<noteq> a \<Longrightarrow> filter (\<lambda>b. frame b = a') xs = filter (\<lambda>b. frame b = a') (frees pf h i)"
  shows "heap_wf pf h'"
proof -
  note D = heap_wfD[OF wf]
  have pg: "pages_of (A\<lparr>cnt := c\<rparr>) = pages_of A" using A(3) by (simp add: pages_of_def)
  have "arena_ok pf (frees pf h') x X \<and> placed pf (mem h') (pages_of X) x"
    if x: "arenas h' x = Some X" "in_space pf x" for x X
  proof (cases "x = a")
    case True
    then have X: "X = A\<lparr>cnt := c\<rparr>" using x(1) ar by simp
    show ?thesis using D(4)[OF A(1,2)] A(3) X True c pg
      by (simp add: arena_ok_def fr placed_same_map[OF sm])
  next
    case False
    then have "arenas h x = Some X" using x(1) ar by simp
    from D(4)[OF this x(2)] show ?thesis using other[OF False]
      by (auto simp: arena_ok_def fr placed_same_map[OF sm] split: option.splits)
  qed
  moreover have "distinct (frees pf h' j) \<and> (\<forall>b \<in> set (frees pf h' j). listed pf (arenas h') j b)" if "j < 7" for j
  proof -
    have "listed pf (arenas h') j b" if "listed pf (arenas h) j b" for b
    proof -
      have e: "listed pf r j b \<longleftrightarrow> (\<exists>x X. r x = Some X \<and> (\<exists>k. b = arena2block x (dsz j) k \<and> k < per j \<and> in_space pf x \<and> desc X = Some j))" for r
        unfolding listed_def by blast
      show ?thesis using that unfolding e ar by (subst update_ex[where ar = "arenas h" and A = A]) (use A(1) in simp_all)
    qed
    then show ?thesis using D(5,6)[OF that] xs that by (auto simp: fr)
  qed
  moreover have "apart pf (arenas h')" unfolding ar by (rule apart_update[OF D(3) A(1) pg])
  ultimately show ?thesis using D(1) ds by (simp add: heap_wf_def space_same_map[OF sm])
qed

text \<open>The objects after such an update.\<close>

lemma live_update:
  assumes wf: "heap_wf pf h" and i: "i < 7" and A: "arenas h a = Some A" "desc A = Some i"
    and fr: "frees pf h' = (frees pf h)(i := xs)" and ar: "arenas h' = (arenas h)(a \<mapsto> A\<lparr>cnt := c\<rparr>)"
  shows "b \<in> live pf h' \<longleftrightarrow> (\<exists>x X. arenas h x = Some X \<and> in_space pf x \<and> object_of ((frees pf h)(i := xs)) x X b)"
proof -
  have "object_of fl a (A\<lparr>cnt := c\<rparr>) b \<longleftrightarrow> object_of fl a A b" for fl by (simp add: object_of_def)
  then show ?thesis unfolding live_def mem_Collect_eq ar fr
    by (intro update_ex[where P = "\<lambda>x X. in_space pf x \<and> object_of ((frees pf h)(i := xs)) x X b"]) (use A(1) in simp_all)
qed

lemma object_block:
  assumes "heap_wf pf h" "arenas h x = Some X" "in_space pf x" "i < 7" "listed pf (arenas h) i b"
    "object_of fl x X b"
  shows "desc X = Some i \<and> b \<notin> set (fl i)"
proof -
  obtain k A where b: "b = arena2block (frame b) (dsz i) k" "k < per i" "arenas h (frame b) = Some A" "in_space pf (frame b)"
    "desc A = Some i" "frame (frame b) = frame b" using listed_frame[OF assms(1,4,5)] by metis
  have "frame b = x" using object_frame(1)[OF _ assms(6)] heap_wfD(4)[OF assms(1-3)] by blast
  then have "desc X = Some i" using b(3,5) assms(2) by simp
  then show ?thesis using assms(6) by (auto simp: object_of_def)
qed

lemma take_block_ok:
  assumes wf: "heap_wf pf h" and i: "i < 7" and fl: "frees pf h i = b # xs"
    and use: "in_use pf {frame b} h"
  shows "\<exists>h'. take_block pf i h = Some (b, h') \<and> heap_ok pf h' \<and> b \<notin> live pf h \<and> live pf h' = insert b (live pf h)
    \<and> same_map (mem h) (mem h') \<and> frees pf h' = (frees pf h)(i := xs)
    \<and> (\<exists>A. arenas h' (frame b) = Some A \<and> desc A = Some i)
    \<and> (\<forall>j < dsz i div 4. load (b + of_nat (4 * j)) (mach (mem h')) = Some 0)"
proof -
  note D = heap_wfD[OF wf]
  have lb: "listed pf (arenas h) i b" using D(6)[OF i] fl by simp
  then obtain k A where b: "b = arena2block (frame b) (dsz i) k" "k < per i" "arenas h (frame b) = Some A"
    "in_space pf (frame b)" "desc A = Some i" "block2arena b = frame b" "frame (frame b) = frame b"
    using listed_frame[OF wf i] by blast
  define a where "a = frame b"
  note b = b[folded a_def]
  note aok = D(4)[OF b(3,4)]
  have nd: "b \<notin> set xs" "distinct xs" using D(5)[OF i] fl by simp_all
  have ds: "block_size (descs_of pf h ! i) = dsz i" using D(2) i by (simp add: descs_ok_def)
  have ca: "cnt A = Suc (length (filter (\<lambda>x. frame x = a) xs))"
    using aok b(5) fl by (simp add: arena_ok_def a_def)
  have ok: "mem_ok (mem h)" using D(1) by (simp add: space_ok_def)
  define h0 where "h0 = set_free pf i xs h"
  note h0 = frees_set_free[OF D(2) i, of xs, folded h0_def]
  have p1: "pages_of A = 1" using b(5) by (simp add: pages_of_def)
  obtain f where f: "walk (mach (mem h0)) a = Some f" "frame f = f" "leaf (mem h0) f"
    using placed_walk(2)[of pf "mem h" 1 a 0] aok p1 by (auto simp: h0 page_simps)
  define o4 where "o4 = 3 + k * (dsz i div 4)"
  have d4: "dsz i = 4 * (dsz i div 4)" by (simp add: dsz_def)
  have off: "sizeof_arena + k * dsz i = 4 * o4" unfolding o4_def sizeof_arena_def
    by (subst d4) (simp add: algebra_simps)
  have bo: "b = a + of_nat (4 * o4)" using b(1) by (simp only: arena2block_def off)
  have fit: "4 * o4 + 4 * (dsz i div 4) \<le> 4096" using block_end[OF i b(2)] off d4 by (simp add: PG_def)
  obtain m' where m': "clear_at (a + of_nat (4 * o4)) (4 * (dsz i div 4)) h0 = Some (h0\<lparr>mem := m'\<rparr>)"
    "same_map (mem h) m'" "\<forall>j<dsz i div 4. load (a + of_nat (4 * (o4 + j))) (mach m') = Some 0"
    using clear_block[of h0, OF _ b(7) f fit] ok by (auto simp: h0(4))
  define h' where "h' = h0\<lparr>mem := m', arenas := (arenas h)(a \<mapsto> A\<lparr>cnt := cnt A - 1\<rparr>)\<rparr>"
  have "take_block pf i h = Some (b, h')"
    using fl m'(1) b(3,6) ds d4 bo unfolding frees_def
    by (simp add: take_block_def h0_def[symmetric] h'_def h0(3))
  moreover have fr': "frees pf h' = (frees pf h)(i := xs)" and ar': "arenas h' = (arenas h)(a \<mapsto> A\<lparr>cnt := cnt A - 1\<rparr>)"
    and mm: "mem h' = m'" and dd: "descs_ok (descs_of pf h')"
    using h0(1,2) by (simp_all add: h'_def)
  moreover have wf': "heap_wf pf h'"
  proof (rule heap_wf_update[OF wf i b(3,4,5) _ dd fr' ar'])
    show "same_map (mem h) (mem h')" using m'(2) mm by simp
    show "cnt A - 1 = length (filter (\<lambda>b. frame b = a) xs)" using ca by simp
    show "x \<in> set xs \<Longrightarrow> listed pf (arenas h) i x" for x using D(6)[OF i] fl by simp
    show "a' \<noteq> a \<Longrightarrow> filter (\<lambda>b. frame b = a') xs = filter (\<lambda>b. frame b = a') (frees pf h i)" for a'
      using fl by (simp add: a_def)
  qed (rule nd)
  moreover have "cnt A \<le> per i"
  proof -
    have sub: "set (filter (\<lambda>x. frame x = a) (frees pf h i)) \<subseteq> arena2block a (dsz i) ` {..<per i}"
    proof
      fix x assume x: "x \<in> set (filter (\<lambda>x. frame x = a) (frees pf h i))"
      then have "listed pf (arenas h) i x" using D(6)[OF i] by simp
      then obtain l where "x = arena2block (frame x) (dsz i) l" "l < per i" using listed_frame[OF wf i] by metis
      then show "x \<in> arena2block a (dsz i) ` {..<per i}" using x by auto
    qed
    have "distinct (filter (\<lambda>x. frame x = a) (frees pf h i))" using D(5)[OF i] by simp
    then have "length (filter (\<lambda>x. frame x = a) (frees pf h i)) \<le> per i"
      using card_mono[OF _ sub] card_image_le[of "{..<per i}" "arena2block a (dsz i)"] distinct_card by fastforce
    then show ?thesis using aok b(5) by (simp add: arena_ok_def)
  qed
  moreover have "in_use pf {} h'"
    using use calculation(7) ca b(5) unfolding in_use_def ar' a_def[symmetric] by (auto split: if_splits)
  moreover have "b \<notin> live pf h"
  proof
    assume "b \<in> live pf h"
    then obtain x X where "arenas h x = Some X" "in_space pf x" "object_of (frees pf h) x X b" by (auto simp: live_def)
    then show False using object_block[OF wf _ _ i lb] fl by fastforce
  qed
  moreover have "live pf h' = insert b (live pf h)"
  proof (rule set_eqI)
    fix c
    have mono: "object_of (frees pf h) x X c \<Longrightarrow> object_of ((frees pf h)(i := xs)) x X c" for x X
      using fl by (auto simp: object_of_def split: option.splits if_splits)
    have new: "object_of ((frees pf h)(i := xs)) a A b"
      using b(1,2,5) nd(1) by (auto simp: object_of_def)
    have bwd: "object_of ((frees pf h)(i := xs)) x X c \<Longrightarrow> c \<noteq> b \<Longrightarrow> object_of (frees pf h) x X c" for x X
      using fl by (auto simp: object_of_def split: option.splits if_splits)
    show "c \<in> live pf h' \<longleftrightarrow> c \<in> insert b (live pf h)"
    proof -
      have l: "c \<in> live pf h \<longleftrightarrow> (\<exists>x X. arenas h x = Some X \<and> in_space pf x \<and> object_of (frees pf h) x X c)"
        by (simp add: live_def)
      show ?thesis unfolding live_update[OF wf i b(3,5) fr' ar'] insert_iff l using mono new bwd b(3,4) by metis
    qed
  qed
  moreover have "load (b + of_nat (4 * j)) (mach (mem h')) = Some 0" if "j < dsz i div 4" for j
    using m'(3) that by (simp add: mm bo algebra_simps)
  moreover have "\<exists>A. arenas h' (frame b) = Some A \<and> desc A = Some i" using b(5) ar' by (simp add: a_def)
  ultimately show ?thesis using m'(2) unfolding heap_ok_def by (intro exI[of _ h'] conjI) simp_all
qed


text \<open>The blocks of a new arena, in order.\<close>

lemma split_arena_ok:
  assumes "distinct ks" "inj_on (arena2block a bs) (set ks)" "\<forall>k \<in> set ks. arena2block a bs k \<notin> set fl"
  shows "split_arena a bs ks fl = Some (fl @ map (arena2block a bs) ks)"
  using assms
proof (induction ks arbitrary: fl)
  case (Cons k ks)
  have "\<forall>l \<in> set ks. arena2block a bs l \<notin> set (fl @ [arena2block a bs k])"
    using Cons.prems by (auto simp: inj_on_def)
  then show ?case using Cons by simp
qed simp

lemma blocks_inj: "frame a = a \<Longrightarrow> i < 7 \<Longrightarrow> inj_on (arena2block a (dsz i)) {..<per i}"
  using arena2block_inj by (auto simp: inj_on_def)

text \<open>What malloc_page needs to give \<open>n\<close> pages.\<close>

definition can_alloc :: "pool_flags \<Rightarrow> nat \<Rightarrow> memory \<Rightarrow> bool" where
  "can_alloc pf n s \<longleftrightarrow> 0 < n \<and> n < 3840 \<and> guarded n (vaddr_bitmap (vaddr_of pf s)) \<and> stocked pf n s
     \<and> (\<exists>r. free_run (vaddr_bitmap (vaddr_of pf s)) r n \<and> r + n \<le> 8 * btmp_bytes_len (vaddr_bitmap (vaddr_of pf s)))"

lemma page_space:
  assumes "space_ok pf s" "\<not> bitmap_scan_test (vaddr_bitmap (vaddr_of pf s)) k" "k < 8 * btmp_bytes_len (vaddr_bitmap (vaddr_of pf s))"
  shows "in_space pf (page (vaddr_start (vaddr_of pf s)) k)"
proof (cases pf)
  case PF_USER
  then have "page (vaddr_start (vaddr_of pf s)) k < 0xc0000000 - PG_SIZE"
    using assms unfolding space_ok_def vspace_def Let_def by blast
  then show ?thesis using PF_USER by (simp add: in_space_def PG_SIZE_def word_less_nat_alt word_le_nat_alt)
next
  case PF_KERNEL
  have "unat (vaddr_start (vaddr_of pf s)) + 4096 * k < 4294967296"
    using assms(1,3) unfolding space_ok_def vspace_def Let_def by linarith
  then have "unat (page (vaddr_start (vaddr_of pf s)) k) = unat (vaddr_start (vaddr_of pf s)) + 4096 * k"
    by (rule unat_page)
  moreover have "unat K_HEAP_START \<le> unat (vaddr_start (vaddr_of pf s))"
    using assms(1) PF_KERNEL by (simp add: space_ok_def word_le_nat_alt)
  ultimately show ?thesis using PF_KERNEL by (simp add: in_space_def K_HEAP_START_def word_le_nat_alt)
qed

lemma alloc_pages:
  assumes sp: "space_ok pf s" and ca: "can_alloc pf n s"
  shows "\<exists>a s'. malloc_page pf n s = Some (a, s') \<and> a \<noteq> 0 \<and> frame a = a \<and> in_space pf a \<and> space_ok pf s'
    \<and> maps_new pf n a s s' \<and> placed pf s' n a"
proof -
  define base where "base = vaddr_start (vaddr_of pf s)"
  define B where "B = vaddr_bitmap (vaddr_of pf s)"
  obtain r where r: "free_run B r n" "r + n \<le> 8 * btmp_bytes_len B" using ca unfolding can_alloc_def B_def by blast
  have n: "0 < n" "n < 3840" using ca by (simp_all add: can_alloc_def)
  have mo: "mem_ok s" "vspace pf s" using sp by (simp_all add: space_ok_def)
  obtain k s' where s': "malloc_page pf n s = Some (page base k, s')" "first_fit B n k" "page base k \<noteq> 0"
    "mem_ok s'" "vspace pf s'" "maps_new pf n (page base k) s s'"
  proof -
    have g: "guarded n (vaddr_bitmap (vaddr_of pf s))" "stocked pf n s" using ca by (simp_all add: can_alloc_def)
    show thesis using malloc_page_ok[OF mo n g(1) r[unfolded B_def] g(2)] that unfolding B_def base_def by blast
  qed
  note mn = s'(6)[unfolded maps_new_def]
  have ff: "k + n \<le> 8 * btmp_bytes_len B" "\<And>i. i < n \<Longrightarrow> \<not> bitmap_scan_test B (k + i)"
    using s'(2) by (auto simp: first_fit_def free_run_def)
  have fb: "frame base = base" using mo(2) by (simp add: vspace_def Let_def base_def)
  have isp: "in_space pf (page base k)"
    unfolding base_def by (rule page_space[OF sp]) (use ff(1) ff(2)[of 0] n(1) in \<open>simp_all add: B_def\<close>)
  have hp: "heap (page (page base k) i) \<and> (pf = PF_USER \<longrightarrow> page (page base k) i < 0xc0000000 - PG_SIZE)" if "i < n" for i
    using mo(2) ff(1) ff(2)[OF that] that unfolding vspace_def Let_def base_def[symmetric] B_def[symmetric] page_page by auto
  have "holds_pages pf n (page base k) s'"
    unfolding holds_pages_def
  proof (intro allI impI)
    fix i assume i: "i < n"
    obtain f where f: "walk (mach s') (page (page base k) i) = Some f" "frame f = f" "free_frame (pool_of pf s) f" "leaf s' f"
      using mn i by blast
    then have "pool_frame (pool_of pf s') f" using mn free_pool_frame by blast
    then show "heap (page (page base k) i) \<and>
        (\<exists>f. walk (mach s') (page (page base k) i) = Some f \<and> frame f = f \<and> pool_frame (pool_of pf s') f \<and> leaf s' f)"
      using f hp[OF i] by blast
  qed
  moreover have "vaddr_start (vaddr_of pf s') = base" "btmp_bytes_len (vaddr_bitmap (vaddr_of pf s')) = btmp_bytes_len B"
    "cur_pgdir s' = cur_pgdir s" using mn unfolding base_def B_def by blast+
  ultimately have "placed pf s' n (page base k)" "space_ok pf s'"
    using n ff(1) hp s'(4,5) sp by (auto simp: placed_def space_ok_def base_def)
  then show ?thesis using s'(1,3,6) isp frame_page[OF fb] by blast
qed


lemma arena_fresh:
  assumes wf: "heap_wf pf h" and mn: "maps_new pf n a (mem h) s'" and n: "0 < n" and a: "in_space pf a"
  shows "arenas h a = None"
proof (rule ccontr)
  assume "arenas h a \<noteq> None"
  then obtain X where "arenas h a = Some X" by blast
  then have pl: "placed pf (mem h) (pages_of X) a" using heap_wfD(4)[OF wf _ a] by blast
  then have "0 < pages_of X" by (simp add: placed_def)
  then show False using new_not_placed[OF mn pl n, of 0] by simp
qed

text \<open>A new arena beside the ones that exist.\<close>

lemma add_arena:
  assumes wf: "heap_wf pf h" and mn: "maps_new pf n a (mem h) s'" and pl: "placed pf s' n a" and sp: "space_ok pf s'"
    and a: "frame a = a" "in_space pf a" and sm: "same_map s' (mem h')" and ds: "descs_ok (descs_of pf h')"
    and ar: "arenas h' = (arenas h)(a \<mapsto> A)" and pg: "pages_of A = n" and ok: "arena_ok pf (frees pf h') a A"
    and fl: "\<And>j. j < 7 \<Longrightarrow> distinct (frees pf h' j)"
    and old: "\<And>j b. j < 7 \<Longrightarrow> b \<in> set (frees pf h' j) \<Longrightarrow> b \<in> set (frees pf h j)
        \<or> (\<exists>k<per j. b = arena2block a (dsz j) k \<and> desc A = Some j)"
    and flt: "\<And>j x. j < 7 \<Longrightarrow> x \<noteq> a \<Longrightarrow> filter (\<lambda>b. frame b = x) (frees pf h' j) = filter (\<lambda>b. frame b = x) (frees pf h j)"
  shows "heap_wf pf h'"
proof -
  note D = heap_wfD[OF wf]
  have mo: "mem_ok (mem h)" using D(1) by (simp add: space_ok_def)
  have n0: "0 < n" using pl by (simp add: placed_def)
  have apart_new: "page a i \<noteq> page x j" if "arenas h x = Some X" "in_space pf x" "i < n" "j < pages_of X" for x X i j
    using new_not_placed[OF mn _ that(3,4)] D(4)[OF that(1,2)] by blast
  have na: "arenas h a = None" by (rule arena_fresh[OF wf mn n0 a(2)])
  have "arena_ok pf (frees pf h') x X \<and> placed pf (mem h') (pages_of X) x"
    if x: "arenas h' x = Some X" "in_space pf x" for x X
  proof (cases "x = a")
    case True
    then show ?thesis using x(1) ar ok pl pg by (simp add: placed_same_map[OF sm])
  next
    case False
    then have X: "arenas h x = Some X" using x(1) ar by simp
    note old = D(4)[OF X x(2)]
    have "placed pf s' (pages_of X) x" using old placed_maps_new[OF mo mn] by blast
    moreover have "arena_ok pf (frees pf h') x X"
    proof (cases "desc X")
      case (Some i)
      then have "i < 7" using old by (simp add: arena_ok_def)
      then show ?thesis using old Some flt[OF _ False] by (simp add: arena_ok_def)
    qed (use old in \<open>simp add: arena_ok_def\<close>)
    ultimately show ?thesis by (simp add: placed_same_map[OF sm])
  qed
  moreover have "listed pf (arenas h') j b" if j: "j < 7" "b \<in> set (frees pf h' j)" for j b
    using old[OF j]
  proof
    assume "b \<in> set (frees pf h j)"
    then obtain x k X where "b = arena2block x (dsz j) k" "k < per j" "arenas h x = Some X" "in_space pf x" "desc X = Some j"
      using D(6)[OF j(1)] unfolding listed_def by blast
    moreover from this have "x \<noteq> a" using na by auto
    ultimately show ?thesis unfolding listed_def ar by (intro exI[of _ x] exI[of _ k] exI[of _ X]) simp
  next
    assume "\<exists>k<per j. b = arena2block a (dsz j) k \<and> desc A = Some j"
    then show ?thesis using a(2) unfolding listed_def ar by auto
  qed
  moreover have "apart pf (arenas h')"
    unfolding apart_def
  proof (intro allI impI)
    fix x X y Y i j
    assume h: "arenas h' x = Some X" "arenas h' y = Some Y" "in_space pf x" "in_space pf y" "x \<noteq> y" "i < pages_of X" "j < pages_of Y"
    consider "x = a" "y \<noteq> a" | "y = a" "x \<noteq> a" | "x \<noteq> a" "y \<noteq> a" using h(5) by blast
    then show "page x i \<noteq> page y j"
    proof cases
      case 1
      then show ?thesis using apart_new[of y Y i j] h ar pg by auto
    next
      case 2
      then show ?thesis using apart_new[of x X j i] h ar pg by auto
    next
      case 3
      then have "arenas h x = Some X" "arenas h y = Some Y" using h(1,2) ar by simp_all
      then show ?thesis using D(3) h(3-7) unfolding apart_def by blast
    qed
  qed
  ultimately show ?thesis using sp ds fl by (auto simp: heap_wf_def space_same_map[OF sm])
qed

lemma live_add:
  assumes "arenas h a = None" "arenas h' = (arenas h)(a \<mapsto> A)" "in_space pf a"
    and "\<And>x X. arenas h x = Some X \<Longrightarrow> in_space pf x \<Longrightarrow> object_of (frees pf h') x X b = object_of (frees pf h) x X b"
  shows "b \<in> live pf h' \<longleftrightarrow> b \<in> live pf h \<or> object_of (frees pf h') a A b"
proof
  assume "b \<in> live pf h'"
  then obtain x X where x: "arenas h' x = Some X" "in_space pf x" "object_of (frees pf h') x X b" by (auto simp: live_def)
  then show "b \<in> live pf h \<or> object_of (frees pf h') a A b"
    using assms by (cases "x = a") (auto simp: live_def)
next
  assume "b \<in> live pf h \<or> object_of (frees pf h') a A b"
  then show "b \<in> live pf h'"
  proof
    assume "b \<in> live pf h"
    then obtain x X where x: "arenas h x = Some X" "in_space pf x" "object_of (frees pf h) x X b" by (auto simp: live_def)
    moreover have "x \<noteq> a" using x(1) assms(1) by auto
    ultimately show ?thesis using assms(2,4) unfolding live_def by (auto intro!: exI[of _ x] exI[of _ X])
  qed (use assms(2,3) in \<open>auto simp: live_def intro!: exI[of _ a]\<close>)
qed

lemma malloc_large_ok:
  assumes ok: "heap_ok pf h" and ca: "can_alloc pf (DIV_ROUND_UP (bytes + sizeof_arena) PG) (mem h)"
  shows "\<exists>b h'. malloc_large pf bytes h = Some (b, h') \<and> heap_ok pf h' \<and> b \<noteq> 0 \<and> b \<notin> live pf h \<and> live pf h' = insert b (live pf h)
    \<and> arenas h' (frame b) = Some \<lparr>desc = None, cnt = DIV_ROUND_UP (bytes + sizeof_arena) PG, large = True\<rparr>"
proof -
  define n where "n = DIV_ROUND_UP (bytes + sizeof_arena) PG"
  have wf: "heap_wf pf h" and iu: "in_use pf {} h" using ok by (simp_all add: heap_ok_def)
  note D = heap_wfD[OF wf]
  obtain a s' where s': "malloc_page pf n (mem h) = Some (a, s')" "a \<noteq> 0" "frame a = a" "in_space pf a" "space_ok pf s'"
    "maps_new pf n a (mem h) s'" "placed pf s' n a"
    using alloc_pages[OF D(1)] ca unfolding n_def by blast
  have mo: "mem_ok s'" "holds_pages pf n a s'" using s'(5,7) by (simp_all add: space_ok_def placed_def)
  obtain m' where m': "clear_at a (n * PG) (h\<lparr>mem := s'\<rparr>) = Some (h\<lparr>mem := m'\<rparr>)" "same_map s' m'"
    using clear_arena[of "h\<lparr>mem := s'\<rparr>" a pf n] mo s'(3) by auto
  define A where "A = \<lparr>desc = None, cnt = n, large = True\<rparr>"
  define h' where "h' = h\<lparr>mem := m', arenas := (arenas h)(a \<mapsto> A)\<rparr>"
  define b where "b = a + of_nat sizeof_arena"
  have eq: "malloc_large pf bytes h = Some (b, h')"
    using s'(1,2) m'(1) by (simp add: malloc_large_def n_def[symmetric] A_def h'_def b_def)
  have fr: "frees pf h' = frees pf h" and ar: "arenas h' = (arenas h)(a \<mapsto> A)" by (simp_all add: h'_def)
  have "0 < n" using s'(7) by (simp add: placed_def)
  then have na: "arenas h a = None" by (rule arena_fresh[OF wf s'(6) _ s'(4)])
  have wf': "heap_wf pf h'"
    by (rule add_arena[OF wf s'(6,7,5,3,4), of h' A];
        use D(2,5) m'(2) s'(3) in \<open>simp add: h'_def A_def pages_of_def arena_ok_def\<close>)
  have iu': "in_use pf {} h'" using iu by (auto simp: in_use_def ar A_def)
  have lv: "c \<in> live pf h' \<longleftrightarrow> c \<in> live pf h \<or> c = b" for c
    using live_add[OF na ar s'(4), of c] by (simp add: fr object_of_def A_def b_def)
  have ub: "unat b = unat a + sizeof_arena" "frame b = a"
    using offset_addr[OF s'(3), of sizeof_arena] by (simp_all add: b_def sizeof_arena_def)
  have "b \<noteq> 0" using ub(1) by (auto simp: sizeof_arena_def)
  moreover have "b \<notin> live pf h"
  proof
    assume "b \<in> live pf h"
    then obtain x X where x: "arenas h x = Some X" "in_space pf x" "object_of (frees pf h) x X b" by (auto simp: live_def)
    have "frame b = x" using object_frame(1)[OF _ x(3)] D(4)[OF x(1,2)] by blast
    then show False using x(1) ub(2) na by simp
  qed
  ultimately show ?thesis using eq wf' iu' lv ar unfolding n_def[symmetric]
    by (intro exI[of _ b] exI[of _ h']) (auto simp: heap_ok_def A_def ub(2))
qed


lemma new_arena_ok:
  assumes ok: "heap_ok pf h" and i: "i < 7" and ca: "can_alloc pf 1 (mem h)" and em: "frees pf h i = []"
  shows "\<exists>a h'. new_arena pf i h = Some (True, h') \<and> heap_wf pf h' \<and> in_use pf {a} h' \<and> live pf h' = live pf h
    \<and> frame a = a \<and> frees pf h' i = map (arena2block a (dsz i)) [0..<per i]"
proof -
  have wf: "heap_wf pf h" and iu: "in_use pf {} h" using ok by (simp_all add: heap_ok_def)
  note D = heap_wfD[OF wf]
  obtain a s' where s': "malloc_page pf 1 (mem h) = Some (a, s')" "a \<noteq> 0" "frame a = a" "in_space pf a" "space_ok pf s'"
    "maps_new pf 1 a (mem h) s'" "placed pf s' 1 a"
    using alloc_pages[OF D(1) ca] by blast
  have mo: "mem_ok s'" "holds_pages pf 1 a s'" using s'(5,7) by (simp_all add: space_ok_def placed_def)
  obtain m' where m': "clear_at a PG (h\<lparr>mem := s'\<rparr>) = Some (h\<lparr>mem := m'\<rparr>)" "same_map s' m'"
    using clear_arena[of "h\<lparr>mem := s'\<rparr>" a pf 1] mo s'(3) by auto
  define A where "A = \<lparr>desc = Some i, cnt = per i, large = False\<rparr>"
  define bl where "bl = map (arena2block a (dsz i)) [0..<per i]"
  define h3 where "h3 = h\<lparr>mem := m', arenas := (arenas h)(a \<mapsto> A)\<rparr>"
  define h' where "h' = set_free pf i bl h3"
  have d3: "descs_ok (descs_of pf h3)" using D(2) by (simp add: h3_def)
  note F = frees_set_free[OF d3 i, of bl, folded h'_def]
  have dd: "blocks_per_arena (descs_of pf h ! i) = per i" "block_size (descs_of pf h ! i) = dsz i" "free_list (descs_of pf h ! i) = []"
    using D(2) i em by (simp_all add: descs_ok_def frees_def)
  have inj: "inj_on (arena2block a (dsz i)) {..<per i}" by (rule blocks_inj[OF s'(3) i])
  have "split_arena a (dsz i) [0..<per i] [] = Some bl"
    using split_arena_ok[of "[0..<per i]" a "dsz i" "[]"] inj by (simp add: bl_def lessThan_atLeast0)
  then have eq: "new_arena pf i h = Some (True, h')"
    using s'(1,2) m'(1) dd by (simp add: new_arena_def h'_def h3_def A_def Let_def)
  have fr: "frees pf h' = (frees pf h)(i := bl)" and ar: "arenas h' = (arenas h)(a \<mapsto> A)" and mm: "mem h' = m'"
    using F(1,3,4) by (simp_all add: h3_def)
  have fb: "frame b = a" if "b \<in> set bl" for b
    using that arena2block_addr(2)[OF s'(3) i] by (auto simp: bl_def)
  have fa: "filter (\<lambda>b. frame b = a) bl = bl" using fb by (simp add: filter_id_conv)
  have dist: "distinct bl" using inj by (simp add: bl_def distinct_map lessThan_atLeast0)
  have na: "arenas h a = None" by (rule arena_fresh[OF wf s'(6) _ s'(4)]) simp
  have wf': "heap_wf pf h'"
    proof (rule add_arena[OF wf s'(6,7,5,3,4) _ F(2) ar])
      show "same_map s' (mem h')" using m'(2) mm by simp
      show "arena_ok pf (frees pf h') a A" using s'(3) i fa by (simp add: arena_ok_def A_def fr) (simp add: bl_def)
      fix j :: nat and b x :: u32 assume j: "j < 7"
      show "distinct (frees pf h' j)" using D(5)[OF j] dist by (simp add: fr)
      show "b \<in> set (frees pf h' j) \<Longrightarrow> b \<in> set (frees pf h j) \<or> (\<exists>k<per j. b = arena2block a (dsz j) k \<and> desc A = Some j)"
        by (cases "j = i") (auto simp: fr A_def bl_def)
      assume "x \<noteq> a"
      then show "filter (\<lambda>b. frame b = x) (frees pf h' j) = filter (\<lambda>b. frame b = x) (frees pf h j)"
        using em fb by (auto simp: fr filter_empty_conv)
    qed (simp_all add: pages_of_def A_def)
  have iu': "in_use pf {a} h'" using iu by (auto simp: in_use_def ar split: if_splits)
  have ob: "object_of (frees pf h') x X b = object_of (frees pf h) x X b" if x: "arenas h x = Some X" "in_space pf x" for x X b
  proof (cases "desc X")
    case (Some j)
    have ax: "frame x = x" "j < 7" using D(4)[OF x] Some by (simp_all add: arena_ok_def)
    have "x \<noteq> a" using x(1) na by auto
    then have "arena2block x (dsz j) k \<notin> set bl" if "k < per j" for k
      using fb arena2block_addr(2)[OF ax that] by metis
    then show ?thesis using Some em by (auto simp: object_of_def fr)
  qed (simp add: object_of_def)
  have "\<not> object_of (frees pf h') a A b" for b by (auto simp: object_of_def A_def fr bl_def)
  then have "live pf h' = live pf h" using live_add[OF na ar s'(4) ob] by blast
  then show ?thesis using eq wf' iu' s'(3) fr by (auto simp: bl_def)
qed

text \<open>What a call of sys_malloc needs: pages for a large object or for a new arena.\<close>

definition serves :: "pool_flags \<Rightarrow> nat \<Rightarrow> heap \<Rightarrow> bool" where
  "serves pf bytes h \<longleftrightarrow> bytes < unat (pool_size (pool_of pf (mem h)))
     \<and> (if 1024 < bytes then can_alloc pf (DIV_ROUND_UP (bytes + sizeof_arena) PG) (mem h)
        else frees pf h (find_desc bytes (descs_of pf h)) = [] \<longrightarrow> can_alloc pf 1 (mem h))"

text \<open>The bytes from an object on that belong to it.\<close>

definition usable :: "heap \<Rightarrow> u32 \<Rightarrow> nat" where
  "usable h b = (case arenas h (frame b) of
     Some A \<Rightarrow> (case desc A of None \<Rightarrow> cnt A * PG - sizeof_arena | Some i \<Rightarrow> dsz i) | None \<Rightarrow> 0)"

lemma live_nonzero:
  assumes wf: "heap_wf pf h" and b: "b \<in> live pf h"
  shows "b \<noteq> 0" "\<exists>A. arenas h (frame b) = Some A \<and> in_space pf (frame b) \<and> object_of (frees pf h) (frame b) A b"
proof -
  obtain x X where x: "arenas h x = Some X" "in_space pf x" "object_of (frees pf h) x X b" using b by (auto simp: live_def)
  note D = heap_wfD[OF wf]
  have "frame b = x \<and> unat x + sizeof_arena \<le> unat b" using object_frame[OF _ x(3)] D(4)[OF x(1,2)] by blast
  then show "b \<noteq> 0" "\<exists>A. arenas h (frame b) = Some A \<and> in_space pf (frame b) \<and> object_of (frees pf h) (frame b) A b"
    using x by (auto simp: sizeof_arena_def)
qed

lemma div_round_up: "n \<le> DIV_ROUND_UP n PG * PG"
proof -
  have "n + PG - 1 < (n + PG - 1) div PG * PG + PG"
    using div_mult_mod_eq[of "n + PG - 1" PG] mod_less_divisor[of PG "n + PG - 1"] by (simp add: PG_def)
  then show ?thesis by (simp add: DIV_ROUND_UP_def PG_def)
qed

lemma usable_large:
  "arenas h (frame b) = Some \<lparr>desc = None, cnt = DIV_ROUND_UP (bytes + sizeof_arena) PG, large = True\<rparr> \<Longrightarrow>
   bytes \<le> usable h b"
  using div_round_up[of "bytes + sizeof_arena"] by (simp add: usable_def)

lemma sys_malloc_ok:
  assumes ok: "heap_ok pf h" and n0: "0 < bytes" and sv: "serves pf bytes h"
  shows "\<exists>b h'. sys_malloc bytes h = Some (b, h') \<and> heap_ok pf h' \<and> b \<noteq> 0 \<and> b \<notin> live pf h \<and> live pf h' = insert b (live pf h)
    \<and> bytes \<le> usable h' b"
proof -
  have wf: "heap_wf pf h" and iu: "in_use pf {} h" using ok by (simp_all add: heap_ok_def)
  note D = heap_wfD[OF wf]
  have pf: "(if cur_pgdir (mem h) = 0 then PF_KERNEL else PF_USER) = pf"
    using D(1) by (cases pf) (auto simp: space_ok_def)
  have ps: "bytes < unat (pool_size (pool_of pf (mem h)))" using sv by (simp add: serves_def)
  show ?thesis
  proof (cases "1024 < bytes")
    case True
    then have ca: "can_alloc pf (DIV_ROUND_UP (bytes + sizeof_arena) PG) (mem h)" using sv by (simp add: serves_def)
    obtain b h' where r: "malloc_large pf bytes h = Some (b, h')" "heap_ok pf h'" "b \<noteq> 0" "b \<notin> live pf h"
      "live pf h' = insert b (live pf h)"
      "arenas h' (frame b) = Some \<lparr>desc = None, cnt = DIV_ROUND_UP (bytes + sizeof_arena) PG, large = True\<rparr>"
      using malloc_large_ok[OF ok ca] by blast
    have "sys_malloc bytes h = Some (b, h')" using True n0 ps r(1) by (simp add: sys_malloc_def Let_def pf)
    then show ?thesis using r usable_large[OF r(6)] by blast
  next
    case False
    define i where "i = find_desc bytes (descs_of pf h)"
    have i: "i < 7" "bytes \<le> dsz i" using find_desc_ok[OF D(2)] False by (simp_all add: i_def)
    have tb: "\<exists>b h'. take_block pf i g = Some (b, h') \<and> heap_ok pf h' \<and> b \<noteq> 0 \<and> b \<notin> live pf h \<and> live pf h' = insert b (live pf h)
      \<and> bytes \<le> usable h' b"
      if g: "heap_wf pf g" "live pf g = live pf h" "frees pf g i = b # xs" "in_use pf {frame b} g" for g b xs
    proof -
      obtain h' A where h': "take_block pf i g = Some (b, h')" "heap_ok pf h'" "b \<notin> live pf g" "live pf h' = insert b (live pf g)"
        "arenas h' (frame b) = Some A" "desc A = Some i"
        using take_block_ok[OF g(1) i(1) g(3,4)] by blast
      have "heap_wf pf h'" using h'(2) by (simp add: heap_ok_def)
      then have "b \<noteq> 0" using live_nonzero(1)[of pf h' b] h'(4) by blast
      moreover have "bytes \<le> usable h' b" using h'(5,6) i(2) by (simp add: usable_def)
      ultimately show ?thesis using h' g(2) by auto
    qed
    have lst: "free_list (descs_of pf h ! i) = frees pf h i" by (simp add: frees_def)
    show ?thesis
    proof (cases "frees pf h i")
      case (Cons b xs)
      have "in_use pf {frame b} h" using iu by (simp add: in_use_def)
      moreover have "sys_malloc bytes h = take_block pf i h"
        using False n0 ps Cons lst by (simp add: sys_malloc_def Let_def pf i_def[symmetric])
      ultimately show ?thesis using tb[OF wf refl Cons] by simp
    next
      case Nil
      then have "can_alloc pf 1 (mem h)" using sv False by (simp add: serves_def i_def[symmetric])
      from new_arena_ok[OF ok i(1) this Nil] obtain a g where g: "new_arena pf i h = Some (True, g)" "heap_wf pf g"
        "in_use pf {a} g" "live pf g = live pf h" "frame a = a" "frees pf g i = map (arena2block a (dsz i)) [0..<per i]"
        by blast
      have p1: "0 < per i" using per_pos[OF i(1)] by simp
      then have fg: "frees pf g i = arena2block a (dsz i) 0 # map (arena2block a (dsz i)) [1..<per i]"
        using g(6) by (simp add: upt_rec)
      have "sys_malloc bytes h = take_block pf i g"
        using False n0 ps Nil lst g(1) by (simp add: sys_malloc_def Let_def pf i_def[symmetric])
      then show ?thesis using tb[OF g(2,4) fg] g(3) arena2block_addr(2)[OF g(5) i(1) p1] by simp
    qed
  qed
qed


text \<open>Releasing the pages of an arena.\<close>

lemma release_pages:
  assumes sp: "space_ok pf s" and pl: "placed pf s n a" and a: "frame a = a"
  shows "\<exists>s'. mfree_page pf a n s = Some s' \<and> space_ok pf s'
    \<and> (\<forall>k x. frame x = x \<longrightarrow> placed pf s k x \<longrightarrow> (\<forall>i<n. \<forall>j<k. page a i \<noteq> page x j) \<longrightarrow> placed pf s' k x)"
proof -
  obtain k where k: "a = page (vaddr_start (vaddr_of pf s)) k" "k + n \<le> 8 * btmp_bytes_len (vaddr_bitmap (vaddr_of pf s))"
    "0 < n" "n \<le> 3840" "holds_pages pf n a s" "pf = PF_USER \<longrightarrow> (\<forall>i<n. page a i < 0xc0000000 - PG_SIZE)"
    using pl unfolding placed_def by blast
  have mo: "mem_ok s" "vspace pf s" using sp by (simp_all add: space_ok_def)
  obtain s' where s': "mfree_page pf a n s = Some s'" "mem_ok s'" "vspace pf s'"
    "\<forall>w. heap w \<longrightarrow> (\<forall>i<n. frame w \<noteq> page a i) \<longrightarrow> walk (mach s') w = walk (mach s) w"
    "\<forall>b. leaf s b \<longrightarrow> leaf s' b" "\<forall>p b. pool_frame (pool_of p s') b = pool_frame (pool_of p s) b"
    "cur_pgdir s' = cur_pgdir s" "vaddr_start (vaddr_of pf s') = vaddr_start (vaddr_of pf s)"
    "btmp_bytes_len (vaddr_bitmap (vaddr_of pf s')) = btmp_bytes_len (vaddr_bitmap (vaddr_of pf s))"
    using mfree_page_ok[OF mo k(3,4,2,1,5,6)] by (elim exE conjE) (rule that)
  have "space_ok pf s'" using sp s'(2,3,7,8) by (cases pf) (simp_all add: space_ok_def)
  moreover have "placed pf s' l x" if x: "frame x = x" "placed pf s l x" "\<forall>i<n. \<forall>j<l. page a i \<noteq> page x j" for l x
  proof -
    have "heap (page x j) \<and> (\<exists>f. walk (mach s') (page x j) = Some f \<and> frame f = f \<and> pool_frame (pool_of pf s') f \<and> leaf s' f)"
      if j: "j < l" for j
    proof -
      obtain f where f: "heap (page x j)" "walk (mach s) (page x j) = Some f" "frame f = f"
        "pool_frame (pool_of pf s) f" "leaf s f"
        using x(2) j unfolding placed_def holds_pages_def by blast
      have "\<forall>i<n. frame (page x j) \<noteq> page a i" using x(1,3) j frame_page by metis
      then have "walk (mach s') (page x j) = Some f" using s'(4) f(1,2) by auto
      then show ?thesis using f s'(5,6) by blast
    qed
    then have "holds_pages pf l x s'" unfolding holds_pages_def by blast
    then show ?thesis using x(2) s'(8,9) unfolding placed_def by metis
  qed
  ultimately show ?thesis using s'(1) by blast
qed

lemma remove_arena:
  assumes wf: "heap_wf pf h" and A: "arenas h a = Some A" "in_space pf a"
    and fl: "\<And>j. j < 7 \<Longrightarrow> frees pf h' j = filter (\<lambda>b. frame b \<noteq> a) (frees pf h j)"
    and sp: "space_ok pf (mem h')" and ds: "descs_ok (descs_of pf h')" and ar: "arenas h' = (arenas h)(a := None)"
    and pl: "\<And>k x. frame x = x \<Longrightarrow> placed pf (mem h) k x \<Longrightarrow> \<forall>i<pages_of A. \<forall>j<k. page a i \<noteq> page x j \<Longrightarrow> placed pf (mem h') k x"
  shows "heap_wf pf h'" "in_use pf {a} h \<Longrightarrow> in_use pf {} h'"
    "b \<in> live pf h' \<longleftrightarrow> b \<in> live pf h \<and> frame b \<noteq> a"
proof -
  note D = heap_wfD[OF wf]
  have old: "arenas h x = Some X \<and> x \<noteq> a" if "arenas h' x = Some X" for x X
    using that ar by (cases "x = a") simp_all
  have "arena_ok pf (frees pf h') x X \<and> placed pf (mem h') (pages_of X) x"
    if x: "arenas h' x = Some X" "in_space pf x" for x X
  proof -
    note o = old[OF x(1)]
    have d: "arena_ok pf (frees pf h) x X" "placed pf (mem h) (pages_of X) x" using D(4) o x(2) by blast+
    then have fx: "frame x = x" by (simp add: arena_ok_def)
    have "\<forall>i<pages_of A. \<forall>j<pages_of X. page a i \<noteq> page x j"
      using D(3) A o x(2) unfolding apart_def by blast
    from pl[OF fx d(2) this] have "placed pf (mem h') (pages_of X) x" .
    moreover have "arena_ok pf (frees pf h') x X"
    proof (cases "desc X")
      case (Some i)
      then have i: "i < 7" using d(1) by (simp add: arena_ok_def)
      have "(\<lambda>b. frame b \<noteq> a \<and> frame b = x) = (\<lambda>b. frame b = x)" using o by auto
      then show ?thesis using d(1) Some i by (simp add: arena_ok_def fl[OF i])
    qed (use d(1) in \<open>simp add: arena_ok_def\<close>)
    ultimately show ?thesis by blast
  qed
  moreover have "listed pf (arenas h') j b" if j: "j < 7" "b \<in> set (frees pf h' j)" for j b
  proof -
    have lb: "listed pf (arenas h) j b" "frame b \<noteq> a" using D(6)[OF j(1)] j(2) by (simp_all add: fl[OF j(1)])
    then show ?thesis using listed_frame[OF wf j(1) lb(1)] unfolding listed_def ar by (metis fun_upd_other)
  qed
  moreover have "apart pf (arenas h')" using D(3) old unfolding apart_def by metis
  ultimately show "heap_wf pf h'" using sp ds D(5) fl by (auto simp: heap_wf_def)
  show "in_use pf {a} h \<Longrightarrow> in_use pf {} h'" using old unfolding in_use_def by blast
  have obj: "object_of (frees pf h') x X b \<longleftrightarrow> object_of (frees pf h) x X b"
    if x: "arenas h x = Some X" "in_space pf x" "x \<noteq> a" for x X
  proof (cases "desc X")
    case (Some i)
    have ax: "frame x = x" "i < 7" using D(4)[OF x(1,2)] Some by (simp_all add: arena_ok_def)
    then show ?thesis using Some arena2block_addr(2)[OF ax] x(3) by (auto simp: object_of_def fl)
  qed (simp add: object_of_def)
  show "b \<in> live pf h' \<longleftrightarrow> b \<in> live pf h \<and> frame b \<noteq> a"
  proof
    assume "b \<in> live pf h'"
    then obtain x X where x: "arenas h' x = Some X" "in_space pf x" "object_of (frees pf h') x X b" by (auto simp: live_def)
    then have "b \<in> live pf h" using old[OF x(1)] obj by (auto simp: live_def)
    moreover have "frame b = x"
      using object_frame(1)[OF _ x(3)] D(4) old[OF x(1)] x(2) by blast
    ultimately show "b \<in> live pf h \<and> frame b \<noteq> a" using old[OF x(1)] by simp
  next
    assume b: "b \<in> live pf h \<and> frame b \<noteq> a"
    then obtain X where X: "arenas h (frame b) = Some X" "in_space pf (frame b)" "object_of (frees pf h) (frame b) X b"
      using live_nonzero(2)[OF wf] by blast
    then show "b \<in> live pf h'" using b obj[OF X(1,2)] by (auto simp: live_def ar)
  qed
qed


section \<open>sys_free\<close>

lemma unlist_ok:
  assumes "distinct fl" "distinct ks" "inj_on (arena2block a bs) (set ks)" "\<forall>k \<in> set ks. arena2block a bs k \<in> set fl"
  shows "unlist_arena a bs ks fl = Some (filter (\<lambda>b. b \<notin> arena2block a bs ` set ks) fl)"
  using assms
proof (induction ks arbitrary: fl)
  case (Cons k ks)
  let ?b = "arena2block a bs k"
  have r: "remove1 ?b fl = filter (\<lambda>x. x \<noteq> ?b) fl"
    using Cons.prems(1) distinct_remove1_removeAll[of fl ?b] by (simp add: removeAll_filter_not_eq eq_commute)
  have "\<forall>l \<in> set ks. arena2block a bs l \<in> set (remove1 ?b fl)"
    using Cons.prems by (auto simp: r inj_on_def)
  moreover have "distinct (remove1 ?b fl)" using Cons.prems(1) by simp
  ultimately have "unlist_arena a bs ks (remove1 ?b fl) = Some (filter (\<lambda>b. b \<notin> arena2block a bs ` set ks) (remove1 ?b fl))"
    using Cons.prems by (intro Cons.IH) auto
  then show ?case using Cons.prems(4) by (auto simp: r intro!: filter_cong)
qed simp

lemma drop_ok:
  assumes wf: "heap_wf pf h" and A: "arenas h a = Some A" "in_space pf a"
    and fl: "\<And>j. j < 7 \<Longrightarrow> frees pf g j = filter (\<lambda>b. frame b \<noteq> a) (frees pf h j)"
    and g: "mem g = mem h" "arenas g = arenas h" "descs_ok (descs_of pf g)"
  shows "\<exists>h'. drop_arena pf a (pages_of A) g = Some h' \<and> heap_wf pf h'
    \<and> (in_use pf {a} h \<longrightarrow> in_use pf {} h') \<and> (\<forall>b. b \<in> live pf h' \<longleftrightarrow> b \<in> live pf h \<and> frame b \<noteq> a)"
proof -
  note D = heap_wfD[OF wf]
  have fa: "frame a = a" and pl: "placed pf (mem h) (pages_of A) a" using D(4)[OF A] by (simp_all add: arena_ok_def)
  obtain s' where s': "mfree_page pf a (pages_of A) (mem h) = Some s'" "space_ok pf s'"
    "\<And>k x. frame x = x \<Longrightarrow> placed pf (mem h) k x \<Longrightarrow> \<forall>i<pages_of A. \<forall>j<k. page a i \<noteq> page x j \<Longrightarrow> placed pf s' k x"
    using release_pages[OF D(1) pl fa] by blast
  define h' where "h' = g\<lparr>mem := s', arenas := (arenas h)(a := None)\<rparr>"
  have eq: "drop_arena pf a (pages_of A) g = Some h'" using s'(1) g by (simp add: drop_arena_def h'_def)
  have fl': "\<And>j. j < 7 \<Longrightarrow> frees pf h' j = filter (\<lambda>b. frame b \<noteq> a) (frees pf h j)" and sp: "space_ok pf (mem h')"
    and ds: "descs_ok (descs_of pf h')" and ar: "arenas h' = (arenas h)(a := None)"
    using fl s'(2) g(3) by (simp_all add: h'_def)
  have pl': "\<And>k x. frame x = x \<Longrightarrow> placed pf (mem h) k x \<Longrightarrow> \<forall>i<pages_of A. \<forall>j<k. page a i \<noteq> page x j \<Longrightarrow> placed pf (mem h') k x"
    using s'(3) by (simp add: h'_def)
  note R = remove_arena[OF wf A fl' sp ds ar pl']
  show ?thesis using eq R by blast
qed

lemma sys_free_ok:
  assumes ok: "heap_ok pf h" and b: "b \<in> live pf h"
  shows "\<exists>h'. sys_free b h = Some h' \<and> heap_ok pf h' \<and> live pf h' = live pf h - {b}"
proof -
  have wf: "heap_wf pf h" and iu: "in_use pf {} h" using ok by (simp_all add: heap_ok_def)
  note D = heap_wfD[OF wf]
  have pf: "(if cur_pgdir (mem h) = 0 then PF_KERNEL else PF_USER) = pf"
    using D(1) by (cases pf) (auto simp: space_ok_def)
  define a where "a = frame b"
  obtain A where A: "arenas h a = Some A" "in_space pf a" "object_of (frees pf h) a A b"
    using live_nonzero(2)[OF wf b] unfolding a_def by blast
  have b0: "b \<noteq> 0" by (rule live_nonzero(1)[OF wf b])
  have aok: "arena_ok pf (frees pf h) a A" and pl: "placed pf (mem h) (pages_of A) a" using D(4)[OF A(1,2)] by blast+
  have fa: "frame a = a" using aok by (simp add: arena_ok_def)
  have kb: "pf = PF_KERNEL \<longrightarrow> K_HEAP_START \<le> b"
  proof
    assume k: "pf = PF_KERNEL"
    define base where "base = vaddr_start (vaddr_of pf (mem h))"
    obtain l where l: "a = page base l" "l < 8 * btmp_bytes_len (vaddr_bitmap (vaddr_of pf (mem h)))"
      using pl unfolding placed_def base_def by (metis add_lessD1 less_add_same_cancel1 order_less_le_trans)
    have "unat base + 4096 * l < 4294967296"
      using D(1) l(2) unfolding space_ok_def vspace_def Let_def base_def by linarith
    then have "unat a = unat base + 4096 * l" unfolding l(1) by (rule unat_page)
    moreover have "unat K_HEAP_START \<le> unat base" using D(1) k by (simp add: space_ok_def base_def word_le_nat_alt)
    ultimately show "K_HEAP_START \<le> b" using object_frame(2)[OF aok A(3)] by (simp add: word_le_nat_alt)
  qed
  show ?thesis
  proof (cases "desc A")
    case None
    then have lg: "large A" "pages_of A = cnt A" "b = a + of_nat sizeof_arena"
      using aok A(3) by (simp_all add: arena_ok_def pages_of_def object_of_def)
    have no: "frame x \<noteq> a" if "j < 7" "x \<in> set (frees pf h j)" for j x
      using listed_frame[OF wf that(1) D(6)[OF that]] A(1) None by (metis option.distinct(1) option.inject)
    then have fl: "j < 7 \<Longrightarrow> frees pf h j = filter (\<lambda>b. frame b \<noteq> a) (frees pf h j)" for j by (simp add: filter_id_conv)
    obtain h' where h': "drop_arena pf a (cnt A) h = Some h'" "heap_wf pf h'" "in_use pf {a} h \<longrightarrow> in_use pf {} h'"
      "\<forall>c. c \<in> live pf h' \<longleftrightarrow> c \<in> live pf h \<and> frame c \<noteq> a"
      using drop_ok[OF wf A(1,2) fl refl refl D(2)] lg(2) by auto
    have "sys_free b h = Some h'"
      using b0 kb A(1) None lg(1) h'(1) by (simp add: sys_free_def Let_def pf block2arena_frame a_def[symmetric])
    moreover have "heap_ok pf h'" using h'(2,3) iu by (auto simp: heap_ok_def in_use_def)
    moreover have "c = b" if c: "c \<in> live pf h" "frame c = a" for c
    proof -
      obtain X where "arenas h a = Some X" "object_of (frees pf h) a X c" using live_nonzero(2)[OF wf c(1)] c(2) by blast
      then show ?thesis using A(1) None lg(3) by (simp add: object_of_def)
    qed
    then have "live pf h' = live pf h - {b}" using h'(4) a_def by blast
    ultimately show ?thesis by blast
  next
    case (Some i)
    have i: "i < 7" "\<not> large A" "cnt A = length (filter (\<lambda>b. frame b = a) (frees pf h i))" "pages_of A = 1"
      using aok Some by (simp_all add: arena_ok_def pages_of_def)
    obtain k where k: "b = arena2block a (dsz i) k" "k < per i" "b \<notin> set (frees pf h i)"
      using A(3) Some by (auto simp: object_of_def)
    have lb: "listed pf (arenas h) i b" using k A(1,2) Some unfolding listed_def by blast
    define xs where "xs = frees pf h i @ [b]"
    define A1 where "A1 = A\<lparr>cnt := cnt A + 1\<rparr>"
    define h1 where "h1 = (set_free pf i xs h)\<lparr>arenas := (arenas h)(a \<mapsto> A1)\<rparr>"
    note F = frees_set_free[OF D(2) i(1), of xs]
    have fr1: "frees pf h1 = (frees pf h)(i := xs)" and ds1: "descs_ok (descs_of pf h1)" and m1: "mem h1 = mem h"
      and ar1: "arenas h1 = (arenas h)(a \<mapsto> A1)" using F by (simp_all add: h1_def)
    have wf1: "heap_wf pf h1"
    proof (rule heap_wf_update[OF wf i(1) A(1,2) Some _ ds1 fr1 ar1[unfolded A1_def]])
      show "same_map (mem h) (mem h1)" by (simp add: m1 same_map_def)
      show "cnt A + 1 = length (filter (\<lambda>b. frame b = a) xs)" using i(3) by (simp add: xs_def a_def)
      show "distinct xs" using D(5)[OF i(1)] k(3) by (simp add: xs_def)
      show "x \<in> set xs \<Longrightarrow> listed pf (arenas h) i x" for x using D(6)[OF i(1)] lb by (auto simp: xs_def)
      show "x \<noteq> a \<Longrightarrow> filter (\<lambda>b. frame b = x) xs = filter (\<lambda>b. frame b = x) (frees pf h i)" for x
        by (simp add: xs_def a_def)
    qed
    have lv1: "c \<in> live pf h1 \<longleftrightarrow> c \<in> live pf h \<and> c \<noteq> b" for c
    proof -
      have "object_of (frees pf h1) x X c \<longleftrightarrow> object_of (frees pf h) x X c \<and> c \<noteq> b"
        if x: "arenas h x = Some X" "in_space pf x" for x X
      proof (intro iffI conjI)
        assume o: "object_of (frees pf h1) x X c"
        show "object_of (frees pf h) x X c"
          using o by (cases "desc X") (auto simp: fr1 object_of_def xs_def split: if_splits)
        show "c \<noteq> b" using object_block[OF wf x i(1) lb, of "frees pf h1"] o by (auto simp: fr1 xs_def)
      next
        assume "object_of (frees pf h) x X c \<and> c \<noteq> b"
        then show "object_of (frees pf h1) x X c"
          by (cases "desc X") (auto simp: fr1 object_of_def xs_def split: if_splits)
      qed
      then have "(\<exists>x X. arenas h x = Some X \<and> in_space pf x \<and> object_of (frees pf h1) x X c)
          \<longleftrightarrow> (\<exists>x X. arenas h x = Some X \<and> in_space pf x \<and> object_of (frees pf h) x X c) \<and> c \<noteq> b" by metis
      moreover have "c \<in> live pf h \<longleftrightarrow> (\<exists>x X. arenas h x = Some X \<and> in_space pf x \<and> object_of (frees pf h) x X c)"
        by (simp add: live_def)
      ultimately show ?thesis using live_update[OF wf i(1) A(1) Some fr1 ar1[unfolded A1_def], of c] by (simp only: fr1)
    qed
    have d: "block_size (descs_of pf h ! i) = dsz i" "blocks_per_arena (descs_of pf h ! i) = per i" "free_list (descs_of pf h ! i) = frees pf h i"
      using D(2) i(1) by (simp_all add: descs_ok_def frees_def)
    have lt: "cnt A < per i" using iu A(1,2) Some unfolding in_use_def by blast
    have eq1: "sys_free b h = (if cnt A + 1 = per i
        then do { fl' \<leftarrow> unlist_arena a (dsz i) [0..<per i] xs; drop_arena pf a 1 (set_free pf i fl' h1) } else Some h1)"
      using b0 kb A(1) Some i(2) d unfolding h1_def A1_def xs_def
      by (simp add: sys_free_def Let_def pf block2arena_frame a_def[symmetric])
    have iu1: "in_use pf {a} h1" using iu unfolding in_use_def ar1 by (auto split: if_splits)
    show ?thesis
    proof (cases "cnt A + 1 = per i")
      case False
      have "in_use pf {} h1" using iu1 False lt Some unfolding in_use_def ar1 A1_def by (auto split: if_splits)
      then show ?thesis using eq1 False wf1 lv1 by (auto simp: heap_ok_def)
    next
      case True
      have inj: "inj_on (arena2block a (dsz i)) {..<per i}" by (rule blocks_inj[OF fa i(1)])
      have dx: "distinct xs" using heap_wfD(5)[OF wf1 i(1)] by (simp add: fr1)
      have sub: "set (filter (\<lambda>x. frame x = a) xs) \<subseteq> arena2block a (dsz i) ` {..<per i}"
      proof
        fix x assume x: "x \<in> set (filter (\<lambda>x. frame x = a) xs)"
        then have "listed pf (arenas h1) i x" using heap_wfD(6)[OF wf1 i(1)] by (simp add: fr1)
        then obtain l where "x = arena2block (frame x) (dsz i) l" "l < per i" using listed_frame[OF wf1 i(1)] by metis
        then show "x \<in> arena2block a (dsz i) ` {..<per i}" using x by auto
      qed
      have "card (set (filter (\<lambda>x. frame x = a) xs)) = per i"
      proof -
        have "distinct (filter (\<lambda>x. frame x = a) xs)" using dx by simp
        then have "card (set (filter (\<lambda>x. frame x = a) xs)) = length (filter (\<lambda>x. frame x = a) xs)" by (rule distinct_card)
        then show ?thesis using i(3) True by (simp add: xs_def a_def)
      qed
      moreover have "card (arena2block a (dsz i) ` {..<per i}) = per i" using inj by (simp add: card_image)
      ultimately have all: "set (filter (\<lambda>x. frame x = a) xs) = arena2block a (dsz i) ` {..<per i}"
        using sub by (intro card_subset_eq) simp_all
      have blk: "b \<in> arena2block a (dsz i) ` set [0..<per i] \<longleftrightarrow> frame b = a" if "b \<in> set xs" for b
        using all that by (auto simp: lessThan_atLeast0)
      have ul: "unlist_arena a (dsz i) [0..<per i] xs = Some (filter (\<lambda>b. frame b \<noteq> a) xs)"
      proof -
        have "unlist_arena a (dsz i) [0..<per i] xs = Some (filter (\<lambda>b. b \<notin> arena2block a (dsz i) ` set [0..<per i]) xs)"
          by (rule unlist_ok[OF dx]) (use inj all in \<open>auto simp: lessThan_atLeast0\<close>)
        also have "filter (\<lambda>b. b \<notin> arena2block a (dsz i) ` set [0..<per i]) xs = filter (\<lambda>b. frame b \<noteq> a) xs"
          using blk by (intro filter_cong) auto
        finally show ?thesis .
      qed
      define g where "g = set_free pf i (filter (\<lambda>b. frame b \<noteq> a) xs) h1"
      note G = frees_set_free[OF ds1 i(1), of "filter (\<lambda>b. frame b \<noteq> a) xs", folded g_def]
      have A1: "arenas h1 a = Some A1" "pages_of A1 = 1" using i(4) Some by (simp_all add: ar1 A1_def pages_of_def)
      have fl: "frees pf g j = filter (\<lambda>b. frame b \<noteq> a) (frees pf h1 j)" if j: "j < 7" for j
      proof (cases "j = i")
        case False
        have "frame x \<noteq> a" if x: "x \<in> set (frees pf h j)" for x
          using listed_frame[OF wf j D(6)[OF j x]] A(1) Some False by (metis option.inject)
        then show ?thesis using False by (simp add: G(1) fr1 filter_id_conv)
      qed (simp add: G(1) fr1)
      obtain h' where h': "drop_arena pf a 1 g = Some h'" "heap_wf pf h'" "in_use pf {a} h1 \<longrightarrow> in_use pf {} h'"
        "\<forall>c. c \<in> live pf h' \<longleftrightarrow> c \<in> live pf h1 \<and> frame c \<noteq> a"
        using drop_ok[OF wf1 A1(1) A(2) fl G(4) G(3) G(2)] A1(2) by auto
      have "frame c \<noteq> a" if c: "c \<in> live pf h1" for c
      proof
        assume e: "frame c = a"
        obtain X where "arenas h1 a = Some X" "object_of (frees pf h1) a X c" using live_nonzero(2)[OF wf1 c] e by blast
        then obtain l where "c = arena2block a (dsz i) l" "l < per i" "c \<notin> set xs"
          using A1(1) Some by (auto simp: object_of_def A1_def fr1)
        then show False using all by auto
      qed
      then have "live pf h' = live pf h - {b}" using h'(4) lv1 by blast
      then show ?thesis using eq1 True ul h'(1-3) iu1 by (simp add: g_def heap_ok_def)
    qed
  qed
qed


section \<open>The allocator interface\<close>

text \<open>What the clients of the heap rely on (partition_scan, the directory and inode code, the shell): a call
  that is served returns an object that was not live, and releasing a live object takes exactly it away.\<close>

locale allocator =
  fixes alloc :: "nat \<Rightarrow> 'h \<Rightarrow> ('a \<times> 'h) option"
    and release :: "'a \<Rightarrow> 'h \<Rightarrow> 'h option"
    and objects :: "'h \<Rightarrow> 'a set"
    and ok :: "'h \<Rightarrow> bool"
    and enough :: "nat \<Rightarrow> 'h \<Rightarrow> bool"
  assumes alloc_new: "ok h \<Longrightarrow> 0 < n \<Longrightarrow> enough n h \<Longrightarrow>
      \<exists>b h'. alloc n h = Some (b, h') \<and> ok h' \<and> b \<notin> objects h \<and> objects h' = insert b (objects h)"
    and release_live: "ok h \<Longrightarrow> b \<in> objects h \<Longrightarrow>
      \<exists>h'. release b h = Some h' \<and> ok h' \<and> objects h' = objects h - {b}"
begin

lemma alloc_release:
  assumes "ok h" "0 < n" "enough n h"
  shows "\<exists>b h1 h2. alloc n h = Some (b, h1) \<and> release b h1 = Some h2 \<and> ok h2 \<and> objects h2 = objects h"
proof -
  obtain b h1 where h1: "alloc n h = Some (b, h1)" "ok h1" "b \<notin> objects h" "objects h1 = insert b (objects h)"
    using alloc_new[OF assms] by blast
  then obtain h2 where "release b h1 = Some h2" "ok h2" "objects h2 = objects h1 - {b}"
    using release_live[of h1 b] by blast
  with h1 show ?thesis by auto
qed

primrec release_all :: "'a list \<Rightarrow> 'h \<Rightarrow> 'h option" where
  "release_all [] h = Some h"
| "release_all (b # bs) h = do { h1 \<leftarrow> release b h; release_all bs h1 }"

lemma release_all_ok:
  "ok h \<Longrightarrow> distinct bs \<Longrightarrow> set bs \<subseteq> objects h \<Longrightarrow>
   \<exists>h'. release_all bs h = Some h' \<and> ok h' \<and> objects h' = objects h - set bs"
proof (induction bs arbitrary: h)
  case (Cons b bs)
  then obtain h1 where h1: "release b h = Some h1" "ok h1" "objects h1 = objects h - {b}"
    using release_live[of h b] by auto
  moreover from this obtain h' where "release_all bs h1 = Some h'" "ok h'" "objects h' = objects h1 - set bs"
    using Cons.IH[of h1] Cons.prems by auto
  ultimately show ?case by auto
qed simp

end

interpretation ha: allocator sys_malloc sys_free "live pf" "heap_ok pf" "serves pf" for pf
proof
  show "heap_ok pf h \<Longrightarrow> 0 < n \<Longrightarrow> serves pf n h \<Longrightarrow>
      \<exists>b h'. sys_malloc n h = Some (b, h') \<and> heap_ok pf h' \<and> b \<notin> live pf h \<and> live pf h' = insert b (live pf h)" for h n
    using sys_malloc_ok[of pf h n] by blast
  show "heap_ok pf h \<Longrightarrow> b \<in> live pf h \<Longrightarrow> \<exists>h'. sys_free b h = Some h' \<and> heap_ok pf h' \<and> live pf h' = live pf h - {b}" for h b
    by (rule sys_free_ok)
qed

section \<open>Properties\<close>

lemma arena_range:
  assumes wf: "heap_wf pf h" and A: "arenas h a = Some A" "in_space pf a"
  shows "unat a + pages_of A * PG \<le> 4294967296" "frame a = a"
    "i < pages_of A \<Longrightarrow> unat (page a i) = unat a + 4096 * i" "0 < pages_of A"
proof -
  note D = heap_wfD[OF wf]
  have pl: "placed pf (mem h) (pages_of A) a" and ao: "arena_ok pf (frees pf h) a A" using D(4)[OF A] by blast+
  obtain k where k: "a = page (vaddr_start (vaddr_of pf (mem h))) k" "0 < pages_of A"
    "k + pages_of A \<le> 8 * btmp_bytes_len (vaddr_bitmap (vaddr_of pf (mem h)))" using pl unfolding placed_def by blast
  have v: "unat (vaddr_start (vaddr_of pf (mem h))) + 4096 * (8 * btmp_bytes_len (vaddr_bitmap (vaddr_of pf (mem h)))) \<le> 4294967296"
    using D(1) unfolding space_ok_def vspace_def Let_def by blast
  have "unat a = unat (vaddr_start (vaddr_of pf (mem h))) + 4096 * k"
    unfolding k(1) by (rule unat_page) (use v k(2,3) in linarith)
  then show 1: "unat a + pages_of A * PG \<le> 4294967296" using v k(3) unfolding PG_def by linarith
  show "frame a = a" using ao by (simp add: arena_ok_def)
  show "i < pages_of A \<Longrightarrow> unat (page a i) = unat a + 4096 * i"
    by (rule unat_page) (use 1 in \<open>simp add: PG_def\<close>)
  show "0 < pages_of A" by (rule k(2))
qed

lemma arenas_disjoint:
  assumes wf: "heap_wf pf h" and A: "arenas h a = Some A" "in_space pf a" and B: "arenas h b = Some B" "in_space pf b"
    and ne: "a \<noteq> b"
  shows "unat a + pages_of A * PG \<le> unat b \<or> unat b + pages_of B * PG \<le> unat a"
proof -
  have half: "unat x + pages_of X * PG \<le> unat y"
    if X: "arenas h x = Some X" "in_space pf x" and Y: "arenas h y = Some Y" "in_space pf y" and le: "unat x \<le> unat y" "x \<noteq> y"
    for x X y Y
  proof (rule ccontr)
    assume n: "\<not> unat x + pages_of X * PG \<le> unat y"
    note ax = arena_range[OF wf X] and ay = arena_range[OF wf Y]
    have "unat x mod 4096 = 0" "unat y mod 4096 = 0"
      using ax(2) ay(2) by (simp_all add: frame_iff low_mod) (metis unat_0 unat_mod_distrib unat_4096)+
    then obtain p q where pq: "unat x = 4096 * p" "unat y = 4096 * q" by (metis mod_0_imp_dvd dvd_def)
    define i where "i = q - p"
    have i: "i < pages_of X" "unat y = unat x + 4096 * i" using n le(1) pq by (auto simp: PG_def i_def)
    then have "unat (page x i) = unat (page y 0)" using ax(3)[OF i(1)] by (simp add: page_simps)
    then have "page x i = page y 0" by (rule unsigned_word_eqI)
    then show False using heap_wfD(3)[OF wf] X Y le(2) i(1) ay(4) unfolding apart_def by blast
  qed
  show ?thesis using half[OF A B] half[OF B A] ne by (cases "unat a \<le> unat b") auto
qed

lemma small_object:
  assumes "object_of fl a A b" "arena_ok pf fl a A" "desc A = Some i"
  shows "\<exists>k. b = arena2block a (dsz i) k \<and> k < per i \<and> i < 7"
proof -
  have "i < 7" using assms(2,3) by (simp add: arena_ok_def)
  moreover obtain k where "k < per i" "b = arena2block a (dsz i) k" using assms(1,3) unfolding object_of_def by auto
  ultimately show ?thesis by blast
qed

text \<open>An object lies within the pages of its arena.\<close>

lemma object_inside:
  assumes wf: "heap_wf pf h" and x: "x \<in> live pf h"
  shows "\<exists>A. arenas h (frame x) = Some A \<and> in_space pf (frame x) \<and> object_of (frees pf h) (frame x) A x
      \<and> unat (frame x) \<le> unat x \<and> unat x + usable h x \<le> unat (frame x) + pages_of A * PG"
proof -
  obtain A where A: "arenas h (frame x) = Some A" "in_space pf (frame x)" "object_of (frees pf h) (frame x) A x"
    using live_nonzero(2)[OF wf x] by blast
  have ao: "arena_ok pf (frees pf h) (frame x) A" using heap_wfD(4)[OF wf A(1,2)] by blast
  have "unat x + usable h x \<le> unat (frame x) + pages_of A * PG"
  proof (cases "desc A")
    case None
    then have "x = frame x + of_nat sizeof_arena" using A(3) by (simp add: object_of_def)
    then have "unat x = unat (frame x) + sizeof_arena"
      using offset_addr(1)[of "frame x" sizeof_arena] by (simp add: sizeof_arena_def)
    moreover have "sizeof_arena \<le> cnt A * PG"
      using arena_range(4)[OF wf A(1,2)] None by (cases "cnt A") (simp_all add: pages_of_def PG_def sizeof_arena_def)
    ultimately show ?thesis using A(1) None by (simp add: usable_def pages_of_def)
  next
    case (Some i)
    then obtain k where k: "x = arena2block (frame x) (dsz i) k" "k < per i" "i < 7"
      using A(3) ao by (auto simp: object_of_def arena_ok_def)
    have "unat x = unat (frame x) + sizeof_arena + k * dsz i"
      using arena2block_addr(1)[OF frame_frame k(3,2), of x] by (simp only: k(1)[symmetric])
    moreover have "usable h x = dsz i" "pages_of A = 1" using A(1) Some by (simp_all add: usable_def pages_of_def)
    ultimately show ?thesis using block_end[OF k(3,2)] by simp
  qed
  then show ?thesis using A object_frame(2)[OF ao A(3)] by auto
qed

text \<open>C12: the objects sys_malloc hands out do not overlap: two different live objects of a well-formed heap
  occupy disjoint ranges of addresses, over the whole size of their block or run of pages.\<close>
theorem objects_disjoint:
  assumes "heap_ok pf h" "b \<in> live pf h" "c \<in> live pf h" "b \<noteq> c"
  shows "unat b + usable h b \<le> unat c \<or> unat c + usable h c \<le> unat b"
proof -
  have wf: "heap_wf pf h" using assms(1) by (simp add: heap_ok_def)
  note inside = object_inside[OF wf]
  obtain A where A: "arenas h (frame b) = Some A" "in_space pf (frame b)" "object_of (frees pf h) (frame b) A b"
    "unat (frame b) \<le> unat b" "unat b + usable h b \<le> unat (frame b) + pages_of A * PG" using inside[OF assms(2)] by blast
  obtain C where C: "arenas h (frame c) = Some C" "in_space pf (frame c)" "object_of (frees pf h) (frame c) C c"
    "unat (frame c) \<le> unat c" "unat c + usable h c \<le> unat (frame c) + pages_of C * PG" using inside[OF assms(3)] by blast
  show ?thesis
  proof (cases "frame b = frame c")
    case False
    then show ?thesis using arenas_disjoint[OF wf A(1,2) C(1,2)] A(4,5) C(4,5) by linarith
  next
    case True
    then have CA: "C = A" using A(1) C(1) by simp
    show ?thesis
    proof (cases "desc A")
      case None
      then show ?thesis using A(3) C(3) True CA assms(4) by (simp add: object_of_def)
    next
      case (Some i)
      have ao: "arena_ok pf (frees pf h) (frame b) A" using heap_wfD(4)[OF wf A(1,2)] by blast
      obtain k where k: "b = arena2block (frame b) (dsz i) k" "k < per i" "i < 7" using small_object[OF A(3) ao Some] by blast
      have "object_of (frees pf h) (frame b) A c" using C(3) CA True by (simp only:)
      then obtain l where l: "c = arena2block (frame b) (dsz i) l" "l < per i" using small_object[OF _ ao Some] by blast
      have u: "unat b = unat (frame b) + sizeof_arena + k * dsz i" "unat c = unat (frame b) + sizeof_arena + l * dsz i"
        using arena2block_addr(1)[OF frame_frame k(3,2), of b] arena2block_addr(1)[OF frame_frame k(3) l(2), of b]
        by (simp_all only: k(1)[symmetric] l(1)[symmetric])
      have us: "usable h b = dsz i" "usable h c = dsz i" using A(1) True Some by (simp_all add: usable_def)
      have "k \<noteq> l" using k(1) l(1) assms(4) by metis
      then consider "Suc k \<le> l" | "Suc l \<le> k" by linarith
      then show ?thesis
      proof cases
        case 1
        then have "Suc k * dsz i \<le> l * dsz i" by (rule mult_le_mono1)
        then show ?thesis using u us by simp
      next
        case 2
        then have "Suc l * dsz i \<le> k * dsz i" by (rule mult_le_mono1)
        then show ?thesis using u us by simp
      qed
    qed
  qed
qed

text \<open>The heap right after mem_init on a machine of 32 MB.\<close>

definition heap1 :: heap where
  "heap1 = \<lparr>mem = memory1, k_block_descs = block_desc_init, u_block_desc = block_desc_init, arenas = (\<lambda>_. None)\<rparr>"

lemma heap1_ok: "heap_ok PF_KERNEL heap1" "live PF_KERNEL heap1 = {}"
proof -
  have "descs_ok block_desc_init" by (simp add: descs_ok_def block_desc_init_eq)
  then show "heap_ok PF_KERNEL heap1"
    using memory1_ok(1,2,4,7)
    by (simp add: heap_ok_def heap_wf_def space_ok_def in_use_def apart_def)
       (simp add: heap1_def descs_of_def frees_def block_desc_init_eq)
  show "live PF_KERNEL heap1 = {}" by (simp add: live_def heap1_def)
qed

lemma heap1_alloc: "0 < k \<Longrightarrow> k \<le> 100 \<Longrightarrow> can_alloc PF_KERNEL k (mem heap1)"
  unfolding can_alloc_def using memory1_guard memory1_run[of k] memory1_room[of k] memory1_ok(3,5)
  by (auto simp: stocked_def heap1_def intro!: exI[of _ 0])

lemma heap1_serves:
  assumes "0 < n" "n \<le> 100000"
  shows "serves PF_KERNEL n heap1"
proof -
  have "0 < DIV_ROUND_UP (n + sizeof_arena) PG" "DIV_ROUND_UP (n + sizeof_arena) PG \<le> 100"
    using assms by (simp_all add: DIV_ROUND_UP_def PG_def sizeof_arena_def)
  moreover have "unat (pool_size (kernel_pool memory1)) = 7864320"
    by (simp add: memory1_def mem_pool_init_def Let_def PG_SIZE_def)
  ultimately show ?thesis using assms heap1_alloc by (simp add: serves_def) (simp add: heap1_def)
qed

text \<open>C4: \<open>sys_malloc\<close>, for a heap that satisfies the invariant and has what the request needs (bytes
  below the size of the pool, and either a free block or a run of free pages), returns an object
  that was not handed out before, is the only one added, and has room for the bytes asked for; the
  invariant holds again.\<close>
theorem sys_malloc_correct:
  assumes "heap_ok pf h" "0 < bytes" "serves pf bytes h"
  shows "\<exists>b h'. sys_malloc bytes h = Some (b, h') \<and> heap_ok pf h' \<and> b \<noteq> 0 \<and> b \<notin> live pf h \<and> live pf h' = insert b (live pf h)
    \<and> bytes \<le> usable h' b"
  by (rule sys_malloc_ok[OF assms])

theorem sys_malloc_witness:
  "\<exists>b h'. sys_malloc 100 heap1 = Some (b, h') \<and> live PF_KERNEL h' = {b} \<and> 100 \<le> usable h' b"
  using sys_malloc_correct[OF heap1_ok(1) _ heap1_serves, of 100] heap1_ok(2) by auto



theorem objects_disjoint_witness:
  "\<exists>g b h c h'. new_arena PF_KERNEL 3 heap1 = Some (True, g) \<and> take_block PF_KERNEL 3 g = Some (b, h)
     \<and> take_block PF_KERNEL 3 h = Some (c, h') \<and> live PF_KERNEL h' = {c, b}
     \<and> (unat b + usable h' b \<le> unat c \<or> unat c + usable h' c \<le> unat b)"
proof -
  have "can_alloc PF_KERNEL 1 (mem heap1)" "frees PF_KERNEL heap1 3 = []"
    using heap1_alloc[of 1] by (simp_all add: heap1_def frees_def descs_of_def block_desc_init_eq)
  then obtain a g where g: "new_arena PF_KERNEL 3 heap1 = Some (True, g)" "heap_wf PF_KERNEL g" "in_use PF_KERNEL {a} g"
    "live PF_KERNEL g = {}" "frame a = a" "frees PF_KERNEL g 3 = map (arena2block a (dsz 3)) [0..<per 3]"
    using new_arena_ok[OF heap1_ok(1), of 3] heap1_ok(2) by auto
  define fl where "fl = map (arena2block a (dsz 3)) [2..<per 3]"
  have per: "2 < per 3" by (simp add: per_def PG_def sizeof_arena_def dsz_def)
  then have "[0..<per 3] = 0 # 1 # [2..<per 3]" by (simp add: upt_rec numeral_2_eq_2)
  then have fg: "frees PF_KERNEL g 3 = arena2block a (dsz 3) 0 # arena2block a (dsz 3) 1 # fl" using g(6) by (simp add: fl_def)
  have "frame (arena2block a (dsz 3) 0) = a" using arena2block_addr(2)[OF g(5), of 3 0] per by simp
  then obtain h where h: "take_block PF_KERNEL 3 g = Some (arena2block a (dsz 3) 0, h)" "heap_ok PF_KERNEL h"
    "live PF_KERNEL h = {arena2block a (dsz 3) 0}" "frees PF_KERNEL h 3 = arena2block a (dsz 3) 1 # fl"
    using take_block_ok[OF g(2) _ fg] g(3,4) by auto
  have "heap_wf PF_KERNEL h" "in_use PF_KERNEL {frame (arena2block a (dsz 3) 1)} h"
    using h(2) by (simp_all add: heap_ok_def in_use_def)
  then obtain h' where h': "take_block PF_KERNEL 3 h = Some (arena2block a (dsz 3) 1, h')" "heap_ok PF_KERNEL h'"
    "arena2block a (dsz 3) 1 \<notin> live PF_KERNEL h" "live PF_KERNEL h' = {arena2block a (dsz 3) 1, arena2block a (dsz 3) 0}"
    using take_block_ok[of PF_KERNEL h 3, OF _ _ h(4)] h(3) by auto
  have "arena2block a (dsz 3) 0 \<noteq> arena2block a (dsz 3) 1" using h'(3) h(3) by simp
  then show ?thesis using objects_disjoint[OF h'(2), of "arena2block a (dsz 3) 0" "arena2block a (dsz 3) 1"] g(1) h(1) h'(1,4) by auto
qed

end
