(* ===== verification/Path.thy ===== *)
theory Path
  imports Prelude
begin

text \<open>
  Path names: \<open>path_parse\<close> and \<open>path_depth_cnt\<close> of fs.c, \<open>wash_path\<close> and \<open>make_clear_abs_path\<close> of
  buildin_cmd.c. A C string is the list of its bytes without the NUL, a pointer into it the suffix it
  points to, NULL is \<open>None\<close>. The name buffers of 16 bytes are kept as they are, with what they held
  before, because \<open>path_parse\<close> writes no NUL: a store past the buffer and a string read from a buffer
  without a NUL have no defined result.
\<close>

type_synonym cstring = "u8 list"

definition SLASH :: u8 where "SLASH = 0x2f"
definition DOT :: u8 where "DOT = 0x2e"

definition MAX_FILE_NAME_LEN :: nat where "MAX_FILE_NAME_LEN = 16"
definition MAX_PATH_LEN :: nat where "MAX_PATH_LEN = 512"

definition buf_str :: "u8 list \<Rightarrow> cstring option" where
  "buf_str buf = (if 0 \<in> set buf then Some (takeWhile (\<lambda>c. c \<noteq> 0) buf) else None)"

section \<open>The operations\<close>

fun parse_loop :: "cstring \<Rightarrow> nat \<Rightarrow> u8 list \<Rightarrow> (cstring \<times> u8 list) option" where
  "parse_loop [] k name_store = Some ([], name_store)"
| "parse_loop (c # pathname) k name_store =
     (if c = SLASH then Some (c # pathname, name_store)
      else do { ASSERT (k < length name_store); parse_loop pathname (k + 1) (name_store[k := c]) })"

definition path_parse :: "cstring \<Rightarrow> u8 list \<Rightarrow> (cstring option \<times> u8 list) option" where
  "path_parse pathname name_store =
     (let p = (if pathname \<noteq> [] \<and> hd pathname = SLASH then dropWhile (\<lambda>c. c = SLASH) (tl pathname) else pathname) in
      do {
        (r, n) \<leftarrow> parse_loop p 0 name_store;
        Some (if r = [] then None else Some r, n)
      })"

lemma parse_loop_rest: "parse_loop p k n = Some (r, n') \<Longrightarrow> length r \<le> length p \<and> (p \<noteq> [] \<and> hd p \<noteq> SLASH \<longrightarrow> length r < length p)
    \<and> (r \<noteq> [] \<longrightarrow> hd r = SLASH)"
  by (induction p arbitrary: k n) (fastforce split: if_splits)+

lemma path_parse_shorter:
  assumes "path_parse p n = Some (Some r, n')"
  shows "length r < length p" "hd r = SLASH" "r \<noteq> []"
proof -
  define q where "q = (if p \<noteq> [] \<and> hd p = SLASH then dropWhile (\<lambda>c. c = SLASH) (tl p) else p)"
  have q: "parse_loop q 0 n = Some (r, n')" "r \<noteq> []"
    using assms by (auto simp: path_parse_def q_def[symmetric] bind_Some_iff split: if_splits)
  have "length q < length p \<or> q = p \<and> (p \<noteq> [] \<longrightarrow> hd p \<noteq> SLASH)"
    using length_dropWhile_le[of "\<lambda>c. c = SLASH" "tl p"] by (cases p) (auto simp: q_def)
  then show "length r < length p" using parse_loop_rest[OF q(1)] q(2) by force
  show "hd r = SLASH" "r \<noteq> []" using parse_loop_rest[OF q(1)] q(2) by auto
qed

text \<open>The first name buffer of \<open>path_depth_cnt\<close> is not initialised: \<open>junk\<close> is what lies in it.\<close>

function (sequential) depth_loop :: "cstring option \<Rightarrow> u8 list \<Rightarrow> nat \<Rightarrow> nat option" where
  "depth_loop p name depth =
     (if name ! 0 \<noteq> 0
      then case p of
          None \<Rightarrow> Some (depth + 1)
        | Some q \<Rightarrow> (case path_parse q (replicate MAX_FILE_NAME_LEN 0) of
            None \<Rightarrow> None
          | Some (p', name') \<Rightarrow> depth_loop p' name' (depth + 1))
      else Some depth)"
  by pat_completeness auto
termination
  by (relation "measure (\<lambda>(p, name, depth). case p of None \<Rightarrow> 0 | Some q \<Rightarrow> Suc (length q))")
     (auto split: option.split dest: path_parse_shorter(1))

declare depth_loop.simps [simp del]

definition path_depth_cnt :: "u8 list \<Rightarrow> cstring \<Rightarrow> nat option" where
  "path_depth_cnt junk pathname =
     do { (p, name) \<leftarrow> path_parse pathname junk; depth_loop p name 0 }"

text \<open>One turn of the loop of \<open>wash_path\<close> on the path built so far.\<close>

definition last_slash :: "cstring \<Rightarrow> nat" where
  "last_slash s = length s - 1 - length (takeWhile (\<lambda>c. c \<noteq> SLASH) (rev s))"

definition wash_step :: "cstring \<Rightarrow> cstring \<Rightarrow> cstring" where
  "wash_step name new_abs_path =
     (if name = [DOT, DOT]
      then let slash_ptr = last_slash new_abs_path in
        if slash_ptr \<noteq> 0 then take slash_ptr new_abs_path else take (slash_ptr + 1) new_abs_path
      else if name \<noteq> [DOT]
      then (if new_abs_path \<noteq> [SLASH] then new_abs_path @ [SLASH] else new_abs_path) @ name
      else new_abs_path)"

function (sequential) wash_loop :: "cstring option \<Rightarrow> u8 list \<Rightarrow> cstring \<Rightarrow> cstring option" where
  "wash_loop sub_path name new_abs_path =
     (if name ! 0 \<noteq> 0
      then case buf_str name of
          None \<Rightarrow> None
        | Some nm \<Rightarrow> (case sub_path of
            None \<Rightarrow> Some (wash_step nm new_abs_path)
          | Some p \<Rightarrow> (case path_parse p (replicate MAX_FILE_NAME_LEN 0) of
              None \<Rightarrow> None
            | Some (sub_path', name') \<Rightarrow> wash_loop sub_path' name' (wash_step nm new_abs_path)))
      else Some new_abs_path)"
  by pat_completeness auto
termination
  by (relation "measure (\<lambda>(p, name, new). case p of None \<Rightarrow> 0 | Some q \<Rightarrow> Suc (length q))")
     (auto split: option.split dest: path_parse_shorter(1))

declare wash_loop.simps [simp del]

definition wash_path :: "cstring \<Rightarrow> cstring option" where
  "wash_path old_abs_path =
     do {
       ASSERT (old_abs_path \<noteq> [] \<and> hd old_abs_path = SLASH);
       (sub_path, name) \<leftarrow> path_parse old_abs_path (replicate MAX_FILE_NAME_LEN 0);
       if name ! 0 = 0 then Some [SLASH] else wash_loop sub_path name [SLASH]
     }"

text \<open>\<open>cwd\<close> is the result of \<open>getcwd\<close>, \<open>None\<close> when it failed; the buffer holds 512 bytes with the NUL.\<close>

definition make_clear_abs_path :: "cstring option \<Rightarrow> cstring \<Rightarrow> cstring option" where
  "make_clear_abs_path cwd path =
     (let abs_path =
        (if path = [] \<or> hd path \<noteq> SLASH
         then case cwd of None \<Rightarrow> [] | Some d \<Rightarrow> if d = [SLASH] then d else d @ [SLASH]
         else [])
      in do {
        ASSERT (length (abs_path @ path) < MAX_PATH_LEN);
        wash_path (abs_path @ path)
      })"

section \<open>Components of a path\<close>

text \<open>The components of a path: the runs of bytes between slashes.\<close>

function split_on :: "u8 \<Rightarrow> cstring \<Rightarrow> cstring list" where
  "split_on sep p =
     (let q = dropWhile (\<lambda>c. c = sep) p in
      if q = [] then [] else takeWhile (\<lambda>c. c \<noteq> sep) q # split_on sep (dropWhile (\<lambda>c. c \<noteq> sep) q))"
  by pat_completeness auto
termination
proof (relation "measure (length o snd)", goal_cases)
  case (2 sep p q)
  then have "hd q \<noteq> sep" using hd_dropWhile[of "\<lambda>c. c = sep" p] by auto
  then have "length (dropWhile (\<lambda>c. c \<noteq> sep) q) < length q"
    using 2(2) length_dropWhile_le[of "\<lambda>c. c \<noteq> sep" "tl q"] by (cases q) auto
  also have "length q \<le> length p" using 2(1) by (simp add: length_dropWhile_le)
  finally show ?case by simp
qed simp

declare split_on.simps [simp del]

abbreviation components :: "cstring \<Rightarrow> cstring list" where
  "components \<equiv> split_on SLASH"

definition fits :: "cstring \<Rightarrow> bool" where
  "fits p \<longleftrightarrow> 0 \<notin> set p \<and> (\<forall>c \<in> set (components p). length c < MAX_FILE_NAME_LEN)"

definition named :: "cstring \<Rightarrow> u8 list" where
  "named c = c @ replicate (MAX_FILE_NAME_LEN - length c) 0"

text \<open>\<open>path_parse\<close> into a cleared buffer takes the first component off.\<close>

lemma parse_loop_takes:
  "k + length (takeWhile (\<lambda>c. c \<noteq> SLASH) p) \<le> length n \<Longrightarrow>
   parse_loop p k n = Some (dropWhile (\<lambda>c. c \<noteq> SLASH) p, take k n @ takeWhile (\<lambda>c. c \<noteq> SLASH) p
     @ drop (k + length (takeWhile (\<lambda>c. c \<noteq> SLASH) p)) n)"
proof (induction p arbitrary: k n)
  case (Cons c p)
  then show ?case by (auto simp: take_Suc_conv_app_nth)
qed simp

lemma path_parse_components:
  assumes "fits p" "length n = MAX_FILE_NAME_LEN"
  shows "path_parse p n =
    (case components p of [] \<Rightarrow> Some (None, n)
     | c # cs \<Rightarrow> Some (if dropWhile (\<lambda>c. c \<noteq> SLASH) (dropWhile (\<lambda>c. c = SLASH) p) = [] then None
         else Some (dropWhile (\<lambda>c. c \<noteq> SLASH) (dropWhile (\<lambda>c. c = SLASH) p)), c @ drop (length c) n))"
proof -
  define q where "q = dropWhile (\<lambda>c. c = SLASH) p"
  have "path_parse p n = do { (r, n) \<leftarrow> parse_loop q 0 n; Some (if r = [] then None else Some r, n) }"
    by (cases p) (auto simp: path_parse_def q_def Let_def)
  moreover have "length (takeWhile (\<lambda>c. c \<noteq> SLASH) q) \<le> MAX_FILE_NAME_LEN"
    using assms(1) by (cases "q = []") (auto simp: fits_def split_on.simps[of SLASH p] q_def[symmetric] Let_def)
  ultimately show ?thesis
    using parse_loop_takes[of 0 q n] assms(2)
    by (auto simp: split_on.simps[of SLASH p] q_def[symmetric] Let_def)
qed

definition rest_of :: "cstring \<Rightarrow> cstring option" where
  "rest_of p = (let r = dropWhile (\<lambda>c. c \<noteq> SLASH) (dropWhile (\<lambda>c. c = SLASH) p) in if r = [] then None else Some r)"

definition comps_opt :: "cstring option \<Rightarrow> cstring list" where
  "comps_opt p = (case p of None \<Rightarrow> [] | Some q \<Rightarrow> components q)"

lemma components_Nil [simp]: "components [] = []"
  by (simp add: split_on.simps)

lemma components_step:
  "components p = (let q = dropWhile (\<lambda>c. c = SLASH) p in
     if q = [] then [] else takeWhile (\<lambda>c. c \<noteq> SLASH) q # comps_opt (rest_of p))"
proof -
  have "comps_opt (if r = [] then None else Some r) = components r" for r by (simp add: comps_opt_def)
  then have "comps_opt (rest_of p) = components (dropWhile (\<lambda>c. c \<noteq> SLASH) (dropWhile (\<lambda>c. c = SLASH) p))"
    by (simp only: rest_of_def Let_def)
  then show ?thesis by (simp only: split_on.simps[of SLASH p] Let_def)
qed

lemma comps_rest: "components p = c # cs \<Longrightarrow> comps_opt (rest_of p) = cs"
  by (simp add: components_step[of p] Let_def split: if_splits)

lemma rest_chars: "rest_of p = Some r \<Longrightarrow> set r \<subseteq> set p \<and> set (components r) \<subseteq> set (components p)"
proof -
  assume r: "rest_of p = Some r"
  define r' where "r' = dropWhile (\<lambda>c. c \<noteq> SLASH) (dropWhile (\<lambda>c. c = SLASH) p)"
  have "rest_of p = (if r' = [] then None else Some r')" by (simp only: rest_of_def Let_def r'_def)
  then have "r = r'" "r \<noteq> []" using r by (auto split: if_splits)
  then have e: "r = dropWhile (\<lambda>c. c \<noteq> SLASH) (dropWhile (\<lambda>c. c = SLASH) p)" "r \<noteq> []" unfolding r'_def by blast+
  then have "dropWhile (\<lambda>c. c = SLASH) p \<noteq> []" by fastforce
  then have "components p = takeWhile (\<lambda>c. c \<noteq> SLASH) (dropWhile (\<lambda>c. c = SLASH) p) # components r"
    using components_step[of p] by (simp add: Let_def r comps_opt_def)
  then show ?thesis using e by (auto dest: set_dropWhileD)
qed

lemma components_chars: "c \<in> set (components p) \<Longrightarrow> c \<noteq> [] \<and> SLASH \<notin> set c \<and> set c \<subseteq> set p"
proof (induction SLASH p rule: split_on.induct)
  case (1 p)
  define q where "q = dropWhile (\<lambda>c. c = SLASH) p"
  have q: "q \<noteq> [] \<Longrightarrow> hd q \<noteq> SLASH" "set q \<subseteq> set p"
    using hd_dropWhile[of "\<lambda>c. c = SLASH" p] by (auto simp: q_def dest: set_dropWhileD)
  show ?case
  proof (cases "q = []")
    case False
    then consider "c = takeWhile (\<lambda>c. c \<noteq> SLASH) q" | "c \<in> set (components (dropWhile (\<lambda>c. c \<noteq> SLASH) q))"
      using 1(2) by (auto simp: split_on.simps[of SLASH p] q_def[symmetric] Let_def)
    then show ?thesis
    proof cases
      case 1
      then show ?thesis using q False by (cases q) (auto dest: set_takeWhileD)
    next
      case 2
      then show ?thesis using 1(1)[OF q_def False] q(2) by (auto dest: set_dropWhileD)
    qed
  qed (use 1(2) in \<open>simp add: split_on.simps[of SLASH p] q_def[symmetric]\<close>)
qed

lemma fits_rest: "fits p \<Longrightarrow> rest_of p = Some r \<Longrightarrow> fits r"
  using rest_chars[of p r] by (auto simp: fits_def)

lemma path_parse_first:
  assumes "fits p" "length n = MAX_FILE_NAME_LEN"
  shows "path_parse p n = (case components p of [] \<Rightarrow> Some (None, n) | c # cs \<Rightarrow> Some (rest_of p, c @ drop (length c) n))"
  unfolding path_parse_components[OF assms] rest_of_def Let_def by (rule refl)

lemma path_parse_next:
  assumes "fits p"
  shows "path_parse p (replicate MAX_FILE_NAME_LEN 0) = (case components p of [] \<Rightarrow> Some (None, replicate MAX_FILE_NAME_LEN 0)
     | c # cs \<Rightarrow> Some (rest_of p, named c))"
  using path_parse_first[OF assms, of "replicate MAX_FILE_NAME_LEN 0"] by (simp add: named_def split: list.split)

lemma named_str:
  assumes "length c < MAX_FILE_NAME_LEN" "0 \<notin> set c" "c \<noteq> []"
  shows "buf_str (named c) = Some c" "named c ! 0 \<noteq> 0"
proof -
  have "takeWhile (\<lambda>x. x \<noteq> 0) (c @ replicate n 0) = c" for n
    using assms(2) by (induction c) auto
  moreover have "0 \<in> set (named c)" using assms(1) by (simp add: named_def)
  ultimately show "buf_str (named c) = Some c" by (simp add: buf_str_def named_def)
  show "named c ! 0 \<noteq> 0" using assms by (cases c) (simp_all add: named_def)
qed

section \<open>What the path functions compute\<close>

lemma depth_loop_counts:
  assumes "\<And>q. p = Some q \<Longrightarrow> fits q" "name ! 0 \<noteq> 0"
  shows "depth_loop p name d = Some (d + 1 + length (comps_opt p))"
  using assms
proof (induction p name d rule: depth_loop.induct)
  case (1 p name d)
  show ?case
  proof (cases p)
    case None
    then show ?thesis using 1(3) by (subst depth_loop.simps) (simp add: comps_opt_def)
  next
    case (Some q)
    then have q: "fits q" using 1(2) by simp
    show ?thesis
    proof (cases "components q")
      case Nil
      then show ?thesis
        using Some 1(3) path_parse_next[OF q] by (subst depth_loop.simps) (simp add: comps_opt_def depth_loop.simps[of None "replicate _ 0"] MAX_FILE_NAME_LEN_def)
    next
      case (Cons e es)
      have e: "length e < MAX_FILE_NAME_LEN" "0 \<notin> set e" "e \<noteq> []"
        using q Cons components_chars[of e q] by (auto simp: fits_def)
      have pp: "path_parse q (replicate MAX_FILE_NAME_LEN 0) = Some (rest_of q, named e)" using path_parse_next[OF q] Cons by simp
      have "depth_loop (rest_of q) (named e) (d + 1) = Some (d + 1 + 1 + length (comps_opt (rest_of q)))"
        using 1(1)[OF 1(3) Some pp refl] fits_rest[OF q] named_str(2)[OF e] by blast
      then show ?thesis
        using Some 1(3) Cons comps_rest[OF Cons] pp by (subst depth_loop.simps) (simp add: comps_opt_def)
    qed
  qed
qed

text \<open>\<open>path_depth_cnt\<close> counts the components; for a path without one its answer is what happens to lie in
  the buffer.\<close>

lemma path_depth_cnt_counts:
  assumes "fits p" "length junk = MAX_FILE_NAME_LEN"
  shows "path_depth_cnt junk p = Some (if components p = [] then of_bool (junk ! 0 \<noteq> 0) else length (components p))"
proof (cases "components p")
  case Nil
  then show ?thesis using path_parse_first[OF assms]
    by (simp add: path_depth_cnt_def depth_loop.simps[of None])
next
  case (Cons c cs)
  then have "c \<noteq> []" "0 \<notin> set c" using components_chars[of c p] assms(1) by (auto simp: fits_def)
  then have "(c @ drop (length c) junk) ! 0 \<noteq> 0" by (cases c) auto
  then show ?thesis using path_parse_first[OF assms] Cons fits_rest[OF assms(1)] comps_rest[OF Cons]
    by (simp add: path_depth_cnt_def depth_loop_counts)
qed

text \<open>The path a list of components stands for, and what dots do to it.\<close>

definition render :: "cstring list \<Rightarrow> cstring" where
  "render cs = (if cs = [] then [SLASH] else concat (map (\<lambda>c. SLASH # c) cs))"

definition step :: "cstring \<Rightarrow> cstring list \<Rightarrow> cstring list" where
  "step c cs = (if c = [DOT, DOT] then butlast cs else if c = [DOT] then cs else cs @ [c])"

definition resolve :: "cstring list \<Rightarrow> cstring list" where
  "resolve = foldl (\<lambda>cs c. step c cs) []"

lemma last_slash_render:
  assumes "SLASH \<notin> set c"
  shows "last_slash (s @ SLASH # c) = length s"
proof -
  have "takeWhile (\<lambda>x. x \<noteq> SLASH) (rev c @ SLASH # rev s) = rev c"
    using assms by (subst takeWhile_append2) auto
  then show ?thesis by (simp add: last_slash_def)
qed

lemma render_snoc: "render (cs @ [c]) = (if cs = [] then [] else render cs) @ SLASH # c"
  by (simp add: render_def)

lemma render_root: "(\<forall>c \<in> set cs. c \<noteq> []) \<Longrightarrow> render cs = [SLASH] \<longleftrightarrow> cs = []"
  by (cases cs) (auto simp: render_def)

lemma wash_step_render:
  assumes "\<forall>c \<in> set cs. c \<noteq> [] \<and> SLASH \<notin> set c" "c \<noteq> []"
  shows "wash_step c (render cs) = render (step c cs)"
proof (cases "c = [DOT, DOT]")
  case True
  show ?thesis
  proof (cases cs rule: rev_cases)
    case Nil
    then show ?thesis using True by (simp add: wash_step_def render_def step_def last_slash_def)
  next
    case (snoc ds d)
    have "last_slash (render cs) = length (if ds = [] then [] else render ds)"
      unfolding snoc render_snoc using assms(1) snoc by (intro last_slash_render) simp
    then show ?thesis using True assms(1)
      by (auto simp: wash_step_def step_def snoc render_snoc Let_def) (auto simp: render_def)
  qed
next
  case False
  have "render cs = [SLASH] \<longleftrightarrow> cs = []" using assms(1) by (intro render_root) blast
  then show ?thesis using False assms(2)
    by (auto simp: wash_step_def step_def render_snoc render_def)
qed

lemma step_ok:
  assumes "\<forall>d \<in> set cs. d \<noteq> [] \<and> SLASH \<notin> set d" "c \<noteq> []" "SLASH \<notin> set c"
  shows "\<forall>d \<in> set (step c cs). d \<noteq> [] \<and> SLASH \<notin> set d"
  using assms by (auto simp: step_def dest: in_set_butlastD)

lemma wash_loop_resolves:
  assumes "\<And>q. p = Some q \<Longrightarrow> fits q" "\<forall>d \<in> set cs. d \<noteq> [] \<and> SLASH \<notin> set d"
    and "length c < MAX_FILE_NAME_LEN" "0 \<notin> set c" "c \<noteq> []" "SLASH \<notin> set c"
  shows "wash_loop p (named c) (render cs) = Some (render (foldl (\<lambda>cs c. step c cs) (step c cs) (comps_opt p)))"
  using assms
proof (induction p "named c" "render cs" arbitrary: c cs rule: wash_loop.induct)
  case (1 p)
  note n = named_str[OF 1(4-6)] and st = wash_step_render[OF 1(3,6)] and ok = step_ok[OF 1(3,6,7)]
  show ?case
  proof (cases p)
    case None
    then show ?thesis using n st by (subst wash_loop.simps) (simp add: comps_opt_def)
  next
    case (Some q)
    then have q: "fits q" using 1(2) by simp
    show ?thesis
    proof (cases "components q")
      case Nil
      then show ?thesis
        using Some n st path_parse_next[OF q] by (subst wash_loop.simps) (simp add: comps_opt_def wash_loop.simps[of None "replicate _ 0"] MAX_FILE_NAME_LEN_def)
    next
      case (Cons e es)
      have e: "length e < MAX_FILE_NAME_LEN" "0 \<notin> set e" "e \<noteq> []" "SLASH \<notin> set e"
        using q Cons components_chars[of e q] by (auto simp: fits_def)
      have pp: "path_parse q (replicate MAX_FILE_NAME_LEN 0) = Some (rest_of q, named e)" using path_parse_next[OF q] Cons by simp
      have "wash_loop (rest_of q) (named e) (render (step c cs))
          = Some (render (foldl (\<lambda>cs c. step c cs) (step e (step c cs)) (comps_opt (rest_of q))))"
        using 1(1)[OF n(2) n(1) Some pp refl st] fits_rest[OF q] ok e by blast
      then show ?thesis
        using Some n st pp Cons comps_rest[OF Cons] by (subst wash_loop.simps) (simp add: comps_opt_def)
    qed
  qed
qed

section \<open>Properties\<close>

text \<open>C34: \<open>wash_path\<close> resolves the dots of an absolute path whose components are shorter than the
  name buffer: the result is the path of the components that remain when every \<open>.\<close> is dropped and
  every \<open>..\<close> removes the component before it, and \<open>/\<close> when none remains.\<close>
theorem wash_path_correct:
  assumes "hd p = SLASH" "p \<noteq> []" "fits p"
  shows "wash_path p = Some (render (resolve (components p)))"
proof (cases "components p")
  case Nil
  then show ?thesis using assms path_parse_next[OF assms(3)]
    by (simp add: wash_path_def resolve_def render_def MAX_FILE_NAME_LEN_def)
next
  case (Cons c cs)
  have c: "length c < MAX_FILE_NAME_LEN" "0 \<notin> set c" "c \<noteq> []" "SLASH \<notin> set c"
    using assms(3) Cons components_chars[of c p] by (auto simp: fits_def)
  have "wash_loop (rest_of p) (named c) (render []) = Some (render (foldl (\<lambda>cs c. step c cs) (step c []) (comps_opt (rest_of p))))"
    using fits_rest[OF assms(3)] c by (intro wash_loop_resolves) simp_all
  then show ?thesis using assms Cons path_parse_next[OF assms(3)] named_str(2)[OF c(1-3)] comps_rest[OF Cons]
    by (simp add: wash_path_def resolve_def render_def)
qed

text \<open>The path \<open>/a/./b//../c\<close>.\<close>

theorem wash_path_witness:
  "wash_path [SLASH, 97, SLASH, DOT, SLASH, 98, SLASH, SLASH, DOT, DOT, SLASH, 99] = Some [SLASH, 97, SLASH, 99]"
proof -
  have c: "components [SLASH, 97, SLASH, DOT, SLASH, 98, SLASH, SLASH, DOT, DOT, SLASH, 99] = [[97], [DOT], [98], [DOT, DOT], [99]]"
    by (simp add: split_on.simps SLASH_def DOT_def)
  have "fits [SLASH, 97, SLASH, DOT, SLASH, 98, SLASH, SLASH, DOT, DOT, SLASH, 99]"
    unfolding fits_def c by (simp add: SLASH_def DOT_def MAX_FILE_NAME_LEN_def)
  from wash_path_correct[OF _ _ this] show ?thesis
    by (simp add: c resolve_def step_def render_def) (simp add: DOT_def)
qed

end
