(* ===== verification/Shell.thy ===== *)
theory Shell
  imports Path
begin

text \<open>
  shell.c: the line editor \<open>readline\<close> and the word splitter \<open>cmd_parse\<close>. The buffer \<open>cmd_line\<close> is a list
  of 512 bytes, a pointer into it an index; \<open>argv\<close> is the array of 16 pointers. A store past either
  array has no defined result. What the shell prints is the list of \<open>echo\<close>.
\<close>

section \<open>readline\<close>

datatype echo = Putchar u8 | Clear | Prompt | Line cstring | Too_long

text \<open>The keys the shell gets from \<open>read\<close>, one at a time; \<open>None\<close> is the result -1. When no key comes any
  more the shell waits for ever. The index \<open>count\<close> is past the buffer.\<close>

fun clear_back :: "nat \<Rightarrow> u8 list \<Rightarrow> u8 list" where
  "clear_back 0 buf = buf"
| "clear_back (Suc pos) buf = clear_back pos (buf[Suc pos := 0])"

fun readline :: "u8 option list \<Rightarrow> nat \<Rightarrow> nat \<Rightarrow> u8 list \<Rightarrow> echo list \<Rightarrow> (u8 list \<times> echo list \<times> u8 option list) option" where
  "readline [] count pos buf out = None"
| "readline (None # ks) count pos buf out = Some (buf, out @ [Too_long], ks)"
| "readline (Some c # ks) count pos buf out =
     do {
       ASSERT (pos < length buf);
       let buf = buf[pos := c] in
       if \<not> pos < count then Some (buf, out @ [Too_long], ks)
       else if c = 0x0a \<or> c = 0x0d then Some (buf[pos := 0], out @ [Putchar 0x0a], ks)
       else if c = 0x08
       then if buf ! 0 \<noteq> 0x08 then do { ASSERT (0 < pos); readline ks count (pos - 1) buf (out @ [Putchar 0x08]) }
         else readline ks count pos buf out
       else if c = 0x0b
       then let buf = buf[pos := 0] in readline ks count pos buf (out @ [Clear, Prompt, Line (takeWhile (\<lambda>c. c \<noteq> 0) buf)])
       else if c = 0x14 then readline ks count 0 (clear_back pos buf) (out @ replicate pos (Putchar 0x08))
       else readline ks count (pos + 1) buf (out @ [Putchar c])
     }"

section \<open>cmd_parse\<close>

definition MAX_ARG_NR :: nat where "MAX_ARG_NR = 16"

text \<open>The inner loops, from the index \<open>i\<close> on; they end at the NUL of the command line at the latest.\<close>

function skip_token :: "u8 \<Rightarrow> u8 list \<Rightarrow> nat \<Rightarrow> nat option" where
  "skip_token token cmd i =
     (if \<not> i < length cmd then None else if cmd ! i = token then skip_token token cmd (i + 1) else Some i)"
  by pat_completeness auto
termination by (relation "measure (\<lambda>(token, cmd, i). length cmd - i)") auto

function word_end :: "u8 \<Rightarrow> u8 list \<Rightarrow> nat \<Rightarrow> nat option" where
  "word_end token cmd i =
     (if \<not> i < length cmd then None
      else if cmd ! i \<noteq> 0 \<and> cmd ! i \<noteq> token then word_end token cmd (i + 1) else Some i)"
  by pat_completeness auto
termination by (relation "measure (\<lambda>(token, cmd, i). length cmd - i)") auto

declare skip_token.simps [simp del] word_end.simps [simp del]

lemma skip_token_range: "skip_token t cmd i = Some j \<Longrightarrow> i \<le> j \<and> j < length cmd \<and> cmd ! j \<noteq> t"
  by (induction t cmd i rule: skip_token.induct) (subst (asm) (2) skip_token.simps, auto split: if_splits)

lemma word_end_range: "word_end t cmd i = Some j \<Longrightarrow> i \<le> j \<and> j < length cmd \<and> (cmd ! i \<noteq> 0 \<and> cmd ! i \<noteq> t \<longrightarrow> i < j)"
  by (induction t cmd i rule: word_end.induct) (subst (asm) (2) word_end.simps, fastforce split: if_splits)

function (sequential) cmd_loop :: "u8 \<Rightarrow> u8 list \<Rightarrow> nat \<Rightarrow> nat \<Rightarrow> nat option list \<Rightarrow> (int \<times> nat option list \<times> u8 list) option" where
  "cmd_loop token cmd nxt argc argv =
     (if \<not> nxt < length cmd then None
      else if cmd ! nxt = 0 then Some (int argc, argv, cmd)
      else case skip_token token cmd nxt of
          None \<Rightarrow> None
        | Some a \<Rightarrow>
          if cmd ! a = 0 then Some (int argc, argv, cmd)
          else if \<not> argc < length argv then None
          else case word_end token cmd a of
              None \<Rightarrow> None
            | Some e \<Rightarrow>
              if argc > MAX_ARG_NR then Some (-1, argv[argc := Some a], if cmd ! e \<noteq> 0 then cmd[e := 0] else cmd)
              else if cmd ! e \<noteq> 0 then cmd_loop token (cmd[e := 0]) (e + 1) (argc + 1) (argv[argc := Some a])
              else cmd_loop token cmd e (argc + 1) (argv[argc := Some a]))"
  by pat_completeness auto
termination
  by (relation "measure (\<lambda>(token, cmd, nxt, argc, argv). length cmd - nxt)")
     (auto dest!: skip_token_range word_end_range)

declare cmd_loop.simps [simp del]

definition cmd_parse :: "u8 list \<Rightarrow> u8 \<Rightarrow> (int \<times> nat option list \<times> u8 list) option" where
  "cmd_parse cmd_str token = cmd_loop token cmd_str 0 0 (replicate MAX_ARG_NR None)"

section \<open>The line editor keeps a line\<close>

text \<open>What a key does to the line typed so far.\<close>

definition edit :: "cstring \<Rightarrow> u8 \<Rightarrow> cstring" where
  "edit line c = (if c = 0x08 then butlast line else if c = 0x0b then line else if c = 0x14 then [] else line @ [c])"

definition holds_line :: "u8 list \<Rightarrow> nat \<Rightarrow> cstring \<Rightarrow> bool" where
  "holds_line buf pos line \<longleftrightarrow> length buf = MAX_PATH_LEN \<and> pos = length line \<and> pos \<le> MAX_PATH_LEN \<and> take pos buf = line
     \<and> 0 \<notin> set line \<and> (\<forall>c \<in> set line. c \<noteq> 0x08)"

lemma clear_back_length [simp]: "length (clear_back n buf) = length buf"
  by (induction n arbitrary: buf) simp_all

lemma holds_line_step:
  assumes "holds_line buf pos line" "pos < MAX_PATH_LEN" "c \<noteq> 0" "c \<noteq> 0x0a" "c \<noteq> 0x0d"
  shows "\<exists>buf' out'. readline (Some c # ks) MAX_PATH_LEN pos buf out = readline ks MAX_PATH_LEN (length (edit line c)) buf' (out @ out')
    \<and> holds_line buf' (length (edit line c)) (edit line c)"
proof -
  have p: "pos < length buf" "length line = pos" using assms(1,2) by (simp_all add: holds_line_def)
  have h: "buf[pos := c] ! 0 \<noteq> 8 \<longleftrightarrow> 0 < pos" if "c = 8"
  proof (cases pos)
    case (Suc n)
    then have "buf ! 0 = line ! 0" "0 < length line" using assms(1) by (auto simp: holds_line_def)
    then show ?thesis using assms(1) Suc by (auto simp: holds_line_def)
  qed (use that p in simp)
  consider "c = 0x08" | "c = 0x0b" | "c = 0x14" | "c \<notin> {0x08, 0x0b, 0x14}" by blast
  then show ?thesis
  proof cases
    case 1
    have "holds_line (buf[pos := c]) (pos - 1) (butlast line)"
    proof -
      have "butlast line = take (pos - 1) buf" using assms(1) p(1) butlast_take[of pos buf] by (metis holds_line_def less_imp_le)
      moreover have "set (butlast line) \<subseteq> set line" by (auto dest: in_set_butlastD)
      moreover have "length buf = MAX_PATH_LEN" "0 \<notin> set line" "\<forall>c \<in> set line. c \<noteq> 8" "pos \<le> MAX_PATH_LEN"
        using assms(1) by (simp_all add: holds_line_def)
      ultimately show ?thesis using p(2) unfolding holds_line_def by auto
    qed
    moreover have "readline (Some c # ks) MAX_PATH_LEN pos buf out
        = readline ks MAX_PATH_LEN (pos - 1) (buf[pos := c]) (out @ (if pos = 0 then [] else [Putchar 8]))"
      using 1 p h assms(2) by (cases pos) (simp_all add: Let_def)
    moreover have "edit line c = butlast line" "length (butlast line) = pos - 1" using 1 p by (simp_all add: edit_def)
    ultimately show ?thesis by metis
  next
    case 2
    have "holds_line (buf[pos := 0]) pos line" using assms(1) p by (simp add: holds_line_def)
    then show ?thesis using 2 p assms(2) by (auto simp: edit_def Let_def)
  next
    case 3
    then show ?thesis using p assms(1,2) by (auto simp: edit_def Let_def holds_line_def)
  next
    case 4
    have "holds_line (buf[pos := c]) (Suc pos) (line @ [c])"
      using assms p 4 by (auto simp: holds_line_def take_Suc_conv_app_nth)
    then show ?thesis using 4 p assms(2,4,5) by (auto simp: edit_def Let_def)
  qed
qed

lemma readline_edits:
  assumes "holds_line buf pos line" "\<forall>c \<in> set ks. c \<notin> {0, 0x0a, 0x0d}" "c = 0x0a \<or> c = 0x0d"
    and "\<forall>n \<le> length ks. length (foldl edit line (take n ks)) < MAX_PATH_LEN"
  shows "\<exists>buf' out'. readline (map Some ks @ Some c # rest) MAX_PATH_LEN pos buf out = Some (buf', out', rest)
    \<and> buf_str buf' = Some (foldl edit line ks)"
  using assms
proof (induction ks arbitrary: buf pos line out)
  case Nil
  then have p: "pos < length buf" "pos = length line" "take pos buf = line" "0 \<notin> set line" by (auto simp: holds_line_def)
  have b: "buf[pos := 0] = line @ 0 # drop (Suc pos) buf" using p by (metis upd_conv_take_nth_drop)
  then have "buf_str (buf[pos := 0]) = Some line"
    using p(4) by (simp add: buf_str_def takeWhile_append)
  then show ?case using p Nil(3,4) by (auto simp: Let_def)
next
  case (Cons k ks)
  have "length line < MAX_PATH_LEN" using Cons.prems(4) by (metis foldl_Nil le0 take0)
  then have pos: "pos < MAX_PATH_LEN" using Cons.prems(1) by (simp add: holds_line_def)
  obtain buf' out' where s: "readline (Some k # map Some ks @ Some c # rest) MAX_PATH_LEN pos buf out
      = readline (map Some ks @ Some c # rest) MAX_PATH_LEN (length (edit line k)) buf' (out @ out')"
    "holds_line buf' (length (edit line k)) (edit line k)"
    using holds_line_step[OF Cons.prems(1) pos] Cons.prems(2) by (metis insertCI list.set_intros(1))
  have "\<forall>n \<le> length ks. length (foldl edit (edit line k) (take n ks)) < MAX_PATH_LEN"
  proof (intro allI impI)
    fix n assume "n \<le> length ks"
    then show "length (foldl edit (edit line k) (take n ks)) < MAX_PATH_LEN" using Cons.prems(4)[rule_format, of "Suc n"] by simp
  qed
  then show ?case using Cons.IH[OF s(2) _ Cons.prems(3)] Cons.prems(2) s(1) by auto
qed


section \<open>The words of a command line\<close>

definition str_at :: "u8 list \<Rightarrow> nat \<Rightarrow> cstring" where
  "str_at buf i = takeWhile (\<lambda>c. c \<noteq> 0) (drop i buf)"

lemma skip_token_eq:
  assumes "takeWhile (\<lambda>c. c = t) s = sp" "t \<noteq> 0"
  shows "skip_token t (pre @ s @ 0 # junk) (length pre) = Some (length pre + length sp)"
  using assms(1)
proof (induction s arbitrary: pre sp)
  case Nil
  then show ?case using assms(2) by (subst skip_token.simps) simp
next
  case (Cons c s)
  show ?case
  proof (cases "c = t")
    case True
    then show ?thesis using Cons.IH[of "tl sp" "pre @ [c]"] Cons.prems
      by (subst skip_token.simps) (auto simp: nth_append)
  next
    case False
    then show ?thesis using Cons.prems by (subst skip_token.simps) (simp add: nth_append)
  qed
qed

lemma word_end_eq:
  assumes "takeWhile (\<lambda>c. c \<noteq> t) s = w" "0 \<notin> set s"
  shows "word_end t (pre @ s @ 0 # junk) (length pre) = Some (length pre + length w)"
  using assms
proof (induction s arbitrary: pre w)
  case Nil
  then show ?case by (subst word_end.simps) simp
next
  case (Cons c s)
  show ?case
  proof (cases "c = t")
    case False
    then show ?thesis using Cons.IH[of "tl w" "pre @ [c]"] Cons.prems
      by (subst word_end.simps) (auto simp: nth_append)
  next
    case True
    then show ?thesis using Cons.prems by (subst word_end.simps) (simp add: nth_append)
  qed
qed

text \<open>The result of the loop from the word \<open>k\<close> on.\<close>

definition parsed :: "cstring list \<Rightarrow> nat \<Rightarrow> nat \<Rightarrow> u8 list \<Rightarrow> nat option list \<Rightarrow> u8 list \<Rightarrow> nat option list \<Rightarrow> bool" where
  "parsed ws n k cmd argv cmd' argv' \<longleftrightarrow> length cmd' = length cmd \<and> take n cmd' = take n cmd \<and> take k argv' = take k argv
     \<and> length argv' = length argv
     \<and> (\<forall>i < length ws. \<exists>j. argv' ! (k + i) = Some j \<and> str_at cmd' j = ws ! i)"

lemma split_on_cons:
  assumes "split_on t s = w # ws"
  shows "s = takeWhile (\<lambda>c. c = t) s @ w @ dropWhile (\<lambda>c. c \<noteq> t) (dropWhile (\<lambda>c. c = t) s)"
    "w = takeWhile (\<lambda>c. c \<noteq> t) (dropWhile (\<lambda>c. c = t) s)" "ws = split_on t (dropWhile (\<lambda>c. c \<noteq> t) (dropWhile (\<lambda>c. c = t) s))"
    "w \<noteq> []" "t \<notin> set w"
proof -
  define q where "q = dropWhile (\<lambda>c. c = t) s"
  have q: "q \<noteq> []" "w = takeWhile (\<lambda>c. c \<noteq> t) q" "ws = split_on t (dropWhile (\<lambda>c. c \<noteq> t) q)"
    using assms by (simp_all add: split_on.simps[of t s] q_def[symmetric] Let_def split: if_splits)
  have "hd q \<noteq> t" using q(1) hd_dropWhile[of "\<lambda>c. c = t" s] by (simp add: q_def)
  then show "w \<noteq> []" using q by (cases q) auto
  show "t \<notin> set w" using q(2) set_takeWhileD by fastforce
  show "s = takeWhile (\<lambda>c. c = t) s @ w @ dropWhile (\<lambda>c. c \<noteq> t) (dropWhile (\<lambda>c. c = t) s)"
    using q(2) by (simp add: q_def)
  show "w = takeWhile (\<lambda>c. c \<noteq> t) (dropWhile (\<lambda>c. c = t) s)" "ws = split_on t (dropWhile (\<lambda>c. c \<noteq> t) (dropWhile (\<lambda>c. c = t) s))"
    using q(2,3) by (simp_all add: q_def)
qed

lemma split_on_none: "split_on t s = [] \<Longrightarrow> takeWhile (\<lambda>c. c = t) s = s"
  by (simp add: split_on.simps[of t s] Let_def takeWhile_eq_all_conv split: if_splits)

lemma cmd_loop_end: "nxt < length cmd \<Longrightarrow> cmd ! nxt = 0 \<Longrightarrow> cmd_loop t cmd nxt k argv = Some (int k, argv, cmd)"
  by (subst cmd_loop.simps) simp

text \<open>One word: what the loop does with it, and where it goes on.\<close>

lemma cmd_loop_word:
  assumes s: "split_on t s = w # ws" "0 \<notin> set s" "t \<noteq> 0" and k: "k < length argv" "k \<le> MAX_ARG_NR"
    and cmd: "cmd = pre @ s @ 0 # junk"
  shows "\<exists>pre' s' junk'. cmd_loop t cmd (length pre) k argv
      = cmd_loop t (pre' @ s' @ 0 # junk') (length pre') (Suc k) (argv[k := Some (length pre + length (takeWhile (\<lambda>c. c = t) s))])
    \<and> length (pre' @ s' @ 0 # junk') = length cmd \<and> take (length pre) (pre' @ s' @ 0 # junk') = pre
    \<and> length s' < length s \<and> 0 \<notin> set s' \<and> split_on t s' = ws
    \<and> (\<forall>c. length c = length cmd \<longrightarrow> take (length pre') c = pre' \<longrightarrow> (s' = [] \<longrightarrow> c ! length pre' = 0) \<longrightarrow>
         str_at c (length pre + length (takeWhile (\<lambda>c. c = t) s)) = w) \<and> length pre \<le> length pre'"
proof -
  define sp where "sp = takeWhile (\<lambda>c. c = t) s"
  define r where "r = dropWhile (\<lambda>c. c \<noteq> t) (dropWhile (\<lambda>c. c = t) s)"
  note w = split_on_cons[OF s(1), folded sp_def r_def]
  have len: "length s = length sp + (length w + length r)" by (subst w(1)) simp
  have z: "0 \<notin> set w" "0 \<notin> set r" "0 \<notin> set (w @ r)" using s(2) by (subst (asm) w(1); simp)+
  have a: "skip_token t cmd (length pre) = Some (length pre + length sp)" unfolding cmd
    by (rule skip_token_eq[OF _ s(3)]) (simp add: sp_def)
  have cmd': "cmd = (pre @ sp) @ (w @ r) @ 0 # junk" unfolding cmd by (subst w(1)) simp
  have tw: "takeWhile (\<lambda>c. c \<noteq> t) (w @ r) = w"
    using w(5) hd_dropWhile[of "\<lambda>c. c \<noteq> t" "dropWhile (\<lambda>c. c = t) s"]
    by (cases r) (auto simp: r_def[symmetric] takeWhile_append)
  have e: "word_end t cmd (length pre + length sp) = Some (length pre + length sp + length w)"
    using word_end_eq[OF tw z(3), of "pre @ sp" junk] unfolding cmd' by simp
  have n: "length pre < length cmd" "cmd ! length pre \<noteq> 0"
  proof -
    show "length pre < length cmd" by (simp add: cmd)
    have "s \<noteq> []" using w(4) len by auto
    then show "cmd ! length pre \<noteq> 0" using s(2) by (cases s) (auto simp: cmd)
  qed
  have w0: "cmd ! (length pre + length sp) \<noteq> 0" using w(4) z(1) unfolding cmd' by (cases w) (auto simp: nth_append)
  have str: "str_at c (length pre + length sp) = w"
    if "take (length pre + length sp + length w) c = pre @ sp @ w" "c ! (length pre + length sp + length w) = 0"
      "length pre + length sp + length w < length c" for c
  proof -
    have "c = (pre @ sp @ w) @ 0 # drop (Suc (length pre + length sp + length w)) c"
      using that by (metis append_take_drop_id Cons_nth_drop_Suc)
    then have "drop (length pre + length sp) c = w @ 0 # drop (Suc (length pre + length sp + length w)) c"
      by (metis append.assoc append_eq_conv_conj length_append)
    then show ?thesis using z(1) by (simp add: str_at_def takeWhile_append)
  qed
  show ?thesis
  proof (cases r)
    case Nil
    have "cmd ! (length pre + length sp + length w) = 0" unfolding cmd' Nil by (simp add: nth_append)
    then have "cmd_loop t cmd (length pre) k argv = cmd_loop t cmd (length pre + length sp + length w) (Suc k) (argv[k := Some (length pre + length sp)])"
      using n a e w0 k by (subst cmd_loop.simps) simp
    then show ?thesis using str w(3,4) Nil len
      by (intro exI[of _ "pre @ sp @ w"] exI[of _ "[]"] exI[of _ junk]) (auto simp: cmd' sp_def[symmetric] add.assoc)
  next
    case (Cons x r')
    have x: "x = t" using Cons hd_dropWhile[of "\<lambda>c. c \<noteq> t" "dropWhile (\<lambda>c. c = t) s"] by (auto simp: r_def[symmetric])
    have "cmd ! (length pre + length sp + length w) = t" unfolding cmd' Cons x by (simp add: nth_append)
    then have "cmd_loop t cmd (length pre) k argv
      = cmd_loop t (cmd[length pre + length sp + length w := 0]) (length pre + length sp + length w + 1) (Suc k) (argv[k := Some (length pre + length sp)])"
      using n a e w0 k s(3) by (subst cmd_loop.simps) simp
    moreover have "cmd[length pre + length sp + length w := 0] = (pre @ sp @ w @ [0]) @ r' @ 0 # junk"
      unfolding cmd' Cons by (simp add: list_update_append)
    moreover have "split_on t r' = ws" unfolding w(3) Cons x by (subst split_on.simps, subst (2) split_on.simps) simp
    moreover have "str_at c (length pre + length sp) = w"
      if "length c = length cmd" "take (length (pre @ sp @ w @ [0])) c = pre @ sp @ w @ [0]" for c
    proof (rule str)
      show l: "length pre + length sp + length w < length c" using that(1) unfolding cmd' Cons by simp
      show "take (length pre + length sp + length w) c = pre @ sp @ w" "c ! (length pre + length sp + length w) = 0"
        using arg_cong[OF that(2), of "take (length pre + length sp + length w)"] arg_cong[OF that(2), of "\<lambda>l. l ! (length pre + length sp + length w)"]
        by (simp_all add: min_def nth_append)
    qed
    ultimately show ?thesis using z(2) len Cons
      by (intro exI[of _ "pre @ sp @ w @ [0]"] exI[of _ r'] exI[of _ junk] conjI) (simp_all add: cmd' sp_def[symmetric] add.assoc)
  qed
qed

lemma cmd_loop_none:
  assumes "split_on t s = []" "t \<noteq> 0"
  shows "cmd_loop t (pre @ s @ 0 # junk) (length pre) k argv = Some (int k, argv, pre @ s @ 0 # junk)"
proof -
  have "skip_token t (pre @ s @ 0 # junk) (length pre) = Some (length pre + length s)"
    by (rule skip_token_eq[OF split_on_none[OF assms(1)] assms(2)])
  moreover have "(pre @ s @ 0 # junk) ! (length pre + length s) = 0" by (simp add: nth_append)
  ultimately show ?thesis by (subst cmd_loop.simps) simp
qed

lemma cmd_loop_parses:
  assumes "0 \<notin> set s" "t \<noteq> 0" "length argv = MAX_ARG_NR" "k + length (split_on t s) \<le> MAX_ARG_NR"
  shows "\<exists>cmd' argv'. cmd_loop t (pre @ s @ 0 # junk) (length pre) k argv = Some (int (k + length (split_on t s)), argv', cmd')
    \<and> parsed (split_on t s) (length pre) k (pre @ s @ 0 # junk) argv cmd' argv' \<and> (s = [] \<longrightarrow> cmd' = pre @ s @ 0 # junk)"
  using assms
proof (induction "length s" arbitrary: s pre junk k argv rule: less_induct)
  case less
  show ?case
  proof (cases "split_on t s")
    case Nil
    then show ?thesis using cmd_loop_none[OF Nil less.prems(2)] by (simp add: parsed_def)
  next
    case (Cons w ws)
    define p where "p = length pre + length (takeWhile (\<lambda>c. c = t) s)"
    have k: "k < length argv" "k \<le> MAX_ARG_NR" using less.prems(3,4) Cons by simp_all
    obtain pre' s' junk' where n: "cmd_loop t (pre @ s @ 0 # junk) (length pre) k argv
        = cmd_loop t (pre' @ s' @ 0 # junk') (length pre') (Suc k) (argv[k := Some p])"
      "length (pre' @ s' @ 0 # junk') = length (pre @ s @ 0 # junk)" "take (length pre) (pre' @ s' @ 0 # junk') = pre"
      "length s' < length s" "0 \<notin> set s'" "split_on t s' = ws"
      "\<And>c. length c = length (pre @ s @ 0 # junk) \<Longrightarrow> take (length pre') c = pre' \<Longrightarrow> (s' = [] \<longrightarrow> c ! length pre' = 0) \<Longrightarrow> str_at c p = w"
      "length pre \<le> length pre'"
      using cmd_loop_word[OF Cons less.prems(1,2) k refl, of pre junk, folded p_def] by blast
    have "length (argv[k := Some p]) = MAX_ARG_NR" "Suc k + length (split_on t s') \<le> MAX_ARG_NR"
      using less.prems(3,4) Cons n(6) by simp_all
    from less.hyps[OF n(4,5) less.prems(2) this, of pre' junk'] n(6)
    obtain cmd' argv' where r: "cmd_loop t (pre' @ s' @ 0 # junk') (length pre') (Suc k) (argv[k := Some p]) = Some (int (Suc k + length ws), argv', cmd')"
      "parsed ws (length pre') (Suc k) (pre' @ s' @ 0 # junk') (argv[k := Some p]) cmd' argv'" "s' = [] \<longrightarrow> cmd' = pre' @ s' @ 0 # junk'"
      by auto
    have P: "length cmd' = length (pre @ s @ 0 # junk)" "take (length pre') cmd' = pre'" "take (Suc k) argv' = take (Suc k) (argv[k := Some p])"
      "length argv' = length argv" "\<And>i. i < length ws \<Longrightarrow> \<exists>j. argv' ! (Suc k + i) = Some j \<and> str_at cmd' j = ws ! i"
      using r(2) n(2) by (simp_all add: parsed_def)
    have "str_at cmd' p = w" using n(7)[OF P(1,2)] r(3) by (simp add: nth_append)
    moreover have ak: "argv' ! k = Some p" using arg_cong[OF P(3), of "\<lambda>l. l ! k"] k(1) by simp
    moreover have "take k argv' = take k argv" using arg_cong[OF P(3), of "take k"] by (simp add: min_def)
    moreover have "take (length pre) cmd' = pre"
      using n(3,8) arg_cong[OF P(2), of "take (length pre)"] by (simp add: min_def)
    moreover have "\<exists>j. argv' ! (k + i) = Some j \<and> str_at cmd' j = (w # ws) ! i" if "i < Suc (length ws)" for i
      using that P(5)[of "i - 1"] ak calculation(1) by (cases i) auto
    ultimately have "parsed (w # ws) (length pre) k (pre @ s @ 0 # junk) argv cmd' argv'"
      using P(1,4) by (simp add: parsed_def)
    then show ?thesis using n(1) r(1) Cons less.prems by (auto simp: split_on.simps)
  qed
qed

lemma cmd_loop_too_many:
  assumes "0 \<notin> set s" "t \<noteq> 0" "length argv = MAX_ARG_NR" "k \<le> MAX_ARG_NR" "MAX_ARG_NR < k + length (split_on t s)"
  shows "cmd_loop t (pre @ s @ 0 # junk) (length pre) k argv = None"
  using assms
proof (induction "length s" arbitrary: s pre junk k argv rule: less_induct)
  case less
  then obtain w ws where Cons: "split_on t s = w # ws" by (cases "split_on t s") auto
  show ?case
  proof (cases "k < MAX_ARG_NR")
    case True
    define p where "p = length pre + length (takeWhile (\<lambda>c. c = t) s)"
    have k: "k < length argv" "k \<le> MAX_ARG_NR" using True less.prems(3) by simp_all
    obtain pre' s' junk' where n: "cmd_loop t (pre @ s @ 0 # junk) (length pre) k argv
        = cmd_loop t (pre' @ s' @ 0 # junk') (length pre') (Suc k) (argv[k := Some p])"
      "length s' < length s" "0 \<notin> set s'" "split_on t s' = ws"
      using cmd_loop_word[OF Cons less.prems(1,2) k refl, of pre junk, folded p_def] by blast
    have "length (argv[k := Some p]) = MAX_ARG_NR" "MAX_ARG_NR < Suc k + length (split_on t s')" "Suc k \<le> MAX_ARG_NR"
      using less.prems(3,5) Cons n(4) True by simp_all
    then show ?thesis using less.hyps[OF n(2,3) less.prems(2)] n(1) by simp
  next
    case False
    define sp where "sp = takeWhile (\<lambda>c. c = t) s"
    note w = split_on_cons[OF Cons, folded sp_def]
    have "skip_token t (pre @ s @ 0 # junk) (length pre) = Some (length pre + length sp)"
      by (rule skip_token_eq[OF _ less.prems(2)]) (simp add: sp_def)
    moreover have "(pre @ s @ 0 # junk) ! (length pre + length sp) = w ! 0" using w(4) by (subst w(1)) (cases w; simp add: nth_append)
    moreover have "set w \<subseteq> set s" by (subst w(1)) auto
    then have "w ! 0 \<noteq> 0" using w(4) less.prems(1) nth_mem[of 0 w] by fastforce
    moreover have "s \<noteq> []" using w(1,4) by auto
    then have "(pre @ s @ 0 # junk) ! length pre \<noteq> 0" using less.prems(1) by (cases s) (auto simp: nth_append)
    ultimately show ?thesis using False less.prems(3) by (subst cmd_loop.simps) simp
  qed
qed

section \<open>Properties\<close>

text \<open>C35: \<open>cmd_parse\<close> splits a command line of at most 16 words into its words: it returns their number,
  and the entries of argv point to strings of the line that are the words in order. A line of more
  words is stored past the array before the check on their number.\<close>
theorem cmd_parse_correct:
  assumes "0 \<notin> set s" "t \<noteq> 0"
  shows "if length (split_on t s) \<le> MAX_ARG_NR
    then \<exists>argv cmd'. cmd_parse (s @ 0 # junk) t = Some (int (length (split_on t s)), argv, cmd')
      \<and> (\<forall>i < length (split_on t s). \<exists>j. argv ! i = Some j \<and> str_at cmd' j = split_on t s ! i)
    else cmd_parse (s @ 0 # junk) t = None"
  using cmd_loop_parses[OF assms, of "replicate MAX_ARG_NR None" 0 "[]" junk]
    cmd_loop_too_many[OF assms, of "replicate MAX_ARG_NR None" 0 "[]" junk]
  by (auto simp: cmd_parse_def parsed_def)

theorem cmd_parse_witness:
  "\<exists>argv cmd'. cmd_parse [97, 98, 32, 32, 99, 0] 32 = Some (2, argv, cmd')
     \<and> (\<forall>i<2. \<exists>j. argv ! i = Some j \<and> str_at cmd' j = [[97, 98], [99]] ! i)"
proof -
  have w: "split_on 32 [97, 98, 32, 32, 99] = [[97, 98], [99]]" by (simp add: split_on.simps)
  from cmd_parse_correct[of "[97, 98, 32, 32, 99]" 32 "[]"] show ?thesis
    unfolding w by (simp only: MAX_ARG_NR_def list.size append.simps if_True numeral_2_eq_2) simp
qed

text \<open>C36: \<open>readline\<close> leaves in its buffer, as a string, the line that the keys before the first line end
  edit: printing keys append, backspace takes the last one off, control-U clears the line and
  control-L keeps it; the keys behind the line end stay for the next call.\<close>
theorem readline_correct:
  assumes "\<forall>c \<in> set ks. c \<notin> {0, 0x0a, 0x0d}" "c = 0x0a \<or> c = 0x0d"
    and "\<forall>n \<le> length ks. length (foldl edit [] (take n ks)) < MAX_PATH_LEN"
  shows "\<exists>buf out. readline (map Some ks @ Some c # rest) MAX_PATH_LEN 0 (replicate MAX_PATH_LEN 0) [] = Some (buf, out, rest)
    \<and> buf_str buf = Some (foldl edit [] ks)"
  using readline_edits[OF _ assms, of "replicate MAX_PATH_LEN 0" 0 rest "[]"] by (simp add: holds_line_def)

theorem readline_witness:
  "\<exists>buf out. readline (map Some [8, 97, 98, 8, 99] @ Some 0x0a # [Some 100]) MAX_PATH_LEN 0 (replicate MAX_PATH_LEN 0) []
     = Some (buf, out, [Some 100]) \<and> buf_str buf = Some [97, 99]"
proof -
  have "length (foldl edit l (take n ks)) \<le> length l + n" for l n ks
  proof (induction ks arbitrary: l n)
    case (Cons k ks)
    show ?case
    proof (cases n)
      case (Suc m)
      have "length (edit l k) \<le> length l + 1" by (simp add: edit_def diff_le_self le_SucI)
      then show ?thesis using Cons.IH[of "edit l k" m] Suc by simp
    qed simp
  qed simp
  then have b: "length (foldl edit [] (take n ks)) \<le> n" for n ks by (metis add_0 list.size(3))
  have "\<forall>n \<le> length [8, 97, 98, 8, 99 :: u8]. length (foldl edit [] (take n [8, 97, 98, 8, 99])) < MAX_PATH_LEN"
    by (intro allI impI, rule le_less_trans[OF b]) (simp add: MAX_PATH_LEN_def)
  moreover have "\<forall>c \<in> set [8, 97, 98, 8, 99 :: u8]. c \<notin> {0, 0x0a, 0x0d}" by simp
  moreover have "foldl edit [] [8, 97, 98, 8, 99] = [97, 99]" by (simp add: edit_def)
  ultimately show ?thesis using readline_correct[of "[8, 97, 98, 8, 99]" "0x0a" "[Some 100]"] by (simp del: readline.simps)
qed

end
