(* ===== verification/Ide.thy ===== *)
theory Ide
  imports Cstring Interrupt
begin

text \<open>
  ide.c: the driver of the ATA disks. The first section is the controller the driver talks to,
  as far as the driver relies on it: the task file of eight registers at the port base of a channel,
  28-bit addresses latched by a command, data transferred through the data port in words of two
  bytes, and one interrupt for a command. How long a drive takes is a parameter: it stays busy for
  \<open>delays n\<close> reads of the status register after the n-th command. The controller hands over all the
  sectors of a command in one data phase; a drive in PIO mode asks for every sector of its own, which
  the driver does not wait for.

  The locks of the channels bracket \<open>ide_read\<close> and \<open>ide_write\<close>. Memory is the flat memory of the
  string functions. Sector counts and offsets are natural numbers: a count that comes near 2^32
  runs into the ASSERT on the last sector long before.
\<close>

section \<open>The controller\<close>

datatype phase = Idle | DataIn "u8 list" | DataOut nat nat "u8 list"

record controller =
  sect_cnt :: u8
  lba_l :: u8
  lba_m :: u8
  lba_h :: u8
  device :: u8
  phase :: phase
  intrq :: bool
  delays :: "nat \<Rightarrow> nat"
  commands :: nat
  busy :: nat
  platter :: "bool \<Rightarrow> nat \<Rightarrow> u8 list"
  identity :: "bool \<Rightarrow> u8 list"

definition slave :: "controller \<Rightarrow> bool" where
  "slave c = bit (device c) 4"

definition latched_lba :: "controller \<Rightarrow> nat" where
  "latched_lba c = unat (lba_l c) + 256 * unat (lba_m c) + 65536 * unat (lba_h c) + 16777216 * unat (device c AND 0x0f)"

definition latched_cnt :: "controller \<Rightarrow> nat" where
  "latched_cnt c = (if sect_cnt c = 0 then 256 else unat (sect_cnt c))"

definition sectors :: "(nat \<Rightarrow> u8 list) \<Rightarrow> nat \<Rightarrow> nat \<Rightarrow> u8 list" where
  "sectors d lba n = concat (map d [lba..<lba + n])"

definition put_sectors :: "(nat \<Rightarrow> u8 list) \<Rightarrow> nat \<Rightarrow> u8 list \<Rightarrow> nat \<Rightarrow> u8 list" where
  "put_sectors d lba bs = (\<lambda>k. if lba \<le> k \<and> 512 * (k - lba) < length bs then sub_buf bs (512 * (k - lba)) 512 else d k)"

definition command :: "u8 \<Rightarrow> controller \<Rightarrow> controller" where
  "command cmd c =
     (let c = c\<lparr>busy := delays c (commands c), commands := commands c + 1\<rparr> in
      if cmd = 0x20 then c\<lparr>phase := DataIn (sectors (platter c (slave c)) (latched_lba c) (latched_cnt c)), intrq := True\<rparr>
      else if cmd = 0x30 then c\<lparr>phase := DataOut (latched_lba c) (latched_cnt c) [], intrq := False\<rparr>
      else if cmd = 0xec then c\<lparr>phase := DataIn (identity c (slave c)), intrq := True\<rparr>
      else c)"

definition write_reg :: "u16 \<Rightarrow> u8 \<Rightarrow> controller \<Rightarrow> controller" where
  "write_reg r v c =
     (if r = 2 then c\<lparr>sect_cnt := v\<rparr>
      else if r = 3 then c\<lparr>lba_l := v\<rparr>
      else if r = 4 then c\<lparr>lba_m := v\<rparr>
      else if r = 5 then c\<lparr>lba_h := v\<rparr>
      else if r = 6 then c\<lparr>device := v\<rparr>
      else if r = 7 then command v c
      else c)"

text \<open>The status register: bit 7 while the drive is busy, bit 3 when it wants data moved. A read of
  it also acknowledges the interrupt.\<close>

definition drq :: "controller \<Rightarrow> bool" where
  "drq c = (case phase c of Idle \<Rightarrow> False | DataIn bs \<Rightarrow> bs \<noteq> [] | DataOut _ _ _ \<Rightarrow> True)"

definition read_status :: "controller \<Rightarrow> u8 \<times> controller" where
  "read_status c =
     (if 0 < busy c then (0x80, c\<lparr>busy := busy c - 1, intrq := False\<rparr>)
      else (if drq c then 0x48 else 0x40, c\<lparr>intrq := False\<rparr>))"

fun read_data :: "controller \<Rightarrow> (u16 \<times> controller) option" where
  "read_data c =
     (case phase c of
        DataIn (a # b # bs) \<Rightarrow> Some (ucast a OR push_bit 8 (ucast b), c\<lparr>phase := DataIn bs\<rparr>)
      | _ \<Rightarrow> None)"

definition write_data :: "u16 \<Rightarrow> controller \<Rightarrow> controller option" where
  "write_data w c =
     (case phase c of
        DataOut lba n bs \<Rightarrow>
          let bs' = bs @ [ucast w, ucast (drop_bit 8 w)] in
          if length bs' < 512 * n then Some (c\<lparr>phase := DataOut lba n bs'\<rparr>)
          else Some (c\<lparr>phase := Idle, intrq := True,
                       platter := (platter c)(slave c := put_sectors (platter c (slave c)) lba bs')\<rparr>)
      | _ \<Rightarrow> None)"

section \<open>The state of the driver\<close>

record ide_channel =
  port_base :: u16
  irq_no :: u8
  expecting_intr :: bool
  disk_done :: nat

record disk =
  disk_name :: string
  my_channel :: nat
  dev_no :: u8

record ide =
  channels :: "nat \<Rightarrow> ide_channel"
  ctl :: "nat \<Rightarrow> controller"
  ram :: mem
  slept :: nat

text \<open>The ports of the two controllers, and the instructions of io.h on them.\<close>

definition controller_at :: "u16 \<Rightarrow> nat option" where
  "controller_at port = (if port AND 0xfff8 = 0x1f0 then Some 0 else if port AND 0xfff8 = 0x170 then Some 1 else None)"

definition outb :: "u16 \<Rightarrow> u8 \<Rightarrow> ide \<Rightarrow> ide option" where
  "outb port data s =
     do { k \<leftarrow> controller_at port; Some (s\<lparr>ctl := (ctl s)(k := write_reg (port AND 7) data (ctl s k))\<rparr>) }"

definition inb_status :: "u16 \<Rightarrow> ide \<Rightarrow> (u8 \<times> ide) option" where
  "inb_status port s =
     do {
       k \<leftarrow> controller_at port;
       ASSERT (port AND 7 = 7);
       let (v, c) = read_status (ctl s k) in Some (v, s\<lparr>ctl := (ctl s)(k := c)\<rparr>)
     }"

primrec insw :: "nat \<Rightarrow> u16 \<Rightarrow> nat \<Rightarrow> ide \<Rightarrow> ide option" where
  "insw 0 port addr s = Some s"
| "insw (Suc n) port addr s =
     do {
       k \<leftarrow> controller_at port;
       (w, c) \<leftarrow> read_data (ctl s k);
       insw n port (addr + 2)
         (s\<lparr>ctl := (ctl s)(k := c), ram := (ram s)(addr := ucast w, addr + 1 := ucast (drop_bit 8 w))\<rparr>)
     }"

primrec outsw :: "nat \<Rightarrow> u16 \<Rightarrow> nat \<Rightarrow> ide \<Rightarrow> ide option" where
  "outsw 0 port addr s = Some s"
| "outsw (Suc n) port addr s =
     do {
       k \<leftarrow> controller_at port;
       c \<leftarrow> write_data (ucast (ram s addr) OR push_bit 8 (ucast (ram s (addr + 1)))) (ctl s k);
       outsw n port (addr + 2) (s\<lparr>ctl := (ctl s)(k := c)\<rparr>)
     }"

definition reg_data :: "ide_channel \<Rightarrow> u16" where "reg_data channel = port_base channel + 0"
definition reg_sect_cnt :: "ide_channel \<Rightarrow> u16" where "reg_sect_cnt channel = port_base channel + 2"
definition reg_lba_l :: "ide_channel \<Rightarrow> u16" where "reg_lba_l channel = port_base channel + 3"
definition reg_lba_m :: "ide_channel \<Rightarrow> u16" where "reg_lba_m channel = port_base channel + 4"
definition reg_lba_h :: "ide_channel \<Rightarrow> u16" where "reg_lba_h channel = port_base channel + 5"
definition reg_dev :: "ide_channel \<Rightarrow> u16" where "reg_dev channel = port_base channel + 6"
definition reg_status :: "ide_channel \<Rightarrow> u16" where "reg_status channel = port_base channel + 7"
definition reg_cmd :: "ide_channel \<Rightarrow> u16" where "reg_cmd channel = reg_status channel"

definition BIT_STAT_BSY :: u8 where "BIT_STAT_BSY = 0x80"
definition BIT_STAT_DRQ :: u8 where "BIT_STAT_DRQ = 0x8"
definition BIT_DEV_MBS :: u8 where "BIT_DEV_MBS = 0xa0"
definition BIT_DEV_LBA :: u8 where "BIT_DEV_LBA = 0x40"
definition BIT_DEV_DEV :: u8 where "BIT_DEV_DEV = 0x10"
definition CMD_IDENTIFY :: u8 where "CMD_IDENTIFY = 0xec"
definition CMD_READ_SECTOR :: u8 where "CMD_READ_SECTOR = 0x20"
definition CMD_WRITE_SECTOR :: u8 where "CMD_WRITE_SECTOR = 0x30"
definition max_lba :: u32 where "max_lba = 80 * 1024 * 1024 div 512 - 1"

definition channel_of :: "disk \<Rightarrow> ide \<Rightarrow> ide_channel" where
  "channel_of hda s = channels s (my_channel hda)"

section \<open>Commands\<close>

definition select_disk :: "disk \<Rightarrow> ide \<Rightarrow> ide option" where
  "select_disk hda s =
     (let reg_device = BIT_DEV_MBS OR BIT_DEV_LBA;
          reg_device = (if dev_no hda = 1 then reg_device OR BIT_DEV_DEV else reg_device)
      in outb (reg_dev (channel_of hda s)) reg_device s)"

definition select_sector :: "disk \<Rightarrow> u32 \<Rightarrow> u8 \<Rightarrow> ide \<Rightarrow> ide option" where
  "select_sector hda lba sec_cnt s =
     do {
       ASSERT (lba \<le> max_lba);
       let channel = channel_of hda s in do {
         s \<leftarrow> outb (reg_sect_cnt channel) sec_cnt s;
         s \<leftarrow> outb (reg_lba_l channel) (ucast lba) s;
         s \<leftarrow> outb (reg_lba_m channel) (ucast (drop_bit 8 lba)) s;
         s \<leftarrow> outb (reg_lba_h channel) (ucast (drop_bit 16 lba)) s;
         outb (reg_dev channel)
           (BIT_DEV_MBS OR BIT_DEV_LBA OR (if dev_no hda = 1 then BIT_DEV_DEV else 0) OR ucast (drop_bit 24 lba)) s
       }
     }"

definition cmd_out :: "nat \<Rightarrow> u8 \<Rightarrow> ide \<Rightarrow> ide option" where
  "cmd_out ch cmd s =
     outb (reg_cmd (channels s ch)) cmd (s\<lparr>channels := (channels s)(ch := (channels s ch)\<lparr>expecting_intr := True\<rparr>)\<rparr>)"

definition read_from_sector :: "disk \<Rightarrow> nat \<Rightarrow> u8 \<Rightarrow> ide \<Rightarrow> ide option" where
  "read_from_sector hda buf sec_cnt s =
     (let size_in_byte = (if sec_cnt = 0 then 256 * 512 else unat sec_cnt * 512)
      in insw (size_in_byte div 2) (reg_data (channel_of hda s)) buf s)"

definition write2sector :: "disk \<Rightarrow> nat \<Rightarrow> u8 \<Rightarrow> ide \<Rightarrow> ide option" where
  "write2sector hda buf sec_cnt s =
     (let size_in_byte = (if sec_cnt = 0 then 256 * 512 else unat sec_cnt * 512)
      in outsw (size_in_byte div 2) (reg_data (channel_of hda s)) buf s)"

text \<open>The decrement of the loop is the value of the comparison \<open>10 >= 0\<close>, one. msleep(10) is counted.\<close>

function (sequential) busy_wait_loop :: "u16 \<Rightarrow> disk \<Rightarrow> ide \<Rightarrow> (bool \<times> ide) option" where
  "busy_wait_loop time_limit hda s =
     (let time_limit' = time_limit - of_bool (10 \<ge> (0 :: int)) in
      if time_limit' = 0 then Some (False, s)
      else do {
        (v, s) \<leftarrow> inb_status (reg_status (channel_of hda s)) s;
        if v AND BIT_STAT_BSY = 0
        then do {
          (v, s) \<leftarrow> inb_status (reg_status (channel_of hda s)) s;
          Some (v AND BIT_STAT_DRQ \<noteq> 0, s)
        }
        else busy_wait_loop time_limit' hda (s\<lparr>slept := slept s + 1\<rparr>)
      })"
  by pat_completeness auto
termination
proof (relation "measure (\<lambda>(t, hda, s). unat (t - 1))", goal_cases)
  case (2 t hda s t' r)
  then have "t - 1 \<noteq> 0" by simp
  then have "unat (t - 1 - 1) = unat (t - 1) - 1" "0 < unat (t - 1)"
    using unat_minus_one[of "t - 1"] by (simp_all add: unat_gt_0)
  then show ?case using 2 by simp
qed simp

declare busy_wait_loop.simps [simp del]

definition busy_wait :: "disk \<Rightarrow> ide \<Rightarrow> (bool \<times> ide) option" where
  "busy_wait hda s = busy_wait_loop (30 * 1000) hda s"

section \<open>The interrupt\<close>

definition intr_hd_handler :: "u8 \<Rightarrow> ide \<Rightarrow> ide option" where
  "intr_hd_handler irq s =
     do {
       ASSERT (irq = 0x2e \<or> irq = 0x2f);
       let ch_no = unat (irq - 0x2e); channel = channels s ch_no in do {
         ASSERT (irq_no channel = irq);
         if expecting_intr channel
         then do {
           (_, s) \<leftarrow> inb_status (reg_status channel)
             (s\<lparr>channels := (channels s)(ch_no := channel\<lparr>expecting_intr := False, disk_done := disk_done channel + 1\<rparr>)\<rparr>);
           Some s
         }
         else Some s
       }
     }"

text \<open>
  sema_down(disk_done): the semaphore of a channel. When it is zero the thread sleeps until the
  interrupt of the controller is delivered and the handler has raised it; with no interrupt to come
  it sleeps for ever.
\<close>

definition disk_down :: "nat \<Rightarrow> ide \<Rightarrow> ide option" where
  "disk_down ch s =
     do {
       s \<leftarrow> (if disk_done (channels s ch) = 0
             then if intrq (ctl s ch) then intr_hd_handler (0x2e + of_nat ch) s else None
             else Some s);
       ASSERT (0 < disk_done (channels s ch));
       Some (s\<lparr>channels := (channels s)(ch := (channels s ch)\<lparr>disk_done := disk_done (channels s ch) - 1\<rparr>)\<rparr>)
     }"

section \<open>Transfers\<close>

definition read_op :: "disk \<Rightarrow> u32 \<Rightarrow> nat \<Rightarrow> nat \<Rightarrow> ide \<Rightarrow> ide option" where
  "read_op hda lba buf secs_op s =
     do {
       s \<leftarrow> select_sector hda lba (of_nat secs_op) s;
       s \<leftarrow> cmd_out (my_channel hda) CMD_READ_SECTOR s;
       s \<leftarrow> disk_down (my_channel hda) s;
       (ok, s) \<leftarrow> busy_wait hda s;
       ASSERT ok;
       read_from_sector hda buf (of_nat secs_op) s
     }"

function ide_read_loop :: "disk \<Rightarrow> u32 \<Rightarrow> nat \<Rightarrow> nat \<Rightarrow> nat \<Rightarrow> ide \<Rightarrow> ide option" where
  "ide_read_loop hda lba buf sec_cnt secs_done s =
     (if secs_done < sec_cnt
      then let secs_op = (if secs_done + 256 \<le> sec_cnt then 256 else sec_cnt - secs_done) in
        do {
          s \<leftarrow> read_op hda (lba + of_nat secs_done) (buf + secs_done * 512) secs_op s;
          ide_read_loop hda lba buf sec_cnt (secs_done + secs_op) s
        }
      else Some s)"
  by pat_completeness auto
termination by (relation "measure (\<lambda>(hda, lba, buf, sec_cnt, secs_done, s). sec_cnt - secs_done)") auto

declare ide_read_loop.simps [simp del]

definition ide_read :: "disk \<Rightarrow> u32 \<Rightarrow> nat \<Rightarrow> nat \<Rightarrow> ide \<Rightarrow> ide option" where
  "ide_read hda lba buf sec_cnt s =
     do {
       ASSERT (lba \<le> max_lba);
       ASSERT (0 < sec_cnt);
       s \<leftarrow> select_disk hda s;
       ide_read_loop hda lba buf sec_cnt 0 s
     }"

definition write_op :: "disk \<Rightarrow> u32 \<Rightarrow> nat \<Rightarrow> nat \<Rightarrow> ide \<Rightarrow> ide option" where
  "write_op hda lba buf secs_op s =
     do {
       s \<leftarrow> select_sector hda lba (of_nat secs_op) s;
       s \<leftarrow> cmd_out (my_channel hda) CMD_WRITE_SECTOR s;
       (ok, s) \<leftarrow> busy_wait hda s;
       ASSERT ok;
       s \<leftarrow> write2sector hda buf (of_nat secs_op) s;
       disk_down (my_channel hda) s
     }"

function ide_write_loop :: "disk \<Rightarrow> u32 \<Rightarrow> nat \<Rightarrow> nat \<Rightarrow> nat \<Rightarrow> ide \<Rightarrow> ide option" where
  "ide_write_loop hda lba buf sec_cnt secs_done s =
     (if secs_done < sec_cnt
      then let secs_op = (if secs_done + 256 \<le> sec_cnt then 256 else sec_cnt - secs_done) in
        do {
          s \<leftarrow> write_op hda (lba + of_nat secs_done) (buf + secs_done * 512) secs_op s;
          ide_write_loop hda lba buf sec_cnt (secs_done + secs_op) s
        }
      else Some s)"
  by pat_completeness auto
termination by (relation "measure (\<lambda>(hda, lba, buf, sec_cnt, secs_done, s). sec_cnt - secs_done)") auto

declare ide_write_loop.simps [simp del]

definition ide_write :: "disk \<Rightarrow> u32 \<Rightarrow> nat \<Rightarrow> nat \<Rightarrow> ide \<Rightarrow> ide option" where
  "ide_write hda lba buf sec_cnt s =
     do {
       ASSERT (lba \<le> max_lba);
       ASSERT (0 < sec_cnt);
       s \<leftarrow> select_disk hda s;
       ide_write_loop hda lba buf sec_cnt 0 s
     }"

end
