(* ===== verification/Disk.thy ===== *)
theory Disk
  imports Ide
begin

text \<open>
  The driver of ide.c as a disk of sectors: \<open>ide_read\<close> and \<open>ide_write\<close>, which talk to the registers
  of a controller, read and write exactly the sectors of the drive they are asked for. The drive is
  described by \<open>attached\<close>: the channel is set up, no command is under way, and after every command
  the drive leaves the busy state within the polls the driver grants.
\<close>

section \<open>Bytes in memory\<close>

definition store_bytes :: "nat \<Rightarrow> u8 list \<Rightarrow> mem \<Rightarrow> mem" where
  "store_bytes p bs m = (\<lambda>a. if p \<le> a \<and> a < p + length bs then bs ! (a - p) else m a)"

definition fetch_bytes :: "nat \<Rightarrow> nat \<Rightarrow> mem \<Rightarrow> u8 list" where
  "fetch_bytes p n m = map (\<lambda>i. m (p + i)) [0..<n]"

lemma store_bytes_Nil [simp]: "store_bytes p [] m = m"
  by (rule ext) (auto simp: store_bytes_def)

lemma store_bytes_two: "store_bytes (p + 2) bs (m(p := a, p + 1 := b)) = store_bytes p (a # b # bs) m"
proof
  fix x
  consider "x < p" | "x = p" | "x = p + 1" | "p + 2 \<le> x" by linarith
  then show "store_bytes (p + 2) bs (m(p := a, p + 1 := b)) x = store_bytes p (a # b # bs) m x"
  proof cases
    case 4
    then obtain j where "x = p + 2 + j" using le_Suc_ex by blast
    then show ?thesis by (simp add: store_bytes_def)
  qed (simp_all add: store_bytes_def)
qed

lemma store_bytes_append: "store_bytes (p + length xs) ys (store_bytes p xs m) = store_bytes p (xs @ ys) m"
  by (rule ext) (auto simp: store_bytes_def nth_append)

lemma fetch_store [simp]: "fetch_bytes p (length bs) (store_bytes p bs m) = bs"
  by (intro nth_equalityI) (simp_all add: fetch_bytes_def store_bytes_def)

lemma length_fetch [simp]: "length (fetch_bytes p n m) = n"
  by (simp add: fetch_bytes_def)

lemma fetch_Suc: "fetch_bytes p (Suc n) m = m p # fetch_bytes (Suc p) n m"
  by (simp add: fetch_bytes_def upt_rec[of 0] map_Suc_upt[symmetric] o_def del: upt_Suc)

lemma fetch_append: "fetch_bytes p (i + j) m = fetch_bytes p i m @ fetch_bytes (p + i) j m"
proof (induction i arbitrary: p)
  case (Suc i)
  then show ?case using Suc[of "Suc p"] by (simp add: fetch_Suc)
qed (simp add: fetch_bytes_def)

section \<open>Sectors\<close>

lemma length_sectors: "\<forall>k. length (d k) = 512 \<Longrightarrow> length (sectors d lba n) = 512 * n"
  by (induction n) (simp_all add: sectors_def)

lemma sectors_append: "sectors d lba (m + n) = sectors d lba m @ sectors d (lba + m) n"
proof -
  have "[lba..<lba + (m + n)] = [lba..<lba + m] @ [lba + m..<lba + m + n]" using upt_add_eq_append[of lba "lba + m" n] by (simp add: add.assoc)
  then show ?thesis by (simp add: sectors_def)
qed

lemma put_sectors_len: "\<forall>k. length (d k) = 512 \<Longrightarrow> length bs = 512 * n \<Longrightarrow> length (put_sectors d lba bs k) = 512"
  by (simp add: put_sectors_def)

lemma put_sectors_append:
  assumes "length xs = 512 * m" "length ys = 512 * n"
  shows "put_sectors (put_sectors d lba xs) (lba + m) ys = put_sectors d lba (xs @ ys)"
proof
  fix k
  show "put_sectors (put_sectors d lba xs) (lba + m) ys k = put_sectors d lba (xs @ ys) k"
  proof (cases "lba \<le> k")
    case True
    then obtain j where k: "k = lba + j" using le_Suc_ex by blast
    show ?thesis
    proof (cases "j < m")
      case True
      then have "512 * j + 512 \<le> 512 * m" by linarith
      then show ?thesis using True assms by (simp add: put_sectors_def k sub_buf_def)
    next
      case False
      then obtain i where "j = m + i" using le_Suc_ex not_less by blast
      then show ?thesis using assms by (simp add: put_sectors_def k sub_buf_def)
    qed
  qed (simp add: put_sectors_def)
qed

lemma put_sectors_nil [simp]: "put_sectors d lba [] = d"
  by (rule ext) (simp add: put_sectors_def)

lemma sectors_put:
  assumes "length bs = 512 * n"
  shows "sectors (put_sectors d lba bs) lba n = bs"
proof -
  have "sectors (put_sectors d lba bs) lba m = take (512 * m) bs" if "m \<le> n" for m
    using that
  proof (induction m)
    case (Suc m)
    then have "put_sectors d lba bs (lba + m) = sub_buf bs (512 * m) 512" using assms by (simp add: put_sectors_def)
    moreover have "take (512 * Suc m) bs = take (512 * m) bs @ sub_buf bs (512 * m) 512"
      using take_add[of "512 * m" 512 bs] by (simp add: sub_buf_def add.commute)
    ultimately show ?case using Suc by (simp add: sectors_def)
  qed (simp add: sectors_def)
  from this[of n] show ?thesis using assms by simp
qed

section \<open>Ports\<close>

definition base :: "nat \<Rightarrow> u16" where
  "base ch = (if ch = 0 then 0x1f0 else 0x170)"

lemma ports:
  assumes "ch < 2" "r \<in> {0, 1, 2, 3, 4, 5, 6, 7}"
  shows "controller_at (base ch + r) = Some ch" "(base ch + r) AND 7 = r"
proof -
  have "ch = 0 \<or> ch = 1" using assms(1) by auto
  then show "controller_at (base ch + r) = Some ch" "(base ch + r) AND 7 = r"
    using assms(2) by (auto simp: base_def controller_at_def)
qed

definition attached :: "nat \<Rightarrow> ide \<Rightarrow> bool" where
  "attached ch s \<longleftrightarrow> ch < 2 \<and> port_base (channels s ch) = base ch \<and> irq_no (channels s ch) = 0x2e + of_nat ch
     \<and> disk_done (channels s ch) = 0 \<and> (\<forall>n. delays (ctl s ch) n < 29999) \<and> (\<forall>b k. length (platter (ctl s ch) b k) = 512)"

text \<open>What a transfer on one channel leaves alone.\<close>

definition elsewhere :: "nat \<Rightarrow> ide \<Rightarrow> ide \<Rightarrow> bool" where
  "elsewhere ch s s' \<longleftrightarrow> (\<forall>k. k \<noteq> ch \<longrightarrow> ctl s' k = ctl s k \<and> channels s' k = channels s k)
     \<and> delays (ctl s' ch) = delays (ctl s ch) \<and> identity (ctl s' ch) = identity (ctl s ch)"

definition drive :: "disk \<Rightarrow> ide \<Rightarrow> nat \<Rightarrow> u8 list" where
  "drive hda s = platter (ctl s (my_channel hda)) (dev_no hda = 1)"

lemma elsewhere_trans: "elsewhere ch s t \<Longrightarrow> elsewhere ch t u \<Longrightarrow> elsewhere ch s u"
  by (simp add: elsewhere_def)

lemma outb_reg:
  assumes "ch < 2" "r \<in> {0, 1, 2, 3, 4, 5, 6, 7}"
  shows "outb (base ch + r) v s = Some (s\<lparr>ctl := (ctl s)(ch := write_reg r v (ctl s ch))\<rparr>)"
  using ports[OF assms] by (simp add: outb_def)

lemma latched:
  assumes "lba \<le> max_lba"
  shows "unat (ucast lba :: u8) + 256 * unat (ucast (drop_bit 8 lba) :: u8)
      + 65536 * unat (ucast (drop_bit 16 lba) :: u8) = unat lba" "drop_bit 24 lba = (0 :: u32)"
proof -
  have l: "unat lba \<le> 163839" using assms by (simp add: max_lba_def word_le_nat_alt)
  have u: "unat (ucast w :: u8) = unat w mod 256" for w :: u32 by (simp add: unsigned_ucast_eq take_bit_eq_mod)
  have d: "unat (drop_bit n lba) = unat lba div 2 ^ n" for n 
    using unat_lt_u32[of lba] by (simp add: unsigned_drop_bit_eq take_bit_nat_eq_self) (simp add: drop_bit_eq_div)
  show "unat (ucast lba :: u8) + 256 * unat (ucast (drop_bit 8 lba) :: u8)
      + 65536 * unat (ucast (drop_bit 16 lba) :: u8) = unat lba"
  proof -
    have "unat lba div 65536 mod 256 = unat lba div 65536" using l by simp
    moreover have "unat lba div 256 div 256 = unat lba div 65536" by (simp add: div_mult2_eq[symmetric])
    moreover have pow: "(2 :: nat) ^ 8 = 256" "(2 :: nat) ^ 16 = 65536" by simp_all
    ultimately show ?thesis using mult_div_mod_eq[of 256 "unat lba"] mult_div_mod_eq[of 256 "unat lba div 256"]
      unfolding u d by (simp only: pow)
  qed
  have "unat (drop_bit 24 lba) = unat (0 :: u32)" unfolding d using l by simp
  then show "drop_bit 24 lba = (0 :: u32)" by (rule unsigned_word_eqI)
qed


section \<open>The steps of a command\<close>

definition dev_reg :: "disk \<Rightarrow> u8" where
  "dev_reg hda = (if dev_no hda = 1 then 0xf0 else 0xe0)"

lemma dev_reg_simps [simp]: "bit (dev_reg hda) 4 \<longleftrightarrow> dev_no hda = 1" "dev_reg hda AND 15 = 0"
  by (simp_all add: dev_reg_def bit_numeral_rec)

lemma attached_simps:
  assumes "attached ch s"
  shows "ch < 2" "port_base (channels s ch) = base ch" "delays (ctl s ch) n < 29999"
    "disk_done (channels s ch) = 0" "irq_no (channels s ch) = 0x2e + of_nat ch"
    "length (platter (ctl s ch) b k) = 512"
  using assms by (simp_all add: attached_def)

lemma select_disk_ok:
  assumes "attached (my_channel hda) s"
  shows "select_disk hda s = Some (s\<lparr>ctl := (ctl s)(my_channel hda := (ctl s (my_channel hda))\<lparr>device := dev_reg hda\<rparr>)\<rparr>)"
  using attached_simps(1,2)[OF assms]
  by (simp add: select_disk_def channel_of_def reg_dev_def outb_reg write_reg_def dev_reg_def
      BIT_DEV_MBS_def BIT_DEV_LBA_def BIT_DEV_DEV_def)

lemma select_sector_ok:
  assumes "attached (my_channel hda) s" "lba \<le> max_lba"
  shows "select_sector hda lba n s = Some (s\<lparr>ctl := (ctl s)(my_channel hda :=
     (ctl s (my_channel hda))\<lparr>sect_cnt := n, lba_l := ucast lba, lba_m := ucast (drop_bit 8 lba),
       lba_h := ucast (drop_bit 16 lba), device := dev_reg hda\<rparr>)\<rparr>)"
  using attached_simps(1,2)[OF assms(1)] assms(2) latched(2)[OF assms(2)]
  by (simp add: select_sector_def channel_of_def reg_sect_cnt_def reg_lba_l_def reg_lba_m_def reg_lba_h_def reg_dev_def
      outb_reg write_reg_def dev_reg_def BIT_DEV_MBS_def BIT_DEV_LBA_def BIT_DEV_DEV_def)

text \<open>Waiting: the loop ends with the first poll that finds the drive ready.\<close>

lemma inb_ok:
  assumes "attached ch s"
  shows "inb_status (reg_status (channels s ch)) s = Some (fst (read_status (ctl s ch)),
     s\<lparr>ctl := (ctl s)(ch := snd (read_status (ctl s ch)))\<rparr>)"
  using ports[of ch 7] attached_simps(1,2)[OF assms] by (simp add: inb_status_def reg_status_def split_beta)

lemma attached_ctl:
  assumes "delays c = delays (ctl s ch)" "platter c = platter (ctl s ch)"
  shows "attached ch (s\<lparr>ctl := (ctl s)(ch := c), slept := z\<rparr>) \<longleftrightarrow> attached ch s"
    "attached ch (s\<lparr>ctl := (ctl s)(ch := c)\<rparr>) \<longleftrightarrow> attached ch s"
  using assms by (simp_all add: attached_def)

lemma busy_turn:
  assumes "attached (my_channel hda) s" "0 < busy (ctl s (my_channel hda))"
  shows "busy_wait_loop t hda s = (if t = 1 then Some (False, s) else busy_wait_loop (t - 1) hda
     (s\<lparr>ctl := (ctl s)(my_channel hda := (ctl s (my_channel hda))\<lparr>busy := busy (ctl s (my_channel hda)) - 1, intrq := False\<rparr>),
        slept := slept s + 1\<rparr>))"
  using inb_ok[OF assms(1)] assms(2)
  by (subst busy_wait_loop.simps) (simp add: channel_of_def Let_def read_status_def BIT_STAT_BSY_def)

lemma busy_wait_loop_ok:
  assumes "attached (my_channel hda) s" "busy (ctl s (my_channel hda)) + 1 < unat t" "drq (ctl s (my_channel hda))"
  shows "busy_wait_loop t hda s = Some (True, s\<lparr>ctl := (ctl s)(my_channel hda := (ctl s (my_channel hda))
     \<lparr>busy := 0, intrq := False\<rparr>), slept := slept s + busy (ctl s (my_channel hda))\<rparr>)"
  using assms
proof (induction "busy (ctl s (my_channel hda))" arbitrary: t s)
  case 0
  define c where "c = (ctl s (my_channel hda))\<lparr>intrq := False\<rparr>"
  have "t \<noteq> 1" using 0(3) by force
  then have t: "t - 1 \<noteq> 0" by simp
  have st: "read_status (ctl s (my_channel hda)) = (0x48, c)" using 0(1,4) by (simp add: read_status_def c_def)
  have "attached (my_channel hda) (s\<lparr>ctl := (ctl s)(my_channel hda := c)\<rparr>)"
    using 0(2) attached_ctl(2)[of c s "my_channel hda"] by (simp add: c_def)
  note i2 = inb_ok[OF this]
  have st2: "read_status c = (0x48, c)" using 0(1,4) by (simp add: read_status_def c_def drq_def)
  have z: "c\<lparr>busy := 0, intrq := False\<rparr> = c" using 0(1) by (cases "ctl s (my_channel hda)") (simp add: c_def)
  have "busy_wait_loop t hda s = Some (True, s\<lparr>ctl := (ctl s)(my_channel hda := c)\<rparr>)"
    using t inb_ok[OF 0(2)] i2
    by (subst busy_wait_loop.simps) (simp add: channel_of_def Let_def st st2 BIT_STAT_BSY_def BIT_STAT_DRQ_def)
  moreover have "(ctl s (my_channel hda))\<lparr>busy := 0, intrq := False\<rparr> = c" using z by (simp add: c_def)
  moreover have "s\<lparr>ctl := f, slept := slept s + 0\<rparr> = s\<lparr>ctl := f\<rparr>" for f by simp
  ultimately show ?case by (simp only: 0(1)[symmetric])
next
  case (Suc k)
  define c where "c = (ctl s (my_channel hda))\<lparr>busy := busy (ctl s (my_channel hda)) - 1, intrq := False\<rparr>"
  define s1 where "s1 = s\<lparr>ctl := (ctl s)(my_channel hda := c), slept := slept s + 1\<rparr>"
  have k: "k = busy (ctl s1 (my_channel hda))" "busy (ctl s (my_channel hda)) = Suc k" using Suc(2) by (simp_all add: s1_def c_def)
  have t: "t \<noteq> 1" "unat (t - 1) = unat t - 1" using Suc(4) k(2) unat_minus_one[of t] by force+
  have "attached (my_channel hda) s1"
    using Suc(3) attached_ctl(1)[of c s "my_channel hda"] by (simp add: c_def s1_def)
  moreover have "busy (ctl s1 (my_channel hda)) + 1 < unat (t - 1)" using Suc(4) t(2) k by simp
  moreover have "drq (ctl s1 (my_channel hda))" using Suc(5) by (simp add: s1_def c_def drq_def)
  ultimately have "busy_wait_loop (t - 1) hda s1 = Some (True, s1\<lparr>ctl := (ctl s1)(my_channel hda := (ctl s1 (my_channel hda))
     \<lparr>busy := 0, intrq := False\<rparr>), slept := slept s1 + busy (ctl s1 (my_channel hda))\<rparr>)"
    by (rule Suc(1)[OF k(1)])
  also have "(ctl s1)(my_channel hda := (ctl s1 (my_channel hda))\<lparr>busy := 0, intrq := False\<rparr>)
      = (ctl s)(my_channel hda := (ctl s (my_channel hda))\<lparr>busy := 0, intrq := False\<rparr>)" by (simp add: s1_def c_def)
  also have "slept s1 + busy (ctl s1 (my_channel hda)) = slept s + busy (ctl s (my_channel hda))"
    using k by (simp add: s1_def)
  also have "s1\<lparr>ctl := f, slept := z\<rparr> = s\<lparr>ctl := f, slept := z\<rparr>" for f z by (simp add: s1_def)
  finally have "busy_wait_loop (t - 1) hda s1 = Some (True, s\<lparr>ctl := (ctl s)(my_channel hda := (ctl s (my_channel hda))
     \<lparr>busy := 0, intrq := False\<rparr>), slept := slept s + busy (ctl s (my_channel hda))\<rparr>)" .
  moreover have "busy_wait_loop t hda s = busy_wait_loop (t - 1) hda s1"
    using busy_turn[OF Suc(3), of t] t(1) k(2) by (simp add: s1_def c_def)
  ultimately show ?case by (simp only:)
qed

lemma busy_wait_ok:
  assumes "attached (my_channel hda) s" "busy (ctl s (my_channel hda)) < 29999" "drq (ctl s (my_channel hda))"
  shows "\<exists>z. busy_wait hda s = Some (True, s\<lparr>ctl := (ctl s)(my_channel hda := (ctl s (my_channel hda))
     \<lparr>busy := 0, intrq := False\<rparr>), slept := z\<rparr>)"
  using busy_wait_loop_ok[OF assms(1) _ assms(3), of "30 * 1000"] assms(2) by (auto simp: busy_wait_def)

section \<open>Words through the data port\<close>

lemma word_bytes:
  "ucast (ucast a OR push_bit 8 (ucast b) :: u16) = (a :: u8)" 
    "ucast (drop_bit 8 (ucast a) OR drop_bit 8 (push_bit 8 (ucast b)) :: u16) = (b :: u8)"
  by (rule bit_word_eqI; auto simp: bit_simps dest: bit_imp_le_length)+

lemma insw_ok:
  assumes "ch < 2" "length bs = 2 * n" "phase (ctl s ch) = DataIn bs"
  shows "insw n (base ch) addr s = Some (s\<lparr>ctl := (ctl s)(ch := (ctl s ch)\<lparr>phase := DataIn []\<rparr>), ram := store_bytes addr bs (ram s)\<rparr>)"
  using assms
proof (induction n arbitrary: bs addr s)
  case 0
  then have "(ctl s)(ch := (ctl s ch)\<lparr>phase := DataIn []\<rparr>) = ctl s" by (intro ext) simp
  then show ?case using 0 by simp
next
  case (Suc n)
  obtain a b bs' where bs: "bs = a # b # bs'" "length bs' = 2 * n"
    using Suc.prems(2) by (cases bs; cases "tl bs") auto
  have p: "controller_at (base ch) = Some ch" using ports(1)[OF Suc.prems(1), of 0] by simp
  define s1 where "s1 = s\<lparr>ctl := (ctl s)(ch := (ctl s ch)\<lparr>phase := DataIn bs'\<rparr>), ram := (ram s)(addr := a, addr + 1 := b)\<rparr>"
  have "insw (Suc n) (base ch) addr s = insw n (base ch) (addr + 2) s1"
    using Suc.prems(3) by (simp add: p bs(1) word_bytes s1_def)
  also have "\<dots> = Some (s1\<lparr>ctl := (ctl s1)(ch := (ctl s1 ch)\<lparr>phase := DataIn []\<rparr>), ram := store_bytes (addr + 2) bs' (ram s1)\<rparr>)"
    by (rule Suc.IH[OF Suc.prems(1) bs(2)]) (simp add: s1_def)
  also have "(ctl s1)(ch := (ctl s1 ch)\<lparr>phase := DataIn []\<rparr>) = (ctl s)(ch := (ctl s ch)\<lparr>phase := DataIn []\<rparr>)"
    by (simp add: s1_def)
  also have "store_bytes (addr + 2) bs' (ram s1) = store_bytes addr bs (ram s)"
    unfolding bs(1) by (subst store_bytes_two[symmetric]) (simp add: s1_def)
  finally show ?case by (simp add: s1_def)
qed

definition putting :: "nat \<Rightarrow> nat \<Rightarrow> nat \<Rightarrow> u8 list \<Rightarrow> ide \<Rightarrow> ide" where
  "putting ch lba n bs s = (if length bs < 512 * n then s\<lparr>ctl := (ctl s)(ch := (ctl s ch)\<lparr>phase := DataOut lba n bs\<rparr>)\<rparr>
     else s\<lparr>ctl := (ctl s)(ch := (ctl s ch)\<lparr>phase := Idle, intrq := True, platter := (platter (ctl s ch))
       (slave (ctl s ch) := put_sectors (platter (ctl s ch) (slave (ctl s ch))) lba bs)\<rparr>)\<rparr>)"

lemma outsw_ok:
  assumes "ch < 2" "length bs + 2 * k = 512 * n" "0 < k" "phase (ctl s ch) = DataOut lba n bs"
  shows "outsw k (base ch) addr s = Some (putting ch lba n (bs @ fetch_bytes addr (2 * k) (ram s)) s)"
  using assms
proof (induction k arbitrary: bs addr s)
  case (Suc k)
  have p: "controller_at (base ch) = Some ch" using ports(1)[OF Suc.prems(1), of 0] by simp
  define bs1 where "bs1 = bs @ [ram s addr, ram s (addr + 1)]"
  have w: "write_data (ucast (ram s addr) OR push_bit 8 (ucast (ram s (addr + 1)))) (ctl s ch)
      = Some (ctl (putting ch lba n bs1 s) ch)"
    using Suc.prems(4) by (simp add: write_data_def word_bytes putting_def bs1_def Let_def slave_def)
  have st: "s\<lparr>ctl := (ctl s)(ch := ctl (putting ch lba n bs1 s) ch)\<rparr> = putting ch lba n bs1 s" by (simp add: putting_def)
  have f: "bs @ fetch_bytes addr (2 * Suc k) (ram s) = bs1 @ fetch_bytes (addr + 2) (2 * k) (ram s)"
    by (simp add: fetch_Suc bs1_def)
  have o: "outsw (Suc k) (base ch) addr s = outsw k (base ch) (addr + 2) (putting ch lba n bs1 s)"
    using w st by (simp add: p)
  show ?case
  proof (cases k)
    case 0
    then show ?thesis using o f by (simp add: fetch_bytes_def)
  next
    case (Suc k')
    then have "length bs1 < 512 * n" "length bs1 + 2 * k = 512 * n" using Suc.prems(2) by (simp_all add: bs1_def)
    then show ?thesis
      using o f Suc Suc.IH[OF Suc.prems(1), of bs1 "putting ch lba n bs1 s" "addr + 2"] by (simp add: putting_def slave_def)
  qed
qed simp

text \<open>The interrupt of a command wakes the thread that waits for it.\<close>

lemma disk_down_ok:
  assumes "attached ch s" "expecting_intr (channels s ch)" "intrq (ctl s ch)"
  shows "disk_down ch s = Some (s\<lparr>channels := (channels s)(ch := (channels s ch)\<lparr>expecting_intr := False\<rparr>),
     ctl := (ctl s)(ch := (ctl s ch)\<lparr>busy := busy (ctl s ch) - 1, intrq := False\<rparr>)\<rparr>)"
proof -
  define s1 where "s1 = s\<lparr>channels := (channels s)(ch := (channels s ch)\<lparr>expecting_intr := False, disk_done := 1\<rparr>)\<rparr>"
  have c: "ch = 0 \<or> ch = 1" using attached_simps(1)[OF assms(1)] by auto
  then have v: "unat (0x2e + of_nat ch - 0x2e :: u8) = ch" "0x2e + of_nat ch = (0x2e :: u8) \<or> 0x2e + of_nat ch = (0x2f :: u8)"
    by auto
  have "inb_status (reg_status (channels s ch)) s1 = Some (fst (read_status (ctl s ch)),
     s1\<lparr>ctl := (ctl s)(ch := snd (read_status (ctl s ch)))\<rparr>)"
    using ports[of ch 7] attached_simps(1,2)[OF assms(1)] by (simp add: inb_status_def reg_status_def s1_def split_beta)
  moreover have "snd (read_status (ctl s ch)) = (ctl s ch)\<lparr>busy := busy (ctl s ch) - 1, intrq := False\<rparr>"
    by (cases "ctl s ch") (simp add: read_status_def)
  ultimately have "intr_hd_handler (0x2e + of_nat ch) s = Some (s1\<lparr>ctl := (ctl s)(ch := (ctl s ch)\<lparr>busy := busy (ctl s ch) - 1, intrq := False\<rparr>)\<rparr>)"
    using v assms(2) attached_simps(4,5)[OF assms(1)]
    by (simp add: intr_hd_handler_def Let_def s1_def)
  moreover have d: "(channels s ch)\<lparr>expecting_intr := False, disk_done := 0\<rparr> = (channels s ch)\<lparr>expecting_intr := False\<rparr>"
    using attached_simps(4)[OF assms(1)] by (cases "channels s ch") simp
  ultimately show ?thesis using assms(3) attached_simps(4)[OF assms(1)] by (simp add: disk_down_def s1_def d)
qed


section \<open>One command\<close>

definition sent :: "disk \<Rightarrow> u32 \<Rightarrow> nat \<Rightarrow> controller \<Rightarrow> controller" where
  "sent hda lba n c = c\<lparr>sect_cnt := of_nat n, lba_l := ucast lba, lba_m := ucast (drop_bit 8 lba),
     lba_h := ucast (drop_bit 16 lba), device := dev_reg hda\<rparr>"

lemma sent_latched:
  assumes "lba \<le> max_lba" "0 < n" "n \<le> 256"
  shows "latched_lba (sent hda lba n c) = unat lba" "latched_cnt (sent hda lba n c) = n" "slave (sent hda lba n c) \<longleftrightarrow> dev_no hda = 1"
    "platter (sent hda lba n c) = platter c" "delays (sent hda lba n c) = delays c" "identity (sent hda lba n c) = identity c"
proof -
  show "latched_lba (sent hda lba n c) = unat lba" using latched(1)[OF assms(1)] by (simp add: latched_lba_def sent_def)
  show "latched_cnt (sent hda lba n c) = n"
  proof (cases "n = 256")
    case False
    then have n: "n < 256" using assms(3) by simp
    then have "unat (of_nat n :: u8) = n" by (simp only: unsigned_of_nat) (simp add: take_bit_nat_eq_self)
    moreover then have "(of_nat n :: u8) \<noteq> 0" using assms(2) by (metis unsigned_0 less_irrefl)
    ultimately show ?thesis by (simp add: latched_cnt_def sent_def)
  qed (simp add: latched_cnt_def sent_def)
qed (simp_all add: slave_def sent_def)

lemma latched_busy [simp]:
  "latched_lba (c\<lparr>busy := x, commands := y\<rparr>) = latched_lba c" "latched_cnt (c\<lparr>busy := x, commands := y\<rparr>) = latched_cnt c"
  "slave (c\<lparr>busy := x, commands := y\<rparr>) = slave c"
  by (simp_all add: latched_lba_def latched_cnt_def slave_def)

lemma cmd_out_ok:
  assumes "attached ch s"
  shows "cmd_out ch cmd s = Some (s\<lparr>channels := (channels s)(ch := (channels s ch)\<lparr>expecting_intr := True\<rparr>),
     ctl := (ctl s)(ch := command cmd (ctl s ch))\<rparr>)"
  using attached_simps(1,2)[OF assms] by (simp add: cmd_out_def reg_cmd_def reg_status_def outb_reg write_reg_def)

text \<open>What the transfer of \<open>n\<close> sectors leaves behind: the drive and memory, and nothing else.\<close>

definition moved :: "disk \<Rightarrow> (nat \<Rightarrow> u8 list) \<Rightarrow> mem \<Rightarrow> ide \<Rightarrow> ide \<Rightarrow> bool" where
  "moved hda d m s s' \<longleftrightarrow> attached (my_channel hda) s' \<and> elsewhere (my_channel hda) s s' \<and> ram s' = m
     \<and> platter (ctl s' (my_channel hda)) = (platter (ctl s (my_channel hda)))(dev_no hda = 1 := d)"

lemma moved_drive: "moved hda d m s s' \<Longrightarrow> drive hda s' = d"
  by (simp add: moved_def drive_def)

lemma moved_trans: "moved hda d m s t \<Longrightarrow> moved hda e n t u \<Longrightarrow> moved hda e n s u"
  by (auto simp: moved_def intro: elsewhere_trans)

lemma size_of_count:
  assumes "0 < n" "n \<le> 256"
  shows "(if (of_nat n :: u8) = 0 then 256 * 512 else unat (of_nat n :: u8) * 512) = n * 512"
  using sent_latched(2)[of 0 n undefined undefined] assms by (simp add: latched_cnt_def sent_def split: if_splits)

lemma read_op_ok:
  assumes "attached (my_channel hda) s" "lba \<le> max_lba" "0 < n" "n \<le> 256"
  shows "\<exists>s'. read_op hda lba buf n s = Some s' \<and> moved hda (drive hda s) (store_bytes buf (sectors (drive hda s) (unat lba) n) (ram s)) s s'"
proof -
  define ch where "ch = my_channel hda"
  note at = assms(1)[folded ch_def]
  define bs where "bs = sectors (drive hda s) (unat lba) n"
  define c1 where "c1 = sent hda lba n (ctl s ch)"
  define s1 where "s1 = s\<lparr>ctl := (ctl s)(ch := c1)\<rparr>"
  note c1 = sent_latched[OF assms(2-4), of hda "ctl s ch", folded c1_def]
  have 1: "select_sector hda lba (of_nat n) s = Some s1"
    using select_sector_ok[OF assms(1,2), of "of_nat n"] by (simp add: s1_def c1_def sent_def ch_def)
  have a1: "attached ch s1" using at c1 attached_ctl(2)[of c1 s ch] by (simp add: s1_def)
  define s2 where "s2 = s1\<lparr>channels := (channels s1)(ch := (channels s1 ch)\<lparr>expecting_intr := True\<rparr>),
     ctl := (ctl s1)(ch := c1\<lparr>phase := DataIn bs, intrq := True, busy := delays c1 (commands c1), commands := commands c1 + 1\<rparr>)\<rparr>"
  have "command CMD_READ_SECTOR c1 = c1\<lparr>phase := DataIn bs, intrq := True, busy := delays c1 (commands c1), commands := commands c1 + 1\<rparr>"
    using c1 by (simp add: command_def Let_def CMD_READ_SECTOR_def bs_def drive_def ch_def)
  then have 2: "cmd_out ch CMD_READ_SECTOR s1 = Some s2" using cmd_out_ok[OF a1] by (simp add: s2_def s1_def)
  have a2: "attached ch s2" using a1 by (simp add: attached_def s2_def s1_def)
  define s3 where "s3 = s2\<lparr>channels := (channels s2)(ch := (channels s2 ch)\<lparr>expecting_intr := False\<rparr>),
     ctl := (ctl s2)(ch := (ctl s2 ch)\<lparr>busy := busy (ctl s2 ch) - 1, intrq := False\<rparr>)\<rparr>"
  have 3: "disk_down ch s2 = Some s3" using disk_down_ok[OF a2] by (simp add: s2_def s3_def)
  have a3: "attached ch s3" using a2 by (simp add: attached_def s3_def)
  have bl: "length bs = 512 * n" unfolding bs_def
    by (subst length_sectors) (simp_all add: drive_def attached_simps(6)[OF assms(1)])
  then have "bs \<noteq> []" using assms(3) by auto
  then have d3: "busy (ctl s3 ch) < 29999" "drq (ctl s3 ch)"
    using c1(5) attached_simps(3)[OF at] by (simp_all add: drq_def s3_def s2_def less_imp_diff_less)
  obtain z where 4: "busy_wait hda s3 = Some (True, s3\<lparr>ctl := (ctl s3)(ch := (ctl s3 ch)\<lparr>busy := 0, intrq := False\<rparr>), slept := z\<rparr>)"
    using busy_wait_ok[of hda s3] a3 d3 by (auto simp: ch_def)
  define s4 where "s4 = s3\<lparr>ctl := (ctl s3)(ch := (ctl s3 ch)\<lparr>busy := 0, intrq := False\<rparr>), slept := z\<rparr>"
  have a4: "attached ch s4" using a3 by (simp add: attached_def s4_def)
  define s5 where "s5 = s4\<lparr>ctl := (ctl s4)(ch := (ctl s4 ch)\<lparr>phase := DataIn []\<rparr>), ram := store_bytes buf bs (ram s4)\<rparr>"
  have "length bs = 2 * (n * 512 div 2)" using bl by simp
  moreover have "phase (ctl s4 ch) = DataIn bs" by (simp add: s4_def s3_def s2_def)
  ultimately have "insw (n * 512 div 2) (base ch) buf s4 = Some s5"
    unfolding s5_def by (intro insw_ok[OF attached_simps(1)[OF a4]])
  then have 5: "read_from_sector hda buf (of_nat n) s4 = Some s5"
    using size_of_count[OF assms(3,4)] attached_simps(2)[OF a4]
    by (simp add: read_from_sector_def channel_of_def reg_data_def Let_def ch_def)
  have "read_op hda lba buf n s = Some s5"
    using 1 2 3 4[folded s4_def] 5 by (simp add: read_op_def ch_def)
  moreover have "moved hda (drive hda s) (store_bytes buf bs (ram s)) s s5"
    using at c1(4-6) unfolding moved_def elsewhere_def attached_def
    by (simp add: s5_def s4_def s3_def s2_def s1_def ch_def[symmetric]) (simp add: drive_def ch_def)
  ultimately show ?thesis by (auto simp: bs_def)
qed


lemma write_op_ok:
  assumes "attached (my_channel hda) s" "lba \<le> max_lba" "0 < n" "n \<le> 256"
  shows "\<exists>s'. write_op hda lba buf n s = Some s'
    \<and> moved hda (put_sectors (drive hda s) (unat lba) (fetch_bytes buf (512 * n) (ram s))) (ram s) s s'"
proof -
  define ch where "ch = my_channel hda"
  note at = assms(1)[folded ch_def]
  define bs where "bs = fetch_bytes buf (512 * n) (ram s)"
  define c1 where "c1 = sent hda lba n (ctl s ch)"
  define s1 where "s1 = s\<lparr>ctl := (ctl s)(ch := c1)\<rparr>"
  note c1 = sent_latched[OF assms(2-4), of hda "ctl s ch", folded c1_def]
  have 1: "select_sector hda lba (of_nat n) s = Some s1"
    using select_sector_ok[OF assms(1,2), of "of_nat n"] by (simp add: s1_def c1_def sent_def ch_def)
  have a1: "attached ch s1" using at c1 attached_ctl(2)[of c1 s ch] by (simp add: s1_def)
  define s2 where "s2 = s1\<lparr>channels := (channels s1)(ch := (channels s1 ch)\<lparr>expecting_intr := True\<rparr>),
     ctl := (ctl s1)(ch := c1\<lparr>phase := DataOut (unat lba) n [], intrq := False, busy := delays c1 (commands c1), commands := commands c1 + 1\<rparr>)\<rparr>"
  have "command CMD_WRITE_SECTOR c1 = c1\<lparr>phase := DataOut (unat lba) n [], intrq := False, busy := delays c1 (commands c1), commands := commands c1 + 1\<rparr>"
    using c1 by (simp add: command_def Let_def CMD_WRITE_SECTOR_def)
  then have 2: "cmd_out ch CMD_WRITE_SECTOR s1 = Some s2" using cmd_out_ok[OF a1] by (simp add: s2_def s1_def)
  have a2: "attached ch s2" using a1 by (simp add: attached_def s2_def s1_def)
  have d2: "busy (ctl s2 ch) < 29999" "drq (ctl s2 ch)"
    using c1(5) attached_simps(3)[OF at] by (simp_all add: drq_def s2_def)
  obtain z where 3: "busy_wait hda s2 = Some (True, s2\<lparr>ctl := (ctl s2)(ch := (ctl s2 ch)\<lparr>busy := 0, intrq := False\<rparr>), slept := z\<rparr>)"
    using busy_wait_ok[of hda s2] a2 d2 by (auto simp: ch_def)
  define s3 where "s3 = s2\<lparr>ctl := (ctl s2)(ch := (ctl s2 ch)\<lparr>busy := 0, intrq := False\<rparr>), slept := z\<rparr>"
  have a3: "attached ch s3" using a2 by (simp add: attached_def s3_def)
  define c4 where "c4 = (ctl s3 ch)\<lparr>phase := Idle, intrq := True,
     platter := (platter (ctl s ch))(dev_no hda = 1 := put_sectors (drive hda s) (unat lba) bs)\<rparr>"
  define s4 where "s4 = s3\<lparr>ctl := (ctl s3)(ch := c4)\<rparr>"
  have "phase (ctl s3 ch) = DataOut (unat lba) n []" by (simp add: s3_def s2_def)
  moreover have "slave (ctl s3 ch) = (dev_no hda = 1)" "platter (ctl s3 ch) = platter (ctl s ch)"
    using c1(3,4) by (simp_all add: s3_def s2_def slave_def)
  moreover have "[] @ fetch_bytes buf (2 * (n * 512 div 2)) (ram s3) = bs" by (simp add: bs_def s3_def s2_def s1_def mult.commute)
  moreover have "length bs = 512 * n" by (simp add: bs_def)
  ultimately have "outsw (n * 512 div 2) (base ch) buf s3 = Some s4"
    using outsw_ok[OF attached_simps(1)[OF a3], of "[]" "n * 512 div 2" n s3 "unat lba" buf] assms(3)
    by (simp add: putting_def s4_def c4_def drive_def ch_def)
  then have 4: "write2sector hda buf (of_nat n) s3 = Some s4"
    using size_of_count[OF assms(3,4)] attached_simps(2)[OF a3]
    by (simp add: write2sector_def channel_of_def reg_data_def Let_def ch_def)
  have a4: "attached ch s4"
    using a3 put_sectors_len[of "drive hda s" bs n] attached_simps(6)[OF assms(1)]
    by (simp add: attached_def s4_def c4_def s3_def s2_def bs_def drive_def ch_def)
  define s5 where "s5 = s4\<lparr>channels := (channels s4)(ch := (channels s4 ch)\<lparr>expecting_intr := False\<rparr>),
     ctl := (ctl s4)(ch := (ctl s4 ch)\<lparr>busy := busy (ctl s4 ch) - 1, intrq := False\<rparr>)\<rparr>"
  have 5: "disk_down ch s4 = Some s5" using disk_down_ok[OF a4] by (simp add: s5_def s4_def c4_def s3_def s2_def)
  have "write_op hda lba buf n s = Some s5"
    using 1 2 3[folded s3_def] 4 5 by (simp add: write_op_def ch_def)
  moreover have "attached ch s5" using a4 by (simp add: attached_def s5_def)
  moreover have "elsewhere ch s s5" "ram s5 = ram s"
    using c1(5,6) by (simp_all add: elsewhere_def s5_def s4_def c4_def s3_def s2_def s1_def)
  moreover have "platter (ctl s5 ch) = (platter (ctl s ch))(dev_no hda = 1 := put_sectors (drive hda s) (unat lba) bs)"
    by (simp add: s5_def s4_def c4_def)
  ultimately show ?thesis unfolding moved_def bs_def ch_def by blast
qed

lemma next_lba:
  assumes "unat lba + cnt \<le> unat max_lba + 1" "k < cnt"
  shows "unat (lba + of_nat k) = unat lba + k" "lba + of_nat k \<le> max_lba"
proof -
  have m: "unat max_lba = 163839" by (simp add: max_lba_def)
  have "unat (of_nat k :: u32) = k" using assms m by (simp only: unsigned_of_nat) (simp add: take_bit_nat_eq_self)
  then show "unat (lba + of_nat k) = unat lba + k" using assms m by (subst unat_add_lem[THEN iffD1]) simp_all
  then show "lba + of_nat k \<le> max_lba" using assms m by (simp add: word_le_nat_alt)
qed

lemma ide_read_loop_ok:
  assumes "attached (my_channel hda) s" "unat lba + cnt \<le> unat max_lba + 1" "k \<le> cnt"
  shows "\<exists>s'. ide_read_loop hda lba buf cnt k s = Some s'
    \<and> moved hda (drive hda s) (store_bytes (buf + k * 512) (sectors (drive hda s) (unat lba + k) (cnt - k)) (ram s)) s s'"
  using assms
proof (induction hda lba buf cnt k s rule: ide_read_loop.induct)
  case (1 hda lba buf cnt k s)
  show ?case
  proof (cases "k < cnt")
    case False
    then have "sectors (drive hda s) (unat lba + k) (cnt - k) = []" by (simp add: sectors_def)
    moreover have "moved hda (drive hda s) (ram s) s s" using 1(2) by (simp add: moved_def elsewhere_def drive_def)
    ultimately show ?thesis using False by (subst ide_read_loop.simps) simp
  next
    case True
    define n where "n = (if k + 256 \<le> cnt then 256 else cnt - k)"
    have n: "0 < n" "n \<le> 256" "k + n \<le> cnt" using True by (auto simp: n_def)
    define bs where "bs = sectors (drive hda s) (unat lba + k) n"
    obtain s1 where s1: "read_op hda (lba + of_nat k) (buf + k * 512) n s = Some s1"
      "moved hda (drive hda s) (store_bytes (buf + k * 512) bs (ram s)) s s1"
      using read_op_ok[OF 1(2) next_lba(2)[OF 1(3) True] n(1,2), of "buf + k * 512"] next_lba(1)[OF 1(3) True] by (auto simp: bs_def)
    have a1: "attached (my_channel hda) s1" "drive hda s1 = drive hda s" "ram s1 = store_bytes (buf + k * 512) bs (ram s)"
      using s1(2) moved_drive[OF s1(2)] by (simp_all add: moved_def)
    obtain s' where s': "ide_read_loop hda lba buf cnt (k + n) s1 = Some s'"
      "moved hda (drive hda s1) (store_bytes (buf + (k + n) * 512) (sectors (drive hda s1) (unat lba + (k + n)) (cnt - (k + n))) (ram s1)) s1 s'"
      using 1(1)[OF True n_def s1(1) a1(1) 1(3) n(3)] by blast
    have l: "length bs = 512 * n" unfolding bs_def
      by (rule length_sectors) (simp add: drive_def attached_simps(6)[OF 1(2)])
    have "cnt - k = n + (cnt - (k + n))" using n(3) by simp
    then have "sectors (drive hda s) (unat lba + k) (cnt - k) = bs @ sectors (drive hda s) (unat lba + (k + n)) (cnt - (k + n))"
      using sectors_append[of "drive hda s" "unat lba + k" n "cnt - (k + n)"] by (simp add: bs_def add.assoc)
    then have "store_bytes (buf + (k + n) * 512) (sectors (drive hda s) (unat lba + (k + n)) (cnt - (k + n))) (ram s1)
        = store_bytes (buf + k * 512) (sectors (drive hda s) (unat lba + k) (cnt - k)) (ram s)"
      using store_bytes_append[of "buf + k * 512" bs] by (simp add: a1(3) l add_mult_distrib mult.commute add.assoc)
    then have "moved hda (drive hda s) (store_bytes (buf + k * 512) (sectors (drive hda s) (unat lba + k) (cnt - k)) (ram s)) s s'"
      using moved_trans[OF s1(2)] s'(2) by (simp add: a1(2))
    moreover have "ide_read_loop hda lba buf cnt k s = Some s'"
      using True s1(1) s'(1) by (subst ide_read_loop.simps) (simp add: n_def[symmetric])
    ultimately show ?thesis by blast
  qed
qed


lemma ide_write_loop_ok:
  assumes "attached (my_channel hda) s" "unat lba + cnt \<le> unat max_lba + 1" "k \<le> cnt"
  shows "\<exists>s'. ide_write_loop hda lba buf cnt k s = Some s'
    \<and> moved hda (put_sectors (drive hda s) (unat lba + k) (fetch_bytes (buf + k * 512) (512 * (cnt - k)) (ram s))) (ram s) s s'"
  using assms
proof (induction hda lba buf cnt k s rule: ide_write_loop.induct)
  case (1 hda lba buf cnt k s)
  show ?case
  proof (cases "k < cnt")
    case False
    then have "fetch_bytes (buf + k * 512) (512 * (cnt - k)) (ram s) = []" by (simp add: fetch_bytes_def)
    moreover have "moved hda (drive hda s) (ram s) s s" using 1(2) by (simp add: moved_def elsewhere_def drive_def)
    ultimately show ?thesis using False by (subst ide_write_loop.simps) simp
  next
    case True
    define n where "n = (if k + 256 \<le> cnt then 256 else cnt - k)"
    have n: "0 < n" "n \<le> 256" "k + n \<le> cnt" using True by (auto simp: n_def)
    define bs where "bs = fetch_bytes (buf + k * 512) (512 * n) (ram s)"
    define bs' where "bs' = fetch_bytes (buf + (k + n) * 512) (512 * (cnt - (k + n))) (ram s)"
    obtain s1 where s1: "write_op hda (lba + of_nat k) (buf + k * 512) n s = Some s1"
      "moved hda (put_sectors (drive hda s) (unat lba + k) bs) (ram s) s s1"
      using write_op_ok[OF 1(2) next_lba(2)[OF 1(3) True] n(1,2), of "buf + k * 512"] next_lba(1)[OF 1(3) True] by (auto simp: bs_def)
    have a1: "attached (my_channel hda) s1" "drive hda s1 = put_sectors (drive hda s) (unat lba + k) bs" "ram s1 = ram s"
      using s1(2) moved_drive[OF s1(2)] by (simp_all add: moved_def)
    obtain s' where s': "ide_write_loop hda lba buf cnt (k + n) s1 = Some s'"
      "moved hda (put_sectors (drive hda s1) (unat lba + (k + n)) bs') (ram s1) s1 s'"
      using 1(1)[OF True n_def s1(1) a1(1) 1(3) n(3)] by (auto simp: bs'_def a1(3))
    have "512 * (cnt - k) = 512 * n + 512 * (cnt - (k + n))" using n(3) by simp
    then have "fetch_bytes (buf + k * 512) (512 * (cnt - k)) (ram s) = bs @ bs'"
      by (simp add: fetch_append bs_def bs'_def add_mult_distrib add.assoc mult.commute)
    moreover have "put_sectors (put_sectors (drive hda s) (unat lba + k) bs) (unat lba + k + n) bs' = put_sectors (drive hda s) (unat lba + k) (bs @ bs')"
      by (rule put_sectors_append[of _ _ _ "cnt - (k + n)"]) (simp_all add: bs_def bs'_def)
    ultimately have "moved hda (put_sectors (drive hda s) (unat lba + k) (fetch_bytes (buf + k * 512) (512 * (cnt - k)) (ram s))) (ram s) s s'"
      using moved_trans[OF s1(2)] s'(2) by (simp add: a1(2,3) add.assoc)
    moreover have "ide_write_loop hda lba buf cnt k s = Some s'"
      using True s1(1) s'(1) by (subst ide_write_loop.simps) (simp add: n_def[symmetric])
    ultimately show ?thesis by blast
  qed
qed

lemma selected:
  assumes "attached (my_channel hda) s"
  shows "\<exists>t. select_disk hda s = Some t \<and> moved hda (drive hda s) (ram s) s t"
  using select_disk_ok[OF assms] assms
  by (simp add: moved_def elsewhere_def drive_def attached_def)

lemma ide_read_ok:
  assumes "attached (my_channel hda) s" "0 < cnt" "unat lba + cnt \<le> unat max_lba + 1"
  shows "\<exists>s'. ide_read hda lba buf cnt s = Some s'
    \<and> moved hda (drive hda s) (store_bytes buf (sectors (drive hda s) (unat lba) cnt) (ram s)) s s'"
proof -
  have "lba \<le> max_lba" using next_lba(2)[OF assms(3), of 0] assms(2) by simp
  moreover obtain t where t: "select_disk hda s = Some t" "moved hda (drive hda s) (ram s) s t" using selected[OF assms(1)] by blast
  moreover have "attached (my_channel hda) t" "drive hda t = drive hda s" "ram t = ram s"
    using t(2) moved_drive[OF t(2)] by (simp_all add: moved_def)
  ultimately show ?thesis
    using ide_read_loop_ok[of hda t lba cnt 0 buf] moved_trans[OF t(2)] assms(2,3) by (auto simp: ide_read_def)
qed

lemma ide_write_ok:
  assumes "attached (my_channel hda) s" "0 < cnt" "unat lba + cnt \<le> unat max_lba + 1"
  shows "\<exists>s'. ide_write hda lba buf cnt s = Some s'
    \<and> moved hda (put_sectors (drive hda s) (unat lba) (fetch_bytes buf (512 * cnt) (ram s))) (ram s) s s'"
proof -
  have "lba \<le> max_lba" using next_lba(2)[OF assms(3), of 0] assms(2) by simp
  moreover obtain t where t: "select_disk hda s = Some t" "moved hda (drive hda s) (ram s) s t" using selected[OF assms(1)] by blast
  moreover have "attached (my_channel hda) t" "drive hda t = drive hda s" "ram t = ram s"
    using t(2) moved_drive[OF t(2)] by (simp_all add: moved_def)
  ultimately show ?thesis
    using ide_write_loop_ok[of hda t lba cnt 0 buf] moved_trans[OF t(2)] assms(2,3) by (auto simp: ide_write_def)
qed


section \<open>The interface of the file system\<close>

text \<open>A device of sectors: a transfer between a run of sectors and memory. What the file system relies
  on is proved once, from the two laws.\<close>

locale block_device =
  fixes rd :: "nat \<Rightarrow> nat \<Rightarrow> nat \<Rightarrow> 's \<Rightarrow> 's option"
    and wr :: "nat \<Rightarrow> nat \<Rightarrow> nat \<Rightarrow> 's \<Rightarrow> 's option"
    and content :: "'s \<Rightarrow> nat \<Rightarrow> u8 list"
    and memory :: "'s \<Rightarrow> mem"
    and ok :: "'s \<Rightarrow> bool"
    and valid :: "nat \<Rightarrow> nat \<Rightarrow> bool"
  assumes rd_law: "ok s \<Longrightarrow> valid lba n \<Longrightarrow>
      \<exists>s'. rd lba buf n s = Some s' \<and> ok s' \<and> content s' = content s \<and> memory s' = store_bytes buf (sectors (content s) lba n) (memory s)"
    and wr_law: "ok s \<Longrightarrow> valid lba n \<Longrightarrow>
      \<exists>s'. wr lba buf n s = Some s' \<and> ok s' \<and> memory s' = memory s
        \<and> content s' = put_sectors (content s) lba (fetch_bytes buf (512 * n) (memory s))"
    and sector_len: "ok s \<Longrightarrow> length (content s k) = 512"
begin

lemma read_after_write:
  assumes "ok s" "valid lba n"
  shows "\<exists>s1 s2. wr lba buf n s = Some s1 \<and> rd lba buf2 n s1 = Some s2
    \<and> fetch_bytes buf2 (512 * n) (memory s2) = fetch_bytes buf (512 * n) (memory s)"
proof -
  let ?bs = "fetch_bytes buf (512 * n) (memory s)"
  obtain s1 where s1: "wr lba buf n s = Some s1" "ok s1" "memory s1 = memory s" "content s1 = put_sectors (content s) lba ?bs"
    using wr_law[OF assms] by blast
  obtain s2 where s2: "rd lba buf2 n s1 = Some s2" "memory s2 = store_bytes buf2 (sectors (content s1) lba n) (memory s1)"
    using rd_law[OF s1(2) assms(2)] by blast
  have "sectors (content s1) lba n = ?bs" unfolding s1(4) by (rule sectors_put) simp
  then have "fetch_bytes buf2 (512 * n) (memory s2) = ?bs" using fetch_store[of buf2 ?bs "memory s1"] by (simp add: s2(2))
  then show ?thesis using s1(1) s2(1) by blast
qed

lemma write_elsewhere:
  assumes "ok s" "valid lba n" "k < lba \<or> lba + n \<le> k"
  shows "\<exists>s1. wr lba buf n s = Some s1 \<and> ok s1 \<and> content s1 k = content s k"
  using wr_law[OF assms(1,2), of buf] assms(3) by (auto simp: put_sectors_def)

end

definition in_range :: "nat \<Rightarrow> nat \<Rightarrow> bool" where
  "in_range lba n \<longleftrightarrow> 0 < n \<and> lba + n \<le> unat max_lba + 1"

lemma lba_word: "in_range lba n \<Longrightarrow> unat (of_nat lba :: u32) = lba"
  by (simp only: unsigned_of_nat) (simp add: take_bit_nat_eq_self in_range_def max_lba_def)

interpretation bd: block_device "\<lambda>lba. ide_read hda (of_nat lba)" "\<lambda>lba. ide_write hda (of_nat lba)" "drive hda" ram
  "attached (my_channel hda)" in_range for hda
proof
  fix s lba n buf assume a: "attached (my_channel hda) s" "in_range lba n"
  then have r: "0 < n" "unat (of_nat lba :: u32) + n \<le> unat max_lba + 1" using lba_word by (simp_all add: in_range_def)
  show "\<exists>s'. ide_read hda (of_nat lba) buf n s = Some s' \<and> attached (my_channel hda) s' \<and> drive hda s' = drive hda s
      \<and> ram s' = store_bytes buf (sectors (drive hda s) lba n) (ram s)"
    using ide_read_ok[OF a(1) r, of buf] lba_word[OF a(2)] moved_drive by (fastforce simp: moved_def)
  show "\<exists>s'. ide_write hda (of_nat lba) buf n s = Some s' \<and> attached (my_channel hda) s' \<and> ram s' = ram s
      \<and> drive hda s' = put_sectors (drive hda s) lba (fetch_bytes buf (512 * n) (ram s))"
    using ide_write_ok[OF a(1) r, of buf] lba_word[OF a(2)] moved_drive by (fastforce simp: moved_def)
next
  show "attached (my_channel hda) s \<Longrightarrow> length (drive hda s k) = 512" for s k
    unfolding drive_def by (rule attached_simps(6))
qed

section \<open>Properties\<close>

text \<open>A controller with two drives whose sectors hold their own number, and the disk on its second place.\<close>

definition ide1 :: ide where
  "ide1 = \<lparr>channels = (\<lambda>k. \<lparr>port_base = base k, irq_no = 0x2e + of_nat k, expecting_intr = False, disk_done = 0\<rparr>),
     ctl = (\<lambda>_. \<lparr>sect_cnt = 0, lba_l = 0, lba_m = 0, lba_h = 0, device = 0, phase = Idle, intrq = False, delays = (\<lambda>n. n mod 7),
       commands = 0, busy = 0, platter = (\<lambda>b k. replicate 512 (of_nat k)), identity = (\<lambda>_. [])\<rparr>),
     ram = (\<lambda>_. 0), slept = 0\<rparr>"

definition sdb :: disk where
  "sdb = \<lparr>disk_name = ''sdb'', my_channel = 0, dev_no = 1\<rparr>"

lemma ide1_attached: "attached (my_channel sdb) ide1"
  by (simp add: attached_def ide1_def sdb_def less_le_trans[OF mod_less_divisor])





text \<open>What \<open>ide_write\<close> has written, \<open>ide_read\<close> reads back, for every buffer and any number of
  sectors.\<close>
theorem ide_roundtrip:
  assumes "attached (my_channel hda) s" "in_range lba n"
  shows "\<exists>s1 s2. ide_write hda (of_nat lba) buf n s = Some s1 \<and> ide_read hda (of_nat lba) buf2 n s1 = Some s2
    \<and> fetch_bytes buf2 (512 * n) (ram s2) = fetch_bytes buf (512 * n) (ram s)"
  by (rule bd.read_after_write[OF assms])

theorem ide_roundtrip_witness:
  "\<exists>s1 s2. ide_write sdb (of_nat 1000) 4096 600 ide1 = Some s1 \<and> ide_read sdb (of_nat 1000) 8192 600 s1 = Some s2
    \<and> fetch_bytes 8192 (512 * 600) (ram s2) = fetch_bytes 4096 (512 * 600) (ram ide1)"
  by (rule ide_roundtrip[OF ide1_attached]) (simp add: in_range_def max_lba_def)

lemma busy_wait_loop_timeout:
  assumes "attached (my_channel hda) s" "t \<noteq> 0" "unat t \<le> busy (ctl s (my_channel hda)) + 1"
  shows "\<exists>s'. busy_wait_loop t hda s = Some (False, s') \<and> slept s' = slept s + (unat t - 1)"
  using assms
proof (induction "unat t" arbitrary: t s)
  case (Suc k)
  show ?case
  proof (cases "t = 1")
    case True
    then show ?thesis by (subst busy_wait_loop.simps) simp
  next
    case False
    have "unat t \<noteq> 1" using False by (metis unat_1 unsigned_word_eqI)
    then have k: "0 < k" "unat (t - 1) = k" using Suc(2,4) unat_minus_one[of t] by linarith+
    define s1 where "s1 = s\<lparr>ctl := (ctl s)(my_channel hda := (ctl s (my_channel hda))\<lparr>busy := busy (ctl s (my_channel hda)) - 1,
      intrq := False\<rparr>), slept := slept s + 1\<rparr>"
    have "attached (my_channel hda) s1"
      unfolding s1_def using Suc(3) by (subst attached_ctl(1)) simp_all
    then obtain s' where "busy_wait_loop (t - 1) hda s1 = Some (False, s')" "slept s' = slept s1 + (unat (t - 1) - 1)"
      using Suc(1)[of "t - 1" s1] k Suc(2,5) by (force simp: s1_def)
    moreover have "0 < busy (ctl s (my_channel hda))" using Suc(2,5) k(1) by linarith
    ultimately show ?thesis using busy_turn[OF Suc(3), of t] False k Suc(2) by (simp add: s1_def)
  qed
qed (simp add: unat_eq_zero)

text \<open>A drive that stays busy is given up only after 29999 sleeps of 10 ms, five minutes: the
  counter of 30000 milliseconds goes down by one and not by ten.\<close>
theorem busy_wait_timeout:
  assumes "attached (my_channel hda) s" "29999 \<le> busy (ctl s (my_channel hda))"
  shows "\<exists>s'. busy_wait hda s = Some (False, s') \<and> slept s' = slept s + 29999"
  using busy_wait_loop_timeout[OF assms(1), of "30 * 1000"] assms(2) by (simp add: busy_wait_def)

theorem busy_wait_witness:
  "\<exists>s'. busy_wait sdb (ide1\<lparr>ctl := (ctl ide1)(0 := (ctl ide1 0)\<lparr>busy := 40000\<rparr>)\<rparr>) = Some (False, s') \<and> slept s' = 29999"
proof -
  have "attached (my_channel sdb) (ide1\<lparr>ctl := (ctl ide1)(0 := (ctl ide1 0)\<lparr>busy := 40000\<rparr>)\<rparr>)"
    using ide1_attached by (simp add: attached_def sdb_def)
  from busy_wait_timeout[OF this] show ?thesis by (simp add: sdb_def ide1_def)
qed

end
