(* ===== verification/Volume.thy ===== *)
theory Volume
  imports Disk
begin

text \<open>
  A disk as one array of bytes: byte \<open>a\<close> lies in sector \<open>a div 512\<close>. A record of the file system may cross
  from one sector into the next, so what its transfers of whole sectors do is stated over byte ranges:
  a read gives a range, and reading sectors, changing some bytes of the buffer and writing it back
  changes just this range.
\<close>

definition medium_ok :: "(nat \<Rightarrow> u8 list) \<Rightarrow> bool" where
  "medium_ok m \<longleftrightarrow> (\<forall>k. length (m k) = 512)"

definition disk_byte :: "(nat \<Rightarrow> u8 list) \<Rightarrow> nat \<Rightarrow> u8" where
  "disk_byte m a = m (a div 512) ! (a mod 512)"

definition disk_bytes :: "(nat \<Rightarrow> u8 list) \<Rightarrow> nat \<Rightarrow> nat \<Rightarrow> u8 list" where
  "disk_bytes m a n = map (\<lambda>j. disk_byte m (a + j)) [0..<n]"

named_theorems volume_simps

lemma length_disk_bytes [simp]: "length (disk_bytes m a n) = n"
  by (simp add: disk_bytes_def)

lemma nth_disk_bytes [simp]: "j < n \<Longrightarrow> disk_bytes m a n ! j = disk_byte m (a + j)"
  by (simp add: disk_bytes_def)

lemma disk_bytes_add: "disk_bytes m a (i + j) = disk_bytes m a i @ disk_bytes m (a + i) j"
  by (rule nth_equalityI) (auto simp: nth_append)

lemma disk_bytes_cong: "(\<And>j. j < n \<Longrightarrow> disk_byte m (a + j) = disk_byte m' (a + j)) \<Longrightarrow> disk_bytes m a n = disk_bytes m' a n"
  by (simp add: disk_bytes_def)

lemma sector_bytes: "medium_ok m \<Longrightarrow> m k = disk_bytes m (512 * k) 512"
  by (rule nth_equalityI) (simp_all add: medium_ok_def disk_byte_def)

lemma sectors_bytes: "medium_ok m \<Longrightarrow> sectors m lba n = disk_bytes m (512 * lba) (512 * n)"
proof (induction n)
  case (Suc n)
  have "sectors m lba (Suc n) = sectors m lba n @ m (lba + n)" by (simp add: sectors_def)
  also have "\<dots> = disk_bytes m (512 * lba) (512 * n) @ disk_bytes m (512 * lba + 512 * n) 512"
    using Suc sector_bytes[OF Suc.prems, of "lba + n"] by (simp add: algebra_simps)
  also have "\<dots> = disk_bytes m (512 * lba) (512 * n + 512)" by (rule disk_bytes_add[symmetric])
  finally show ?case by (simp add: add.commute)
qed (simp add: sectors_def disk_bytes_def)

lemma sub_disk_bytes [volume_simps]: "k + i \<le> n \<Longrightarrow> sub_buf (disk_bytes m a n) k i = disk_bytes m (a + k) i"
  by (rule nth_equalityI) (simp_all add: nth_sub_buf add.assoc)

lemma sectors_one: "sectors m lba 1 = m lba"
  by (simp add: sectors_def)

lemma medium_ok_put: "medium_ok m \<Longrightarrow> length bs = 512 * n \<Longrightarrow> medium_ok (put_sectors m lba bs)"
  by (simp add: medium_ok_def put_sectors_len)

lemma disk_byte_put:
  assumes "length bs = 512 * n"
  shows "disk_byte (put_sectors m lba bs) a
    = (if 512 * lba \<le> a \<and> a < 512 * lba + length bs then bs ! (a - 512 * lba) else disk_byte m a)"
proof -
  define q r where "q = a div 512" and "r = a mod 512"
  have a: "a = 512 * q + r" "r < 512" by (simp_all add: q_def r_def)
  have sec: "lba \<le> q \<and> 512 * (q - lba) < length bs \<longleftrightarrow> 512 * lba \<le> a \<and> a < 512 * lba + length bs"
    using a(2) assms unfolding a(1) by auto
  have "sub_buf bs (512 * (q - lba)) 512 ! r = bs ! (a - 512 * lba)" if in_run: "lba \<le> q" "512 * (q - lba) < length bs"
  proof -
    obtain i where i: "q = lba + i" using in_run(1) le_Suc_ex by blast
    then have "512 * i + 512 \<le> 512 * n" using in_run(2) assms by simp
    then show ?thesis using a(2) assms unfolding i a(1) by (simp add: nth_sub_buf add_mult_distrib2)
  qed
  then show ?thesis unfolding disk_byte_def q_def[symmetric] r_def[symmetric] put_sectors_def sec[symmetric] by simp
qed

text \<open>Read, modify, write.\<close>

lemma disk_byte_rmw:
  assumes "medium_ok m" "off + length xs \<le> 512 * n"
  shows "disk_byte (put_sectors m lba (blit (sectors m lba n) off xs)) a
    = (if 512 * lba + off \<le> a \<and> a < 512 * lba + off + length xs then xs ! (a - (512 * lba + off)) else disk_byte m a)"
proof -
  define bs where "bs = blit (sectors m lba n) off xs"
  have l: "length bs = 512 * n" using assms by (simp add: bs_def sectors_bytes)
  have nth: "bs ! j = (if off \<le> j \<and> j < off + length xs then xs ! (j - off) else disk_byte m (512 * lba + j))" if "j < 512 * n" for j
    using that assms by (simp add: bs_def sectors_bytes nth_blit)
  have "disk_byte (put_sectors m lba bs) a = (if 512 * lba \<le> a \<and> a < 512 * lba + 512 * n then bs ! (a - 512 * lba) else disk_byte m a)"
    using disk_byte_put[OF l, of m lba a] l by simp
  then show ?thesis using nth[of "a - 512 * lba"] assms(2) unfolding bs_def[symmetric] by auto
qed

lemma disk_bytes_rmw_same:
  assumes "medium_ok m" "off + length xs \<le> 512 * n" "a = 512 * lba + off"
  shows "disk_bytes (put_sectors m lba (blit (sectors m lba n) off xs)) a (length xs) = xs"
  by (rule nth_equalityI) (simp_all add: disk_byte_rmw[OF assms(1,2)] assms(3))

lemma disk_bytes_rmw_other:
  assumes "medium_ok m" "off + length xs \<le> 512 * n" "a + k \<le> 512 * lba + off \<or> 512 * lba + off + length xs \<le> a"
  shows "disk_bytes (put_sectors m lba (blit (sectors m lba n) off xs)) a k = disk_bytes m a k"
  by (rule disk_bytes_cong) (use assms(3) in \<open>auto simp: disk_byte_rmw[OF assms(1,2)]\<close>)

lemma medium_ok_rmw:
  assumes "medium_ok m" "off + length xs \<le> 512 * n"
  shows "medium_ok (put_sectors m lba (blit (sectors m lba n) off xs))"
  by (rule medium_ok_put[OF assms(1), of _ n]) (use assms in \<open>simp add: sectors_bytes\<close>)

lemma disk_bytes_put_same:
  "length bs = 512 * n \<Longrightarrow> disk_bytes (put_sectors m lba bs) (512 * lba) (512 * n) = bs"
  by (rule nth_equalityI) (simp_all add: disk_byte_put)

lemma disk_bytes_put_other:
  assumes "length bs = 512 * n" "a + k \<le> 512 * lba \<or> 512 * lba + 512 * n \<le> a"
  shows "disk_bytes (put_sectors m lba bs) a k = disk_bytes m a k"
  by (rule disk_bytes_cong) (use assms(2) in \<open>auto simp: disk_byte_put[OF assms(1)] assms(1)\<close>)

lemma sectors_put_other:
  assumes "length bs = 512 * n" "k + i \<le> lba \<or> lba + n \<le> k"
  shows "sectors (put_sectors m lba bs) k i = sectors m k i"
proof -
  have "put_sectors m lba bs j = m j" if "j < lba \<or> lba + n \<le> j" for j
    using that assms(1) by (auto simp: put_sectors_def)
  then show ?thesis using assms(2) by (auto simp: sectors_def intro!: arg_cong[where f = concat])
qed

text \<open>The layout of numbers.\<close>

definition le32 :: "nat \<Rightarrow> u8 list" where
  "le32 n = u32_bytes (of_nat n)"

definition u32_at :: "u8 list \<Rightarrow> nat \<Rightarrow> nat" where
  "u32_at bs off = unat (bytes_u32 (sub_buf bs off 4))"

lemma length_le32 [simp]: "length (le32 n) = 4"
  by (simp add: le32_def)

lemma u32_at_less: "u32_at bs off < 4294967296"
  unfolding u32_at_def by (rule unat_lt_u32)

lemma u32_at_le32 [simp]: "u32_at (le32 n @ ys) 0 = n mod 4294967296"
  by (simp add: u32_at_def sub_buf_def le32_def unsigned_of_nat take_bit_eq_mod)

lemma u32_at_skip [simp]: "length xs \<le> off \<Longrightarrow> u32_at (xs @ ys) off = u32_at ys (off - length xs)"
  by (simp add: u32_at_def sub_buf_def)

lemma length_words [simp]: "length (concat (map le32 ws)) = 4 * length ws"
  by (induction ws) simp_all

lemma words_at:
  "k < length ws \<Longrightarrow> u32_at (concat (map le32 ws) @ ys) (4 * k) = ws ! k mod 4294967296"
proof (induction ws arbitrary: k)
  case (Cons w ws)
  then show ?case by (cases k) simp_all
qed simp

end
