(* ===== verification/Inode.thy ===== *)
theory Inode
  imports Bitmap Volume
begin

text \<open>
  inode.c, and the allocation part of file.c: the state of the mounted partition and the inodes on it.
  Every call of the code passes \<open>cur_part\<close>, so the partition is part of the state. The disk is the
  map from sector numbers to sectors that the driver implements (\<open>fs_read_refines\<close>,
  \<open>fs_write_refines\<close> below); a transfer past the last sector the driver addresses has no defined
  result. Inodes and directories are objects of the kernel heap behind pointers; the buffers the code
  allocates for a transfer are values, but every sys_malloc is a step that may fail: the n-th one
  succeeds when \<open>mallocs n\<close> holds, and its pointer is new. 32-bit fields are natural numbers below
  2^32, reduced where the code can wrap.
\<close>

section \<open>The data on disk\<close>

definition W32 :: "nat \<Rightarrow> nat" where
  "W32 n = n mod 4294967296"

record super_block =
  magic :: nat
  sb_sec_cnt :: nat
  inode_cnt :: nat
  part_lba_base :: nat
  block_bitmap_lba :: nat
  block_bitmap_sects :: nat
  inode_bitmap_lba :: nat
  inode_bitmap_sects :: nat
  inode_table_lba :: nat
  inode_table_sects :: nat
  data_start_lba :: nat
  root_inode_no :: nat
  dir_entry_size :: nat

record inode =
  i_no :: nat
  i_size :: nat
  i_open_cnts :: nat
  write_deny :: bool
  i_sectors :: "nat list"

definition sizeof_inode :: nat where
  "sizeof_inode = 76"

text \<open>The layout of \<open>struct inode\<close>: three words, the flag with three bytes of padding, 13 block numbers,
  and the two links of the tag, which are NULL on disk.\<close>

definition inode_bytes :: "inode \<Rightarrow> u8 list" where
  "inode_bytes i = le32 (i_no i) @ le32 (i_size i) @ le32 (i_open_cnts i) @ [of_bool (write_deny i), 0, 0, 0]
     @ concat (map le32 (i_sectors i)) @ replicate 8 0"

definition inode_of :: "u8 list \<Rightarrow> inode" where
  "inode_of bs = \<lparr>i_no = u32_at bs 0, i_size = u32_at bs 4, i_open_cnts = u32_at bs 8, write_deny = (bs ! 12 \<noteq> 0),
     i_sectors = map (\<lambda>k. u32_at bs (16 + 4 * k)) [0..<13]\<rparr>"

text \<open>A block of block numbers.\<close>

definition table_of :: "u8 list \<Rightarrow> nat list" where
  "table_of bs = map (\<lambda>k. u32_at bs (4 * k)) [0..<128]"

definition table_bytes :: "nat list \<Rightarrow> u8 list" where
  "table_bytes ws = concat (map le32 ws)"

section \<open>The state\<close>

record partition =
  start_lba :: nat
  sec_cnt :: nat
  sb :: super_block
  block_bitmap :: bitmap
  inode_bitmap :: bitmap
  open_inodes :: "nat list"

record dir =
  dir_inode :: nat
  dir_pos :: nat
  dir_buf :: "u8 list"

record open_file =
  fd_pos :: nat
  fd_flag :: nat
  fd_inode :: "nat option"

record fs =
  medium :: "nat \<Rightarrow> u8 list"
  cur_part :: partition
  inodes :: "nat \<Rightarrow> inode option"
  dirs :: "nat \<Rightarrow> dir option"
  file_table :: "open_file list"
  fd_table :: "int list"
  cwd_inode_nr :: nat
  mallocs :: "nat \<Rightarrow> bool"
  nmalloc :: nat

text \<open>The pointer 0 is the static \<open>root_dir\<close>; a pointer from sys_malloc is never 0.\<close>

definition kmalloc :: "fs \<Rightarrow> nat option \<times> fs" where
  "kmalloc f = (if mallocs f (nmalloc f) then Some (nmalloc f + 1) else None, f\<lparr>nmalloc := nmalloc f + 1\<rparr>)"

text \<open>ide_read and ide_write on the disk of the partition.\<close>

definition fs_read :: "nat \<Rightarrow> nat \<Rightarrow> fs \<Rightarrow> u8 list option" where
  "fs_read lba n f = do { ASSERT (in_range lba n); Some (sectors (medium f) lba n) }"

definition fs_write :: "nat \<Rightarrow> u8 list \<Rightarrow> fs \<Rightarrow> fs option" where
  "fs_write lba bs f = do { ASSERT (in_range lba (length bs div 512)); Some (f\<lparr>medium := put_sectors (medium f) lba bs\<rparr>) }"

definition set_inode :: "nat \<Rightarrow> inode \<Rightarrow> fs \<Rightarrow> fs" where
  "set_inode p i f = f\<lparr>inodes := (inodes f)(p := Some i)\<rparr>"

section \<open>inode.c\<close>

record inode_position =
  two_sec :: bool
  sec_lba :: nat
  off_size :: nat

definition inode_locate :: "nat \<Rightarrow> fs \<Rightarrow> inode_position option" where
  "inode_locate inode_no f =
     do {
       ASSERT (inode_no < 4096);
       let off_size = inode_no * sizeof_inode; off_sec = off_size div 512; off_size_in_sec = off_size mod 512;
           left_in_sec = 512 - off_size_in_sec
       in Some \<lparr>two_sec = (left_in_sec < sizeof_inode), sec_lba = inode_table_lba (sb (cur_part f)) + off_sec,
                off_size = off_size_in_sec\<rparr>
     }"

text \<open>\<open>buf_len\<close> is the size of the buffer the caller passes: two sectors do not fit into one.\<close>

definition inode_sync :: "nat \<Rightarrow> inode \<Rightarrow> fs \<Rightarrow> fs option" where
  "inode_sync buf_len inode f =
     do {
       let inode_no = i_no inode mod 256 in do {
       pos \<leftarrow> inode_locate inode_no f;
       ASSERT (sec_lba pos \<le> start_lba (cur_part f) + sec_cnt (cur_part f));
       let pure_inode = inode\<lparr>i_open_cnts := 0, write_deny := False\<rparr> in
       if two_sec pos
       then do {
         ASSERT (1024 \<le> buf_len);
         inode_buf \<leftarrow> fs_read (sec_lba pos) 2 f;
         fs_write (sec_lba pos) (blit inode_buf (off_size pos) (inode_bytes pure_inode)) f
       }
       else do {
         inode_buf \<leftarrow> fs_read (sec_lba pos) 1 f;
         fs_write (sec_lba pos) (blit inode_buf (off_size pos) (inode_bytes pure_inode)) f
       } }
     }"

text \<open>The walk along the list of open inodes.\<close>

fun find_open :: "nat \<Rightarrow> nat list \<Rightarrow> fs \<Rightarrow> nat option option" where
  "find_open inode_no [] f = Some None"
| "find_open inode_no (p # ps) f =
     do { i \<leftarrow> inodes f p; if i_no i = inode_no then Some (Some p) else find_open inode_no ps f }"

definition inode_open :: "nat \<Rightarrow> fs \<Rightarrow> (nat \<times> fs) option" where
  "inode_open inode_no f =
     do {
       found \<leftarrow> find_open inode_no (open_inodes (cur_part f)) f;
       case found of
         Some p \<Rightarrow> do { i \<leftarrow> inodes f p; Some (p, set_inode p (i\<lparr>i_open_cnts := W32 (i_open_cnts i + 1)\<rparr>) f) }
       | None \<Rightarrow> do {
           pos \<leftarrow> inode_locate inode_no f;
           let (q, f) = kmalloc f; (b, f) = kmalloc f in do {
             ASSERT (b \<noteq> None);
             inode_buf \<leftarrow> fs_read (sec_lba pos) (if two_sec pos then 2 else 1) f;
             p \<leftarrow> q;
             let i = (inode_of (sub_buf inode_buf (off_size pos) sizeof_inode))\<lparr>i_open_cnts := 1\<rparr> in
             Some (p, (set_inode p i f)\<lparr>cur_part := (cur_part f)\<lparr>open_inodes := p # open_inodes (cur_part f)\<rparr>\<rparr>)
           }
         }
     }"

definition inode_close :: "nat \<Rightarrow> fs \<Rightarrow> fs option" where
  "inode_close p f =
     do {
       i \<leftarrow> inodes f p;
       let c = W32 (i_open_cnts i + 4294967295) in
       if c = 0
       then do {
         ASSERT (p \<in> set (open_inodes (cur_part f)));
         Some (f\<lparr>inodes := (inodes f)(p := None), cur_part := (cur_part f)\<lparr>open_inodes := remove1 p (open_inodes (cur_part f))\<rparr>\<rparr>)
       }
       else Some (set_inode p (i\<lparr>i_open_cnts := c\<rparr>) f)
     }"

definition inode_delete :: "nat \<Rightarrow> fs \<Rightarrow> fs option" where
  "inode_delete inode_no f =
     do {
       ASSERT (inode_no < 4096);
       pos \<leftarrow> inode_locate inode_no f;
       ASSERT (sec_lba pos \<le> start_lba (cur_part f) + sec_cnt (cur_part f));
       if two_sec pos
       then do {
         inode_buf \<leftarrow> fs_read (sec_lba pos) 2 f;
         fs_write (sec_lba pos) (blit inode_buf (off_size pos) (replicate sizeof_inode 0)) f
       }
       else do {
         inode_buf \<leftarrow> fs_read (sec_lba pos) 1 f;
         fs_write (sec_lba pos) (blit inode_buf (off_size pos) (replicate sizeof_inode 0)) f
       }
     }"

definition inode_init :: "nat \<Rightarrow> inode" where
  "inode_init inode_no = \<lparr>i_no = inode_no, i_size = 0, i_open_cnts = 0, write_deny = False, i_sectors = replicate 13 0\<rparr>"

section \<open>Allocation (file.c)\<close>

datatype bitmap_type = INODE_BITMAP | BLOCK_BITMAP

definition bitmap_sync :: "nat \<Rightarrow> bitmap_type \<Rightarrow> fs \<Rightarrow> fs option" where
  "bitmap_sync bit_idx btmp_type f =
     (let off_sec = bit_idx div 4096; off_size = off_sec * 512 in
      case btmp_type of
        INODE_BITMAP \<Rightarrow> fs_write (inode_bitmap_lba (sb (cur_part f)) + off_sec) (map (\<lambda>k. bits (inode_bitmap (cur_part f)) (off_size + k)) [0..<512]) f
      | BLOCK_BITMAP \<Rightarrow> fs_write (block_bitmap_lba (sb (cur_part f)) + off_sec) (map (\<lambda>k. bits (block_bitmap (cur_part f)) (off_size + k)) [0..<512]) f)"

definition set_inode_bit :: "nat \<Rightarrow> int \<Rightarrow> fs \<Rightarrow> fs option" where
  "set_inode_bit idx v f =
     do { b \<leftarrow> bitmap_set (inode_bitmap (cur_part f)) idx v; Some (f\<lparr>cur_part := (cur_part f)\<lparr>inode_bitmap := b\<rparr>\<rparr>) }"

definition set_block_bit :: "nat \<Rightarrow> int \<Rightarrow> fs \<Rightarrow> fs option" where
  "set_block_bit idx v f =
     do { b \<leftarrow> bitmap_set (block_bitmap (cur_part f)) idx v; Some (f\<lparr>cur_part := (cur_part f)\<lparr>block_bitmap := b\<rparr>\<rparr>) }"

definition inode_bitmap_alloc :: "fs \<Rightarrow> (int \<times> fs) option" where
  "inode_bitmap_alloc f =
     do {
       bit_idx \<leftarrow> bitmap_scan (inode_bitmap (cur_part f)) 1;
       if bit_idx = -1 then Some (-1, f)
       else do { f \<leftarrow> set_inode_bit (nat bit_idx) 1 f; Some (bit_idx, f) }
     }"

definition block_bitmap_alloc :: "fs \<Rightarrow> (int \<times> fs) option" where
  "block_bitmap_alloc f =
     do {
       bit_idx \<leftarrow> bitmap_scan (block_bitmap (cur_part f)) 1;
       if bit_idx = -1 then Some (-1, f)
       else do { f \<leftarrow> set_block_bit (nat bit_idx) 1 f; Some (int (data_start_lba (sb (cur_part f))) + bit_idx, f) }
     }"

definition block_idx_of :: "nat \<Rightarrow> fs \<Rightarrow> nat" where
  "block_idx_of lba f = W32 (lba + 4294967296 - data_start_lba (sb (cur_part f)))"

text \<open>The release of a block, and the loop over the blocks of an inode.\<close>

definition free_block :: "nat \<Rightarrow> fs \<Rightarrow> fs option" where
  "free_block lba f =
     (let block_bitmap_idx = block_idx_of lba f in
      do {
        ASSERT (0 < block_bitmap_idx);
        f \<leftarrow> set_block_bit block_bitmap_idx 0 f;
        bitmap_sync block_bitmap_idx BLOCK_BITMAP f
      })"

fun free_blocks :: "nat list \<Rightarrow> fs \<Rightarrow> fs option" where
  "free_blocks [] f = Some f"
| "free_blocks (b # bs) f = do { f \<leftarrow> (if b \<noteq> 0 then free_block b f else Some f); free_blocks bs f }"

text \<open>The block numbers of an inode: 12 direct ones and, when there is an indirect block, its 128.\<close>

definition inode_release :: "nat \<Rightarrow> fs \<Rightarrow> fs option" where
  "inode_release inode_no f =
     do {
       (p, f) \<leftarrow> inode_open inode_no f;
       i \<leftarrow> inodes f p;
       ASSERT (i_no i = inode_no);
       (all_blocks, f) \<leftarrow>
         (if i_sectors i ! 12 \<noteq> 0
          then do {
            t \<leftarrow> fs_read (i_sectors i ! 12) 1 f;
            f \<leftarrow> free_block (i_sectors i ! 12) f;
            Some (take 12 (i_sectors i) @ table_of t, f)
          }
          else Some (take 12 (i_sectors i), f));
       f \<leftarrow> free_blocks all_blocks f;
       f \<leftarrow> set_inode_bit inode_no 0 f;
       f \<leftarrow> bitmap_sync inode_no INODE_BITMAP f;
       let (io_buf, f) = kmalloc f in do {
         ASSERT (io_buf \<noteq> None);
         f \<leftarrow> inode_delete inode_no f;
         inode_close p f
       }
     }"

section \<open>Transfers\<close>

lemma fs_read_ok: "in_range lba n \<Longrightarrow> fs_read lba n f = Some (sectors (medium f) lba n)"
  by (simp add: fs_read_def)

lemma fs_write_ok: "in_range lba (length bs div 512) \<Longrightarrow> fs_write lba bs f = Some (f\<lparr>medium := put_sectors (medium f) lba bs\<rparr>)"
  by (simp add: fs_write_def)

text \<open>Reading and writing back a buffer with some of its bytes changed: the bytes \<open>a\<close> up to \<open>a + length xs\<close>
  of the disk are replaced.\<close>

definition replaced :: "nat \<Rightarrow> u8 list \<Rightarrow> (nat \<Rightarrow> u8 list) \<Rightarrow> (nat \<Rightarrow> u8 list) \<Rightarrow> bool" where
  "replaced a xs m m' \<longleftrightarrow> medium_ok m' \<and> disk_bytes m' a (length xs) = xs
     \<and> (\<forall>b k. b + k \<le> a \<or> a + length xs \<le> b \<longrightarrow> disk_bytes m' b k = disk_bytes m b k)"

lemma replacedD:
  assumes "replaced a xs m m'"
  shows "medium_ok m'" "disk_bytes m' a (length xs) = xs"
    "b + k \<le> a \<or> a + length xs \<le> b \<Longrightarrow> disk_bytes m' b k = disk_bytes m b k"
  using assms unfolding replaced_def by blast+

lemma replaced_sector:
  assumes "replaced a xs m m'" "medium_ok m" "512 * k + 512 \<le> a \<or> a + length xs \<le> 512 * k"
  shows "m' k = m k"
  using replacedD(3)[OF assms(1,3)] sector_bytes[OF assms(2)] sector_bytes[OF replacedD(1)[OF assms(1)]] by metis

lemma rmw_ok:
  assumes "medium_ok (medium f)" "in_range lba n" "off + length xs \<le> 512 * n"
  shows "\<exists>m'. fs_write lba (blit (sectors (medium f) lba n) off xs) f = Some (f\<lparr>medium := m'\<rparr>)
    \<and> replaced (512 * lba + off) xs (medium f) m'"
proof -
  have "length (blit (sectors (medium f) lba n) off xs) = 512 * n" using assms by (simp add: sectors_bytes)
  then have "in_range lba (length (blit (sectors (medium f) lba n) off xs) div 512)" using assms(2) by simp
  then show ?thesis unfolding replaced_def
    using fs_write_ok medium_ok_rmw[OF assms(1,3)] disk_bytes_rmw_same[OF assms(1,3)] disk_bytes_rmw_other[OF assms(1,3)] by blast
qed

lemma write_ok:
  assumes "medium_ok (medium f)" "in_range lba n" "length bs = 512 * n"
  shows "\<exists>m'. fs_write lba bs f = Some (f\<lparr>medium := m'\<rparr>) \<and> replaced (512 * lba) bs (medium f) m'"
proof -
  have r: "in_range lba (length bs div 512)" using assms by simp
  show ?thesis unfolding replaced_def assms(3)
    using fs_write_ok[OF r] medium_ok_put[OF assms(1,3)] disk_bytes_put_same[OF assms(3)] disk_bytes_put_other[OF assms(3)] by blast
qed

section \<open>Inodes on disk\<close>

definition inode_wf :: "inode \<Rightarrow> bool" where
  "inode_wf i \<longleftrightarrow> i_no i < 4294967296 \<and> i_size i < 4294967296 \<and> i_open_cnts i < 4294967296
     \<and> length (i_sectors i) = 13 \<and> (\<forall>b\<in>set (i_sectors i). b < 4294967296)"

lemma length_inode_bytes [simp]: "length (i_sectors i) = 13 \<Longrightarrow> length (inode_bytes i) = 76"
  by (simp add: inode_bytes_def)

lemma inode_of_bytes: "inode_wf i \<Longrightarrow> inode_of (inode_bytes i) = i"
proof -
  assume wf: "inode_wf i"
  have u: "u32_at (inode_bytes i) 0 = i_no i" "u32_at (inode_bytes i) 4 = i_size i" "u32_at (inode_bytes i) 8 = i_open_cnts i"
    using wf by (simp_all add: inode_bytes_def inode_wf_def)
  have b: "inode_bytes i ! 12 = of_bool (write_deny i)" by (simp add: inode_bytes_def nth_append)
  have s: "u32_at (inode_bytes i) (16 + 4 * k) = i_sectors i ! k" if "k < 13" for k
  proof -
    let ?h = "le32 (i_no i) @ le32 (i_size i) @ le32 (i_open_cnts i) @ [of_bool (write_deny i), 0, 0, 0]"
    have "inode_bytes i = ?h @ (concat (map le32 (i_sectors i)) @ replicate 8 0)" "length ?h = 16"
      by (simp_all add: inode_bytes_def)
    then have "u32_at (inode_bytes i) (16 + 4 * k) = u32_at (concat (map le32 (i_sectors i)) @ replicate 8 0) (4 * k)"
      using u32_at_skip[of ?h "16 + 4 * k"] by (metis add_diff_cancel_left' le_add1)
    also have "\<dots> = i_sectors i ! k mod 4294967296" using that wf by (intro words_at) (simp add: inode_wf_def)
    finally show ?thesis using that wf by (simp add: inode_wf_def)
  qed
  have "map (\<lambda>k. u32_at (inode_bytes i) (16 + 4 * k)) [0..<13] = i_sectors i"
    by (rule nth_equalityI) (use wf s in \<open>simp_all add: inode_wf_def\<close>)
  then show ?thesis by (simp add: inode_of_def u b)
qed

text \<open>The place of an inode in the table, and the inode that lies there.\<close>

definition inode_addr :: "fs \<Rightarrow> nat \<Rightarrow> nat" where
  "inode_addr f n = 512 * inode_table_lba (sb (cur_part f)) + sizeof_inode * n"

definition disk_inode :: "fs \<Rightarrow> nat \<Rightarrow> inode" where
  "disk_inode f n = inode_of (disk_bytes (medium f) (inode_addr f n) sizeof_inode)"

definition crosses :: "nat \<Rightarrow> bool" where
  "crosses n \<longleftrightarrow> 436 < 76 * n mod 512"

definition inode_place :: "fs \<Rightarrow> nat \<Rightarrow> bool" where
  "inode_place f n \<longleftrightarrow> n < 4096
     \<and> in_range (inode_table_lba (sb (cur_part f)) + 76 * n div 512) (if crosses n then 2 else 1)
     \<and> inode_table_lba (sb (cur_part f)) + 76 * n div 512 \<le> start_lba (cur_part f) + sec_cnt (cur_part f)"

lemma inode_locate_ok:
  "n < 4096 \<Longrightarrow> inode_locate n f = Some \<lparr>two_sec = crosses n, sec_lba = inode_table_lba (sb (cur_part f)) + 76 * n div 512, off_size = 76 * n mod 512\<rparr>"
  by (auto simp: inode_locate_def sizeof_inode_def crosses_def Let_def mult.commute)

lemma inode_addr_split: "inode_addr f n = 512 * (inode_table_lba (sb (cur_part f)) + 76 * n div 512) + 76 * n mod 512"
  unfolding inode_addr_def sizeof_inode_def add_mult_distrib2 add.assoc mult_div_mod_eq ..

lemma inode_room: "76 * n mod 512 + 76 \<le> 512 * (if crosses n then 2 else 1)"
  using mod_less_divisor[of 512 "76 * n"] by (auto simp: crosses_def simp del: mod_less_divisor)

definition pure_inode :: "inode \<Rightarrow> inode" where
  "pure_inode i = i\<lparr>i_open_cnts := 0, write_deny := False\<rparr>"

lemma inode_sync_ok:
  assumes "medium_ok (medium f)" "length (i_sectors i) = 13" "inode_place f (i_no i mod 256)"
    and "crosses (i_no i mod 256) \<Longrightarrow> 1024 \<le> buf_len"
  shows "\<exists>m'. inode_sync buf_len i f = Some (f\<lparr>medium := m'\<rparr>)
    \<and> replaced (inode_addr f (i_no i mod 256)) (inode_bytes (pure_inode i)) (medium f) m'"
proof -
  let ?n = "i_no i mod 256" and ?lba = "inode_table_lba (sb (cur_part f)) + 76 * (i_no i mod 256) div 512"
  let ?k = "if crosses ?n then 2 else 1 :: nat"
  have p: "?n < 4096" "in_range ?lba ?k" "?lba \<le> start_lba (cur_part f) + sec_cnt (cur_part f)"
    using assms(3) by (auto simp: inode_place_def)
  have l: "length (inode_bytes (pure_inode i)) = 76" using assms(2) by (simp add: pure_inode_def)
  have "76 * ?n mod 512 + length (inode_bytes (pure_inode i)) \<le> 512 * ?k" unfolding l by (rule inode_room)
  from rmw_ok[OF assms(1) p(2) this] obtain m' where
    "fs_write ?lba (blit (sectors (medium f) ?lba ?k) (76 * ?n mod 512) (inode_bytes (pure_inode i))) f = Some (f\<lparr>medium := m'\<rparr>)"
    "replaced (inode_addr f ?n) (inode_bytes (pure_inode i)) (medium f) m'" unfolding inode_addr_split by blast
  then show ?thesis using p(2,3) assms(4)
    by (intro exI[of _ m']) (simp add: inode_sync_def inode_locate_ok[OF p(1)] fs_read_ok pure_inode_def split: if_splits)
qed

text \<open>inode_delete clears the entry of an inode.\<close>

lemma inode_delete_ok:
  assumes "medium_ok (medium f)" "inode_place f n"
  shows "\<exists>m'. inode_delete n f = Some (f\<lparr>medium := m'\<rparr>) \<and> replaced (inode_addr f n) (replicate 76 0) (medium f) m'"
proof -
  let ?lba = "inode_table_lba (sb (cur_part f)) + 76 * n div 512" and ?k = "if crosses n then 2 else 1 :: nat"
  have p: "n < 4096" "in_range ?lba ?k" "?lba \<le> start_lba (cur_part f) + sec_cnt (cur_part f)"
    using assms(2) by (auto simp: inode_place_def)
  have "76 * n mod 512 + length (replicate 76 (0 :: u8)) \<le> 512 * ?k" using inode_room[of n] by simp
  from rmw_ok[OF assms(1) p(2) this] obtain m' where
    "fs_write ?lba (blit (sectors (medium f) ?lba ?k) (76 * n mod 512) (replicate 76 0)) f = Some (f\<lparr>medium := m'\<rparr>)"
    "replaced (inode_addr f n) (replicate 76 0) (medium f) m'" unfolding inode_addr_split by blast
  then show ?thesis using p by (intro exI[of _ m']) (simp add: inode_delete_def inode_locate_ok fs_read_ok sizeof_inode_def split: if_splits)
qed

lemma inode_addr_disjoint: "n \<noteq> k \<Longrightarrow> inode_addr f n + 76 \<le> inode_addr f k \<or> inode_addr f k + 76 \<le> inode_addr f n"
  by (auto simp: inode_addr_def sizeof_inode_def)

lemma disk_inode_replaced:
  assumes "replaced (inode_addr f n) xs (medium f) m'" "length xs = 76"
  shows "disk_inode (f\<lparr>medium := m'\<rparr>) k = (if k = n then inode_of xs else disk_inode f k)"
  using replacedD(2)[OF assms(1)] replacedD(3)[OF assms(1), of "inode_addr f k" 76] inode_addr_disjoint[of n k f] assms(2)
  by (auto simp: disk_inode_def sizeof_inode_def inode_addr_def)

lemma inode_open_fresh:
  assumes "medium_ok (medium f)" "inode_place f n" "find_open n (open_inodes (cur_part f)) f = Some None"
    and "mallocs f (nmalloc f)" "mallocs f (nmalloc f + 1)"
  shows "inode_open n f = Some (nmalloc f + 1, f\<lparr>cur_part := (cur_part f)\<lparr>open_inodes := (nmalloc f + 1) # open_inodes (cur_part f)\<rparr>,
    inodes := (inodes f)(nmalloc f + 1 \<mapsto> (disk_inode f n)\<lparr>i_open_cnts := 1\<rparr>), nmalloc := nmalloc f + 2\<rparr>)"
proof -
  let ?lba = "inode_table_lba (sb (cur_part f)) + 76 * n div 512" and ?k = "if crosses n then 2 else 1 :: nat"
  have p: "n < 4096" "in_range ?lba ?k" using assms(2) by (auto simp: inode_place_def)
  have "sub_buf (sectors (medium f) ?lba ?k) (76 * n mod 512) 76 = disk_bytes (medium f) (inode_addr f n) 76"
    unfolding sectors_bytes[OF assms(1)] inode_addr_split using inode_room[of n] by (rule sub_disk_bytes)
  then show ?thesis using assms(3,4,5) p
    by (simp add: inode_open_def inode_locate_ok kmalloc_def fs_read_ok set_inode_def disk_inode_def sizeof_inode_def)
qed

lemma inode_open_again:
  assumes "find_open n (open_inodes (cur_part f)) f = Some (Some p)" "inodes f p = Some i"
  shows "inode_open n f = Some (p, set_inode p (i\<lparr>i_open_cnts := W32 (i_open_cnts i + 1)\<rparr>) f)"
  using assms by (simp add: inode_open_def)

section \<open>Properties\<close>

text \<open>A partition of 4096 sectors with an empty table of inodes at sector 10.\<close>

definition fs1 :: fs where
  "fs1 = \<lparr>medium = (\<lambda>k. replicate 512 0),
     cur_part = \<lparr>start_lba = 1, sec_cnt = 4096,
       sb = \<lparr>magic = 0x19970630, sb_sec_cnt = 4096, inode_cnt = 4096, part_lba_base = 1, block_bitmap_lba = 3, block_bitmap_sects = 1,
         inode_bitmap_lba = 4, inode_bitmap_sects = 1, inode_table_lba = 10, inode_table_sects = 608, data_start_lba = 618,
         root_inode_no = 0, dir_entry_size = 24\<rparr>,
       block_bitmap = \<lparr>btmp_bytes_len = 512, bits = (\<lambda>k. if k = 0 then 1 else 0)\<rparr>,
       inode_bitmap = \<lparr>btmp_bytes_len = 512, bits = (\<lambda>k. if k = 0 then 1 else 0)\<rparr>, open_inodes = []\<rparr>,
     inodes = (\<lambda>_. None), dirs = (\<lambda>_. None), file_table = replicate 32 \<lparr>fd_pos = 0, fd_flag = 0, fd_inode = None\<rparr>,
     fd_table = [0, 1, 2, -1, -1, -1, -1, -1], cwd_inode_nr = 0, mallocs = (\<lambda>_. True), nmalloc = 0\<rparr>"

lemma fs1_ok: "medium_ok (medium fs1)" "n < 300 \<Longrightarrow> inode_place fs1 n"
proof -
  show "medium_ok (medium fs1)" by (simp add: medium_ok_def fs1_def)
  assume "n < 300"
  then have "76 * n div 512 \<le> 45" by (simp add: div_le_mono less_Suc_eq_le[symmetric] div_less_iff_less_mult)
  then show "inode_place fs1 n" using \<open>n < 300\<close> by (simp add: inode_place_def in_range_def fs1_def max_lba_def)
qed



text \<open>C20: \<open>inode_sync\<close> writes the inode, without its open count and its write lock, to entry \<open>i_no mod 256\<close>
  of the inode table and changes no other entry, so an inode from 256 on overwrites that of another
  file (its number passes through a \<open>uint8_t\<close>); with a buffer of one sector, an entry that crosses a
  sector boundary runs past the buffer.\<close>
theorem inode_sync_correct:
  assumes "medium_ok (medium f)" "inode_wf i" "inode_place f (i_no i mod 256)"
  shows "if crosses (i_no i mod 256) \<and> buf_len < 1024 then inode_sync buf_len i f = None
    else \<exists>f1. inode_sync buf_len i f = Some f1
      \<and> (\<forall>n. disk_inode f1 n = (if n = i_no i mod 256 then pure_inode i else disk_inode f n))"
proof (cases "crosses (i_no i mod 256) \<and> buf_len < 1024")
  case True
  then show ?thesis using assms(3) by (simp add: inode_sync_def inode_locate_ok inode_place_def)
next
  case False
  have w: "inode_wf (pure_inode i)" using assms(2) by (simp add: inode_wf_def pure_inode_def)
  then have "length (inode_bytes (pure_inode i)) = 76" by (simp add: inode_wf_def)
  moreover obtain m' where "inode_sync buf_len i f = Some (f\<lparr>medium := m'\<rparr>)"
    "replaced (inode_addr f (i_no i mod 256)) (inode_bytes (pure_inode i)) (medium f) m'"
    using inode_sync_ok[OF assms(1) _ assms(3), of buf_len] assms(2) False by (auto simp: inode_wf_def)
  ultimately have "inode_sync buf_len i f = Some (f\<lparr>medium := m'\<rparr>)
      \<and> (\<forall>n. disk_inode (f\<lparr>medium := m'\<rparr>) n = (if n = i_no i mod 256 then pure_inode i else disk_inode f n))"
    using disk_inode_replaced inode_of_bytes[OF w] by simp
  then show ?thesis unfolding if_not_P[OF False] by blast
qed

definition inode258 :: inode where
  "inode258 = \<lparr>i_no = 258, i_size = 5, i_open_cnts = 2, write_deny = True, i_sectors = 700 # replicate 12 0\<rparr>"

theorem inode_sync_witness: "\<exists>f1. inode_sync 1024 inode258 fs1 = Some f1 \<and> i_no (disk_inode f1 2) = 258"
proof -
  have "inode_wf inode258" by (simp add: inode_wf_def inode258_def)
  moreover have "inode_place fs1 (i_no inode258 mod 256)" by (rule fs1_ok) (simp add: inode258_def)
  ultimately show ?thesis using inode_sync_correct[OF fs1_ok(1), of inode258 1024] by (auto simp: inode258_def pure_inode_def)
qed



end
