(* ===== verification/Dir.thy ===== *)
theory Dir
  imports Inode Path
begin

text \<open>
  dir.c: directories as arrays of entries of 24 bytes, 21 to a block. A name on disk is compared as
  the C string that begins at its first byte, so a name of 16 bytes runs on into the number behind it.
  The code takes the size of an entry from the super block and steps by \<open>sizeof\<close>; every file system it
  formats has 24 there, and with another number a copy of an entry has no defined result here.
\<close>

definition FT_UNKNOWN :: nat where "FT_UNKNOWN = 0"
definition FT_REGULAR :: nat where "FT_REGULAR = 1"
definition FT_DIRECTORY :: nat where "FT_DIRECTORY = 2"

record dir_entry =
  filename :: "u8 list"
  e_ino :: nat
  f_type :: nat

definition sizeof_dir_entry :: nat where
  "sizeof_dir_entry = 24"

definition entry_bytes :: "dir_entry \<Rightarrow> u8 list" where
  "entry_bytes e = filename e @ le32 (e_ino e) @ le32 (f_type e)"

definition entry_at :: "u8 list \<Rightarrow> nat \<Rightarrow> dir_entry" where
  "entry_at bs k = (let e = sub_buf bs (sizeof_dir_entry * k) sizeof_dir_entry in
     \<lparr>filename = take 16 e, e_ino = u32_at e 16, f_type = u32_at e 20\<rparr>)"

definition entry_size :: "fs \<Rightarrow> nat option" where
  "entry_size f = do { ASSERT (dir_entry_size (sb (cur_part f)) = sizeof_dir_entry); Some sizeof_dir_entry }"

text \<open>strcmp of the string at the start of the bytes with a name, as far as it reads.\<close>

fun streq :: "u8 list \<Rightarrow> cstring \<Rightarrow> bool option" where
  "streq [] name = None"
| "streq (c # cs) [] = Some (c = 0)"
| "streq (c # cs) (d # ds) = (if c = d then streq cs ds else Some False)"

definition entry_is :: "u8 list \<Rightarrow> nat \<Rightarrow> cstring \<Rightarrow> bool option" where
  "entry_is bs k name = streq (drop (sizeof_dir_entry * k) bs) name"

section \<open>Opening and closing\<close>

definition open_root_dir :: "fs \<Rightarrow> fs option" where
  "open_root_dir f =
     do {
       (p, f) \<leftarrow> inode_open (root_inode_no (sb (cur_part f))) f;
       Some (f\<lparr>dirs := (dirs f)(0 := Some \<lparr>dir_inode = p, dir_pos = 0, dir_buf = replicate 512 0\<rparr>)\<rparr>)
     }"

definition dir_open :: "nat \<Rightarrow> fs \<Rightarrow> (nat \<times> fs) option" where
  "dir_open inode_no f =
     (let (q, f) = kmalloc f in
      do {
        pdir \<leftarrow> q;
        (p, f) \<leftarrow> inode_open inode_no f;
        Some (pdir, f\<lparr>dirs := (dirs f)(pdir := Some \<lparr>dir_inode = p, dir_pos = 0, dir_buf = replicate 512 0\<rparr>)\<rparr>)
      })"

definition dir_close :: "nat \<Rightarrow> fs \<Rightarrow> fs option" where
  "dir_close d f =
     (if d = 0 then Some f
      else do {
        dd \<leftarrow> dirs f d;
        f \<leftarrow> inode_close (dir_inode dd) f;
        Some (f\<lparr>dirs := (dirs f)(d := None)\<rparr>)
      })"

definition inode_of_dir :: "nat \<Rightarrow> fs \<Rightarrow> (nat \<times> inode) option" where
  "inode_of_dir d f = do { dd \<leftarrow> dirs f d; i \<leftarrow> inodes f (dir_inode dd); Some (dir_inode dd, i) }"

section \<open>Search\<close>

fun find_entry :: "cstring \<Rightarrow> u8 list \<Rightarrow> nat list \<Rightarrow> dir_entry option option" where
  "find_entry name bs [] = Some None"
| "find_entry name bs (k # ks) =
     do { e \<leftarrow> entry_is bs k name; if e then Some (Some (entry_at bs k)) else find_entry name bs ks }"

fun search_blocks :: "cstring \<Rightarrow> nat option \<Rightarrow> nat list \<Rightarrow> fs \<Rightarrow> dir_entry option option" where
  "search_blocks name buf [] f = Some None"
| "search_blocks name buf (b # bs) f =
     (if b = 0 then search_blocks name buf bs f
      else do {
        ASSERT (buf \<noteq> None);
        s \<leftarrow> fs_read b 1 f;
        des \<leftarrow> entry_size f;
        r \<leftarrow> find_entry name s [0..<512 div des];
        case r of Some e \<Rightarrow> Some (Some e) | None \<Rightarrow> search_blocks name buf bs f
      })"

definition search_dir_entry :: "nat \<Rightarrow> cstring \<Rightarrow> fs \<Rightarrow> (dir_entry option \<times> fs) option" where
  "search_dir_entry pdir name f =
     (let (q, f) = kmalloc f in
      if q = None then Some (None, f)
      else do {
        (_, i) \<leftarrow> inode_of_dir pdir f;
        indirect \<leftarrow> (if i_sectors i ! 12 \<noteq> 0 then map_option table_of (fs_read (i_sectors i ! 12) 1 f) else Some (replicate 128 0));
        let (buf, f) = kmalloc f in do {
          r \<leftarrow> search_blocks name buf (take 12 (i_sectors i) @ indirect) f;
          Some (r, f)
        }
      })"

section \<open>Adding an entry\<close>

definition create_dir_entry :: "cstring \<Rightarrow> nat \<Rightarrow> nat \<Rightarrow> dir_entry option" where
  "create_dir_entry name inode_no file_type =
     do {
       ASSERT (length name \<le> MAX_FILE_NAME_LEN);
       Some \<lparr>filename = name @ replicate (MAX_FILE_NAME_LEN - length name) 0, e_ino = inode_no, f_type = file_type\<rparr>
     }"

fun free_slot :: "u8 list \<Rightarrow> nat list \<Rightarrow> nat option" where
  "free_slot bs [] = None"
| "free_slot bs (k # ks) = (if f_type (entry_at bs k) = FT_UNKNOWN then Some k else free_slot bs ks)"

definition set_sector :: "nat \<Rightarrow> nat \<Rightarrow> nat \<Rightarrow> fs \<Rightarrow> fs option" where
  "set_sector p k lba f = do { i \<leftarrow> inodes f p; Some (set_inode p (i\<lparr>i_sectors := (i_sectors i)[k := lba]\<rparr>) f) }"

definition grow_size :: "nat \<Rightarrow> nat \<Rightarrow> fs \<Rightarrow> fs option" where
  "grow_size p n f = do { i \<leftarrow> inodes f p; Some (set_inode p (i\<lparr>i_size := W32 (i_size i + n)\<rparr>) f) }"

text \<open>The branch for a block that the directory does not have yet: the block number it gets, or
  \<open>None\<close> when there is none.\<close>

definition add_dir_block :: "nat \<Rightarrow> nat \<Rightarrow> nat list \<Rightarrow> fs \<Rightarrow> (nat option \<times> fs) option" where
  "add_dir_block p block_idx all_blocks f =
     do {
       (r, f) \<leftarrow> block_bitmap_alloc f;
       if r = -1 then Some (None, f)
       else let lba = nat r in do {
         f \<leftarrow> bitmap_sync (block_idx_of lba f) BLOCK_BITMAP f;
         if block_idx < 12 then do { f \<leftarrow> set_sector p block_idx lba f; Some (Some lba, f) }
         else if block_idx = 12 then do {
           f \<leftarrow> set_sector p 12 lba f;
           (r2, f) \<leftarrow> block_bitmap_alloc f;
           if r2 = -1 then do {
             f \<leftarrow> set_block_bit (block_idx_of lba f) 0 f;
             f \<leftarrow> set_sector p 12 0 f;
             Some (None, f)
           }
           else do {
             f \<leftarrow> bitmap_sync (block_idx_of (nat r2) f) BLOCK_BITMAP f;
             f \<leftarrow> fs_write lba (table_bytes ((drop 12 all_blocks)[0 := nat r2])) f;
             Some (Some (nat r2), f)
           }
         }
         else do {
           i \<leftarrow> inodes f p;
           f \<leftarrow> fs_write (i_sectors i ! 12) (table_bytes ((drop 12 all_blocks)[block_idx - 12 := lba])) f;
           Some (Some lba, f)
         }
       }
     }"

fun sync_loop :: "nat \<Rightarrow> dir_entry \<Rightarrow> nat list \<Rightarrow> nat list \<Rightarrow> fs \<Rightarrow> (bool \<times> fs) option" where
  "sync_loop p e [] all_blocks f = Some (False, f)"
| "sync_loop p e (block_idx # ks) all_blocks f =
     do {
       des \<leftarrow> entry_size f;
       if all_blocks ! block_idx = 0
       then do {
         (r, f) \<leftarrow> add_dir_block p block_idx all_blocks f;
         case r of None \<Rightarrow> Some (False, f)
         | Some lba \<Rightarrow> do {
             f \<leftarrow> fs_write lba (blit (replicate 512 0) 0 (entry_bytes e)) f;
             f \<leftarrow> grow_size p des f;
             Some (True, f)
           }
       }
       else do {
         s \<leftarrow> fs_read (all_blocks ! block_idx) 1 f;
         case free_slot s [0..<512 div des] of
           Some k \<Rightarrow> do {
             f \<leftarrow> fs_write (all_blocks ! block_idx) (blit s (sizeof_dir_entry * k) (entry_bytes e)) f;
             f \<leftarrow> grow_size p des f;
             Some (True, f)
           }
         | None \<Rightarrow> sync_loop p e ks all_blocks f
       }
     }"

text \<open>The numbers of the indirect blocks are not read: the entries from 12 on are always 0 at first.\<close>

definition sync_dir_entry :: "nat \<Rightarrow> dir_entry \<Rightarrow> fs \<Rightarrow> (bool \<times> fs) option" where
  "sync_dir_entry parent_dir e f =
     do {
       (p, i) \<leftarrow> inode_of_dir parent_dir f;
       des \<leftarrow> entry_size f;
       ASSERT (i_size i mod des = 0);
       sync_loop p e [0..<140] (take 12 (i_sectors i) @ replicate 128 0) f
     }"

section \<open>Deleting an entry\<close>

text \<open>The walk over the entries of a block: the entry to delete, how many entries besides dots there
  are, and whether the block is the first one, with \<open>.\<close> in it.\<close>

fun count_entries :: "u8 list \<Rightarrow> nat \<Rightarrow> nat list \<Rightarrow> nat option \<Rightarrow> nat \<Rightarrow> bool \<Rightarrow> (nat option \<times> nat \<times> bool) option" where
  "count_entries bs inode_no [] found cnt is_first = Some (found, cnt, is_first)"
| "count_entries bs inode_no (k # ks) found cnt is_first =
     (if f_type (entry_at bs k) \<noteq> FT_UNKNOWN
      then do {
        dot \<leftarrow> entry_is bs k [DOT];
        if dot then count_entries bs inode_no ks found cnt True
        else do {
          dotdot \<leftarrow> entry_is bs k [DOT, DOT];
          if dotdot then count_entries bs inode_no ks found cnt is_first
          else if e_ino (entry_at bs k) = inode_no
          then do { ASSERT (found = None); count_entries bs inode_no ks (Some k) (cnt + 1) is_first }
          else count_entries bs inode_no ks found (cnt + 1) is_first
        }
      }
      else count_entries bs inode_no ks found cnt is_first)"

text \<open>The removal from a block. In an indirect block that becomes empty the count of the other ones
  never ends: its index is not advanced.\<close>

definition remove_entry :: "nat \<Rightarrow> nat \<Rightarrow> nat \<Rightarrow> nat \<Rightarrow> u8 list \<Rightarrow> nat \<Rightarrow> bool \<Rightarrow> fs \<Rightarrow> fs option" where
  "remove_entry p block_idx lba k bs cnt is_first f =
     do {
       ASSERT (1 \<le> cnt);
       des \<leftarrow> entry_size f;
       f \<leftarrow> (if cnt = 1 \<and> \<not> is_first
             then do {
               f \<leftarrow> set_block_bit (block_idx_of lba f) 0 f;
               f \<leftarrow> bitmap_sync (block_idx_of lba f) BLOCK_BITMAP f;
               ASSERT (block_idx < 12);
               set_sector p block_idx 0 f
             }
             else fs_write lba (blit bs (sizeof_dir_entry * k) (replicate des 0)) f);
       i \<leftarrow> inodes f p;
       ASSERT (des \<le> i_size i);
       let i = i\<lparr>i_size := i_size i - des\<rparr> in
       inode_sync 1024 i (set_inode p i f)
     }"

fun delete_loop :: "nat \<Rightarrow> nat \<Rightarrow> nat list \<Rightarrow> nat list \<Rightarrow> fs \<Rightarrow> (bool \<times> fs) option" where
  "delete_loop p inode_no [] all_blocks f = Some (False, f)"
| "delete_loop p inode_no (block_idx # ks) all_blocks f =
     (if all_blocks ! block_idx = 0 then delete_loop p inode_no ks all_blocks f
      else do {
        des \<leftarrow> entry_size f;
        s \<leftarrow> fs_read (all_blocks ! block_idx) 1 f;
        (found, cnt, is_first) \<leftarrow> count_entries s inode_no [0..<512 div des] None 0 False;
        case found of
          None \<Rightarrow> delete_loop p inode_no ks all_blocks f
        | Some k \<Rightarrow> do { f \<leftarrow> remove_entry p block_idx (all_blocks ! block_idx) k s cnt is_first f; Some (True, f) }
      })"

definition delete_dir_entry :: "nat \<Rightarrow> nat \<Rightarrow> fs \<Rightarrow> (bool \<times> fs) option" where
  "delete_dir_entry pdir inode_no f =
     do {
       (p, i) \<leftarrow> inode_of_dir pdir f;
       indirect \<leftarrow> (if i_sectors i ! 12 \<noteq> 0 then map_option table_of (fs_read (i_sectors i ! 12) 1 f) else Some (replicate 128 0));
       delete_loop p inode_no [0..<140] (take 12 (i_sectors i) @ indirect) f
     }"

section \<open>Reading a directory\<close>

text \<open>The entries of a block up to the one at the position of the directory; \<open>cur\<close> is the position of
  the entries walked over.\<close>

fun skip_entries :: "u8 list \<Rightarrow> nat \<Rightarrow> nat \<Rightarrow> nat list \<Rightarrow> nat \<Rightarrow> (nat option \<times> nat) option" where
  "skip_entries bs des pos [] cur = Some (None, cur)"
| "skip_entries bs des pos (k # ks) cur =
     (if f_type (entry_at bs k) \<noteq> FT_UNKNOWN
      then if cur < pos then skip_entries bs des pos ks (cur + des)
        else do { ASSERT (cur = pos); Some (Some k, cur) }
      else skip_entries bs des pos ks cur)"

fun read_loop :: "nat \<Rightarrow> dir \<Rightarrow> inode \<Rightarrow> nat list \<Rightarrow> nat \<Rightarrow> fs \<Rightarrow> (dir_entry option \<times> fs) option" where
  "read_loop d dd i [] cur f = Some (None, f)"
| "read_loop d dd i (b # bs) cur f =
     (if i_size i \<le> dir_pos dd then Some (None, f)
      else if b = 0 then read_loop d dd i bs cur f
      else do {
        des \<leftarrow> entry_size f;
        s \<leftarrow> fs_read b 1 f;
        let dd = dd\<lparr>dir_buf := s\<rparr>; f = f\<lparr>dirs := (dirs f)(d := Some dd)\<rparr> in do {
          (r, cur) \<leftarrow> skip_entries s des (dir_pos dd) [0..<512 div des] cur;
          case r of
            Some k \<Rightarrow> Some (Some (entry_at s k), f\<lparr>dirs := (dirs f)(d := Some (dd\<lparr>dir_pos := W32 (dir_pos dd + des)\<rparr>))\<rparr>)
          | None \<Rightarrow> read_loop d dd i bs cur f
        }
      })"

definition dir_read :: "nat \<Rightarrow> fs \<Rightarrow> (dir_entry option \<times> fs) option" where
  "dir_read d f =
     do {
       dd \<leftarrow> dirs f d;
       i \<leftarrow> inodes f (dir_inode dd);
       all_blocks \<leftarrow> (if i_sectors i ! 12 \<noteq> 0
         then map_option (\<lambda>t. take 12 (i_sectors i) @ table_of t) (fs_read (i_sectors i ! 12) 1 f)
         else Some (take 12 (i_sectors i)));
       read_loop d dd i all_blocks 0 f
     }"

definition dir_is_empty :: "nat \<Rightarrow> fs \<Rightarrow> bool option" where
  "dir_is_empty d f =
     do { (_, i) \<leftarrow> inode_of_dir d f; Some (i_size i = dir_entry_size (sb (cur_part f)) * 2) }"

definition dir_remove :: "nat \<Rightarrow> nat \<Rightarrow> fs \<Rightarrow> (int \<times> fs) option" where
  "dir_remove parent_dir child_dir f =
     do {
       (_, i) \<leftarrow> inode_of_dir child_dir f;
       ASSERT (\<forall>k \<in> {1..<13}. i_sectors i ! k = 0);
       let (io_buf, f) = kmalloc f in
       if io_buf = None then Some (-1, f)
       else do {
         (_, f) \<leftarrow> delete_dir_entry parent_dir (i_no i) f;
         f \<leftarrow> inode_release (i_no i) f;
         Some (0, f)
       }
     }"

end
