(* ===== verification/File.thy ===== *)
theory File
  imports Dir
begin

text \<open>
  file.c: the table of open files and the transfer between a file and a buffer. A file is the index of
  its entry in \<open>file_table\<close>. The bytes a caller passes are a list and \<open>count\<close> is its length. The block
  numbers of a transfer, \<open>all_blocks\<close> in the code, are a list of 140 that starts with zeros, as sys_malloc
  clears what it returns; blocks that the transfer does not use stay 0 in it. A result -1 is the -1 of
  the code.
\<close>

definition MAX_FILE_OPEN :: nat where "MAX_FILE_OPEN = 32"

definition O_WRONLY :: nat where "O_WRONLY = 1"
definition O_RDWR :: nat where "O_RDWR = 2"
definition O_CREAT :: nat where "O_CREAT = 4"

section \<open>Descriptors\<close>

fun free_index :: "('a \<Rightarrow> bool) \<Rightarrow> 'a list \<Rightarrow> nat list \<Rightarrow> int" where
  "free_index P xs [] = -1"
| "free_index P xs (k # ks) = (if P (xs ! k) then int k else free_index P xs ks)"

definition get_free_slot_in_global :: "fs \<Rightarrow> int" where
  "get_free_slot_in_global f = free_index (\<lambda>e. fd_inode e = None) (file_table f) [3..<MAX_FILE_OPEN]"

definition pcb_fd_install :: "int \<Rightarrow> fs \<Rightarrow> int \<times> fs" where
  "pcb_fd_install globa_fd_idx f =
     (let local_fd_idx = free_index (\<lambda>g. g = -1) (fd_table f) [3..<MAX_FILES_OPEN_PER_PROC] in
      if local_fd_idx = -1 then (-1, f)
      else (local_fd_idx, f\<lparr>fd_table := (fd_table f)[nat local_fd_idx := globa_fd_idx]\<rparr>))"

definition set_file :: "nat \<Rightarrow> open_file \<Rightarrow> fs \<Rightarrow> fs" where
  "set_file k e f = f\<lparr>file_table := (file_table f)[k := e]\<rparr>"

section \<open>Creating, opening, closing\<close>

text \<open>The rollback of file_create: step 2 frees the inode and falls through to step 1, which gives the
  number back.\<close>

definition create_rollback :: "nat \<Rightarrow> nat \<Rightarrow> fs \<Rightarrow> (int \<times> fs) option" where
  "create_rollback p inode_no f =
     do { f \<leftarrow> set_inode_bit inode_no 0 (f\<lparr>inodes := (inodes f)(p := None)\<rparr>); Some (-1, f) }"

definition file_create :: "nat \<Rightarrow> cstring \<Rightarrow> nat \<Rightarrow> fs \<Rightarrow> (int \<times> fs) option" where
  "file_create parent_dir name flag f =
     (let (io_buf, f) = kmalloc f in
      if io_buf = None then Some (-1, f)
      else do {
        (inode_no, f) \<leftarrow> inode_bitmap_alloc f;
        if inode_no = -1 then Some (-1, f)
        else let (q, f) = kmalloc f in
          case q of None \<Rightarrow> do { f \<leftarrow> set_inode_bit (nat inode_no) 0 f; Some (-1, f) }
          | Some p \<Rightarrow>
              let f = set_inode p (inode_init (nat inode_no)) f; fd_idx = get_free_slot_in_global f in
              if fd_idx = -1 then create_rollback p (nat inode_no) f
              else let f = set_file (nat fd_idx) \<lparr>fd_pos = 0, fd_flag = flag, fd_inode = Some p\<rparr> f in do {
                e \<leftarrow> create_dir_entry name (nat inode_no) FT_REGULAR;
                (ok, f) \<leftarrow> sync_dir_entry parent_dir e f;
                if \<not> ok then create_rollback p (nat inode_no) (set_file (nat fd_idx) \<lparr>fd_pos = 0, fd_flag = 0, fd_inode = None\<rparr> f)
                else do {
                  (_, pi) \<leftarrow> inode_of_dir parent_dir f;
                  f \<leftarrow> inode_sync 1024 pi f;
                  i \<leftarrow> inodes f p;
                  f \<leftarrow> inode_sync 1024 i f;
                  f \<leftarrow> bitmap_sync (nat inode_no) INODE_BITMAP f;
                  Some (pcb_fd_install fd_idx
                    ((set_inode p (i\<lparr>i_open_cnts := 1\<rparr>) f)\<lparr>cur_part := (cur_part f)\<lparr>open_inodes := p # open_inodes (cur_part f)\<rparr>\<rparr>))
                }
              }
      })"

definition file_open :: "nat \<Rightarrow> nat \<Rightarrow> fs \<Rightarrow> (int \<times> fs) option" where
  "file_open inode_no flag f =
     (let fd_idx = get_free_slot_in_global f in
      if fd_idx = -1 then Some (-1, f)
      else do {
        (p, f) \<leftarrow> inode_open inode_no f;
        let f = set_file (nat fd_idx) \<lparr>fd_pos = 0, fd_flag = flag, fd_inode = Some p\<rparr> f in
        if flag = O_WRONLY \<or> flag = O_RDWR
        then do {
          i \<leftarrow> inodes f p;
          if \<not> write_deny i then Some (pcb_fd_install fd_idx (set_inode p (i\<lparr>write_deny := True\<rparr>) f))
          else Some (-1, f)
        }
        else Some (pcb_fd_install fd_idx f)
      })"

definition file_close :: "nat option \<Rightarrow> fs \<Rightarrow> (int \<times> fs) option" where
  "file_close fd f =
     (case fd of None \<Rightarrow> Some (-1, f)
      | Some k \<Rightarrow> do {
          p \<leftarrow> fd_inode (file_table f ! k);
          i \<leftarrow> inodes f p;
          f \<leftarrow> inode_close p (set_inode p (i\<lparr>write_deny := False\<rparr>) f);
          Some (0, set_file k ((file_table f ! k)\<lparr>fd_inode := None\<rparr>) f)
        })"

section \<open>Writing\<close>

text \<open>The first block of a file that has none; the flag says whether there was one.\<close>

definition first_block :: "nat \<Rightarrow> fs \<Rightarrow> (bool \<times> fs) option" where
  "first_block p f =
     do {
       i \<leftarrow> inodes f p;
       if i_sectors i ! 0 = 0
       then do {
         (block_lba, f) \<leftarrow> block_bitmap_alloc f;
         if block_lba = -1 then Some (False, f)
         else do {
           f \<leftarrow> set_sector p 0 (nat block_lba) f;
           ASSERT (block_idx_of (nat block_lba) f \<noteq> 0);
           f \<leftarrow> bitmap_sync (block_idx_of (nat block_lba) f) BLOCK_BITMAP f;
           Some (True, f)
         }
       }
       else Some (True, f)
     }"

text \<open>The loop of the three situations that take new blocks; a direct block is entered in the inode.\<close>

fun grow_blocks :: "nat \<Rightarrow> nat list \<Rightarrow> nat list \<Rightarrow> fs \<Rightarrow> (bool \<times> nat list \<times> fs) option" where
  "grow_blocks p [] all_blocks f = Some (True, all_blocks, f)"
| "grow_blocks p (block_idx # ks) all_blocks f =
     do {
       (block_lba, f) \<leftarrow> block_bitmap_alloc f;
       if block_lba = -1 then Some (False, all_blocks, f)
       else do {
         f \<leftarrow> (if block_idx < 12
               then do { i \<leftarrow> inodes f p; ASSERT (i_sectors i ! block_idx = 0); set_sector p block_idx (nat block_lba) f }
               else Some f);
         f \<leftarrow> bitmap_sync (block_idx_of (nat block_lba) f) BLOCK_BITMAP f;
         grow_blocks p ks (all_blocks[block_idx := nat block_lba]) f
       }
     }"

text \<open>The block numbers a write of \<open>count\<close> bytes uses; the flag is False when the disk is full.\<close>

definition collect_write :: "nat \<Rightarrow> nat \<Rightarrow> fs \<Rightarrow> (bool \<times> nat list \<times> fs) option" where
  "collect_write p count f =
     do {
       i \<leftarrow> inodes f p;
       let has = i_size i div 512 + 1; will = W32 (i_size i + count) div 512 + 1; all_blocks = replicate 140 0 in do {
         ASSERT (will \<le> 140);
         if will = has
         then if has \<le> 12 then Some (True, all_blocks[has - 1 := i_sectors i ! (has - 1)], f)
           else do {
             ASSERT (i_sectors i ! 12 \<noteq> 0);
             t \<leftarrow> fs_read (i_sectors i ! 12) 1 f;
             Some (True, blit all_blocks 12 (table_of t), f)
           }
         else if will \<le> 12
         then do {
           ASSERT (i_sectors i ! (has - 1) \<noteq> 0);
           grow_blocks p [has..<will] (all_blocks[has - 1 := i_sectors i ! (has - 1)]) f
         }
         else if has \<le> 12
         then do {
           (block_lba, f) \<leftarrow> block_bitmap_alloc f;
           if block_lba = -1 then Some (False, all_blocks, f)
           else do {
             ASSERT (i_sectors i ! 12 = 0);
             f \<leftarrow> set_sector p 12 (nat block_lba) f;
             (ok, all_blocks, f) \<leftarrow> grow_blocks p [has..<will] (all_blocks[has - 1 := i_sectors i ! (has - 1)]) f;
             if \<not> ok then Some (False, all_blocks, f)
             else do {
               f \<leftarrow> fs_write (nat block_lba) (table_bytes (drop 12 all_blocks)) f;
               Some (True, all_blocks, f)
             }
           }
         }
         else do {
           ASSERT (i_sectors i ! 12 \<noteq> 0);
           t \<leftarrow> fs_read (i_sectors i ! 12) 1 f;
           (ok, all_blocks, f) \<leftarrow> grow_blocks p [has..<will] (blit all_blocks 12 (table_of t)) f;
           if \<not> ok then Some (False, all_blocks, f)
           else do {
             f \<leftarrow> fs_write (i_sectors i ! 12) (table_bytes (drop 12 all_blocks)) f;
             Some (True, all_blocks, f)
           }
         }
       }
     }"

text \<open>The transfer, a sector at a time; \<open>src\<close> is what is left to write. The chunk is never empty.\<close>

definition chunk_size :: "nat \<Rightarrow> nat \<Rightarrow> nat" where
  "chunk_size size_left pos = (let sec_left_bytes = 512 - pos mod 512 in if size_left < sec_left_bytes then size_left else sec_left_bytes)"

lemma chunk_size_pos [simp]: "0 < n \<Longrightarrow> 0 < chunk_size n pos"
  by (simp add: chunk_size_def Let_def)

lemma chunk_size_le: "chunk_size n pos \<le> n" "chunk_size n pos + pos mod 512 \<le> 512"
  using mod_less_divisor[of 512 pos] by (auto simp: chunk_size_def Let_def simp del: mod_less_divisor)

function write_loop :: "nat \<Rightarrow> nat \<Rightarrow> nat list \<Rightarrow> bool \<Rightarrow> u8 list \<Rightarrow> fs \<Rightarrow> fs option" where
  "write_loop k p all_blocks first_write_block src f =
     (if src = [] then Some f
      else do {
        i \<leftarrow> inodes f p;
        let sec_idx = i_size i div 512; sec_lba = all_blocks ! sec_idx; chunk = chunk_size (length src) (i_size i) in do {
          ASSERT (sec_idx < 140);
          io_buf \<leftarrow> (if first_write_block then fs_read sec_lba 1 f else Some (replicate 512 0));
          f \<leftarrow> fs_write sec_lba (blit io_buf (i_size i mod 512) (take chunk src)) f;
          let f = set_inode p (i\<lparr>i_size := W32 (i_size i + chunk)\<rparr>) f;
              f = set_file k ((file_table f ! k)\<lparr>fd_pos := W32 (fd_pos (file_table f ! k) + chunk)\<rparr>) f
          in write_loop k p all_blocks False (drop chunk src) f
        }
      })"
  by pat_completeness auto
termination by (relation "measure (\<lambda>(k, p, all_blocks, first_write_block, src, f). length src)") auto

declare write_loop.simps [simp del]

definition file_write :: "nat \<Rightarrow> u8 list \<Rightarrow> fs \<Rightarrow> (int \<times> fs) option" where
  "file_write k buf f =
     do {
       p \<leftarrow> fd_inode (file_table f ! k);
       i \<leftarrow> inodes f p;
       if 71680 < W32 (i_size i + length buf) then Some (-1, f)
       else let (io_buf, f) = kmalloc f in
       if io_buf = None then Some (-1, f)
       else let (blocks, f) = kmalloc f in
       if blocks = None then Some (-1, f)
       else do {
         (ok, f) \<leftarrow> first_block p f;
         if \<not> ok then Some (-1, f)
         else do {
           (ok, all_blocks, f) \<leftarrow> collect_write p (length buf) f;
           if \<not> ok then Some (-1, f)
           else do {
             f \<leftarrow> write_loop k p all_blocks True buf (set_file k ((file_table f ! k)\<lparr>fd_pos := W32 (i_size i + 4294967295)\<rparr>) f);
             i \<leftarrow> inodes f p;
             f \<leftarrow> inode_sync 512 i f;
             Some (int (length buf), f)
           }
         }
       }
     }"

section \<open>Reading\<close>

text \<open>The block numbers that the bytes from \<open>pos\<close> up to \<open>pos + n\<close> lie in.\<close>

definition collect_read :: "inode \<Rightarrow> nat \<Rightarrow> nat \<Rightarrow> fs \<Rightarrow> nat list option" where
  "collect_read i pos n f =
     (let start = pos div 512; fin = W32 (pos + n) div 512; all_blocks = replicate 140 0 in do {
       ASSERT (start < 139 \<and> fin < 139);
       if start = fin
       then if fin < 12 then Some (all_blocks[fin := i_sectors i ! fin])
         else do { t \<leftarrow> fs_read (i_sectors i ! 12) 1 f; Some (blit all_blocks 12 (table_of t)) }
       else if fin < 12
       then Some (blit all_blocks start (sub_buf (i_sectors i) start (fin + 1 - start)))
       else if start < 12
       then do {
         ASSERT (i_sectors i ! 12 \<noteq> 0);
         t \<leftarrow> fs_read (i_sectors i ! 12) 1 f;
         Some (blit (blit all_blocks start (sub_buf (i_sectors i) start (12 - start))) 12 (table_of t))
       }
       else do {
         ASSERT (i_sectors i ! 12 \<noteq> 0);
         t \<leftarrow> fs_read (i_sectors i ! 12) 1 f;
         Some (blit all_blocks 12 (table_of t))
       }
     })"

text \<open>\<open>n\<close> is what is left to read; a buffer that could not be allocated is not written to.\<close>

function read_file_loop :: "nat \<Rightarrow> nat option \<Rightarrow> nat list \<Rightarrow> nat \<Rightarrow> fs \<Rightarrow> (u8 list \<times> fs) option" where
  "read_file_loop k io_buf all_blocks n f =
     (if n = 0 then Some ([], f)
      else let pos = fd_pos (file_table f ! k); sec_idx = pos div 512; chunk = chunk_size n pos in do {
        ASSERT (sec_idx < 140 \<and> io_buf \<noteq> None);
        s \<leftarrow> fs_read (all_blocks ! sec_idx) 1 f;
        (bs, f) \<leftarrow> read_file_loop k io_buf all_blocks (n - chunk) (set_file k ((file_table f ! k)\<lparr>fd_pos := W32 (pos + chunk)\<rparr>) f);
        Some (sub_buf s (pos mod 512) chunk @ bs, f)
      })"
  by pat_completeness auto
termination by (relation "measure (\<lambda>(k, io_buf, all_blocks, n, f). n)") auto

declare read_file_loop.simps [simp del]

definition file_read :: "nat \<Rightarrow> nat \<Rightarrow> fs \<Rightarrow> (int \<times> u8 list \<times> fs) option" where
  "file_read k count f =
     do {
       p \<leftarrow> fd_inode (file_table f ! k);
       i \<leftarrow> inodes f p;
       let pos = fd_pos (file_table f ! k);
           over = i_size i < W32 (pos + count);
           size_left = (if over then W32 (i_size i + 4294967296 - pos) else count) in
       if over \<and> size_left = 0 then Some (-1, [], f)
       else let (io_buf, f) = kmalloc f; (blocks, f) = kmalloc f in
       if blocks = None then Some (-1, [], f)
       else do {
         all_blocks \<leftarrow> collect_read i pos size_left f;
         (bs, f) \<leftarrow> read_file_loop k io_buf all_blocks size_left f;
         Some (int (length bs), bs, f)
       }
     }"

end
