(* ===== verification/Fs.thy ===== *)
theory Fs
  imports File
begin

text \<open>
  fs.c: path search and the system calls that take a path. A C string is the list of its bytes without
  the NUL. A directory pointer is a number, 0 for the static \<open>root_dir\<close>. \<open>junk1\<close>, \<open>junk2\<close> are the
  uninitialised name buffers of path_depth_cnt. The messages of printk are left out.
\<close>

declare bind_option_cong [fundef_cong]

record path_search_record =
  searched_path :: cstring
  parent_dir :: nat
  file_type :: nat

text \<open>A 32-bit number as the int it is returned as, and back, and the part of a string behind its last slash.\<close>

definition s32 :: "nat \<Rightarrow> int" where
  "s32 n = (if n < 2147483648 then int n else int n - 4294967296)"

definition u32_of :: "int \<Rightarrow> nat" where
  "u32_of i = nat (i mod 4294967296)"

definition after_slash :: "cstring \<Rightarrow> cstring" where
  "after_slash s = rev (takeWhile (\<lambda>c. c \<noteq> SLASH) (rev s))"

definition is_root_path :: "cstring \<Rightarrow> bool" where
  "is_root_path p \<longleftrightarrow> p = [SLASH] \<or> p = [SLASH, DOT] \<or> p = [SLASH, DOT, DOT]"

section \<open>Search\<close>

lemma parsed_less:
  assumes "z \<in> set_option (case sub_path of None \<Rightarrow> Some (None, replicate MAX_FILE_NAME_LEN 0) | Some q \<Rightarrow> path_parse q (replicate MAX_FILE_NAME_LEN 0))"
    "(sub', name') = z" "name ! 0 \<noteq> (0 :: u8)"
  shows "(case sub' of None \<Rightarrow> if name' ! 0 \<noteq> 0 then 1 else 0 | Some q \<Rightarrow> 2 + length q)
    < (case sub_path of None \<Rightarrow> if name ! 0 \<noteq> 0 then 1 else 0 | Some q \<Rightarrow> 2 + length q)"
  using assms by (auto simp: MAX_FILE_NAME_LEN_def elem_set split: option.splits dest: path_parse_shorter(1))

text \<open>The loop of search_file; \<open>dir_e\<close> is the entry found last, if any. Behind it the parent of the
  directory found is opened again.\<close>

function search_loop :: "cstring option \<Rightarrow> u8 list \<Rightarrow> nat \<Rightarrow> nat \<Rightarrow> dir_entry option \<Rightarrow> path_search_record \<Rightarrow> fs
    \<Rightarrow> (int \<times> path_search_record \<times> fs) option" where
  "search_loop sub_path name pd parent_inode_no dir_e r f =
     (if name ! 0 \<noteq> 0
      then do {
        ASSERT (length (searched_path r) < 512);
        nm \<leftarrow> buf_str name;
        (found, f) \<leftarrow> search_dir_entry pd nm f;
        let r = r\<lparr>searched_path := searched_path r @ SLASH # nm\<rparr> in
        case found of
          None \<Rightarrow> Some (-1, r, f)
        | Some e \<Rightarrow> do {
            (sub_path', name') \<leftarrow> (case sub_path of None \<Rightarrow> Some (None, replicate MAX_FILE_NAME_LEN 0)
              | Some q \<Rightarrow> path_parse q (replicate MAX_FILE_NAME_LEN 0));
            if f_type e = FT_DIRECTORY
            then do {
              (_, i) \<leftarrow> inode_of_dir pd f;
              f \<leftarrow> dir_close pd f;
              (d, f) \<leftarrow> dir_open (e_ino e) f;
              search_loop sub_path' name' d (i_no i) (Some e) (r\<lparr>parent_dir := d\<rparr>) f
            }
            else if f_type e = FT_REGULAR then Some (s32 (e_ino e), r\<lparr>file_type := FT_REGULAR\<rparr>, f)
            else search_loop sub_path' name' pd parent_inode_no (Some e) r f
          }
      }
      else do {
        e \<leftarrow> dir_e;
        f \<leftarrow> dir_close (parent_dir r) f;
        (d, f) \<leftarrow> dir_open parent_inode_no f;
        Some (s32 (e_ino e), r\<lparr>parent_dir := d, file_type := FT_DIRECTORY\<rparr>, f)
      })"
  by pat_completeness auto

termination
  by (relation "measure (\<lambda>(sub_path, name, pd, pi, dir_e, r, f). case sub_path of None \<Rightarrow> if name ! 0 \<noteq> 0 then 1 else 0 | Some q \<Rightarrow> 2 + length q)")
     (simp, (simp (no_asm) only: in_measure case_prod_conv, rule parsed_less; assumption)+)

declare search_loop.simps [simp del]

definition search_file :: "cstring \<Rightarrow> fs \<Rightarrow> (int \<times> path_search_record \<times> fs) option" where
  "search_file pathname f =
     (if is_root_path pathname then Some (0, \<lparr>searched_path = [], parent_dir = 0, file_type = FT_DIRECTORY\<rparr>, f)
      else do {
        ASSERT (pathname \<noteq> [] \<and> hd pathname = SLASH \<and> 1 < length pathname \<and> length pathname < MAX_PATH_LEN);
        (sub_path, name) \<leftarrow> path_parse pathname (replicate MAX_FILE_NAME_LEN 0);
        search_loop sub_path name 0 0 None \<lparr>searched_path = [], parent_dir = 0, file_type = FT_UNKNOWN\<rparr> f
      })"

section \<open>Files\<close>

text \<open>On an existing file the directory that search_file has opened stays open.\<close>

definition sys_open :: "u8 list \<Rightarrow> u8 list \<Rightarrow> cstring \<Rightarrow> nat \<Rightarrow> fs \<Rightarrow> (int \<times> fs) option" where
  "sys_open junk1 junk2 pathname flags f =
     do {
       ASSERT (pathname \<noteq> []);
       if last pathname = SLASH then Some (-1, f)
       else do {
         ASSERT (flags \<le> 7);
         pathname_depth \<leftarrow> path_depth_cnt junk1 pathname;
         (inode_no, r, f) \<leftarrow> search_file pathname f;
         let found = (inode_no \<noteq> -1); creat = (flags AND O_CREAT \<noteq> 0) in
         if file_type r = FT_DIRECTORY then do { f \<leftarrow> dir_close (parent_dir r) f; Some (-1, f) }
         else do {
           path_searched_depth \<leftarrow> path_depth_cnt junk2 (searched_path r);
           if pathname_depth \<noteq> path_searched_depth then do { f \<leftarrow> dir_close (parent_dir r) f; Some (-1, f) }
           else if \<not> found \<and> \<not> creat then do { f \<leftarrow> dir_close (parent_dir r) f; Some (-1, f) }
           else if found \<and> creat then do { f \<leftarrow> dir_close (parent_dir r) f; Some (-1, f) }
           else if creat
           then do {
             (fd, f) \<leftarrow> file_create (parent_dir r) (after_slash pathname) flags f;
             f \<leftarrow> dir_close (parent_dir r) f;
             Some (fd, f)
           }
           else file_open (u32_of inode_no) flags f
         }
       }
     }"

text \<open>Whether an entry of the file table is the file \<open>inode_no\<close>. The inode of a pipe is its ring, whose first
  word is the holder of its lock, 0 or the address of a thread and never a number of a file.\<close>

definition PIPE_FLAG :: nat where
  "PIPE_FLAG = 65535"

fun file_in_use :: "int \<Rightarrow> open_file list \<Rightarrow> fs \<Rightarrow> bool option" where
  "file_in_use inode_no [] f = Some False"
| "file_in_use inode_no (e # es) f =
     (case fd_inode e of None \<Rightarrow> file_in_use inode_no es f
      | Some p \<Rightarrow>
          if fd_flag e = PIPE_FLAG then file_in_use inode_no es f
          else do { i \<leftarrow> inodes f p; if u32_of inode_no = i_no i then Some True else file_in_use inode_no es f })"

definition sys_unlink :: "cstring \<Rightarrow> fs \<Rightarrow> (int \<times> fs) option" where
  "sys_unlink pathname f =
     do {
       ASSERT (length pathname < MAX_PATH_LEN);
       (inode_no, r, f) \<leftarrow> search_file pathname f;
       ASSERT (inode_no \<noteq> 0);
       if inode_no = -1 then do { f \<leftarrow> dir_close (parent_dir r) f; Some (-1, f) }
       else if file_type r = FT_DIRECTORY then do { f \<leftarrow> dir_close (parent_dir r) f; Some (-1, f) }
       else do {
         used \<leftarrow> file_in_use inode_no (file_table f) f;
         if used then do { f \<leftarrow> dir_close (parent_dir r) f; Some (-1, f) }
         else let (io_buf, f) = kmalloc f in
         if io_buf = None then do { f \<leftarrow> dir_close (parent_dir r) f; Some (-1, f) }
         else do {
           (_, f) \<leftarrow> delete_dir_entry (parent_dir r) (u32_of inode_no) f;
           f \<leftarrow> inode_release (u32_of inode_no) f;
           f \<leftarrow> dir_close (parent_dir r) f;
           Some (0, f)
         }
       }
     }"

section \<open>Directories\<close>

text \<open>The first block of a directory, with its own entry and that of its parent.\<close>

definition dot_entries :: "nat \<Rightarrow> nat \<Rightarrow> u8 list" where
  "dot_entries inode_no parent_no =
     blit (replicate 512 0) 0
       (entry_bytes \<lparr>filename = DOT # replicate 15 0, e_ino = inode_no, f_type = FT_DIRECTORY\<rparr>
        @ entry_bytes \<lparr>filename = DOT # DOT # replicate 14 0, e_ino = parent_no, f_type = FT_DIRECTORY\<rparr>)"

text \<open>The rollback of sys_mkdir: step 2 gives the number of the inode back and falls through to step 1.\<close>

definition mkdir_rollback :: "nat option \<Rightarrow> path_search_record \<Rightarrow> fs \<Rightarrow> (int \<times> fs) option" where
  "mkdir_rollback inode_no r f =
     do {
       f \<leftarrow> (case inode_no of None \<Rightarrow> Some f | Some n \<Rightarrow> set_inode_bit n 0 f);
       f \<leftarrow> dir_close (parent_dir r) f;
       Some (-1, f)
     }"

definition sys_mkdir :: "u8 list \<Rightarrow> u8 list \<Rightarrow> cstring \<Rightarrow> fs \<Rightarrow> (int \<times> fs) option" where
  "sys_mkdir junk1 junk2 pathname f =
     (let (io_buf, f) = kmalloc f in
      if io_buf = None then Some (-1, f)
      else do {
        (inode_no, r, f) \<leftarrow> search_file pathname f;
        if inode_no \<noteq> -1 then mkdir_rollback None r f
        else do {
          pathname_depth \<leftarrow> path_depth_cnt junk1 pathname;
          path_searched_depth \<leftarrow> path_depth_cnt junk2 (searched_path r);
          if pathname_depth \<noteq> path_searched_depth then mkdir_rollback None r f
          else do {
            (inode_no, f) \<leftarrow> inode_bitmap_alloc f;
            if inode_no = -1 then mkdir_rollback None r f
            else do {
              (block_lba, f) \<leftarrow> block_bitmap_alloc f;
              if block_lba = -1 then mkdir_rollback (Some (nat inode_no)) r f
              else let i = inode_init (nat inode_no); i = i\<lparr>i_sectors := (i_sectors i)[0 := nat block_lba]\<rparr> in do {
                ASSERT (block_idx_of (nat block_lba) f \<noteq> 0);
                f \<leftarrow> bitmap_sync (block_idx_of (nat block_lba) f) BLOCK_BITMAP f;
                (_, pi) \<leftarrow> inode_of_dir (parent_dir r) f;
                f \<leftarrow> fs_write (nat block_lba) (dot_entries (nat inode_no) (i_no pi)) f;
                let i = i\<lparr>i_size := W32 (2 * dir_entry_size (sb (cur_part f)))\<rparr> in do {
                  e \<leftarrow> create_dir_entry (after_slash (searched_path r)) (nat inode_no) FT_DIRECTORY;
                  (ok, f) \<leftarrow> sync_dir_entry (parent_dir r) e f;
                  if \<not> ok then mkdir_rollback (Some (nat inode_no)) r f
                  else do {
                    (_, pi) \<leftarrow> inode_of_dir (parent_dir r) f;
                    f \<leftarrow> inode_sync 1024 pi f;
                    f \<leftarrow> inode_sync 1024 i f;
                    f \<leftarrow> bitmap_sync (nat inode_no) INODE_BITMAP f;
                    f \<leftarrow> dir_close (parent_dir r) f;
                    Some (0, f)
                  }
                }
              }
            }
          }
        }
      })"

text \<open>The pointer of sys_opendir is \<open>None\<close> for NULL. The second test of the code reads name[0] where
  name[1] is meant, so it never holds.\<close>

definition sys_opendir :: "cstring \<Rightarrow> fs \<Rightarrow> (nat option \<times> fs) option" where
  "sys_opendir name f =
     do {
       ASSERT (length name < MAX_PATH_LEN);
       if name \<noteq> [] \<and> hd name = SLASH \<and> (length name = 1 \<or> hd name = DOT) then Some (Some 0, f)
       else do {
         (inode_no, r, f) \<leftarrow> search_file name f;
         (ret, f) \<leftarrow> (if inode_no = -1 then Some (None, f)
           else if file_type r = FT_REGULAR then Some (None, f)
           else if file_type r = FT_DIRECTORY then map_option (\<lambda>(d, f). (Some d, f)) (dir_open (u32_of inode_no) f)
           else Some (None, f));
         f \<leftarrow> dir_close (parent_dir r) f;
         Some (ret, f)
       }
     }"

definition sys_closedir :: "nat option \<Rightarrow> fs \<Rightarrow> (int \<times> fs) option" where
  "sys_closedir d f =
     (case d of None \<Rightarrow> Some (-1, f) | Some d \<Rightarrow> do { f \<leftarrow> dir_close d f; Some (0, f) })"

definition sys_readdir :: "nat option \<Rightarrow> fs \<Rightarrow> (dir_entry option \<times> fs) option" where
  "sys_readdir d f = do { ASSERT (d \<noteq> None); d \<leftarrow> d; dir_read d f }"

definition sys_rewinddir :: "nat \<Rightarrow> fs \<Rightarrow> fs option" where
  "sys_rewinddir d f = do { dd \<leftarrow> dirs f d; Some (f\<lparr>dirs := (dirs f)(d := Some (dd\<lparr>dir_pos := 0\<rparr>))\<rparr>) }"

definition sys_rmdir :: "cstring \<Rightarrow> fs \<Rightarrow> (int \<times> fs) option" where
  "sys_rmdir pathname f =
     do {
       (inode_no, r, f) \<leftarrow> search_file pathname f;
       ASSERT (inode_no \<noteq> 0);
       (retval, f) \<leftarrow> (if inode_no = -1 \<or> file_type r = FT_REGULAR then Some (-1, f)
         else do {
           (d, f) \<leftarrow> dir_open (u32_of inode_no) f;
           empty \<leftarrow> dir_is_empty d f;
           (retval, f) \<leftarrow> (if \<not> empty then Some (-1, f)
             else do { (e, f) \<leftarrow> dir_remove (parent_dir r) d f; Some (if e = 0 then 0 else -1, f) });
           f \<leftarrow> dir_close d f;
           Some (retval, f)
         });
       f \<leftarrow> dir_close (parent_dir r) f;
       Some (retval, f)
     }"

section \<open>The working directory\<close>

definition get_parent_dir_inode_nr :: "nat \<Rightarrow> fs \<Rightarrow> (nat \<times> fs) option" where
  "get_parent_dir_inode_nr child_inode_nr f =
     do {
       (p, f) \<leftarrow> inode_open child_inode_nr f;
       i \<leftarrow> inodes f p;
       let block_lba = i_sectors i ! 0 in do {
         ASSERT (data_start_lba (sb (cur_part f)) \<le> block_lba);
         f \<leftarrow> inode_close p f;
         s \<leftarrow> fs_read block_lba 1 f;
         ASSERT (e_ino (entry_at s 1) < 4096 \<and> f_type (entry_at s 1) = FT_DIRECTORY);
         Some (e_ino (entry_at s 1), f)
       }
     }"

fun child_index :: "nat \<Rightarrow> u8 list \<Rightarrow> nat list \<Rightarrow> nat option" where
  "child_index c s [] = None"
| "child_index c s (k # ks) = (if e_ino (entry_at s k) = c then Some k else child_index c s ks)"

text \<open>The name of the child, or \<open>None\<close> for -1; it is appended to the path as a C string.\<close>

fun child_name :: "nat \<Rightarrow> nat list \<Rightarrow> fs \<Rightarrow> cstring option option" where
  "child_name c [] f = Some None"
| "child_name c (b # bs) f =
     (if b = 0 then child_name c bs f
      else do {
        s \<leftarrow> fs_read b 1 f;
        ASSERT (dir_entry_size (sb (cur_part f)) = sizeof_dir_entry);
        case child_index c s [0..<512 div dir_entry_size (sb (cur_part f))] of
          None \<Rightarrow> child_name c bs f
        | Some k \<Rightarrow> do { nm \<leftarrow> buf_str (drop (sizeof_dir_entry * k) s); Some (Some nm) }
      })"

definition get_child_dir_name :: "nat \<Rightarrow> nat \<Rightarrow> cstring \<Rightarrow> fs \<Rightarrow> (cstring option \<times> fs) option" where
  "get_child_dir_name p_inode_nr c_inode_nr path f =
     do {
       (p, f) \<leftarrow> inode_open p_inode_nr f;
       i \<leftarrow> inodes f p;
       all_blocks \<leftarrow> (if i_sectors i ! 12 \<noteq> 0
         then map_option (\<lambda>t. take 12 (i_sectors i) @ table_of t) (fs_read (i_sectors i ! 12) 1 f)
         else Some (take 12 (i_sectors i)));
       f \<leftarrow> inode_close p f;
       nm \<leftarrow> child_name c_inode_nr all_blocks f;
       case nm of None \<Rightarrow> Some (None, f)
       | Some nm \<Rightarrow> do { ASSERT (length (path @ SLASH # nm) < MAX_PATH_LEN); Some (Some (path @ SLASH # nm), f) }
     }"

text \<open>The walk up to the root, which need not end on a damaged disk.\<close>

partial_function (option) cwd_loop :: "nat \<Rightarrow> cstring \<Rightarrow> fs \<Rightarrow> (cstring option \<times> fs) option" where
  "cwd_loop child_inode_nr full_path_reverse f =
     (if child_inode_nr = 0 then Some (Some full_path_reverse, f)
      else Option.bind (get_parent_dir_inode_nr child_inode_nr f)
        (\<lambda>r. Option.bind (get_child_dir_name (fst r) child_inode_nr full_path_reverse (snd r))
          (\<lambda>q. if fst q = None then Some (None, snd q) else cwd_loop (fst r) (the (fst q)) (snd q))))"

text \<open>The components of the reversed path, last one first, go to the buffer.\<close>

function reverse_path :: "cstring \<Rightarrow> cstring" where
  "reverse_path s = (if SLASH \<in> set s then drop (last_slash s) s @ reverse_path (take (last_slash s) s) else [])"
  by pat_completeness auto
termination
proof (relation "measure length", goal_cases)
  case (2 s)
  then have "s \<noteq> []" by auto
  then show ?case by (cases s) (auto simp: last_slash_def min_def)
qed simp

declare reverse_path.simps [simp del]

text \<open>\<open>None\<close> is NULL. The buffer of \<open>sz\<close> bytes has to hold the NUL as well, which the ASSERT does not ask for.\<close>

definition sys_getcwd :: "nat \<Rightarrow> fs \<Rightarrow> (cstring option \<times> fs) option" where
  "sys_getcwd sz f =
     (let (io_buf, f) = kmalloc f in
      if io_buf = None then Some (None, f)
      else do {
        ASSERT (cwd_inode_nr f < 4096);
        if cwd_inode_nr f = 0 then do { ASSERT (2 \<le> sz); Some (Some [SLASH], f) }
        else do {
          (path, f) \<leftarrow> cwd_loop (cwd_inode_nr f) [] f;
          case path of None \<Rightarrow> Some (None, f)
          | Some s \<Rightarrow> do {
              ASSERT (length s \<le> sz);
              ASSERT (length (reverse_path s) < sz);
              Some (Some (reverse_path s), f)
            }
        }
      })"

definition sys_chdir :: "cstring \<Rightarrow> fs \<Rightarrow> (int \<times> fs) option" where
  "sys_chdir path f =
     do {
       (inode_no, r, f) \<leftarrow> search_file path f;
       let (ret, f) = (if inode_no \<noteq> -1 \<and> file_type r = FT_DIRECTORY then (0, f\<lparr>cwd_inode_nr := u32_of inode_no\<rparr>) else (-1, f)) in do {
         f \<leftarrow> dir_close (parent_dir r) f;
         Some (ret, f)
       }
     }"

record stat =
  st_ino :: int
  st_size :: nat
  st_filetype :: nat

text \<open>The buffer is filled when the result is 0.\<close>

definition sys_stat :: "cstring \<Rightarrow> fs \<Rightarrow> (int \<times> stat option \<times> fs) option" where
  "sys_stat path f =
     (if is_root_path path
      then do {
        (_, i) \<leftarrow> inode_of_dir 0 f;
        Some (0, Some \<lparr>st_ino = 0, st_size = i_size i, st_filetype = FT_DIRECTORY\<rparr>, f)
      }
      else do {
        (inode_no, r, f) \<leftarrow> search_file path f;
        (ret, buf, f) \<leftarrow> (if inode_no \<noteq> -1
          then do {
            (p, f) \<leftarrow> inode_open (u32_of inode_no) f;
            i \<leftarrow> inodes f p;
            f \<leftarrow> inode_close p f;
            Some (0, Some \<lparr>st_ino = inode_no, st_size = i_size i, st_filetype = file_type r\<rparr>, f)
          }
          else Some (-1, None, f));
        f \<leftarrow> dir_close (parent_dir r) f;
        Some (ret, buf, f)
      })"

end
