(* ===== verification/Partition.thy ===== *)
theory Partition
  imports Disk
begin

text \<open>
  ide.c, the setup: partition tables and the initialisation of the disks. \<open>partition_scan\<close> and its
  loop over the four entries are one partial function (a chain of extended partitions that runs in a
  circle never ends); the sector it works on is the copy in the buffer from sys_malloc, a value that
  later reads do not touch because every call has a buffer of its own. Storing past the array of
  logical partitions has no defined result. \<open>None\<close> is a call that does not return.
\<close>

section \<open>Partition tables\<close>

record partition_table_entry =
  bootable :: u8
  start_head :: u8
  start_sec :: u8
  start_chs :: u8
  fs_type :: u8
  end_head :: u8
  end_sec :: u8
  end_chs :: u8
  start_lba :: u32
  sec_cnt :: u32

text \<open>The entry behind the 446 bytes of boot code of a sector.\<close>

definition partition_table :: "u8 list \<Rightarrow> nat \<Rightarrow> partition_table_entry" where
  "partition_table bs i =
     (let e = sub_buf bs (446 + 16 * i) 16 in
      \<lparr>bootable = e ! 0, start_head = e ! 1, start_sec = e ! 2, start_chs = e ! 3, fs_type = e ! 4,
       end_head = e ! 5, end_sec = e ! 6, end_chs = e ! 7,
       start_lba = bytes_u32 (sub_buf e 8 4), sec_cnt = bytes_u32 (sub_buf e 12 4)\<rparr>)"

record part =
  part_start_lba :: u32
  part_sec_cnt :: u32
  my_disk :: disk
  part_name :: string

record scan =
  dev :: ide
  ext_lba_base :: u32
  p_no :: nat
  l_no :: nat
  prim_parts :: "string \<Rightarrow> part option list"
  logic_parts :: "string \<Rightarrow> part option list"
  partition_list :: "part list"

text \<open>The name of a partition, \<open>%s%d\<close> of sprintf.\<close>

definition digit :: "nat \<Rightarrow> char" where
  "digit n = char_of (48 + n)"

definition part_label :: "disk \<Rightarrow> nat \<Rightarrow> string" where
  "part_label hda n = disk_name hda @ (if n < 10 then [digit n] else [digit (n div 10), digit (n mod 10)])"

definition read_sector :: "disk \<Rightarrow> nat \<Rightarrow> u32 \<Rightarrow> ide \<Rightarrow> (u8 list \<times> ide) option" where
  "read_sector hda bs lba s = do { s \<leftarrow> ide_read hda lba bs 1 s; Some (fetch_bytes bs 512 (ram s), s) }"

definition add_primary :: "disk \<Rightarrow> u32 \<Rightarrow> partition_table_entry \<Rightarrow> scan \<Rightarrow> scan option" where
  "add_primary hda ext_lba p s =
     do {
       ASSERT (p_no s < 4);
       let q = \<lparr>part_start_lba = ext_lba + start_lba p, part_sec_cnt = sec_cnt p, my_disk = hda,
                part_name = part_label hda (p_no s + 1)\<rparr>;
           s = s\<lparr>prim_parts := (prim_parts s)(disk_name hda := (prim_parts s (disk_name hda))[p_no s := Some q]),
                 partition_list := partition_list s @ [q], p_no := p_no s + 1\<rparr>
       in do { ASSERT (p_no s < 4); Some s }
     }"

definition add_logical :: "disk \<Rightarrow> u32 \<Rightarrow> partition_table_entry \<Rightarrow> scan \<Rightarrow> scan option" where
  "add_logical hda ext_lba p s =
     do {
       ASSERT (l_no s < 8);
       let q = \<lparr>part_start_lba = ext_lba + start_lba p, part_sec_cnt = sec_cnt p, my_disk = hda,
                part_name = part_label hda (l_no s + 5)\<rparr>
       in Some (s\<lparr>logic_parts := (logic_parts s)(disk_name hda := (logic_parts s (disk_name hda))[l_no s := Some q]),
                 partition_list := partition_list s @ [q], l_no := l_no s + 1\<rparr>)
     }"

text \<open>\<open>scan_from hda bs ext_lba sec i s\<close>: the loop from entry \<open>i\<close> of the sector \<open>sec\<close> on; the read of the
  next boot sector is the start of a recursive call.\<close>

partial_function (option) scan_from :: "disk \<Rightarrow> nat \<Rightarrow> u32 \<Rightarrow> u8 list \<Rightarrow> nat \<Rightarrow> scan \<Rightarrow> scan option" where
  "scan_from hda bs ext_lba sec i s =
     (if 4 \<le> i then Some s
      else if fs_type (partition_table sec i) = 5
      then Option.bind
        (read_sector hda bs
          (if ext_lba_base s \<noteq> 0 then start_lba (partition_table sec i) + ext_lba_base s else start_lba (partition_table sec i)) (dev s))
        (\<lambda>r. Option.bind
          (scan_from hda bs
            (if ext_lba_base s \<noteq> 0 then start_lba (partition_table sec i) + ext_lba_base s else start_lba (partition_table sec i))
            (fst r) 0
            (s\<lparr>dev := snd r, ext_lba_base := if ext_lba_base s \<noteq> 0 then ext_lba_base s else start_lba (partition_table sec i)\<rparr>))
          (scan_from hda bs ext_lba sec (i + 1)))
      else if fs_type (partition_table sec i) \<noteq> 0
      then if ext_lba = 0
        then Option.bind (add_primary hda ext_lba (partition_table sec i) s) (scan_from hda bs ext_lba sec (i + 1))
        else Option.bind (add_logical hda ext_lba (partition_table sec i) s)
          (\<lambda>s'. if 8 \<le> l_no s' then Some s' else scan_from hda bs ext_lba sec (i + 1) s')
      else scan_from hda bs ext_lba sec (i + 1) s)"

definition partition_scan :: "disk \<Rightarrow> nat \<Rightarrow> u32 \<Rightarrow> scan \<Rightarrow> scan option" where
  "partition_scan hda bs ext_lba s =
     do {
       (sec, d) \<leftarrow> read_sector hda bs ext_lba (dev s);
       scan_from hda bs ext_lba sec 0 (s\<lparr>dev := d\<rparr>)
     }"

section \<open>Identification\<close>

text \<open>The strings of an identification come with the bytes of every word swapped.\<close>

function swap_loop :: "nat \<Rightarrow> nat \<Rightarrow> nat \<Rightarrow> nat \<Rightarrow> mem \<Rightarrow> nat \<times> mem" where
  "swap_loop idx len dst buf m =
     (if idx < len then swap_loop (idx + 2) len (dst + 2) buf (m(buf + idx + 1 := m dst, buf + idx := (m(buf + idx + 1 := m dst)) (dst + 1)))
      else (idx, m))"
  by pat_completeness auto
termination by (relation "measure (\<lambda>(idx, len, dst, buf, m). len - idx)") auto

declare swap_loop.simps [simp del]

definition swap_pairs_bytes :: "nat \<Rightarrow> nat \<Rightarrow> nat \<Rightarrow> mem \<Rightarrow> mem" where
  "swap_pairs_bytes dst buf len m = (let (idx, m) = swap_loop 0 len dst buf m in m(buf + idx := 0))"

record disk_info =
  serial :: "u8 list"
  model :: "u8 list"
  sector_cnt :: u32
  capacity_mb :: u32

definition identify_disk :: "disk \<Rightarrow> nat \<Rightarrow> nat \<Rightarrow> ide \<Rightarrow> (disk_info \<times> ide) option" where
  "identify_disk hda id_info buf s =
     do {
       s \<leftarrow> select_disk hda s;
       s \<leftarrow> cmd_out (my_channel hda) CMD_IDENTIFY s;
       s \<leftarrow> disk_down (my_channel hda) s;
       (ok, s) \<leftarrow> busy_wait hda s;
       ASSERT ok;
       s \<leftarrow> read_from_sector hda id_info 1 s;
       let sn_start = 10 * 2; sn_len = 20; md_start = 27 * 2; md_len = 40;
           m1 = swap_pairs_bytes (id_info + sn_start) buf sn_len (ram s)
       in do {
         n1 \<leftarrow> strlen buf m1;
         m2 \<leftarrow> memset buf 0 64 m1;
         let m3 = swap_pairs_bytes (id_info + md_start) buf md_len m2;
             sectors = bytes_u32 (fetch_bytes (id_info + 60 * 2) 4 m3)
         in do {
           n2 \<leftarrow> strlen buf m3;
           Some (\<lparr>serial = fetch_bytes buf n1 m1, model = fetch_bytes buf n2 m3, sector_cnt = sectors,
                  capacity_mb = sectors * 512 div 1024 div 1024\<rparr>, s\<lparr>ram := m3\<rparr>)
         }
       }
     }"

section \<open>ide_init\<close>

text \<open>The table of interrupt handlers and the addresses of the buffers are arguments; \<open>hd_handler\<close> is the
  address of intr_hd_handler. A channel past the array of two has no defined result.\<close>

record ide_setup =
  scn :: scan
  idt_table :: "u32 list"
  infos :: "disk_info list"

definition disk_at :: "nat \<Rightarrow> nat \<Rightarrow> disk" where
  "disk_at channel_no n = \<lparr>disk_name = ''sd'' @ [char_of (97 + channel_no * 2 + n)], my_channel = channel_no, dev_no = of_nat n\<rparr>"

definition channel_init :: "nat \<Rightarrow> ide_channel \<Rightarrow> ide_channel" where
  "channel_init channel_no c =
     (if channel_no = 0 then c\<lparr>port_base := 0x1f0, irq_no := 0x20 + 14, expecting_intr := False, disk_done := 0\<rparr>
      else if channel_no = 1 then c\<lparr>port_base := 0x170, irq_no := 0x20 + 15, expecting_intr := False, disk_done := 0\<rparr>
      else c\<lparr>expecting_intr := False, disk_done := 0\<rparr>)"

primrec devices_init :: "nat list \<Rightarrow> nat \<Rightarrow> nat \<Rightarrow> nat \<Rightarrow> nat \<Rightarrow> ide_setup \<Rightarrow> ide_setup option" where
  "devices_init [] channel_no bs id_info buf u = Some u"
| "devices_init (n # ns) channel_no bs id_info buf u =
     do {
       (info, d) \<leftarrow> identify_disk (disk_at channel_no n) id_info buf (dev (scn u));
       let u = u\<lparr>scn := (scn u)\<lparr>dev := d\<rparr>, infos := infos u @ [info]\<rparr> in do {
         s \<leftarrow> (if n \<noteq> 0 then partition_scan (disk_at channel_no n) bs 0 (scn u) else Some (scn u));
         devices_init ns channel_no bs id_info buf (u\<lparr>scn := s\<lparr>p_no := 0, l_no := 0\<rparr>\<rparr>)
       }
     }"

primrec channels_init :: "nat list \<Rightarrow> u32 \<Rightarrow> nat \<Rightarrow> nat \<Rightarrow> nat \<Rightarrow> ide_setup \<Rightarrow> ide_setup option" where
  "channels_init [] hd_handler bs id_info buf u = Some u"
| "channels_init (k # ks) hd_handler bs id_info buf u =
     do {
       ASSERT (k < 2);
       let d = dev (scn u); c = channel_init k (channels d k) in do {
         t \<leftarrow> register_handler (irq_no c) hd_handler (idt_table u);
         u \<leftarrow> devices_init [0..<2] k bs id_info buf
           (u\<lparr>scn := (scn u)\<lparr>dev := d\<lparr>channels := (channels d)(k := c)\<rparr>\<rparr>, idt_table := t\<rparr>);
         channels_init ks hd_handler bs id_info buf u
       }
     }"

definition ide_init :: "nat \<Rightarrow> u32 \<Rightarrow> nat \<Rightarrow> nat \<Rightarrow> nat \<Rightarrow> ide_setup \<Rightarrow> ide_setup option" where
  "ide_init hd_cnt hd_handler bs id_info buf u =
     do {
       ASSERT (0 < hd_cnt);
       let channel_cnt = (hd_cnt + 2 - 1) div 2 in
       channels_init [0..<channel_cnt] hd_handler bs id_info buf (u\<lparr>scn := (scn u)\<lparr>partition_list := []\<rparr>\<rparr>)
     }"

section \<open>A well-formed disk\<close>

definition usual :: "partition_table_entry \<Rightarrow> bool" where
  "usual e \<longleftrightarrow> fs_type e \<noteq> 0 \<and> fs_type e \<noteq> 5"

abbreviation entry :: "(nat \<Rightarrow> u8 list) \<Rightarrow> u32 \<Rightarrow> nat \<Rightarrow> partition_table_entry" where
  "entry d a i \<equiv> partition_table (d (unat a)) i"

definition blank_from :: "(nat \<Rightarrow> u8 list) \<Rightarrow> u32 \<Rightarrow> nat \<Rightarrow> bool" where
  "blank_from d a i \<longleftrightarrow> (\<forall>j. i \<le> j \<longrightarrow> j < 4 \<longrightarrow> fs_type (entry d a j) = 0)"

definition next_ebr :: "(nat \<Rightarrow> u8 list) \<Rightarrow> u32 \<Rightarrow> u32 \<Rightarrow> u32" where
  "next_ebr d b a = start_lba (entry d a 1) + b"

text \<open>A chain of \<open>n\<close> boot sectors from sector \<open>a\<close> on: every one has one logical partition and, but for the
  last, a link relative to the start \<open>b\<close> of the extended partition.\<close>

fun chain :: "(nat \<Rightarrow> u8 list) \<Rightarrow> u32 \<Rightarrow> u32 \<Rightarrow> nat \<Rightarrow> bool" where
  "chain d b a 0 \<longleftrightarrow> False"
| "chain d b a (Suc 0) \<longleftrightarrow> a \<noteq> 0 \<and> a \<le> max_lba \<and> usual (entry d a 0) \<and> blank_from d a 1"
| "chain d b a (Suc (Suc n)) \<longleftrightarrow> a \<noteq> 0 \<and> a \<le> max_lba \<and> usual (entry d a 0) \<and> fs_type (entry d a 1) = 5
     \<and> blank_from d a 2 \<and> chain d b (next_ebr d b a) (Suc n)"

definition logical :: "disk \<Rightarrow> (nat \<Rightarrow> u8 list) \<Rightarrow> u32 \<Rightarrow> nat \<Rightarrow> part" where
  "logical hda d a k = \<lparr>part_start_lba = a + start_lba (entry d a 0), part_sec_cnt = sec_cnt (entry d a 0),
     my_disk = hda, part_name = part_label hda (k + 5)\<rparr>"

fun logicals :: "disk \<Rightarrow> (nat \<Rightarrow> u8 list) \<Rightarrow> u32 \<Rightarrow> u32 \<Rightarrow> nat \<Rightarrow> nat \<Rightarrow> part list" where
  "logicals hda d b a k 0 = []"
| "logicals hda d b a k (Suc n) = logical hda d a k # logicals hda d b (next_ebr d b a) (Suc k) n"

definition primary :: "disk \<Rightarrow> (nat \<Rightarrow> u8 list) \<Rightarrow> nat \<Rightarrow> part" where
  "primary hda d i = \<lparr>part_start_lba = start_lba (entry d 0 i), part_sec_cnt = sec_cnt (entry d 0 i),
     my_disk = hda, part_name = part_label hda (i + 1)\<rparr>"

section \<open>The scan\<close>

lemma read_sector_ok:
  assumes "attached (my_channel hda) s" "lba \<le> max_lba"
  shows "\<exists>s'. read_sector hda bs lba s = Some (drive hda s (unat lba), s') \<and> attached (my_channel hda) s' \<and> drive hda s' = drive hda s"
proof -
  have "unat lba + 1 \<le> unat max_lba + 1" using assms(2) by (simp add: word_le_nat_alt)
  then obtain s' where s': "ide_read hda lba bs 1 s = Some s'"
    "moved hda (drive hda s) (store_bytes bs (drive hda s (unat lba)) (ram s)) s s'"
    using ide_read_ok[OF assms(1), of 1 lba bs] by (auto simp: sectors_def)
  have "length (drive hda s (unat lba)) = 512" unfolding drive_def by (rule attached_simps(6)[OF assms(1)])
  then have "fetch_bytes bs 512 (ram s') = drive hda s (unat lba)"
    using s'(2) fetch_store[of bs "drive hda s (unat lba)" "ram s"] by (simp add: moved_def)
  then show ?thesis using s' moved_drive[OF s'(2)] by (simp add: read_sector_def moved_def)
qed

lemma scan_end: "blank_from d a i \<Longrightarrow> scan_from hda bs e (d (unat a)) i s = Some s"
proof (induction "4 - i" arbitrary: i)
  case (Suc n)
  then have "fs_type (entry d a i) = 0" "blank_from d a (i + 1)" by (simp_all add: blank_from_def)
  then show ?case using Suc(1)[of "i + 1"] Suc(2) by (subst scan_from.simps) simp
qed (subst scan_from.simps, simp)

lemma scan_logical:
  assumes "usual (entry d a 0)" "a \<noteq> 0" "l_no s < 8"
  shows "\<exists>s1. scan_from hda bs a (d (unat a)) 0 s = (if l_no s = 7 then Some s1 else scan_from hda bs a (d (unat a)) 1 s1)
    \<and> dev s1 = dev s \<and> ext_lba_base s1 = ext_lba_base s \<and> p_no s1 = p_no s \<and> l_no s1 = l_no s + 1
    \<and> partition_list s1 = partition_list s @ [logical hda d a (l_no s)]"
proof -
  obtain s1 where s1: "add_logical hda a (entry d a 0) s = Some s1"
    "dev s1 = dev s \<and> ext_lba_base s1 = ext_lba_base s \<and> p_no s1 = p_no s \<and> l_no s1 = l_no s + 1
     \<and> partition_list s1 = partition_list s @ [logical hda d a (l_no s)]"
    using assms(3) by (simp add: add_logical_def logical_def Let_def)
  then have "scan_from hda bs a (d (unat a)) 0 s = (if l_no s = 7 then Some s1 else scan_from hda bs a (d (unat a)) 1 s1)"
    using assms by (subst scan_from.simps) (simp add: usual_def)
  then show ?thesis using s1(2) by blast
qed

lemma scan_link:
  assumes "attached (my_channel hda) (dev s)" "fs_type (entry d a i) = 5" "i < 4"
    and "b = (if ext_lba_base s \<noteq> 0 then ext_lba_base s else start_lba (entry d a i))"
    and "c = (if ext_lba_base s \<noteq> 0 then start_lba (entry d a i) + ext_lba_base s else start_lba (entry d a i))" "c \<le> max_lba"
  shows "\<exists>v. scan_from hda bs e (d (unat a)) i s
      = Option.bind (scan_from hda bs c (drive hda (dev s) (unat c)) 0 (s\<lparr>dev := v, ext_lba_base := b\<rparr>)) (scan_from hda bs e (d (unat a)) (i + 1))
    \<and> attached (my_channel hda) v \<and> drive hda v = drive hda (dev s)"
proof -
  obtain v where v: "read_sector hda bs c (dev s) = Some (drive hda (dev s) (unat c), v)" "attached (my_channel hda) v" "drive hda v = drive hda (dev s)"
    using read_sector_ok[OF assms(1,6)] by blast
  have "scan_from hda bs e (d (unat a)) i s
      = Option.bind (scan_from hda bs c (drive hda (dev s) (unat c)) 0 (s\<lparr>dev := v, ext_lba_base := b\<rparr>)) (scan_from hda bs e (d (unat a)) (i + 1))"
    by (subst scan_from.simps) (use v(1) assms(2,3) in \<open>simp add: assms(4,5)[symmetric]\<close>)
  then show ?thesis using v(2,3) by blast
qed

lemma scan_chain:
  assumes "chain d b a n" "attached (my_channel hda) (dev s)" "drive hda (dev s) = d" "ext_lba_base s = b" "b \<noteq> 0" "l_no s + n \<le> 8"
  shows "\<exists>s'. scan_from hda bs a (d (unat a)) 0 s = Some s' \<and> attached (my_channel hda) (dev s') \<and> drive hda (dev s') = d
    \<and> ext_lba_base s' = b \<and> p_no s' = p_no s \<and> l_no s' = l_no s + n
    \<and> partition_list s' = partition_list s @ logicals hda d b a (l_no s) n"
  using assms
proof (induction d b a n arbitrary: s rule: chain.induct)
  case (2 d b a)
  then obtain s1 where s1: "scan_from hda bs a (d (unat a)) 0 s = (if l_no s = 7 then Some s1 else scan_from hda bs a (d (unat a)) 1 s1)"
    "dev s1 = dev s" "ext_lba_base s1 = ext_lba_base s" "p_no s1 = p_no s" "l_no s1 = l_no s + 1"
    "partition_list s1 = partition_list s @ [logical hda d a (l_no s)]"
    using scan_logical[of d a s hda bs] by auto
  then show ?case using 2 scan_end[of d a 1 hda bs a s1] by simp
next
  case (3 d b a n)
  then obtain s1 where s1: "scan_from hda bs a (d (unat a)) 0 s = scan_from hda bs a (d (unat a)) 1 s1"
    "dev s1 = dev s" "ext_lba_base s1 = ext_lba_base s" "p_no s1 = p_no s" "l_no s1 = l_no s + 1"
    "partition_list s1 = partition_list s @ [logical hda d a (l_no s)]"
    using scan_logical[of d a s hda bs] by auto
  define c where "c = next_ebr d b a"
  have c: "c \<le> max_lba" "chain d b c (Suc n)" using 3(2) by (cases n; simp add: c_def)+
  obtain v where v: "scan_from hda bs a (d (unat a)) 1 s1
      = Option.bind (scan_from hda bs c (d (unat c)) 0 (s1\<lparr>dev := v, ext_lba_base := b\<rparr>)) (scan_from hda bs a (d (unat a)) 2)"
    "attached (my_channel hda) v" "drive hda v = d"
    using scan_link[of hda s1 d a 1 b c bs a] 3(2-6) s1(2,3) c(1) by (auto simp: c_def next_ebr_def numeral_2_eq_2)
  obtain s' where s': "scan_from hda bs c (d (unat c)) 0 (s1\<lparr>dev := v, ext_lba_base := b\<rparr>) = Some s'"
    "attached (my_channel hda) (dev s')" "drive hda (dev s') = d" "ext_lba_base s' = b" "p_no s' = p_no s1"
    "l_no s' = l_no s1 + Suc n" "partition_list s' = partition_list s1 @ logicals hda d b c (l_no s1) (Suc n)"
    using 3(1)[of "s1\<lparr>dev := v, ext_lba_base := b\<rparr>"] c(2) v(2,3) 3(6,7) s1(5) by (auto simp: c_def)
  have "blank_from d a 2" using 3(2) by simp
  then show ?case using s1 v(1) s' scan_end[of d a 2 hda bs a s'] by (simp add: c_def)
qed simp

lemma scan_primaries:
  assumes "\<forall>i<n. usual (entry d 0 i)" "n \<le> 3" "k \<le> n" "p_no s = k"
  shows "\<exists>s1. scan_from hda bs 0 (d 0) k s = scan_from hda bs 0 (d 0) n s1 \<and> dev s1 = dev s
    \<and> ext_lba_base s1 = ext_lba_base s \<and> p_no s1 = n \<and> l_no s1 = l_no s
    \<and> partition_list s1 = partition_list s @ map (primary hda d) [k..<n]"
  using assms(3,4)
proof (induction "n - k" arbitrary: k s)
  case (Suc m)
  obtain s1 where s1: "add_primary hda 0 (entry d 0 k) s = Some s1" "dev s1 = dev s" "ext_lba_base s1 = ext_lba_base s"
    "p_no s1 = k + 1" "l_no s1 = l_no s" "partition_list s1 = partition_list s @ [primary hda d k]"
    using Suc(2-4) assms(2) by (simp add: add_primary_def primary_def Let_def)
  have "k < n" using Suc(2) by simp
  moreover have "scan_from hda bs 0 (d 0) k s = scan_from hda bs 0 (d 0) (k + 1) s1"
    using s1(1) assms(1,2) \<open>k < n\<close> by (subst scan_from.simps) (simp add: usual_def)
  ultimately show ?case using Suc(1)[of "k + 1" s1] Suc(2) s1 by (auto simp: upt_conv_Cons)
qed auto

section \<open>Properties\<close>

text \<open>C25: on a disk with at most three primary partitions, followed by an extended partition that is a
  chain of up to eight boot sectors, \<open>partition_scan\<close> lists every partition, primary and logical, once
  and in order: a logical partition begins relative to its own boot sector, a link leads relative to
  the start of the extended partition, and the disk is not changed.\<close>
theorem partition_scan_correct:
  assumes "attached (my_channel hda) (dev s)" "drive hda (dev s) = d"
    and "p_no s = 0" "l_no s = 0" "ext_lba_base s = 0"
    and "\<forall>i<n. usual (entry d 0 i)" "n \<le> 3" "fs_type (entry d 0 n) = 5" "blank_from d 0 (n + 1)"
    and "b = start_lba (entry d 0 n)" "chain d b b m" "m \<le> 8"
  shows "\<exists>s'. partition_scan hda bs 0 s = Some s' \<and> drive hda (dev s') = d \<and> attached (my_channel hda) (dev s')
    \<and> partition_list s' = partition_list s @ map (primary hda d) [0..<n] @ logicals hda d b b 0 m"
proof -
  obtain v where v: "read_sector hda bs 0 (dev s) = Some (d 0, v)" "attached (my_channel hda) v" "drive hda v = d"
    using read_sector_ok[OF assms(1), of 0 bs] assms(2) by auto
  obtain s1 where s1: "scan_from hda bs 0 (d 0) 0 (s\<lparr>dev := v\<rparr>) = scan_from hda bs 0 (d 0) n s1" "dev s1 = v"
    "ext_lba_base s1 = 0" "p_no s1 = n" "l_no s1 = 0" "partition_list s1 = partition_list s @ map (primary hda d) [0..<n]"
    using scan_primaries[of n d 0 "s\<lparr>dev := v\<rparr>" hda bs] assms(3-7) by auto
  have b: "b \<noteq> 0" "b \<le> max_lba" using assms(11) by (cases "(d, b, b, m)" rule: chain.cases; simp)+
  obtain w where w: "scan_from hda bs 0 (d 0) n s1
      = Option.bind (scan_from hda bs b (d (unat b)) 0 (s1\<lparr>dev := w, ext_lba_base := b\<rparr>)) (scan_from hda bs 0 (d 0) (n + 1))"
    "attached (my_channel hda) w" "drive hda w = d"
    using scan_link[of hda s1 d 0 n b b bs 0] v s1(2,3) assms(7,8,10) b(2) by auto
  obtain s' where s': "scan_from hda bs b (d (unat b)) 0 (s1\<lparr>dev := w, ext_lba_base := b\<rparr>) = Some s'"
    "attached (my_channel hda) (dev s')" "drive hda (dev s') = d" "partition_list s' = partition_list s1 @ logicals hda d b b 0 m"
    using scan_chain[OF assms(11), of hda "s1\<lparr>dev := w, ext_lba_base := b\<rparr>" bs] w(2,3) b(1) s1(5) assms(12) by auto
  have "partition_scan hda bs 0 s = Some s'"
    using v(1) s1(1) w(1) s'(1) scan_end[OF assms(9), of hda bs 0 s'] by (simp add: partition_scan_def)
  then show ?thesis using s' s1(6) by auto
qed

text \<open>A disk with one primary partition and two logical ones.\<close>

definition table_entry :: "u8 \<Rightarrow> u32 \<Rightarrow> u32 \<Rightarrow> u8 list" where
  "table_entry t st n = [0, 0, 0, 0, t, 0, 0, 0] @ u32_bytes st @ u32_bytes n"

definition boot_sector :: "u8 list \<Rightarrow> u8 list \<Rightarrow> u8 list" where
  "boot_sector e0 e1 = replicate 446 0 @ e0 @ e1 @ replicate 32 0 @ [0x55, 0xaa]"

definition disk1 :: "nat \<Rightarrow> u8 list" where
  "disk1 k = (if k = 0 then boot_sector (table_entry 0x83 63 30) (table_entry 5 100 200)
     else if k = 100 then boot_sector (table_entry 0x66 1 20) (table_entry 5 40 60)
     else if k = 140 then boot_sector (table_entry 0x66 1 30) (replicate 16 0)
     else replicate 512 0)"

definition scan1 :: scan where
  "scan1 = \<lparr>dev = ide1\<lparr>ctl := (ctl ide1)(0 := (ctl ide1 0)\<lparr>platter := (\<lambda>_. disk1)\<rparr>)\<rparr>, ext_lba_base = 0, p_no = 0, l_no = 0,
     prim_parts = (\<lambda>_. replicate 4 None), logic_parts = (\<lambda>_. replicate 8 None), partition_list = []\<rparr>"

lemma boot_sector_entries:
  assumes "length e0 = 16" "length e1 = 16"
  shows "sub_buf (boot_sector e0 e1) 446 16 = e0" "sub_buf (boot_sector e0 e1) 462 16 = e1"
    "sub_buf (boot_sector e0 e1) 478 16 = replicate 16 0" "sub_buf (boot_sector e0 e1) 494 16 = replicate 16 0"
    "length (boot_sector e0 e1) = 512"
  using assms by (simp_all add: sub_buf_def boot_sector_def)

lemma table_entry_fields:
  "table_entry t st n ! 4 = t" "sub_buf (table_entry t st n) 8 4 = u32_bytes st" "sub_buf (table_entry t st n) 12 4 = u32_bytes n"
  "length (table_entry t st n) = 16"
  by (simp_all add: table_entry_def sub_buf_def u32_bytes_def)

lemma disk1_entries:
  "fs_type (entry disk1 0 0) = 0x83" "start_lba (entry disk1 0 0) = 63" "sec_cnt (entry disk1 0 0) = 30"
  "fs_type (entry disk1 0 1) = 5" "start_lba (entry disk1 0 1) = 100" "blank_from disk1 0 2"
  "fs_type (entry disk1 100 0) = 0x66" "start_lba (entry disk1 100 0) = 1" "sec_cnt (entry disk1 100 0) = 20"
  "fs_type (entry disk1 100 1) = 5" "start_lba (entry disk1 100 1) = 40" "blank_from disk1 100 2"
  "fs_type (entry disk1 140 0) = 0x66" "start_lba (entry disk1 140 0) = 1" "sec_cnt (entry disk1 140 0) = 30" "blank_from disk1 140 1"
proof -
  have j: "2 \<le> j \<Longrightarrow> j < 4 \<Longrightarrow> j = 2 \<or> j = 3" "1 \<le> j \<Longrightarrow> j < 4 \<Longrightarrow> j = 1 \<or> j = 2 \<or> j = 3" for j :: nat by auto
  note s = partition_table_def disk1_def Let_def boot_sector_entries table_entry_fields
  show "fs_type (entry disk1 0 0) = 0x83" "start_lba (entry disk1 0 0) = 63" "sec_cnt (entry disk1 0 0) = 30"
    "fs_type (entry disk1 0 1) = 5" "start_lba (entry disk1 0 1) = 100"
    "fs_type (entry disk1 100 0) = 0x66" "start_lba (entry disk1 100 0) = 1" "sec_cnt (entry disk1 100 0) = 20"
    "fs_type (entry disk1 100 1) = 5" "start_lba (entry disk1 100 1) = 40"
    "fs_type (entry disk1 140 0) = 0x66" "start_lba (entry disk1 140 0) = 1" "sec_cnt (entry disk1 140 0) = 30"
    by (simp_all add: s)
  show "blank_from disk1 0 2" "blank_from disk1 100 2" unfolding blank_from_def by (intro allI impI; drule (1) j(1); auto simp: s)+
  show "blank_from disk1 140 1" unfolding blank_from_def by (intro allI impI; drule (1) j(2); auto simp: s)
qed

theorem partition_scan_witness:
  "\<exists>s'. partition_scan sdb 5000 0 scan1 = Some s' \<and> map part_name (partition_list s') = [''sdb1'', ''sdb5'', ''sdb6'']
     \<and> map part_start_lba (partition_list s') = [63, 101, 141] \<and> map part_sec_cnt (partition_list s') = [30, 20, 30]"
proof -
  have a: "attached (my_channel sdb) (dev scan1)"
    using ide1_attached by (auto simp: attached_def scan1_def sdb_def disk1_def boot_sector_entries table_entry_fields)
  have d: "drive sdb (dev scan1) = disk1" by (simp add: drive_def scan1_def sdb_def)
  have n: "next_ebr disk1 100 100 = 140" by (simp add: next_ebr_def disk1_entries[simplified])
  have "chain disk1 100 100 (Suc (Suc 0))"
    by (simp only: chain.simps n) (simp add: usual_def disk1_entries disk1_entries[simplified] max_lba_def)
  then have c: "chain disk1 100 100 2" by (simp only: numeral_2_eq_2)
  have st: "p_no scan1 = 0" "l_no scan1 = 0" "ext_lba_base scan1 = 0" "partition_list scan1 = []" by (simp_all add: scan1_def)
  have u: "\<forall>i<1. usual (entry disk1 0 i)" by (simp add: usual_def disk1_entries[simplified])
  have "(1 :: nat) \<le> 3" "(2 :: nat) \<le> 8" "blank_from disk1 0 (1 + 1)" using disk1_entries(6) by (simp_all add: numeral_2_eq_2)
  from partition_scan_correct[OF a d st(1-3) u this(1) disk1_entries(4) this(3) disk1_entries(5)[symmetric] c this(2), of 5000]
  obtain s' where s': "partition_scan sdb 5000 0 scan1 = Some s'"
    "partition_list s' = map (primary sdb disk1) [0..<1] @ logicals sdb disk1 100 100 0 2" by (auto simp: st(4))
  have l: "logicals sdb disk1 100 100 0 2 = [logical sdb disk1 100 0, logical sdb disk1 140 1]" by (simp add: numeral_2_eq_2 n)
  have "part_label sdb 1 = ''sdb1''" "part_label sdb 5 = ''sdb5''" "part_label sdb 6 = ''sdb6''" by code_simp+
  then show ?thesis using s'
    by (simp add: l primary_def logical_def disk1_entries[simplified])
qed

end
