(* ===== verification/Format.thy ===== *)
theory Format
  imports Fs Partition
begin

text \<open>
  fs.c, the start of the file system: \<open>partition_format\<close> lays a file system out on a partition,
  \<open>mount_partition\<close> makes it the current one, \<open>filesys_init\<close> looks for a file system on every second disk
  of a channel and mounts \<open>sdb1\<close>. The media are those of the disks by name; a call on one disk has
  its medium in the state. \<open>pad\<close> are the bytes behind the 13 words of the super block on the stack, which
  nothing initialises, and \<open>junk\<close> is the memory behind the bitmaps.
\<close>

definition div_round_up :: "nat \<Rightarrow> nat \<Rightarrow> nat" where
  "div_round_up x unit_len = W32 (x + unit_len - 1) div unit_len"

definition MAX_FILES_PER_PART :: nat where "MAX_FILES_PER_PART = 4096"
definition BITS_PER_SECTOR :: nat where "BITS_PER_SECTOR = 4096"
definition SECTOR_SIZE :: nat where "SECTOR_SIZE = 512"
definition FS_MAGIC :: nat where "FS_MAGIC = 0x19970630"

text \<open>The super block of a partition, and the number of its data blocks.\<close>

definition make_super_block :: "nat \<Rightarrow> nat \<Rightarrow> super_block \<times> nat" where
  "make_super_block start cnt =
     (let inode_bm_sects = div_round_up MAX_FILES_PER_PART BITS_PER_SECTOR;
          inode_tb_sects = div_round_up (sizeof_inode * MAX_FILES_PER_PART) SECTOR_SIZE;
          used_sects = 1 + 1 + inode_bm_sects + inode_tb_sects;
          free_sects = W32 (cnt + 4294967296 - used_sects);
          block_bm_sects = div_round_up free_sects BITS_PER_SECTOR;
          bit_len = W32 (free_sects + 4294967296 - block_bm_sects);
          block_bm_sects = div_round_up bit_len BITS_PER_SECTOR;
          block_bm_lba = W32 (start + 2);
          inode_bm_lba = W32 (block_bm_lba + block_bm_sects);
          inode_tb_lba = W32 (inode_bm_lba + inode_bm_sects)
      in (\<lparr>magic = FS_MAGIC, sb_sec_cnt = cnt, inode_cnt = MAX_FILES_PER_PART, part_lba_base = start,
           block_bitmap_lba = block_bm_lba, block_bitmap_sects = block_bm_sects,
           inode_bitmap_lba = inode_bm_lba, inode_bitmap_sects = inode_bm_sects,
           inode_table_lba = inode_tb_lba, inode_table_sects = inode_tb_sects,
           data_start_lba = W32 (inode_tb_lba + inode_tb_sects), root_inode_no = 0, dir_entry_size = sizeof_dir_entry\<rparr>, bit_len))"

definition sb_bytes :: "super_block \<Rightarrow> u8 list \<Rightarrow> u8 list" where
  "sb_bytes s pad = concat (map le32 [magic s, sb_sec_cnt s, inode_cnt s, part_lba_base s, block_bitmap_lba s, block_bitmap_sects s,
     inode_bitmap_lba s, inode_bitmap_sects s, inode_table_lba s, inode_table_sects s, data_start_lba s, root_inode_no s,
     dir_entry_size s]) @ pad"

definition sb_of :: "u8 list \<Rightarrow> super_block" where
  "sb_of bs = \<lparr>magic = u32_at bs 0, sb_sec_cnt = u32_at bs 4, inode_cnt = u32_at bs 8, part_lba_base = u32_at bs 12,
     block_bitmap_lba = u32_at bs 16, block_bitmap_sects = u32_at bs 20, inode_bitmap_lba = u32_at bs 24,
     inode_bitmap_sects = u32_at bs 28, inode_table_lba = u32_at bs 32, inode_table_sects = u32_at bs 36,
     data_start_lba = u32_at bs 40, root_inode_no = u32_at bs 44, dir_entry_size = u32_at bs 48\<rparr>"

section \<open>Formatting\<close>

fun clear_bits :: "u8 \<Rightarrow> nat list \<Rightarrow> u8" where
  "clear_bits b [] = b"
| "clear_bits b (bit_idx # ks) = clear_bits (b AND NOT (push_bit bit_idx 1)) ks"

text \<open>The block bitmap in a cleared buffer: the first block is taken, the rest of the sector behind the last
  block as well; the loop on the last byte frees the bits 0 to \<open>last_bit\<close>, one more than there are.\<close>

definition block_bitmap_image :: "nat \<Rightarrow> nat \<Rightarrow> u8 list option" where
  "block_bitmap_image buf_size bit_len =
     (let buf = (replicate buf_size 0)[0 := 1];
          last_byte = bit_len div 8; last_bit = bit_len mod 8; last_size = SECTOR_SIZE - last_byte mod SECTOR_SIZE in do {
        ASSERT (last_byte + last_size \<le> buf_size);
        let buf = blit buf last_byte (replicate last_size 0xff)
        in Some (buf[last_byte := clear_bits (buf ! last_byte) [0..<last_bit + 1]])
      })"

definition partition_format :: "u8 list \<Rightarrow> nat \<Rightarrow> nat \<Rightarrow> fs \<Rightarrow> fs option" where
  "partition_format pad start cnt f =
     (let (s, bit_len) = make_super_block start cnt in do {
        f \<leftarrow> fs_write (W32 (start + 1)) (sb_bytes s pad) f;
        let buf_size = (if block_bitmap_sects s \<ge> inode_bitmap_sects s then block_bitmap_sects s else inode_bitmap_sects s);
            buf_size = (if buf_size \<ge> inode_table_sects s then buf_size else inode_table_sects s) * SECTOR_SIZE;
            (q, f) = kmalloc f in do {
          ASSERT (q \<noteq> None);
          buf \<leftarrow> block_bitmap_image buf_size bit_len;
          f \<leftarrow> fs_write (block_bitmap_lba s) (take (512 * block_bitmap_sects s) buf) f;
          f \<leftarrow> fs_write (inode_bitmap_lba s) (take (512 * inode_bitmap_sects s) ((replicate buf_size 0)[0 := 1])) f;
          f \<leftarrow> fs_write (inode_table_lba s)
            (take (512 * inode_table_sects s) (blit (replicate buf_size 0) 0
              (inode_bytes ((inode_init 0)\<lparr>i_size := dir_entry_size s * 2, i_sectors := (replicate 13 0)[0 := data_start_lba s]\<rparr>)))) f;
          fs_write (data_start_lba s) (dot_entries 0 0) f
        }
      })"

section \<open>Mounting\<close>

definition disk_bitmap :: "(nat \<Rightarrow> u8) \<Rightarrow> u8 list \<Rightarrow> bitmap" where
  "disk_bitmap junk bs = \<lparr>btmp_bytes_len = length bs, bits = (\<lambda>k. if k < length bs then bs ! k else junk k)\<rparr>"

definition mount_partition :: "(nat \<Rightarrow> u8) \<Rightarrow> (string \<Rightarrow> nat \<Rightarrow> u8 list) \<Rightarrow> string \<Rightarrow> part \<Rightarrow> fs \<Rightarrow> (bool \<times> fs) option" where
  "mount_partition junk media part_nm q f =
     (if part_name q = part_nm
      then let f = f\<lparr>medium := media (disk_name (my_disk q))\<rparr>; (a, f) = kmalloc f; (b, f) = kmalloc f in do {
        ASSERT (b \<noteq> None);
        ASSERT (a \<noteq> None);
        sb_buf \<leftarrow> fs_read (W32 (unat (part_start_lba q) + 1)) 1 f;
        let s = sb_of sb_buf; (c, f) = kmalloc f in do {
          ASSERT (c \<noteq> None);
          bb \<leftarrow> fs_read (block_bitmap_lba s) (block_bitmap_sects s) f;
          let (d, f) = kmalloc f in do {
            ASSERT (d \<noteq> None);
            ib \<leftarrow> fs_read (inode_bitmap_lba s) (inode_bitmap_sects s) f;
            Some (True, f\<lparr>cur_part := \<lparr>partition.start_lba = unat (part_start_lba q), partition.sec_cnt = unat (part_sec_cnt q),
              sb = s, block_bitmap = disk_bitmap junk bb, inode_bitmap = disk_bitmap junk ib, open_inodes = []\<rparr>\<rparr>)
          }
        }
      }
      else Some (False, f))"

text \<open>list_traversal over the partitions.\<close>

fun mount_first :: "(nat \<Rightarrow> u8) \<Rightarrow> (string \<Rightarrow> nat \<Rightarrow> u8 list) \<Rightarrow> string \<Rightarrow> part list \<Rightarrow> fs \<Rightarrow> (bool \<times> fs) option" where
  "mount_first junk media part_nm [] f = Some (False, f)"
| "mount_first junk media part_nm (q # qs) f =
     do { (stop, f) \<leftarrow> mount_partition junk media part_nm q f; if stop then Some (True, f) else mount_first junk media part_nm qs f }"

section \<open>filesys_init\<close>

text \<open>The partitions of a disk from \<open>part_idx\<close> on; the index is the one the loop ends with.\<close>

fun search_parts :: "u8 list \<Rightarrow> part option list \<Rightarrow> nat \<Rightarrow> fs \<Rightarrow> (nat \<times> fs) option" where
  "search_parts pad [] part_idx f = Some (part_idx, f)"
| "search_parts pad (q # qs) part_idx f =
     do {
       f \<leftarrow> (case q of None \<Rightarrow> Some f
         | Some q \<Rightarrow>
             if part_sec_cnt q \<noteq> 0
             then do {
               sb_buf \<leftarrow> fs_read (W32 (unat (part_start_lba q) + 1)) 1 f;
               if magic (sb_of sb_buf) = FS_MAGIC then Some f
               else partition_format pad (unat (part_start_lba q)) (unat (part_sec_cnt q)) f
             }
             else Some f);
       search_parts pad qs (part_idx + 1) f
     }"

text \<open>The loop over the channels. \<open>part_idx\<close> is not set back to 0 for the next disk.\<close>

fun search_disks :: "u8 list \<Rightarrow> scan \<Rightarrow> nat list \<Rightarrow> nat \<Rightarrow> (string \<Rightarrow> nat \<Rightarrow> u8 list) \<Rightarrow> fs \<Rightarrow> ((string \<Rightarrow> nat \<Rightarrow> u8 list) \<times> fs) option" where
  "search_disks pad s [] part_idx media f = Some (media, f)"
| "search_disks pad s (c # cs) part_idx media f =
     (let nm = disk_name (disk_at c 1) in do {
        (part_idx, f) \<leftarrow> search_parts pad (drop part_idx (prim_parts s nm @ logic_parts s nm)) part_idx (f\<lparr>medium := media nm\<rparr>);
        search_disks pad s cs part_idx (media(nm := medium f)) f
      })"

definition filesys_init :: "u8 list \<Rightarrow> (nat \<Rightarrow> u8) \<Rightarrow> nat \<Rightarrow> scan \<Rightarrow> (string \<Rightarrow> nat \<Rightarrow> u8 list) \<Rightarrow> fs \<Rightarrow> ((string \<Rightarrow> nat \<Rightarrow> u8 list) \<times> fs) option" where
  "filesys_init pad junk channel_cnt s media f =
     (let (sb_buf, f) = kmalloc f in do {
        ASSERT (sb_buf \<noteq> None);
        (media, f) \<leftarrow> search_disks pad s [0..<channel_cnt] 0 media f;
        (mounted, f) \<leftarrow> mount_first junk media ''sdb1'' (partition_list s) f;
        ASSERT mounted;
        f \<leftarrow> open_root_dir f;
        Some (media, f\<lparr>file_table := map (\<lambda>e. e\<lparr>fd_inode := None\<rparr>) (file_table f)\<rparr>)
      })"

section \<open>The layout\<close>

text \<open>A partition within the disk that has room for the tables and at least eight blocks.\<close>

definition formattable :: "nat \<Rightarrow> nat \<Rightarrow> bool" where
  "formattable start cnt \<longleftrightarrow> 620 \<le> cnt \<and> start + cnt \<le> unat max_lba + 1"

definition data_blocks :: "nat \<Rightarrow> nat" where
  "data_blocks cnt = (let free = cnt - 611 in free - (free + 4095) div 4096)"

definition bitmap_sects :: "nat \<Rightarrow> nat" where
  "bitmap_sects cnt = (data_blocks cnt + 4095) div 4096"

lemma sectors_needed:
  fixes n :: nat
  shows "n \<le> 4096 * ((n + 4095) div 4096)" "4096 * ((n + 4095) div 4096) \<le> n + 4095" "(n + 4095) div 4096 \<le> n div 4096 + 1"
proof -
  define q where "q = (n + 4095) div 4096"
  have "4096 * q + (n + 4095) mod 4096 = n + 4095" "(n + 4095) mod 4096 < 4096" unfolding q_def by simp_all
  moreover have "4096 * (n div 4096) + n mod 4096 = n" "n mod 4096 < 4096" by simp_all
  ultimately have "n \<le> 4096 * q" "4096 * q \<le> n + 4095" "q < n div 4096 + 2" by linarith+
  then show "n \<le> 4096 * ((n + 4095) div 4096)" "4096 * ((n + 4095) div 4096) \<le> n + 4095" "(n + 4095) div 4096 \<le> n div 4096 + 1"
    unfolding q_def by simp_all
qed

lemma data_blocks_bounds:
  assumes "formattable start cnt"
  shows "8 \<le> data_blocks cnt" "data_blocks cnt + bitmap_sects cnt + 611 \<le> cnt" "data_blocks cnt \<le> 163229"
    "0 < bitmap_sects cnt" "bitmap_sects cnt \<le> 40" "cnt \<le> data_blocks cnt + bitmap_sects cnt + 612"
proof -
  define fr where "fr = cnt - 611"
  have c: "620 \<le> cnt" "start + cnt \<le> 163840" using assms by (simp_all add: formattable_def max_lba_def)
  then have fr: "9 \<le> fr" "fr \<le> 163229" "cnt = fr + 611" unfolding fr_def by linarith+
  define q where "q = (fr + 4095) div 4096"
  have q: "fr \<le> 4096 * q" "4096 * q \<le> fr + 4095" unfolding q_def by (rule sectors_needed)+
  have d: "data_blocks cnt = fr - q" by (simp add: data_blocks_def Let_def q_def fr_def)
  define p where "p = (fr - q + 4095) div 4096"
  have b: "bitmap_sects cnt = p" by (simp add: bitmap_sects_def d p_def)
  have p: "fr - q \<le> 4096 * p" "4096 * p \<le> fr - q + 4095" unfolding p_def by (rule sectors_needed)+
  have "q < fr" using q(2) fr(1) by linarith
  have q40: "q \<le> 40" using q(2) fr(2) by linarith
  have "p < q + 1" using p(2) q \<open>q < fr\<close> by linarith
  moreover have "\<not> p + 2 \<le> q" using p(1) q(2) q40 by linarith
  ultimately have "p \<le> q" "q \<le> p + 1" by linarith+
  then show "8 \<le> data_blocks cnt" "data_blocks cnt + bitmap_sects cnt + 611 \<le> cnt" "data_blocks cnt \<le> 163229"
    "0 < bitmap_sects cnt" "bitmap_sects cnt \<le> 40" "cnt \<le> data_blocks cnt + bitmap_sects cnt + 612"
    using q p fr unfolding d b by linarith+
qed

lemma make_super_block_eq:
  assumes "formattable start cnt"
  shows "make_super_block start cnt =
    (\<lparr>magic = FS_MAGIC, sb_sec_cnt = cnt, inode_cnt = 4096, part_lba_base = start, block_bitmap_lba = start + 2,
      block_bitmap_sects = bitmap_sects cnt, inode_bitmap_lba = start + 2 + bitmap_sects cnt, inode_bitmap_sects = 1,
      inode_table_lba = start + 3 + bitmap_sects cnt, inode_table_sects = 608, data_start_lba = start + 611 + bitmap_sects cnt,
      root_inode_no = 0, dir_entry_size = 24\<rparr>, data_blocks cnt)"
proof -
  note b = data_blocks_bounds[OF assms]
  have c: "611 \<le> cnt" "start + cnt \<le> 163840" using assms by (simp_all add: formattable_def max_lba_def)
  then obtain fr where fr: "cnt = fr + 611" by (metis le_add_diff_inverse2)
  have "W32 (cnt + 4294967296 - 611) = fr" using c by (simp add: W32_def fr)
  moreover have "div_round_up fr 4096 = (fr + 4095) div 4096" using c by (simp add: div_round_up_def W32_def fr)
  moreover have "W32 (fr + 4294967296 - (fr + 4095) div 4096) = data_blocks cnt"
  proof -
    define d where "d = data_blocks cnt"
    have "(fr + 4095) div 4096 \<le> fr" "d = fr - (fr + 4095) div 4096" using b(1) by (simp_all add: d_def data_blocks_def Let_def fr)
    then have e: "fr + 4294967296 - (fr + 4095) div 4096 = d + 4294967296" by linarith
    show ?thesis unfolding e d_def[symmetric] using b(3) by (simp add: W32_def d_def)
  qed
  moreover have "div_round_up (data_blocks cnt) 4096 = bitmap_sects cnt"
    using b(3) by (simp add: div_round_up_def W32_def bitmap_sects_def)
  moreover have "div_round_up 4096 4096 = 1" "div_round_up 311296 512 = 608" by (simp_all add: div_round_up_def W32_def)
  moreover have "W32 n = n" if "n \<le> start + 611 + bitmap_sects cnt" for n using that b(2,5) c by (simp add: W32_def)
  ultimately show ?thesis
    by (simp add: make_super_block_def Let_def MAX_FILES_PER_PART_def BITS_PER_SECTOR_def SECTOR_SIZE_def sizeof_inode_def
        sizeof_dir_entry_def add.assoc)
qed

lemma bit_clear_bits: "j < 8 \<Longrightarrow> bit (clear_bits b ks) j \<longleftrightarrow> bit b j \<and> j \<notin> set ks"
  by (induction b ks rule: clear_bits.induct) (auto simp: bit_simps)

text \<open>The bitmap in the buffer: the first block and the bits from \<open>bit_len + 1\<close> on are taken, bit
  \<open>bit_len\<close>, which is no block any more, is free.\<close>

lemma block_bitmap_image_ok:
  assumes "8 \<le> bit_len" "512 * (bit_len div 4096) + 512 \<le> buf_size"
  shows "\<exists>img. block_bitmap_image buf_size bit_len = Some img \<and> length img = buf_size
    \<and> (\<forall>k < 4096 * ((bit_len + 4095) div 4096). bit (img ! (k div 8)) (k mod 8) \<longleftrightarrow> k = 0 \<or> bit_len < k)"
proof -
  define lb where "lb = bit_len div 8"
  have lb: "0 < lb" "lb div 512 = bit_len div 4096" using assms(1) by (simp_all add: lb_def div_mult2_eq[symmetric] div_greater_zero_iff)
  have "lb = 512 * (bit_len div 4096) + lb mod 512" "lb mod 512 < 512" using lb(2) mult_div_mod_eq[of 512 lb] by simp_all
  then have lb3: "lb + (512 - lb mod 512) = 512 * (bit_len div 4096) + 512" by linarith
  define b1 where "b1 = blit ((replicate buf_size 0)[0 := 1 :: u8]) lb (replicate (512 - lb mod 512) 0xff)"
  have fit: "lb + (512 - lb mod 512) \<le> buf_size" using lb3 assms(2) by simp
  then have l1: "length b1 = buf_size" by (simp add: b1_def)
  define img where "img = b1[lb := clear_bits (b1 ! lb) [0..<bit_len mod 8 + 1]]"
  have img: "block_bitmap_image buf_size bit_len = Some img"
    using fit by (simp add: block_bitmap_image_def Let_def SECTOR_SIZE_def lb_def img_def b1_def)
  have nth1: "b1 ! j = (if lb \<le> j then 0xff else if j = 0 then 1 else 0)" if "j < lb + (512 - lb mod 512)" for j
    using that fit lb(1) by (simp add: b1_def nth_blit nth_list_update)
  have "bit (img ! (k div 8)) (k mod 8) \<longleftrightarrow> k = 0 \<or> bit_len < k" if k: "k < 4096 * ((bit_len + 4095) div 4096)" for k
  proof -
    define i r where "i = k div 8" and "r = k mod 8"
    have kr: "k = 8 * i + r" "r < 8" by (simp_all add: i_def r_def)
    have "i < lb + (512 - lb mod 512)" using k sectors_needed(3)[of bit_len] unfolding i_def lb3 by linarith
    then have "i < length b1" "b1 ! i = (if lb \<le> i then 0xff else if i = 0 then 1 else 0)" using fit l1 nth1 by simp_all
    then have b: "bit (img ! i) r \<longleftrightarrow> (if i < lb then i = 0 \<and> r = 0 else if i = lb then bit_len mod 8 < r else True)"
      using kr(2) lb(1) byte_full_iff[of "0xff"] by (auto simp: img_def nth_list_update bit_clear_bits bit_1_iff)
    have bl: "bit_len = 8 * lb + bit_len mod 8" "bit_len mod 8 < 8" by (simp_all add: lb_def)
    show ?thesis unfolding i_def[symmetric] r_def[symmetric] b using kr bl lb(1) by (auto split: if_splits)
  qed
  then show ?thesis using img l1 by (auto simp: img_def)
qed

section \<open>Formatting a partition\<close>

lemma length_entry_bytes [simp]: "length (filename e) = 16 \<Longrightarrow> length (entry_bytes e) = 24"
  by (simp add: entry_bytes_def)

lemma length_dot_entries [simp]: "length (dot_entries a b) = 512"
  by (simp add: dot_entries_def)

lemma length_sb_bytes [simp]: "length (sb_bytes s pad) = 52 + length pad"
  by (simp add: sb_bytes_def)

lemma sb_of_bytes:
  assumes "formattable start cnt"
  shows "sb_of (sb_bytes (fst (make_super_block start cnt)) pad) = fst (make_super_block start cnt)"
proof -
  have "start + cnt \<le> 163840" "bitmap_sects cnt \<le> 40"
    using assms data_blocks_bounds(5)[OF assms] by (simp_all add: formattable_def max_lba_def)
  then show ?thesis by (simp add: make_super_block_eq[OF assms] sb_of_def sb_bytes_def FS_MAGIC_def)
qed

definition root_inode :: "nat \<Rightarrow> inode" where
  "root_inode lba = (inode_init 0)\<lparr>i_size := 48, i_sectors := (replicate 13 0)[0 := lba]\<rparr>"

lemma length_root_bytes [simp]: "length (inode_bytes (root_inode lba)) = 76"
  by (simp add: root_inode_def)

lemma put_step:
  assumes "medium_ok (medium f)" "in_range lba n" "length bs = 512 * n"
  shows "fs_write lba bs f = Some (f\<lparr>medium := put_sectors (medium f) lba bs\<rparr>)" "medium_ok (put_sectors (medium f) lba bs)"
  using assms by (simp_all add: fs_write_ok medium_ok_put)

definition formatted :: "nat \<Rightarrow> nat \<Rightarrow> u8 list \<Rightarrow> u8 list \<Rightarrow> (nat \<Rightarrow> u8 list) \<Rightarrow> bool" where
  "formatted start cnt pad img m \<longleftrightarrow> medium_ok m
     \<and> sectors m (start + 1) 1 = sb_bytes (fst (make_super_block start cnt)) pad
     \<and> sectors m (start + 2) (bitmap_sects cnt) = take (512 * bitmap_sects cnt) img
     \<and> sectors m (start + 2 + bitmap_sects cnt) 1 = (replicate 512 0)[0 := 1]
     \<and> sectors m (start + 3 + bitmap_sects cnt) 608 = blit (replicate 311296 0) 0 (inode_bytes (root_inode (start + 611 + bitmap_sects cnt)))
     \<and> sectors m (start + 611 + bitmap_sects cnt) 1 = dot_entries 0 0"

lemma partition_format_ok:
  assumes "formattable start cnt" "medium_ok (medium f)" "length pad = 460" "mallocs f (nmalloc f)"
    and img: "block_bitmap_image 311296 (data_blocks cnt) = Some img" "length img = 311296"
  shows "\<exists>m. partition_format pad start cnt f = Some (f\<lparr>nmalloc := nmalloc f + 1, medium := m\<rparr>) \<and> formatted start cnt pad img m"
proof -
  define T where "T = bitmap_sects cnt"
  define s where "s = fst (make_super_block start cnt)"
  have T: "0 < T" "T \<le> 40" "start + 612 + T \<le> unat max_lba + 1"
    using data_blocks_bounds[OF assms(1)] assms(1) by (simp_all add: T_def formattable_def)
  then have r: "in_range (start + 1) 1" "in_range (start + 2) T" "in_range (start + 2 + T) 1" "in_range (start + 3 + T) 608"
    "in_range (start + 611 + T) 1" by (simp_all add: in_range_def)
  let ?b1 = "sb_bytes s pad" and ?b2 = "take (512 * T) img" and ?b3 = "(replicate 512 0)[0 := 1] :: u8 list"
    and ?b4 = "blit (replicate 311296 0) 0 (inode_bytes (root_inode (start + 611 + T)))" and ?b5 = "dot_entries 0 0"
  have l: "length ?b1 = 512 * 1" "length ?b2 = 512 * T" "length ?b3 = 512 * 1" "length ?b4 = 512 * 608" "length ?b5 = 512 * 1"
    using assms(3) img(2) T(2) by simp_all
  let ?f = "f\<lparr>nmalloc := nmalloc f + 1\<rparr>"
  define m1 where "m1 = put_sectors (medium f) (start + 1) ?b1"
  define m2 where "m2 = put_sectors m1 (start + 2) ?b2"
  define m3 where "m3 = put_sectors m2 (start + 2 + T) ?b3"
  define m4 where "m4 = put_sectors m3 (start + 3 + T) ?b4"
  define m5 where "m5 = put_sectors m4 (start + 611 + T) ?b5"
  note ds = m1_def m2_def m3_def m4_def m5_def
  have ok: "medium_ok m1" "medium_ok m2" "medium_ok m3" "medium_ok m4" "medium_ok m5"
    unfolding ds using medium_ok_put[OF _ l(1)] medium_ok_put[OF _ l(2)] medium_ok_put[OF _ l(3)] medium_ok_put[OF _ l(4)]
      medium_ok_put[OF _ l(5)] assms(2) by blast+
  have W: "W32 (start + 1) = start + 1" using T(3) by (simp add: W32_def max_lba_def)
  have sb: "make_super_block start cnt = (s, data_blocks cnt)" "block_bitmap_lba s = start + 2" "block_bitmap_sects s = T"
    "inode_bitmap_lba s = start + 2 + T" "inode_bitmap_sects s = 1" "inode_table_lba s = start + 3 + T" "inode_table_sects s = 608"
    "data_start_lba s = start + 611 + T" "dir_entry_size s = 24"
    by (simp_all add: s_def make_super_block_eq[OF assms(1)] T_def)
  have w: "fs_write (start + 1) ?b1 f = Some (f\<lparr>medium := m1\<rparr>)"
    "fs_write (start + 2) ?b2 (f\<lparr>medium := m1, nmalloc := nmalloc f + 1\<rparr>) = Some (?f\<lparr>medium := m2\<rparr>)"
    "fs_write (start + 2 + T) ?b3 (?f\<lparr>medium := m2\<rparr>) = Some (?f\<lparr>medium := m3\<rparr>)"
    "fs_write (start + 3 + T) ?b4 (?f\<lparr>medium := m3\<rparr>) = Some (?f\<lparr>medium := m4\<rparr>)"
    "fs_write (start + 611 + T) ?b5 (?f\<lparr>medium := m4\<rparr>) = Some (?f\<lparr>medium := m5\<rparr>)"
    using put_step(1)[OF assms(2) r(1) l(1)] put_step(1)[of "f\<lparr>medium := m1, nmalloc := nmalloc f + 1\<rparr>", OF _ r(2) l(2)]
      put_step(1)[of "?f\<lparr>medium := m2\<rparr>", OF _ r(3) l(3)] put_step(1)[of "?f\<lparr>medium := m3\<rparr>", OF _ r(4) l(4)]
      put_step(1)[of "?f\<lparr>medium := m4\<rparr>", OF _ r(5) l(5)] ok by (simp_all add: m1_def m2_def m3_def m4_def m5_def del: One_nat_def)
  have t: "take 512 ((replicate 311296 0)[0 := 1 :: u8]) = ?b3" by (simp add: take_update_swap)
  have root: "take 311296 (blit (replicate 311296 0) 0 (inode_bytes ((inode_init 0)\<lparr>i_size := 48, i_sectors := (replicate 13 0)[0 := start + 611 + T]\<rparr>))) = ?b4"
    using l(4) by (simp add: root_inode_def[symmetric])
  have "partition_format pad start cnt f = Some (?f\<lparr>medium := m5\<rparr>)"
    unfolding partition_format_def sb(1) using w t root assms(4) img(1) T(2) W
    by (simp add: sb kmalloc_def SECTOR_SIZE_def del: One_nat_def)
  moreover have "formatted start cnt pad img m5"
    unfolding formatted_def T_def[symmetric] s_def[symmetric] using ok(5)
    by (simp add: ds sectors_put[OF l(1), simplified] sectors_put[OF l(2)] sectors_put[OF l(3), simplified] sectors_put[OF l(4), simplified]
        sectors_put[OF l(5), simplified] sectors_put_other[OF l(2)] sectors_put_other[OF l(3)] sectors_put_other[OF l(4)] sectors_put_other[OF l(5)])
  ultimately show ?thesis by blast
qed

section \<open>Properties\<close>

lemma unat_nat_u32: "n < 4294967296 \<Longrightarrow> unat (of_nat n :: u32) = n"
  by (simp only: unsigned_of_nat) (simp add: take_bit_nat_eq_self)

lemma mount_formatted:
  assumes "formattable start cnt" "formatted start cnt pad img m" "length img = 311296" "\<forall>k. mallocs f k"
    and "part_start_lba q = of_nat start" "part_sec_cnt q = of_nat cnt"
  shows "mount_partition junk (\<lambda>_. m) (part_name q) q f =
    Some (True, f\<lparr>medium := m, nmalloc := nmalloc f + 4, cur_part := \<lparr>partition.start_lba = start, partition.sec_cnt = cnt,
      sb = fst (make_super_block start cnt), block_bitmap = disk_bitmap junk (take (512 * bitmap_sects cnt) img),
      inode_bitmap = disk_bitmap junk ((replicate 512 0)[0 := 1]), open_inodes = []\<rparr>\<rparr>)"
proof -
  define T where "T = bitmap_sects cnt"
  have T: "0 < T" "T \<le> 40" "start + cnt \<le> 163840" "start + 612 + T \<le> 163840"
    using data_blocks_bounds[OF assms(1)] assms(1) by (simp_all add: T_def formattable_def max_lba_def)
  then have r: "in_range (start + 1) 1" "in_range (start + 2) T" "in_range (start + 2 + T) 1" by (simp_all add: in_range_def max_lba_def)
  define s where "s = fst (make_super_block start cnt)"
  have sb: "sb_of (sb_bytes s pad) = s" "block_bitmap_lba s = start + 2" "block_bitmap_sects s = T"
    "inode_bitmap_lba s = start + 2 + T" "inode_bitmap_sects s = 1"
    unfolding s_def by (rule sb_of_bytes[OF assms(1)]) (simp_all add: make_super_block_eq[OF assms(1)] T_def)
  have m: "sectors m (start + 1) 1 = sb_bytes s pad" "sectors m (start + 2) T = take (512 * T) img"
    "sectors m (start + 2 + T) 1 = (replicate 512 0)[0 := 1]" using assms(2) by (simp_all add: formatted_def T_def s_def)
  have u: "unat (part_start_lba q) = start" "unat (part_sec_cnt q) = cnt" "W32 (start + 1) = start + 1"
    using T(3) assms(5,6) by (simp_all add: unat_nat_u32 W32_def)
  have n: "nmalloc f + 4 = nmalloc f + 1 + 1 + 1 + 1" by simp
  show ?thesis unfolding n using r assms(4)
    by (simp add: mount_partition_def u kmalloc_def fs_read_ok m sb s_def[symmetric] T_def[symmetric] del: One_nat_def add_2_eq_Suc')
qed

lemma first_inode_used:
  assumes "k < 4096"
  shows "bitmap_scan_test (disk_bitmap junk ((replicate 512 0)[0 := 1])) k \<longleftrightarrow> k = 0"
proof -
  have "k div 8 < 512" using assms by linarith
  then have "bits (disk_bitmap junk ((replicate 512 0)[0 := 1])) (k div 8) = (if k div 8 = 0 then 1 else 0)"
    by (simp add: disk_bitmap_def nth_list_update)
  then have "bitmap_scan_test (disk_bitmap junk ((replicate 512 0)[0 := 1])) k \<longleftrightarrow> k div 8 = 0 \<and> k mod 8 = 0" by (simp add: scan_test_bit bit_1_iff)
  also have "\<dots> \<longleftrightarrow> k = 0" using div_mod_8_eq[of k 0] by auto
  finally show ?thesis .
qed

text \<open>C19: a partition that \<open>partition_format\<close> has formatted can be mounted: \<open>mount_partition\<close> finds the super
  block, every inode but that of the root directory free, the root directory with \<open>.\<close> and \<open>..\<close> in the
  first block, and of the block bitmap the first block and the bits behind number \<open>data_blocks\<close> taken.
  Bit \<open>data_blocks\<close> itself, of a block behind the partition, is free, because the loop that clears the
  last byte runs to \<open>bit_idx <= block_bitmap_last_bit\<close>.\<close>
theorem format_mount_correct:
  assumes "formattable start cnt" "medium_ok (medium f)" "length pad = 460" "\<forall>k. mallocs f k"
    and "part_start_lba q = of_nat start" "part_sec_cnt q = of_nat cnt"
  shows "\<exists>g h. partition_format pad start cnt f = Some g
    \<and> mount_partition junk (\<lambda>_. medium g) (part_name q) q g = Some (True, h)
    \<and> sb (cur_part h) = fst (make_super_block start cnt) \<and> open_inodes (cur_part h) = []
    \<and> (\<forall>k < 4096 * bitmap_sects cnt. bitmap_scan_test (block_bitmap (cur_part h)) k \<longleftrightarrow> k = 0 \<or> data_blocks cnt < k)
    \<and> (\<forall>k < 4096. bitmap_scan_test (inode_bitmap (cur_part h)) k \<longleftrightarrow> k = 0)
    \<and> disk_inode h 0 = root_inode (data_start_lba (sb (cur_part h))) \<and> medium h (data_start_lba (sb (cur_part h))) = dot_entries 0 0"
proof -
  note d = data_blocks_bounds[OF assms(1)]
  have "512 * (data_blocks cnt div 4096) + 512 \<le> 311296" using d(3) by linarith
  then obtain img where img: "block_bitmap_image 311296 (data_blocks cnt) = Some img" "length img = 311296"
    "\<forall>k < 4096 * bitmap_sects cnt. bit (img ! (k div 8)) (k mod 8) \<longleftrightarrow> k = 0 \<or> data_blocks cnt < k"
    using block_bitmap_image_ok[OF d(1)] unfolding bitmap_sects_def by blast
  obtain m where g: "partition_format pad start cnt f = Some (f\<lparr>nmalloc := nmalloc f + 1, medium := m\<rparr>)" "formatted start cnt pad img m"
    using partition_format_ok[OF assms(1-3) _ img(1,2)] assms(4) by blast
  let ?g = "f\<lparr>nmalloc := nmalloc f + 1, medium := m\<rparr>"
  define h where "h = ?g\<lparr>medium := m, nmalloc := nmalloc ?g + 4, cur_part := \<lparr>partition.start_lba = start, partition.sec_cnt = cnt,
      sb = fst (make_super_block start cnt), block_bitmap = disk_bitmap junk (take (512 * bitmap_sects cnt) img),
      inode_bitmap = disk_bitmap junk ((replicate 512 0)[0 := 1]), open_inodes = []\<rparr>\<rparr>"
  have mt: "mount_partition junk (\<lambda>_. medium ?g) (part_name q) q ?g = Some (True, h)"
    using mount_formatted[OF assms(1) g(2) img(2), of ?g q junk] assms(4-6) unfolding h_def by simp
  have b: "bitmap_scan_test (block_bitmap (cur_part h)) k \<longleftrightarrow> k = 0 \<or> data_blocks cnt < k" if "k < 4096 * bitmap_sects cnt" for k
  proof -
    have "k div 8 < 512 * bitmap_sects cnt" "512 * bitmap_sects cnt \<le> length img" using that d(5) img(2) by linarith+
    then show ?thesis using img(3) that by (simp add: h_def disk_bitmap_def scan_test_bit)
  qed
  have i: "bitmap_scan_test (inode_bitmap (cur_part h)) k \<longleftrightarrow> k = 0" if "k < 4096" for k
    using first_inode_used[OF that] by (simp add: h_def)
  have ok: "medium_ok m" and root: "sectors m (start + 3 + bitmap_sects cnt) 608 = blit (replicate 311296 0) 0 (inode_bytes (root_inode (start + 611 + bitmap_sects cnt)))"
    and dots: "sectors m (start + 611 + bitmap_sects cnt) 1 = dot_entries 0 0" using g(2) by (simp_all add: formatted_def)
  let ?lba = "start + 611 + bitmap_sects cnt" and ?a = "512 * (start + 3 + bitmap_sects cnt)"
  have "disk_bytes m ?a 76 = sub_buf (sectors m (start + 3 + bitmap_sects cnt) 608) 0 76"
    unfolding sectors_bytes[OF ok] by (simp add: sub_disk_bytes)
  also have "\<dots> = inode_bytes (root_inode ?lba)" unfolding root by (intro sub_buf_blit_same) simp_all
  finally have "disk_inode h 0 = inode_of (inode_bytes (root_inode ?lba))"
    by (simp add: h_def disk_inode_def inode_addr_def sizeof_inode_def make_super_block_eq[OF assms(1)])
  moreover have "inode_wf (root_inode ?lba)"
    using d assms(1) by (auto simp: inode_wf_def root_inode_def inode_init_def formattable_def max_lba_def dest!: set_update_subset_insert[THEN subsetD])
  ultimately have "disk_inode h 0 = root_inode ?lba" using inode_of_bytes by simp
  moreover have "medium h ?lba = dot_entries 0 0" using dots sectors_one[of m ?lba] by (simp add: h_def)
  moreover have "data_start_lba (sb (cur_part h)) = ?lba" "sb (cur_part h) = fst (make_super_block start cnt)" "open_inodes (cur_part h) = []"
    by (simp_all add: h_def make_super_block_eq[OF assms(1)])
  ultimately show ?thesis using g(1) mt b i by auto
qed

theorem format_mount_witness:
  "\<exists>g h. partition_format (replicate 460 0) 2048 20000 fs1 = Some g
    \<and> mount_partition (\<lambda>_. 0) (\<lambda>_. medium g) ''sdb1'' \<lparr>part_start_lba = 2048, part_sec_cnt = 20000, my_disk = sdb, part_name = ''sdb1''\<rparr> g = Some (True, h)
    \<and> \<not> bitmap_scan_test (block_bitmap (cur_part h)) (20000 - 611 - 5)"
proof -
  let ?q = "\<lparr>part_start_lba = 2048, part_sec_cnt = 20000, my_disk = sdb, part_name = ''sdb1''\<rparr>"
  have "formattable 2048 20000" by (simp add: formattable_def max_lba_def)
  moreover have "data_blocks 20000 = 19384" "bitmap_sects 20000 = 5" by (simp_all add: data_blocks_def bitmap_sects_def)
  ultimately show ?thesis
    using format_mount_correct[of 2048 20000 fs1 "replicate 460 0" ?q "\<lambda>_. 0"] fs1_ok(1) by (force simp: fs1_def)
qed

end
