(* ===== verification/Alloc.thy ===== *)
theory Alloc
  imports File
begin

text \<open>
  What the allocation of blocks does to the volume: \<open>took f L f'\<close> says that between the states \<open>f\<close> and \<open>f'\<close>
  the free blocks \<open>L\<close> were taken and entered in the bitmap of the disk, and that nothing else of the volume
  changed; inodes may have. Every loop of file.c that takes blocks is a chain of such steps.
\<close>

section \<open>A well-formed volume\<close>

abbreviation data_start :: "fs \<Rightarrow> nat" where
  "data_start f \<equiv> data_start_lba (sb (cur_part f))"

abbreviation block_used :: "fs \<Rightarrow> nat \<Rightarrow> bool" where
  "block_used f \<equiv> bitmap_scan_test (block_bitmap (cur_part f))"

abbreviation bitmap_len :: "fs \<Rightarrow> nat" where
  "bitmap_len f \<equiv> 4096 * block_bitmap_sects (sb (cur_part f))"

text \<open>The bitmap and the inode table lie in front of the data blocks, the bitmap on the disk has the length
  of the one in memory, block 0 is taken, and a free block is a sector of the disk.\<close>

definition vol_ok :: "fs \<Rightarrow> bool" where
  "vol_ok f \<longleftrightarrow> (let s = sb (cur_part f) in
     medium_ok (medium f) \<and> btmp_bytes_len (block_bitmap (cur_part f)) = 512 * block_bitmap_sects s
     \<and> in_range (block_bitmap_lba s) (block_bitmap_sects s) \<and> block_bitmap_lba s + block_bitmap_sects s \<le> inode_table_lba s
     \<and> inode_table_lba s + 608 \<le> data_start_lba s \<and> block_used f 0
     \<and> (\<forall>k < bitmap_len f. \<not> block_used f k \<longrightarrow> in_range (data_start_lba s + k) 1))"

lemma vol_okD:
  assumes "vol_ok f"
  shows "medium_ok (medium f)" "btmp_bytes_len (block_bitmap (cur_part f)) = 512 * block_bitmap_sects (sb (cur_part f))"
    "in_range (block_bitmap_lba (sb (cur_part f))) (block_bitmap_sects (sb (cur_part f)))"
    "block_bitmap_lba (sb (cur_part f)) + block_bitmap_sects (sb (cur_part f)) \<le> inode_table_lba (sb (cur_part f))"
    "inode_table_lba (sb (cur_part f)) + 608 \<le> data_start f" "block_used f 0"
    "k < bitmap_len f \<Longrightarrow> \<not> block_used f k \<Longrightarrow> in_range (data_start f + k) 1"
  using assms by (simp_all add: vol_ok_def Let_def)

definition nfree :: "fs \<Rightarrow> nat" where
  "nfree f = card {k. k < bitmap_len f \<and> \<not> block_used f k}"

text \<open>A free data block.\<close>

definition free_lba :: "fs \<Rightarrow> nat \<Rightarrow> bool" where
  "free_lba f lba \<longleftrightarrow> data_start f < lba \<and> lba - data_start f < bitmap_len f \<and> \<not> block_used f (lba - data_start f)"

text \<open>Two states that differ in the medium, the block bitmap and the inodes at most.\<close>

definition same_rest :: "fs \<Rightarrow> fs \<Rightarrow> bool" where
  "same_rest f f' \<longleftrightarrow> sb (cur_part f') = sb (cur_part f) \<and> start_lba (cur_part f') = start_lba (cur_part f)
     \<and> sec_cnt (cur_part f') = sec_cnt (cur_part f) \<and> open_inodes (cur_part f') = open_inodes (cur_part f)
     \<and> inode_bitmap (cur_part f') = inode_bitmap (cur_part f)
     \<and> btmp_bytes_len (block_bitmap (cur_part f')) = btmp_bytes_len (block_bitmap (cur_part f))
     \<and> file_table f' = file_table f \<and> fs.fd_table f' = fs.fd_table f \<and> nmalloc f' = nmalloc f \<and> mallocs f' = mallocs f
     \<and> dirs f' = dirs f \<and> fs.cwd_inode_nr f' = fs.cwd_inode_nr f"

definition took :: "fs \<Rightarrow> nat list \<Rightarrow> fs \<Rightarrow> bool" where
  "took f L f' \<longleftrightarrow> distinct L \<and> (\<forall>lba\<in>set L. free_lba f lba) \<and> medium_ok (medium f') \<and> same_rest f f'
     \<and> (\<forall>j. block_used f' j \<longleftrightarrow> block_used f j \<or> data_start f + j \<in> set L)
     \<and> (\<forall>k. inode_table_lba (sb (cur_part f)) \<le> k \<longrightarrow> medium f' k = medium f k)"

lemma tookD:
  assumes "took f L f'"
  shows "distinct L" "lba \<in> set L \<Longrightarrow> free_lba f lba" "medium_ok (medium f')"
    "sb (cur_part f') = sb (cur_part f)" "start_lba (cur_part f') = start_lba (cur_part f)" "sec_cnt (cur_part f') = sec_cnt (cur_part f)"
    "open_inodes (cur_part f') = open_inodes (cur_part f)" "inode_bitmap (cur_part f') = inode_bitmap (cur_part f)"
    "btmp_bytes_len (block_bitmap (cur_part f')) = btmp_bytes_len (block_bitmap (cur_part f))"
    "block_used f' j \<longleftrightarrow> block_used f j \<or> data_start f + j \<in> set L"
    "inode_table_lba (sb (cur_part f)) \<le> k \<Longrightarrow> medium f' k = medium f k"
    "file_table f' = file_table f" "fs.fd_table f' = fs.fd_table f" "nmalloc f' = nmalloc f" "mallocs f' = mallocs f" "dirs f' = dirs f"
    "fs.cwd_inode_nr f' = fs.cwd_inode_nr f"
  using assms unfolding took_def same_rest_def by blast+

lemma took_vol_ok: "took f L f' \<Longrightarrow> vol_ok f \<Longrightarrow> vol_ok f'"
  using tookD[of f L f'] by (auto simp: vol_ok_def Let_def)

lemma took_refl: "vol_ok f \<Longrightarrow> took f [] f"
  by (simp add: took_def same_rest_def vol_okD(1))

text \<open>Only the inodes change.\<close>

lemma took_set_inode: "took f L f' \<Longrightarrow> took f L (set_inode p i f')"
  by (simp add: took_def same_rest_def set_inode_def)

lemma took_trans:
  assumes "took f L f1" "took f1 L1 f2"
  shows "took f (L @ L1) f2"
proof -
  note t = tookD[OF assms(1)] and t1 = tookD[OF assms(2)]
  have "free_lba f lba \<and> lba \<notin> set L" if "lba \<in> set L1" for lba
  proof -
    have fr: "free_lba f1 lba" using t1(2) that by blast
    then have "data_start f + (lba - data_start f) = lba" by (simp add: free_lba_def t(4))
    then show ?thesis using fr t(10)[of "lba - data_start f"] by (auto simp: free_lba_def t(4))
  qed
  then show ?thesis
    unfolding took_def same_rest_def using t t1 by auto
qed

lemma took_nfree:
  assumes "took f L f'"
  shows "nfree f = nfree f' + length L"
proof -
  note t = tookD[OF assms]
  let ?A = "{k. k < bitmap_len f \<and> \<not> block_used f k}" and ?B = "(\<lambda>lba. lba - data_start f) ` set L"
  have B: "?B \<subseteq> ?A" using t(2) by (auto simp: free_lba_def)
  have "inj_on (\<lambda>lba. lba - data_start f) (set L)"
    by (rule inj_onI) (use t(2) in \<open>force simp: free_lba_def\<close>)
  then have c: "card ?B = length L" using distinct_card[OF t(1)] card_image by fastforce
  have "{k. k < bitmap_len f' \<and> \<not> block_used f' k} = ?A - ?B"
  proof (rule set_eqI)
    fix k
    have "data_start f + k \<in> set L \<longleftrightarrow> k \<in> ?B"
      using t(2) by (force simp: free_lba_def image_iff)
    then show "k \<in> {k. k < bitmap_len f' \<and> \<not> block_used f' k} \<longleftrightarrow> k \<in> ?A - ?B" using t(4,10) by auto
  qed
  then have "nfree f' = card ?A - card ?B" using card_Diff_subset[OF finite_subset[OF B] B] by (simp add: nfree_def)
  moreover have "card ?B \<le> card ?A" by (rule card_mono[OF _ B]) simp
  ultimately show ?thesis using c by (simp add: nfree_def)
qed

section \<open>Taking a block\<close>

lemma alloc_ok:
  assumes "vol_ok f" "0 < nfree f"
  shows "\<exists>lba b. block_bitmap_alloc f = Some (int lba, f\<lparr>cur_part := (cur_part f)\<lparr>block_bitmap := b\<rparr>\<rparr>) \<and> free_lba f lba
    \<and> btmp_bytes_len b = btmp_bytes_len (block_bitmap (cur_part f))
    \<and> (\<forall>j. bitmap_scan_test b j \<longleftrightarrow> block_used f j \<or> data_start f + j = lba)"
proof -
  note v = vol_okD[OF assms(1)]
  have "{k. k < bitmap_len f \<and> \<not> block_used f k} \<noteq> {}" using assms(2) unfolding nfree_def by fastforce
  then obtain k0 where k0: "k0 < bitmap_len f" "\<not> block_used f k0" by blast
  then have "k0 < 8 * btmp_bytes_len (block_bitmap (cur_part f))" using v(2) by simp
  then obtain k where k: "bitmap_scan (block_bitmap (cur_part f)) 1 = Some (int k)" "k < bitmap_len f" "\<not> block_used f k"
    using bitmap_scan_first[OF _ k0(2)] v(2) by force
  obtain b where b: "bitmap_set (block_bitmap (cur_part f)) k 1 = Some b" "btmp_bytes_len b = btmp_bytes_len (block_bitmap (cur_part f))"
    "\<forall>j. bitmap_scan_test b j \<longleftrightarrow> j = k \<or> block_used f j" using bitmap_set_1 by blast
  have "0 < k" using k(3) v(6) by (cases k) simp_all
  then have "free_lba f (data_start f + k)" using k(2,3) by (simp add: free_lba_def)
  then show ?thesis using k(1) b
    by (intro exI[of _ "data_start f + k"] exI[of _ b]) (auto simp: block_bitmap_alloc_def set_block_bit_def)
qed

lemma free_lba_range:
  assumes "vol_ok f" "free_lba f lba"
  shows "in_range lba 1"
proof -
  have "in_range (data_start f + (lba - data_start f)) 1"
    by (rule vol_okD(7)[OF assms(1)]) (use assms(2) in \<open>simp_all add: free_lba_def\<close>)
  then show ?thesis using assms(2) by (simp add: free_lba_def)
qed

lemma block_idx_of_free:
  assumes "vol_ok f" "free_lba f lba"
  shows "block_idx_of lba f = lba - data_start f" "0 < lba - data_start f"
proof -
  have l: "lba < 163840" "data_start f < lba"
    using free_lba_range[OF assms] assms(2) by (simp_all add: in_range_def max_lba_def free_lba_def)
  then obtain d where d: "lba = data_start f + d" using less_imp_add_positive by blast
  show "block_idx_of lba f = lba - data_start f" using l(1) by (simp add: block_idx_of_def W32_def d add.assoc)
  show "0 < lba - data_start f" using l by simp
qed

text \<open>The allocation, any change of inodes, and the bitmap sector written to disk.\<close>

lemma bitmap_sync_ok:
  assumes "vol_ok f" "k < bitmap_len f"
  shows "\<exists>m. bitmap_sync k BLOCK_BITMAP f = Some (f\<lparr>medium := m\<rparr>) \<and> medium_ok m
    \<and> (\<forall>j. inode_table_lba (sb (cur_part f)) \<le> j \<longrightarrow> m j = medium f j)"
proof -
  note v = vol_okD[OF assms(1)]
  let ?lba = "block_bitmap_lba (sb (cur_part f)) + k div 4096"
    and ?bs = "map (\<lambda>j. bits (block_bitmap (cur_part f)) (k div 4096 * 512 + j)) [0..<512]"
  have d: "k div 4096 < block_bitmap_sects (sb (cur_part f))" using assms(2) by (simp add: div_less_iff_less_mult mult.commute)
  have "in_range ?lba 1" using v(3) d by (simp add: in_range_def)
  moreover have "length ?bs = 512 * 1" by simp
  ultimately obtain m where m: "fs_write ?lba ?bs f = Some (f\<lparr>medium := m\<rparr>)" "replaced (512 * ?lba) ?bs (medium f) m"
    using write_ok[OF v(1)] by blast
  have "m j = medium f j" if "inode_table_lba (sb (cur_part f)) \<le> j" for j
    by (rule replaced_sector[OF m(2) v(1)]) (use that d v(4) in simp)
  then show ?thesis using m(1) replacedD(1)[OF m(2)] by (auto simp: bitmap_sync_def)
qed

lemma alloc_sync:
  assumes "vol_ok f" "0 < nfree f"
  shows "\<exists>lba f1. block_bitmap_alloc f = Some (int lba, f1) \<and> inodes f1 = inodes f \<and> free_lba f lba \<and> block_idx_of lba f1 = lba - data_start f
    \<and> (\<forall>h. \<exists>f2. bitmap_sync (lba - data_start f) BLOCK_BITMAP (f1\<lparr>inodes := h\<rparr>) = Some f2 \<and> inodes f2 = h \<and> took f [lba] f2)"
proof -
  obtain lba b where a: "block_bitmap_alloc f = Some (int lba, f\<lparr>cur_part := (cur_part f)\<lparr>block_bitmap := b\<rparr>\<rparr>)" "free_lba f lba"
    "btmp_bytes_len b = btmp_bytes_len (block_bitmap (cur_part f))"
    "\<forall>j. bitmap_scan_test b j \<longleftrightarrow> block_used f j \<or> data_start f + j = lba" using alloc_ok[OF assms] by blast
  let ?f1 = "f\<lparr>cur_part := (cur_part f)\<lparr>block_bitmap := b\<rparr>\<rparr>"
  have v1: "vol_ok (?f1\<lparr>inodes := h\<rparr>)" for h using assms(1) a(3,4) by (auto simp: vol_ok_def Let_def)
  have k: "lba - data_start f < bitmap_len f" using a(2) by (simp add: free_lba_def)
  have "\<exists>f2. bitmap_sync (lba - data_start f) BLOCK_BITMAP (?f1\<lparr>inodes := h\<rparr>) = Some f2 \<and> inodes f2 = h \<and> took f [lba] f2" for h
  proof -
    obtain m where m: "bitmap_sync (lba - data_start f) BLOCK_BITMAP (?f1\<lparr>inodes := h\<rparr>) = Some (?f1\<lparr>inodes := h, medium := m\<rparr>)" "medium_ok m"
      "\<forall>j. inode_table_lba (sb (cur_part f)) \<le> j \<longrightarrow> m j = medium f j"
      using bitmap_sync_ok[OF v1[of h]] k by auto
    have "took f [lba] (?f1\<lparr>inodes := h, medium := m\<rparr>)"
      using m(2,3) a(2,3,4) by (auto simp: took_def same_rest_def)
    then show ?thesis using m(1) by auto
  qed
  moreover have "block_idx_of lba ?f1 = lba - data_start f" using block_idx_of_free(1)[OF assms(1) a(2)] by (simp add: block_idx_of_def)
  ultimately show ?thesis using a(1,2) by (intro exI[of _ lba] exI[of _ ?f1]) auto
qed

end
