(* ===== verification/Filedata.thy ===== *)
theory Filedata
  imports Alloc
begin

text \<open>
  What file_write and file_read do to a file, in terms of its content: the bytes in its blocks up to its
  size. A file is well formed (\<open>file_ok\<close>) when its blocks are the right number of distinct data
  blocks that the bitmap marks as taken. A write appends to the content, keeps the file well formed and
  leaves every other taken block as it is; a read returns a piece of the content.
\<close>

section \<open>Growing a file\<close>

lemma grow_blocks_ok:
  assumes "vol_ok f" "length ks \<le> nfree f" "inodes f p = Some i" "length (i_sectors i) = 13" "distinct ks"
    and "\<forall>k\<in>set ks. k < 140 \<and> (k < 12 \<longrightarrow> i_sectors i ! k = 0)" "length AB = 140"
  shows "\<exists>L AB' ss f'. grow_blocks p ks AB f = Some (True, AB', f') \<and> took f L f' \<and> length L = length ks
    \<and> inodes f' = (inodes f)(p \<mapsto> i\<lparr>i_sectors := ss\<rparr>) \<and> length AB' = 140 \<and> length ss = 13
    \<and> (\<forall>j<length ks. AB' ! (ks ! j) = L ! j) \<and> (\<forall>k. k \<notin> set ks \<longrightarrow> AB' ! k = AB ! k)
    \<and> ss ! 12 = i_sectors i ! 12 \<and> (\<forall>k<12. ss ! k = (if k \<in> set ks then AB' ! k else i_sectors i ! k))"
  using assms
proof (induction ks arbitrary: f i AB)
  case Nil
  have "(inodes f)(p \<mapsto> i) = inodes f" using Nil(3) by auto
  then show ?case using Nil took_refl[OF Nil(1)] by (intro exI[of _ "[]"] exI[of _ AB] exI[of _ "i_sectors i"] exI[of _ f]) simp
next
  case (Cons k ks)
  have "0 < nfree f" using Cons(3) by simp
  from alloc_sync[OF Cons(2) this] obtain lba f1 where a: "block_bitmap_alloc f = Some (int lba, f1)" "inodes f1 = inodes f"
    "free_lba f lba" "block_idx_of lba f1 = lba - data_start f"
    "\<forall>h. \<exists>f2. bitmap_sync (lba - data_start f) BLOCK_BITMAP (f1\<lparr>inodes := h\<rparr>) = Some f2 \<and> inodes f2 = h \<and> took f [lba] f2"
    by blast
  define i1 where "i1 = i\<lparr>i_sectors := if k < 12 then (i_sectors i)[k := lba] else i_sectors i\<rparr>"
  obtain f2 where f2: "bitmap_sync (lba - data_start f) BLOCK_BITMAP (f1\<lparr>inodes := (inodes f)(p \<mapsto> i1)\<rparr>) = Some f2"
    "inodes f2 = (inodes f)(p \<mapsto> i1)" "took f [lba] f2" using a(5) by blast
  have "k < 12 \<Longrightarrow> set_sector p k lba f1 = Some (f1\<lparr>inodes := (inodes f)(p \<mapsto> i1)\<rparr>)" "\<not> k < 12 \<Longrightarrow> f1 = f1\<lparr>inodes := (inodes f)(p \<mapsto> i1)\<rparr>"
    using a(2) Cons(4) by (auto simp: set_sector_def set_inode_def i1_def fun_upd_idem)
  then have e: "(if k < 12 then do { i \<leftarrow> inodes f1 p; ASSERT (i_sectors i ! k = 0); set_sector p k (nat (int lba)) f1 } else Some f1)
      = Some (f1\<lparr>inodes := (inodes f)(p \<mapsto> i1)\<rparr>)" using a(2) Cons(4,7) by auto
  have bi: "block_idx_of lba (f1\<lparr>inodes := h\<rparr>) = lba - data_start f" for h using a(4) by (simp add: block_idx_of_def)
  have g: "grow_blocks p (k # ks) AB f = grow_blocks p ks (AB[k := lba]) f2"
    using f2(1) bi by (simp add: a(1) e split del: if_split)
  have i2: "inodes f2 p = Some i1" "length (i_sectors i1) = 13" using f2(2) Cons(5) by (simp_all add: i1_def)
  have k2: "\<forall>k'\<in>set ks. k' < 140 \<and> (k' < 12 \<longrightarrow> i_sectors i1 ! k' = 0)" using Cons(5,6,7) by (auto simp: i1_def nth_list_update)
  have v2: "vol_ok f2" "length ks \<le> nfree f2" using took_vol_ok[OF f2(3) Cons(2)] took_nfree[OF f2(3)] Cons(3) by simp_all
  have "distinct ks" "length (AB[k := lba]) = 140" using Cons(6,8) by simp_all
  from Cons.IH[OF v2 i2 this(1) k2 this(2)]
  obtain L AB' ss f' where IH: "grow_blocks p ks (AB[k := lba]) f2 = Some (True, AB', f')" "took f2 L f'" "length L = length ks"
    "inodes f' = (inodes f2)(p \<mapsto> i1\<lparr>i_sectors := ss\<rparr>)" "length AB' = 140" "length ss = 13"
    "\<forall>j<length ks. AB' ! (ks ! j) = L ! j" "\<forall>k'. k' \<notin> set ks \<longrightarrow> AB' ! k' = AB[k := lba] ! k'"
    "ss ! 12 = i_sectors i1 ! 12" "\<forall>k'<12. ss ! k' = (if k' \<in> set ks then AB' ! k' else i_sectors i1 ! k')"
    by blast
  have "AB' ! k = lba" using IH(8) Cons(6,7,8) by simp
  then have "\<forall>j<length (k # ks). AB' ! ((k # ks) ! j) = (lba # L) ! j" using IH(7) by (auto simp: nth_Cons split: nat.split)
  moreover have "\<forall>k'. k' \<notin> set (k # ks) \<longrightarrow> AB' ! k' = AB ! k'" using IH(8) by simp
  moreover have "\<forall>k'<12. ss ! k' = (if k' \<in> set (k # ks) then AB' ! k' else i_sectors i ! k')" "ss ! 12 = i_sectors i ! 12"
    using IH(9,10) \<open>AB' ! k = lba\<close> Cons(5,6) by (auto simp: i1_def)
  moreover have "inodes f' = (inodes f)(p \<mapsto> i\<lparr>i_sectors := ss\<rparr>)" using IH(4) f2(2) by (simp add: i1_def)
  ultimately show ?case using g IH(1,3,5,6) took_trans[OF f2(3) IH(2)]
    by (intro exI[of _ "lba # L"] exI[of _ AB'] exI[of _ ss] exI[of _ f']) simp
qed

section \<open>The blocks of a file\<close>

lemma put_one: "length bs = 512 \<Longrightarrow> put_sectors m lba bs = m(lba := bs)"
  by (rule ext) (auto simp: put_sectors_def sub_buf_def)

lemma fs_write_one: "in_range lba 1 \<Longrightarrow> length bs = 512 \<Longrightarrow> fs_write lba bs f = Some (f\<lparr>medium := (medium f)(lba := bs)\<rparr>)"
  by (simp add: fs_write_ok put_one)

lemma fs_read_one: "in_range lba 1 \<Longrightarrow> fs_read lba 1 f = Some (medium f lba)"
  by (simp add: fs_read_ok sectors_one del: One_nat_def)

lemma length_table_bytes [simp]: "length (table_bytes ws) = 4 * length ws"
  by (simp add: table_bytes_def)

lemma length_table_of [simp]: "length (table_of bs) = 128"
  by (simp add: table_of_def)

lemma table_of_less: "k < 128 \<Longrightarrow> table_of bs ! k < 4294967296"
  by (simp add: table_of_def u32_at_less)

lemma table_roundtrip: "length ws = 128 \<Longrightarrow> \<forall>k<128. ws ! k < 4294967296 \<Longrightarrow> table_of (table_bytes ws) = ws"
proof (rule nth_equalityI)
  fix k assume "length ws = 128" "\<forall>k<128. ws ! k < 4294967296" "k < length (table_of (table_bytes ws))"
  then show "table_of (table_bytes ws) ! k = ws ! k" using words_at[of k ws "[]"] by (simp add: table_of_def table_bytes_def)
qed simp

definition blocks :: "fs \<Rightarrow> inode \<Rightarrow> nat list" where
  "blocks f i = take 12 (i_sectors i) @ (if i_sectors i ! 12 = 0 then replicate 128 0 else table_of (medium f (i_sectors i ! 12)))"

lemma length_blocks [simp]: "length (i_sectors i) = 13 \<Longrightarrow> length (blocks f i) = 140"
  by (simp add: blocks_def)

text \<open>A taken data block of the disk, and the blocks a file with \<open>u\<close> blocks of content owns.\<close>

definition data_block :: "fs \<Rightarrow> nat \<Rightarrow> bool" where
  "data_block f lba \<longleftrightarrow> data_start f < lba \<and> lba - data_start f < bitmap_len f \<and> block_used f (lba - data_start f) \<and> in_range lba 1"

definition own :: "fs \<Rightarrow> inode \<Rightarrow> nat \<Rightarrow> nat list" where
  "own f i u = take u (blocks f i) @ (if 12 < u then [i_sectors i ! 12] else [])"

definition shape :: "fs \<Rightarrow> inode \<Rightarrow> nat \<Rightarrow> bool" where
  "shape f i u \<longleftrightarrow> length (i_sectors i) = 13 \<and> u \<le> 140 \<and> (i_sectors i ! 12 = 0 \<longleftrightarrow> u \<le> 12) \<and> distinct (own f i u)
     \<and> (\<forall>b\<in>set (own f i u). data_block f b) \<and> (\<forall>j. u \<le> j \<and> j < 140 \<longrightarrow> blocks f i ! j = 0)"

lemma shapeD:
  assumes "shape f i u"
  shows "length (i_sectors i) = 13" "u \<le> 140" "i_sectors i ! 12 = 0 \<longleftrightarrow> u \<le> 12" "distinct (own f i u)"
    "b \<in> set (own f i u) \<Longrightarrow> data_block f b" "u \<le> j \<Longrightarrow> j < 140 \<Longrightarrow> blocks f i ! j = 0"
    "j < u \<Longrightarrow> data_block f (blocks f i ! j)" "12 < u \<Longrightarrow> data_block f (i_sectors i ! 12)"
    "j < u \<Longrightarrow> k < u \<Longrightarrow> blocks f i ! j = blocks f i ! k \<Longrightarrow> j = k" "j < u \<Longrightarrow> blocks f i ! j \<noteq> i_sectors i ! 12"
proof -
  show s: "length (i_sectors i) = 13" "u \<le> 140" "i_sectors i ! 12 = 0 \<longleftrightarrow> u \<le> 12" "distinct (own f i u)"
    "b \<in> set (own f i u) \<Longrightarrow> data_block f b" "u \<le> j \<Longrightarrow> j < 140 \<Longrightarrow> blocks f i ! j = 0"
    using assms unfolding shape_def by blast+
  have mem: "blocks f i ! j \<in> set (take u (blocks f i))" if "j < u" for j
    using that s(1,2) by (auto simp: in_set_conv_nth)
  show db: "data_block f (blocks f i ! j)" if "j < u" for j using assms mem[OF that] unfolding shape_def own_def by auto
  show "12 < u \<Longrightarrow> data_block f (i_sectors i ! 12)" using assms unfolding shape_def own_def by auto
  show "j < u \<Longrightarrow> k < u \<Longrightarrow> blocks f i ! j = blocks f i ! k \<Longrightarrow> j = k"
    using s(1,2,4) nth_eq_iff_index_eq[of "take u (blocks f i)" j k] by (simp add: own_def)
  show "blocks f i ! j \<noteq> i_sectors i ! 12" if "j < u"
  proof (cases "12 < u")
    case True
    then show ?thesis using s(4) mem[OF that] by (auto simp: own_def)
  next
    case False
    then show ?thesis using s(3) db[OF that] by (auto simp: data_block_def)
  qed
qed

lemma shapeI:
  assumes "length (i_sectors i) = 13" "u \<le> 140" "i_sectors i ! 12 = 0 \<longleftrightarrow> u \<le> 12"
    and "\<And>j. j < u \<Longrightarrow> data_block f (blocks f i ! j)" "12 < u \<Longrightarrow> data_block f (i_sectors i ! 12)"
    and "\<And>j k. j < k \<Longrightarrow> k < u \<Longrightarrow> blocks f i ! j \<noteq> blocks f i ! k" "\<And>j. j < u \<Longrightarrow> 12 < u \<Longrightarrow> blocks f i ! j \<noteq> i_sectors i ! 12"
    and "\<And>j. u \<le> j \<Longrightarrow> j < 140 \<Longrightarrow> blocks f i ! j = 0"
  shows "shape f i u"
proof -
  have "distinct (take u (blocks f i))"
    unfolding distinct_conv_nth using assms(1,2,6) by (auto simp: min_def) (metis nat_neq_iff)
  moreover have "\<forall>b\<in>set (take u (blocks f i)). data_block f b \<and> (12 < u \<longrightarrow> b \<noteq> i_sectors i ! 12)"
    using assms(1,2,4,7) by (auto simp: in_set_conv_nth)
  ultimately show ?thesis using assms(1,2,3,5,8) unfolding shape_def own_def by auto
qed

definition used_blocks :: "inode \<Rightarrow> nat" where
  "used_blocks i = (if i_sectors i ! 0 = 0 then 0 else i_size i div 512 + 1)"

definition file_ok :: "fs \<Rightarrow> inode \<Rightarrow> bool" where
  "file_ok f i \<longleftrightarrow> shape f i (used_blocks i) \<and> i_size i < 71680 \<and> (i_sectors i ! 0 = 0 \<longrightarrow> i_size i = 0)"

text \<open>Data blocks lie behind the tables, so taking blocks does not touch those of a file.\<close>

lemma data_block_table: "vol_ok f \<Longrightarrow> data_block f b \<Longrightarrow> inode_table_lba (sb (cur_part f)) + 608 < b"
  using vol_okD(5)[of f] by (simp add: data_block_def)

lemma took_data_block: "took f L f' \<Longrightarrow> data_block f b \<Longrightarrow> data_block f' b"
  using tookD(4,10)[of f L f'] by (simp add: data_block_def)

lemma took_new_block:
  assumes "took f L f'" "vol_ok f" "b \<in> set L"
  shows "data_block f' b"
proof -
  have fr: "free_lba f b" "in_range b 1" using tookD(2)[OF assms(1,3)] free_lba_range[OF assms(2)] by blast+
  then have "data_start f + (b - data_start f) = b" by (simp add: free_lba_def)
  then have "block_used f' (b - data_start f)" using tookD(10)[OF assms(1)] assms(3) by simp
  then show ?thesis using fr tookD(4)[OF assms(1)] by (simp add: data_block_def free_lba_def)
qed

lemma took_not_new: "took f L f' \<Longrightarrow> data_block f b \<Longrightarrow> b \<notin> set L"
  using tookD(2)[of f L f'] by (auto simp: data_block_def free_lba_def)

lemma blocks_cong: "(12 < u \<Longrightarrow> medium f' (i_sectors i ! 12) = medium f (i_sectors i ! 12)) \<Longrightarrow> shape f i u \<Longrightarrow> blocks f' i = blocks f i"
  using shapeD(3)[of f i u] by (auto simp: blocks_def)

lemma shape_took:
  assumes "took f L f'" "vol_ok f" "shape f i u"
  shows "shape f' i u" "blocks f' i = blocks f i"
proof -
  show b: "blocks f' i = blocks f i"
    by (rule blocks_cong[OF _ assms(3)]) (use tookD(11)[OF assms(1)] data_block_table[OF assms(2)] shapeD(8)[OF assms(3)] in force)
  show "shape f' i u" using assms(3) took_data_block[OF assms(1)] by (simp add: shape_def own_def b)
qed

text \<open>A file that grows from \<open>u\<close> to \<open>w\<close> blocks by the new blocks \<open>L\<close>, and by the table \<open>X\<close> when it needs one.\<close>

lemma grown_shape:
  assumes v: "vol_ok f" and sh: "shape f i u" and t: "took f T f1" and cp: "cur_part g = cur_part f1"
    and l: "length (i_sectors i') = 13" "u \<le> w" "w \<le> 140" "length L = w - u" "distinct L" "set L \<subseteq> set T"
    and bl: "\<forall>j<140. blocks g i' ! j = (if j < u then blocks f i ! j else if j < w then L ! (j - u) else 0)"
    and s12: "i_sectors i' ! 12 = (if w \<le> 12 then 0 else if u \<le> 12 then X else i_sectors i ! 12)"
    and X: "u \<le> 12 \<Longrightarrow> 12 < w \<Longrightarrow> X \<in> set T \<and> X \<notin> set L"
  shows "shape g i' w" "set (own g i' w) \<subseteq> set (own f i u) \<union> set T"
proof -
  have db: "data_block g b \<longleftrightarrow> data_block f1 b" for b by (simp add: data_block_def cp)
  have old: "data_block g b" if "data_block f b" for b using took_data_block[OF t that] db by simp
  have new: "data_block g b" if "b \<in> set T" for b using took_new_block[OF t v that] db by simp
  have sep: "b \<noteq> c" if "data_block f b" "c \<in> set T" for b c using took_not_new[OF t that(1)] that(2) by blast
  have B: "blocks g i' ! j = (if j < u then blocks f i ! j else L ! (j - u))" if "j < w" for j using bl that l(3) by simp
  have Lin: "L ! (j - u) \<in> set T" if "j < w" "\<not> j < u" for j using that l(4,6) nth_mem[of "j - u" L] by auto
  note od = shapeD[OF sh]
  have x: "i_sectors i' ! 12 \<in> set T \<and> i_sectors i' ! 12 \<notin> set L \<or> 12 < u \<and> i_sectors i' ! 12 = i_sectors i ! 12" if "12 < w"
    using that s12 X by (cases "u \<le> 12") auto
  show "shape g i' w"
  proof (rule shapeI[OF l(1,3)])
    have "X \<noteq> 0" if "12 < w" "u \<le> 12" using new[of X] X that by (auto simp: data_block_def)
    then show "i_sectors i' ! 12 = 0 \<longleftrightarrow> w \<le> 12" using s12 od(3) by auto
    show "data_block g (blocks g i' ! j)" if "j < w" for j
      using B[OF that] od(7)[THEN old, of j] new Lin[OF that] by simp
    show "data_block g (i_sectors i' ! 12)" if "12 < w" using x[OF that] od(8)[THEN old] new by auto
    show "blocks g i' ! j \<noteq> blocks g i' ! k" if "j < k" "k < w" for j k
    proof -
      consider "k < u" | "j < u" "\<not> k < u" | "\<not> j < u" "\<not> k < u" using that(1) by linarith
      then show ?thesis
      proof cases
        case 1
        then show ?thesis using B[of j] B[of k] that od(9)[of j k] by auto
      next
        case 2
        then show ?thesis using B[of j] B[of k] that sep[OF od(7)[of j] Lin[of k]] by auto
      next
        case 3
        then have "L ! (j - u) \<noteq> L ! (k - u)" using that l(4,5) by (subst nth_eq_iff_index_eq) auto
        then show ?thesis using B[of j] B[of k] that 3 by auto
      qed
    qed
    show "blocks g i' ! j \<noteq> i_sectors i' ! 12" if jw: "j < w" "12 < w" for j
    proof (cases "j < u")
      case True
      then show ?thesis using x[OF jw(2)] B[OF jw(1)] sep[OF od(7)[OF True]] od(10)[OF True] by auto
    next
      case False
      then have "L ! (j - u) \<in> set L" using jw(1) l(4) by simp
      then show ?thesis using x[OF jw(2)] B[OF jw(1)] False Lin[OF jw(1) False] sep[OF od(8)] by metis
    qed
    show "blocks g i' ! j = 0" if "w \<le> j" "j < 140" for j using bl that l(2) by simp
  qed
  show "set (own g i' w) \<subseteq> set (own f i u) \<union> set T"
  proof
    fix b assume "b \<in> set (own g i' w)"
    then consider j where "j < w" "b = blocks g i' ! j" | "12 < w" "b = i_sectors i' ! 12"
      by (auto simp: own_def in_set_conv_nth split: if_splits)
    then show "b \<in> set (own f i u) \<union> set T"
    proof cases
      case 1
      have "blocks f i ! j \<in> set (take u (blocks f i))" if "j < u" using that od(1,2) by (auto simp: in_set_conv_nth)
      then show ?thesis using 1 B[OF 1(1)] Lin[OF 1(1)] by (auto simp: own_def)
    next
      case 2
      then show ?thesis using x[OF 2(1)] by (auto simp: own_def)
    qed
  qed
qed

text \<open>The outcome of collecting the blocks for a write.\<close>

definition collected :: "nat \<Rightarrow> inode \<Rightarrow> nat \<Rightarrow> nat \<Rightarrow> fs \<Rightarrow> nat list \<Rightarrow> inode \<Rightarrow> nat list \<Rightarrow> fs \<Rightarrow> bool" where
  "collected p i has will f AB i' T g \<longleftrightarrow> inodes g = (inodes f)(p \<mapsto> i') \<and> i' = i\<lparr>i_sectors := i_sectors i'\<rparr>
     \<and> shape g i' will \<and> set (own g i' will) \<subseteq> set (own f i has) \<union> set T \<and> vol_ok g \<and> same_rest f g \<and> length AB = 140
     \<and> (\<forall>b\<in>set T. free_lba f b) \<and> (\<forall>j. block_used g j \<longleftrightarrow> block_used f j \<or> data_start f + j \<in> set T)
     \<and> (\<forall>j. has - 1 \<le> j \<and> j < will \<longrightarrow> AB ! j = blocks g i' ! j) \<and> (\<forall>j<has. blocks g i' ! j = blocks f i ! j)
     \<and> (\<forall>k. inode_table_lba (sb (cur_part f)) \<le> k \<and> k \<notin> set (own g i' will) \<longrightarrow> medium g k = medium f k)
     \<and> (\<forall>j<has. medium g (blocks g i' ! j) = medium f (blocks f i ! j))"

lemma vol_ok_write: "vol_ok f \<Longrightarrow> length bs = 512 \<Longrightarrow> vol_ok (f\<lparr>medium := (medium f)(lba := bs)\<rparr>)"
  by (simp add: vol_ok_def Let_def medium_ok_def)

lemma same_rest_took: "took f T g \<Longrightarrow> same_rest f g"
  by (simp add: took_def)

lemma collected_same:
  assumes "vol_ok f" "inodes f p = Some i" "shape f i has" "length AB = 140" "AB ! (has - 1) = blocks f i ! (has - 1)" "0 < has"
  shows "collected p i has has f AB i [] f"
proof -
  have "j = has - 1" if "has - 1 \<le> j" "j < has" for j using that by linarith
  moreover have "(inodes f)(p \<mapsto> i) = inodes f" using assms(2) by auto
  ultimately show ?thesis using assms same_rest_took[OF took_refl[OF assms(1)]] by (auto simp: collected_def)
qed

lemma data_block_same_rest: "same_rest f g \<Longrightarrow> block_used g = block_used f \<Longrightarrow> data_block g b \<longleftrightarrow> data_block f b"
  by (simp add: data_block_def same_rest_def)

lemma collected_grown:
  assumes v: "vol_ok f" and sh: "shape f i u" and t: "took f T f1" and cp: "cur_part g = cur_part f1" "same_rest f1 g" "medium_ok (medium g)"
    and ino: "inodes g = (inodes f)(p \<mapsto> i')" "i' = i\<lparr>i_sectors := i_sectors i'\<rparr>"
    and med: "\<And>k. i_sectors i' ! 12 = 0 \<or> k \<noteq> i_sectors i' ! 12 \<Longrightarrow> medium g k = medium f1 k"
    and l: "length (i_sectors i') = 13" "u \<le> w" "w \<le> 140" "length L = w - u" "distinct L" "set L \<subseteq> set T" "length AB = 140"
    and bl: "\<forall>j<140. blocks g i' ! j = (if j < u then blocks f i ! j else if j < w then L ! (j - u) else 0)"
    and s12: "i_sectors i' ! 12 = (if w \<le> 12 then 0 else if u \<le> 12 then X else i_sectors i ! 12)"
    and X: "u \<le> 12 \<Longrightarrow> 12 < w \<Longrightarrow> X \<in> set T \<and> X \<notin> set L"
    and AB: "\<forall>j. u - 1 \<le> j \<and> j < w \<longrightarrow> AB ! j = blocks g i' ! j"
  shows "collected p i u w f AB i' T g"
proof -
  note td = tookD[OF t]
  have G: "shape g i' w" "set (own g i' w) \<subseteq> set (own f i u) \<union> set T"
    using grown_shape[OF v sh t cp(1) l(1-6) bl s12 X] by blast+
  have bu: "block_used g = block_used f1" by (simp add: cp(1))
  have vg: "vol_ok g" using took_vol_ok[OF t v] cp by (simp add: vol_ok_def Let_def)
  have keep: "medium g k = medium f k" if "inode_table_lba (sb (cur_part f)) \<le> k" "i_sectors i' ! 12 = 0 \<or> k \<noteq> i_sectors i' ! 12" for k
    using med[OF that(2)] td(11)[OF that(1)] by simp
  have frame: "medium g k = medium f k" if "inode_table_lba (sb (cur_part f)) \<le> k" "k \<notin> set (own g i' w)" for k
    using keep[OF that(1)] that(2) shapeD(3)[OF G(1)] by (cases "12 < w") (auto simp: own_def)
  have old: "blocks g i' ! j = blocks f i ! j \<and> medium g (blocks g i' ! j) = medium f (blocks f i ! j)" if "j < u" for j
  proof -
    have e: "blocks g i' ! j = blocks f i ! j" using bl that l(2,3) by simp
    have "inode_table_lba (sb (cur_part f)) \<le> blocks f i ! j" using data_block_table[OF v shapeD(7)[OF sh that]] by simp
    moreover have "blocks f i ! j \<noteq> i_sectors i' ! 12" using shapeD(10)[OF G(1), of j] that l(2) e by simp
    ultimately show ?thesis using keep e by simp
  qed
  have sr: "same_rest f g" using same_rest_took[OF t] cp(2) by (auto simp: same_rest_def)
  have fr: "\<forall>b\<in>set T. free_lba f b" "\<forall>j. block_used g j \<longleftrightarrow> block_used f j \<or> data_start f + j \<in> set T" using td(2,10) bu by auto
  show ?thesis unfolding collected_def by (intro conjI; use G vg sr fr ino l(7) AB frame old in blast)
qed

lemma took_write:
  assumes "took f T f1" "length bs = 512"
  shows "cur_part (f1\<lparr>medium := (medium f1)(x := bs)\<rparr>) = cur_part f1" "same_rest f1 (f1\<lparr>medium := (medium f1)(x := bs)\<rparr>)"
    "medium_ok (medium (f1\<lparr>medium := (medium f1)(x := bs)\<rparr>))"
  using tookD(3)[OF assms(1)] assms(2) by (simp_all add: same_rest_def medium_ok_def)

text \<open>The situations of the code. The first: the direct blocks are enough.\<close>

lemma grow_direct:
  assumes "vol_ok f" "inodes f p = Some i" "shape f i u" "0 < u" "u < w" "w \<le> 12" "w - u \<le> nfree f"
  shows "\<exists>AB i' T g. grow_blocks p [u..<w] ((replicate 140 0)[u - 1 := i_sectors i ! (u - 1)]) f = Some (True, AB, g) \<and> collected p i u w f AB i' T g"
proof -
  note sd = shapeD[OF assms(3)]
  have zero: "i_sectors i ! k = 0" if "u \<le> k" "k < 12" for k using sd(6)[of k] that sd(1) by (simp add: blocks_def nth_append)
  have k: "\<forall>k\<in>set [u..<w]. k < 140 \<and> (k < 12 \<longrightarrow> i_sectors i ! k = 0)" using zero assms(6) by auto
  have n: "length [u..<w] \<le> nfree f" "distinct [u..<w]" "length ((replicate 140 0)[u - 1 := i_sectors i ! (u - 1)]) = 140"
    using assms(7) by simp_all
  from grow_blocks_ok[OF assms(1) n(1) assms(2) sd(1) n(2) k n(3)] obtain L AB ss g where
    g: "grow_blocks p [u..<w] ((replicate 140 0)[u - 1 := i_sectors i ! (u - 1)]) f = Some (True, AB, g)" "took f L g" "length L = w - u"
      "inodes g = (inodes f)(p \<mapsto> i\<lparr>i_sectors := ss\<rparr>)" "length AB = 140" "length ss = 13"
      "\<forall>j<w - u. AB ! (u + j) = L ! j" "\<forall>k. \<not> (u \<le> k \<and> k < w) \<longrightarrow> AB ! k = (replicate 140 0)[u - 1 := i_sectors i ! (u - 1)] ! k"
      "ss ! 12 = i_sectors i ! 12" "\<forall>k<12. ss ! k = (if u \<le> k \<and> k < w then AB ! k else i_sectors i ! k)" by auto
  define i' where "i' = i\<lparr>i_sectors := ss\<rparr>"
  have s12: "ss ! 12 = 0" using g(9) sd(3) assms(5,6) by simp
  have AL: "AB ! j = L ! (j - u)" if "u \<le> j" "j < w" for j using g(7)[rule_format, of "j - u"] that by simp
  have bl: "blocks g i' ! j = (if j < u then blocks f i ! j else if j < w then L ! (j - u) else 0)" if "j < 140" for j
  proof (cases "j < 12")
    case True
    then have "blocks g i' ! j = ss ! j" "blocks f i ! j = i_sectors i ! j" using g(6) sd(1) by (simp_all add: blocks_def i'_def nth_append)
    then show ?thesis using g(10) True AL zero[of j] by auto
  next
    case False
    then have "blocks g i' ! j = 0" using that g(6) s12 by (simp add: blocks_def i'_def nth_append)
    then show ?thesis using False assms(5,6) by simp
  qed
  have "AB ! j = blocks g i' ! j" if "u - 1 \<le> j" "j < w" for j
  proof (cases "j < u")
    case True
    then have "j = u - 1" using that(1) by linarith
    then show ?thesis using g(8) True bl[of j] that(2) assms(6) sd(1) by (simp add: blocks_def nth_append)
  next
    case False
    then show ?thesis using AL[of j] that(2) bl[of j] assms(6) by simp
  qed
  moreover have "medium_ok (medium g)" "same_rest g g" using tookD(3)[OF g(2)] by (simp_all add: same_rest_def)
  ultimately have "collected p i u w f AB i' L g"
    using collected_grown[OF assms(1,3) g(2), of g p i' w L AB 0] g(3,4,5,6) tookD(1)[OF g(2)] bl s12 assms(5,6) by (simp add: i'_def)
  then show ?thesis using g(1) by blast
qed

text \<open>The second: the file gets a table of block numbers.\<close>

lemma alloc_took:
  assumes "vol_ok f" "0 < nfree f"
  shows "\<exists>lba f1. block_bitmap_alloc f = Some (int lba, f1) \<and> inodes f1 = inodes f \<and> took f [lba] f1"
proof -
  obtain lba b where a: "block_bitmap_alloc f = Some (int lba, f\<lparr>cur_part := (cur_part f)\<lparr>block_bitmap := b\<rparr>\<rparr>)" "free_lba f lba"
    "btmp_bytes_len b = btmp_bytes_len (block_bitmap (cur_part f))"
    "\<forall>j. bitmap_scan_test b j \<longleftrightarrow> block_used f j \<or> data_start f + j = lba" using alloc_ok[OF assms] by blast
  then have "took f [lba] (f\<lparr>cur_part := (cur_part f)\<lparr>block_bitmap := b\<rparr>\<rparr>)"
    using vol_okD(1)[OF assms(1)] by (auto simp: took_def same_rest_def)
  then show ?thesis using a(1) by (intro exI[of _ lba] exI[of _ "f\<lparr>cur_part := (cur_part f)\<lparr>block_bitmap := b\<rparr>\<rparr>"]) simp
qed

lemma in_range_u32: "in_range b 1 \<Longrightarrow> b < 4294967296"
  by (simp add: in_range_def max_lba_def)

lemma grow_into_table:
  assumes "vol_ok f" "inodes f p = Some i" "shape f i u" "0 < u" "u \<le> 12" "12 < w" "w \<le> 140" "w - u + 1 \<le> nfree f"
  shows "\<exists>X f1 AB i' T f3 g. block_bitmap_alloc f = Some (int X, f1) \<and> i_sectors i ! 12 = 0
    \<and> Option.bind (set_sector p 12 X f1) (grow_blocks p [u..<w] ((replicate 140 0)[u - 1 := i_sectors i ! (u - 1)])) = Some (True, AB, f3)
    \<and> fs_write X (table_bytes (drop 12 AB)) f3 = Some g \<and> collected p i u w f AB i' T g"
proof -
  note sd = shapeD[OF assms(3)]
  have zero: "i_sectors i ! k = 0" if "u \<le> k" "k < 12" for k using sd(6)[of k] that sd(1) by (simp add: blocks_def nth_append)
  obtain X f1 where a: "block_bitmap_alloc f = Some (int X, f1)" "inodes f1 = inodes f" "took f [X] f1"
    using alloc_took[OF assms(1)] assms(8) by force
  define i1 where "i1 = i\<lparr>i_sectors := (i_sectors i)[12 := X]\<rparr>"
  define f2 where "f2 = set_inode p i1 f1"
  have f2: "set_sector p 12 X f1 = Some f2" "took f [X] f2" "inodes f2 p = Some i1" "length (i_sectors i1) = 13"
    using a(2) assms(2) took_set_inode[OF a(3)] sd(1) by (simp_all add: set_sector_def f2_def set_inode_def i1_def)
  have v2: "vol_ok f2" "length [u..<w] \<le> nfree f2" using took_vol_ok[OF f2(2) assms(1)] took_nfree[OF f2(2)] assms(8) by simp_all
  have k: "\<forall>k\<in>set [u..<w]. k < 140 \<and> (k < 12 \<longrightarrow> i_sectors i1 ! k = 0)" using zero assms(7) sd(1) by (auto simp: i1_def)
  have n: "distinct [u..<w]" "length ((replicate 140 0)[u - 1 := i_sectors i ! (u - 1)]) = 140" by simp_all
  from grow_blocks_ok[OF v2 f2(3,4) n(1) k n(2)] obtain L AB ss f3 where
    g: "grow_blocks p [u..<w] ((replicate 140 0)[u - 1 := i_sectors i ! (u - 1)]) f2 = Some (True, AB, f3)" "took f2 L f3" "length L = w - u"
      "inodes f3 = (inodes f2)(p \<mapsto> i1\<lparr>i_sectors := ss\<rparr>)" "length AB = 140" "length ss = 13"
      "\<forall>j<w - u. AB ! (u + j) = L ! j" "\<forall>k. \<not> (u \<le> k \<and> k < w) \<longrightarrow> AB ! k = (replicate 140 0)[u - 1 := i_sectors i ! (u - 1)] ! k"
      "ss ! 12 = i_sectors i1 ! 12" "\<forall>k<12. ss ! k = (if u \<le> k \<and> k < w then AB ! k else i_sectors i1 ! k)" by auto
  have s12: "ss ! 12 = X" using g(9) sd(1) by (simp add: i1_def)
  have t3: "took f (X # L) f3" using took_trans[OF f2(2) g(2)] by simp
  have XL: "X \<notin> set L" using tookD(1)[OF t3] by simp
  have Xd: "data_block f3 X" using took_new_block[OF t3 assms(1), of X] by simp
  have Ld: "data_block f3 b" if "b \<in> set L" for b using took_new_block[OF t3 assms(1), of b] that by simp
  have AL: "AB ! j = L ! (j - u)" if "u \<le> j" "j < w" for j using g(7)[rule_format, of "j - u"] that by simp
  have AZ: "AB ! j = 0" if "12 \<le> j" "j < 140" "w \<le> j" for j using g(8) that assms(4,5) by simp
  have small: "AB ! j < 4294967296" if "12 \<le> j" "j < 140" for j
  proof (cases "j < w")
    case True
    then have "AB ! j \<in> set L" using AL[of j] that assms(5) g(3) by auto
    then show ?thesis using Ld in_range_u32 by (auto simp: data_block_def)
  qed (use AZ that in simp)
  define i' where "i' = i\<lparr>i_sectors := ss\<rparr>"
  define g' where "g' = f3\<lparr>medium := (medium f3)(X := table_bytes (drop 12 AB))\<rparr>"
  have w: "fs_write X (table_bytes (drop 12 AB)) f3 = Some g'" unfolding g'_def
    by (rule fs_write_one) (use Xd g(5) in \<open>simp_all add: data_block_def\<close>)
  have tab: "table_of (medium g' X) = drop 12 AB" using small g(5) by (simp add: g'_def table_roundtrip)
  have bl: "blocks g' i' ! j = (if j < u then blocks f i ! j else if j < w then L ! (j - u) else 0)" if "j < 140" for j
  proof (cases "j < 12")
    case True
    then have "blocks g' i' ! j = ss ! j" "blocks f i ! j = i_sectors i ! j" "i_sectors i1 ! j = i_sectors i ! j"
      using g(6) sd(1) by (simp_all add: blocks_def i'_def i1_def nth_append)
    then show ?thesis using g(10) True AL zero[of j] assms(6) by auto
  next
    case False
    have "X \<noteq> 0" using Xd by (auto simp: data_block_def)
    then have "blocks g' i' ! j = AB ! j" using False that g(5,6) tab by (simp add: blocks_def i'_def s12 nth_append)
    then show ?thesis using False AL[of j] AZ[of j] that assms(5) by auto
  qed
  have ab: "AB ! j = blocks g' i' ! j" if "u - 1 \<le> j" "j < w" for j
  proof (cases "j < u")
    case True
    then have "j = u - 1" using that(1) by linarith
    then show ?thesis using g(8) True bl[of j] that(2) assms(5,7) sd(1) by (simp add: blocks_def nth_append)
  next
    case False
    then show ?thesis using AL[of j] that(2) bl[of j] assms(7) by simp
  qed
  have ino: "inodes g' = (inodes f)(p \<mapsto> i')" using g(4) a(2) by (simp add: g'_def i'_def i1_def f2_def set_inode_def)
  have med: "medium g' k = medium f3 k" if "i_sectors i' ! 12 = 0 \<or> k \<noteq> i_sectors i' ! 12" for k
    using that Xd s12 by (auto simp: g'_def i'_def data_block_def)
  have tw: "cur_part g' = cur_part f3" "same_rest f3 g'" "medium_ok (medium g')"
    unfolding g'_def by (rule took_write[OF t3], simp add: g(5))+
  have "collected p i u w f AB i' (X # L) g'"
    by (rule collected_grown[OF assms(1,3) t3 tw ino _ med, where L = L and X = X])
      (use g(3,5,6) bl s12 ab XL assms(5,6,7) tookD(1)[OF t3] in \<open>auto simp: i'_def\<close>)
  then show ?thesis using a(1) f2(1) g(1) w sd(3) assms(5) by auto
qed

text \<open>The third: the file has its table already.\<close>

lemma table_blocks:
  assumes "shape f i u" "12 < u" "12 \<le> j" "j < 140"
  shows "blit (replicate 140 0) 12 (table_of (medium f (i_sectors i ! 12))) ! j = blocks f i ! j"
  using shapeD(1,3)[OF assms(1)] assms(2-4) by (simp add: nth_blit blocks_def nth_append)

lemma blocks_less: "shape f i u \<Longrightarrow> j < 140 \<Longrightarrow> blocks f i ! j < 4294967296"
  using shapeD(6,7)[of f i u j] in_range_u32 by (cases "j < u") (auto simp: data_block_def)

lemma grow_table:
  assumes "vol_ok f" "inodes f p = Some i" "shape f i u" "12 < u" "u < w" "w \<le> 140" "w - u \<le> nfree f"
  shows "\<exists>AB i' T f3 g. grow_blocks p [u..<w] (blit (replicate 140 0) 12 (table_of (medium f (i_sectors i ! 12)))) f = Some (True, AB, f3)
    \<and> fs_write (i_sectors i ! 12) (table_bytes (drop 12 AB)) f3 = Some g \<and> collected p i u w f AB i' T g"
proof -
  note sd = shapeD[OF assms(3)]
  let ?AB = "blit (replicate 140 0) 12 (table_of (medium f (i_sectors i ! 12)))"
  have k: "\<forall>k\<in>set [u..<w]. k < 140 \<and> (k < 12 \<longrightarrow> i_sectors i ! k = 0)" using assms(4,6) by auto
  have n: "length [u..<w] \<le> nfree f" "distinct [u..<w]" "length ?AB = 140" using assms(7) by simp_all
  from grow_blocks_ok[OF assms(1) n(1) assms(2) sd(1) n(2) k n(3)] obtain L AB ss f3 where
    g: "grow_blocks p [u..<w] ?AB f = Some (True, AB, f3)" "took f L f3" "length L = w - u"
      "inodes f3 = (inodes f)(p \<mapsto> i\<lparr>i_sectors := ss\<rparr>)" "length AB = 140" "length ss = 13"
      "\<forall>j<w - u. AB ! (u + j) = L ! j" "\<forall>k. \<not> (u \<le> k \<and> k < w) \<longrightarrow> AB ! k = ?AB ! k"
      "ss ! 12 = i_sectors i ! 12" "\<forall>k<12. ss ! k = (if u \<le> k \<and> k < w then AB ! k else i_sectors i ! k)" by auto
  have Xd: "data_block f (i_sectors i ! 12)" "data_block f3 (i_sectors i ! 12)"
    using sd(8)[OF assms(4)] took_data_block[OF g(2)] by blast+
  have AL: "AB ! j = L ! (j - u)" if "u \<le> j" "j < w" for j using g(7)[rule_format, of "j - u"] that by simp
  have AO: "AB ! j = blocks f i ! j" if "12 \<le> j" "j < 140" "\<not> (u \<le> j \<and> j < w)" for j
    using g(8) that table_blocks[OF assms(3,4) that(1,2)] by simp
  have small: "AB ! j < 4294967296" if "12 \<le> j" "j < 140" for j
  proof (cases "u \<le> j \<and> j < w")
    case True
    then have "AB ! j \<in> set L" using AL[of j] g(3) by auto
    then show ?thesis using took_new_block[OF g(2) assms(1)] in_range_u32 by (auto simp: data_block_def)
  qed (use AO[OF that] blocks_less[OF assms(3)] that in simp)
  define i' where "i' = i\<lparr>i_sectors := ss\<rparr>"
  define g' where "g' = f3\<lparr>medium := (medium f3)(i_sectors i ! 12 := table_bytes (drop 12 AB))\<rparr>"
  have w: "fs_write (i_sectors i ! 12) (table_bytes (drop 12 AB)) f3 = Some g'" unfolding g'_def
    by (rule fs_write_one) (use Xd g(5) in \<open>simp_all add: data_block_def\<close>)
  have tab: "table_of (medium g' (i_sectors i ! 12)) = drop 12 AB" using small g(5) by (simp add: g'_def table_roundtrip)
  have bl: "blocks g' i' ! j = (if j < u then blocks f i ! j else if j < w then L ! (j - u) else 0)" if "j < 140" for j
  proof (cases "j < 12")
    case True
    then have "blocks g' i' ! j = ss ! j" "blocks f i ! j = i_sectors i ! j"
      using g(6) sd(1) by (simp_all add: blocks_def i'_def nth_append)
    then show ?thesis using g(10) True assms(4) by auto
  next
    case False
    have "blocks g' i' ! j = AB ! j" using False that g(5,6,9) tab sd(3) assms(4) by (simp add: blocks_def i'_def nth_append)
    then show ?thesis using False AL[of j] AO[of j] that sd(6)[of j] assms(5) by auto
  qed
  have ab: "AB ! j = blocks g' i' ! j" if "u - 1 \<le> j" "j < w" for j
  proof (cases "j < u")
    case True
    then show ?thesis using AO[of j] that assms(4,6) bl[of j] by simp
  next
    case False
    then show ?thesis using AL[of j] that(2) bl[of j] assms(6) by simp
  qed
  have ino: "inodes g' = (inodes f)(p \<mapsto> i')" using g(4) by (simp add: g'_def i'_def)
  have med: "medium g' k = medium f3 k" if "i_sectors i' ! 12 = 0 \<or> k \<noteq> i_sectors i' ! 12" for k
    using that sd(3) assms(4) g(9) by (auto simp: g'_def i'_def)
  have tw: "cur_part g' = cur_part f3" "same_rest f3 g'" "medium_ok (medium g')"
    unfolding g'_def by (rule took_write[OF g(2)], simp add: g(5))+
  have "collected p i u w f AB i' L g'"
    by (rule collected_grown[OF assms(1,3) g(2) tw ino _ med, where L = L and X = 0])
      (use g(3,5,6,9) bl ab assms(4,5,6) tookD(1)[OF g(2)] in \<open>auto simp: i'_def\<close>)
  then show ?thesis using g(1) w by blast
qed

text \<open>The blocks a write takes: those of the content, and the table when the twelve direct blocks are exceeded.\<close>

definition blocks_for :: "inode \<Rightarrow> nat \<Rightarrow> nat" where
  "blocks_for i n = (let has = i_size i div 512 + 1; will = (i_size i + n) div 512 + 1 in
     (if i_sectors i ! 0 = 0 then 1 else 0) + (will - has) + (if has \<le> 12 \<and> 12 < will then 1 else 0))"

lemma collect_write_ok:
  assumes "vol_ok f" "inodes f p = Some i" "file_ok f i" "i_sectors i ! 0 \<noteq> 0" "i_size i + n < 71680" "blocks_for i n \<le> nfree f"
  shows "\<exists>AB i' T g. collect_write p n f = Some (True, AB, g) \<and> collected p i (i_size i div 512 + 1) ((i_size i + n) div 512 + 1) f AB i' T g"
proof -
  define u w where "u = i_size i div 512 + 1" and "w = (i_size i + n) div 512 + 1"
  have sh: "shape f i u" using assms(3,4) by (simp add: file_ok_def used_blocks_def u_def)
  note sd = shapeD[OF sh]
  have b: "0 < u" "u \<le> w" "w \<le> 140" "W32 (i_size i + n) = i_size i + n"
    using assms(5) div_le_mono[of "i_size i" "i_size i + n" 512] by (simp_all add: u_def w_def W32_def)
  have free: "w - u + (if u \<le> 12 \<and> 12 < w then 1 else 0) \<le> nfree f" using assms(4,6) by (simp add: blocks_for_def Let_def u_def w_def)
  have cw: "collect_write p n f =
    (if w = u then if u \<le> 12 then Some (True, (replicate 140 0)[u - 1 := i_sectors i ! (u - 1)], f)
       else do { ASSERT (i_sectors i ! 12 \<noteq> 0); t \<leftarrow> fs_read (i_sectors i ! 12) 1 f; Some (True, blit (replicate 140 0) 12 (table_of t), f) }
     else if w \<le> 12 then do { ASSERT (i_sectors i ! (u - 1) \<noteq> 0); grow_blocks p [u..<w] ((replicate 140 0)[u - 1 := i_sectors i ! (u - 1)]) f }
     else if u \<le> 12 then do {
         (block_lba, f) \<leftarrow> block_bitmap_alloc f;
         if block_lba = -1 then Some (False, replicate 140 0, f)
         else do {
           ASSERT (i_sectors i ! 12 = 0);
           f \<leftarrow> set_sector p 12 (nat block_lba) f;
           (ok, all_blocks, f) \<leftarrow> grow_blocks p [u..<w] ((replicate 140 0)[u - 1 := i_sectors i ! (u - 1)]) f;
           if \<not> ok then Some (False, all_blocks, f)
           else do { f \<leftarrow> fs_write (nat block_lba) (table_bytes (drop 12 all_blocks)) f; Some (True, all_blocks, f) }
         }
       }
     else do {
         ASSERT (i_sectors i ! 12 \<noteq> 0);
         t \<leftarrow> fs_read (i_sectors i ! 12) 1 f;
         (ok, all_blocks, f) \<leftarrow> grow_blocks p [u..<w] (blit (replicate 140 0) 12 (table_of t)) f;
         if \<not> ok then Some (False, all_blocks, f)
         else do { f \<leftarrow> fs_write (i_sectors i ! 12) (table_bytes (drop 12 all_blocks)) f; Some (True, all_blocks, f) }
       })"
    unfolding collect_write_def assms(2) Option.bind.bind_lunit Let_def b(4) u_def[symmetric] w_def[symmetric] using b(3)
    by (simp only: ASSERT_simps Option.bind.bind_lunit)
  have rd: "fs_read (i_sectors i ! 12) 1 f = Some (medium f (i_sectors i ! 12))" if "12 < u"
    using sd(8)[OF that] fs_read_one by (simp add: data_block_def)
  have "\<exists>AB i' T g. collect_write p n f = Some (True, AB, g) \<and> collected p i u w f AB i' T g"
  proof -
    consider "w = u" "u \<le> 12" | "w = u" "12 < u" | "u < w" "w \<le> 12" | "u < w" "u \<le> 12" "12 < w" | "u < w" "12 < u"
      using b(2) by linarith
    then show ?thesis
    proof cases
      case 1
      then have u1: "u - 1 < 12" using b(1) by linarith
      have "collected p i u u f ((replicate 140 0)[u - 1 := i_sectors i ! (u - 1)]) i [] f"
        by (rule collected_same[OF assms(1,2) sh]) (use 1 b(1) sd(1) u1 in \<open>simp_all add: blocks_def nth_append\<close>)
      then show ?thesis unfolding cw using 1 by auto
    next
      case 2
      have "collected p i u u f (blit (replicate 140 0) 12 (table_of (medium f (i_sectors i ! 12)))) i [] f"
        by (rule collected_same[OF assms(1,2) sh]) (use 2 table_blocks[OF sh] b(3) in simp_all)
      then show ?thesis unfolding cw using 2 rd sd(3) by auto
    next
      case 3
      have "u - 1 < 12" using 3 by linarith
      then have "blocks f i ! (u - 1) = i_sectors i ! (u - 1)" using sd(1) by (simp add: blocks_def nth_append)
      then have "i_sectors i ! (u - 1) \<noteq> 0" using sd(7)[of "u - 1"] b(1) by (auto simp: data_block_def)
      then show ?thesis unfolding cw using 3 grow_direct[OF assms(1,2) sh b(1) 3] free by auto
    next
      case 4
      from grow_into_table[OF assms(1,2) sh b(1) 4(2,3) b(3)] free 4
      obtain X f1 AB i' T f3 g where "block_bitmap_alloc f = Some (int X, f1)" "i_sectors i ! 12 = 0"
        "Option.bind (set_sector p 12 X f1) (grow_blocks p [u..<w] ((replicate 140 0)[u - 1 := i_sectors i ! (u - 1)])) = Some (True, AB, f3)"
        "fs_write X (table_bytes (drop 12 AB)) f3 = Some g" "collected p i u w f AB i' T g" by auto
      then show ?thesis unfolding cw using 4 by (intro exI[of _ AB] exI[of _ i'] exI[of _ T] exI[of _ g]) (auto simp: bind_Some_iff)
    next
      case 5
      from grow_table[OF assms(1,2) sh 5(2,1) b(3)] free 5
      obtain AB i' T f3 g where "grow_blocks p [u..<w] (blit (replicate 140 0) 12 (table_of (medium f (i_sectors i ! 12)))) f = Some (True, AB, f3)"
        "fs_write (i_sectors i ! 12) (table_bytes (drop 12 AB)) f3 = Some g" "collected p i u w f AB i' T g" by auto
      then show ?thesis unfolding cw using 5 rd sd(3) by auto
    qed
  qed
  then show ?thesis unfolding u_def w_def .
qed

lemma first_block_ok:
  assumes "vol_ok f" "inodes f p = Some i" "file_ok f i" "i_sectors i ! 0 = 0 \<Longrightarrow> 0 < nfree f"
  shows "\<exists>T i1 f1. first_block p f = Some (True, f1) \<and> took f T f1 \<and> length T = (if i_sectors i ! 0 = 0 then 1 else 0)
    \<and> inodes f1 = (inodes f)(p \<mapsto> i1) \<and> i1 = i\<lparr>i_sectors := i_sectors i1\<rparr> \<and> i_sectors i1 ! 0 \<noteq> 0 \<and> file_ok f1 i1
    \<and> set (own f1 i1 (used_blocks i1)) \<subseteq> set (own f i (used_blocks i)) \<union> set T
    \<and> (\<forall>j. 512 * j < i_size i \<longrightarrow> blocks f1 i1 ! j = blocks f i ! j)"
proof (cases "i_sectors i ! 0 = 0")
  case False
  have "(inodes f)(p \<mapsto> i) = inodes f" using assms(2) by auto
  then show ?thesis using False assms(2,3) took_refl[OF assms(1)]
    by (intro exI[of _ "[]"] exI[of _ i] exI[of _ f]) (simp add: first_block_def)
next
  case True
  have sh: "shape f i 0" "i_size i = 0" using assms(3) True by (simp_all add: file_ok_def used_blocks_def)
  note sd = shapeD[OF sh(1)]
  obtain lba f1 where a: "block_bitmap_alloc f = Some (int lba, f1)" "inodes f1 = inodes f"
    "free_lba f lba" "block_idx_of lba f1 = lba - data_start f"
    "\<forall>h. \<exists>f2. bitmap_sync (lba - data_start f) BLOCK_BITMAP (f1\<lparr>inodes := h\<rparr>) = Some f2 \<and> inodes f2 = h \<and> took f [lba] f2"
    using alloc_sync[OF assms(1) assms(4)[OF True]] by blast
  define i1 where "i1 = i\<lparr>i_sectors := (i_sectors i)[0 := lba]\<rparr>"
  obtain f2 where f2: "bitmap_sync (lba - data_start f) BLOCK_BITMAP (f1\<lparr>inodes := (inodes f)(p \<mapsto> i1)\<rparr>) = Some f2"
    "inodes f2 = (inodes f)(p \<mapsto> i1)" "took f [lba] f2" using a(5) by blast
  have st: "set_sector p 0 lba f1 = Some (f1\<lparr>inodes := (inodes f)(p \<mapsto> i1)\<rparr>)"
    using a(2) assms(2) by (simp add: set_sector_def set_inode_def i1_def)
  have bi: "block_idx_of lba (f1\<lparr>inodes := h\<rparr>) = lba - data_start f" for h using a(4) by (simp add: block_idx_of_def)
  have pos: "0 < lba - data_start f" using block_idx_of_free(2)[OF assms(1) a(3)] .
  have fb: "first_block p f = Some (True, f2)" using True assms(2) a(1) st bi pos f2(1) by (simp add: first_block_def)
  have zero: "blocks f i ! j = 0" if "j < 140" for j using sd(6)[OF _ that] by simp
  have s12: "i_sectors i ! 12 = 0" using sd(3) by simp
  have bl: "\<forall>j<140. blocks f2 i1 ! j = (if j < 0 then blocks f i ! j else if j < 1 then [lba] ! (j - 0) else 0)"
  proof (intro allI impI)
    fix j :: nat assume j: "j < 140"
    show "blocks f2 i1 ! j = (if j < 0 then blocks f i ! j else if j < 1 then [lba] ! (j - 0) else 0)"
      using zero[OF j] j sd(1) s12 by (cases "j = 0") (auto simp: blocks_def i1_def nth_append)
  qed
  have G: "shape f2 i1 1" "set (own f2 i1 1) \<subseteq> set (own f i 0) \<union> {lba}"
    using grown_shape[OF assms(1) sh(1) f2(3) refl, of i1 1 "[lba]" 0] bl sd(1) s12 by (simp_all add: i1_def)
  have "i_sectors i1 ! 0 = lba" using sd(1) by (simp add: i1_def)
  then have "used_blocks i1 = 1" "i_sectors i1 ! 0 \<noteq> 0" using sh(2) a(3) by (simp_all add: used_blocks_def i1_def free_lba_def)
  then have "file_ok f2 i1" using G(1) sh(2) by (simp add: file_ok_def i1_def)
  then show ?thesis using fb f2(2,3) True G(2) \<open>used_blocks i1 = 1\<close> \<open>i_sectors i1 ! 0 \<noteq> 0\<close> sh(2)
    by (intro exI[of _ "[lba]"] exI[of _ i1] exI[of _ f2]) (auto simp: i1_def used_blocks_def)
qed

section \<open>The transfer loop of a write\<close>

lemma chunk_end: "chunk_size n s < n \<Longrightarrow> (s + chunk_size n s) mod 512 = 0"
proof -
  assume "chunk_size n s < n"
  then have c: "chunk_size n s = 512 - s mod 512" by (auto simp: chunk_size_def Let_def split: if_splits)
  define q r where "q = s div 512" and "r = s mod 512"
  have "s = 512 * q + r" "r < 512" by (simp_all add: q_def r_def)
  then have "s + (512 - r) = 512 * (q + 1)" by simp
  then show ?thesis unfolding c r_def[symmetric] by simp
qed

definition touched :: "nat \<Rightarrow> nat \<Rightarrow> nat \<Rightarrow> bool" where
  "touched s n j \<longleftrightarrow> s div 512 \<le> j \<and> 512 * j < s + n"

text \<open>The bytes the loop leaves in the blocks it writes, \<open>s\<close> being the size before.\<close>

definition wrote_bytes :: "nat list \<Rightarrow> nat \<Rightarrow> u8 list \<Rightarrow> (nat \<Rightarrow> u8 list) \<Rightarrow> (nat \<Rightarrow> u8 list) \<Rightarrow> bool" where
  "wrote_bytes AB s src m0 m \<longleftrightarrow> medium_ok m
     \<and> (\<forall>b. (\<forall>j. touched s (length src) j \<longrightarrow> b \<noteq> AB ! j) \<longrightarrow> m b = m0 b)
     \<and> (\<forall>a. 512 * (s div 512) \<le> a \<and> a < s + length src \<longrightarrow>
          m (AB ! (a div 512)) ! (a mod 512) = (if a < s then m0 (AB ! (a div 512)) ! (a mod 512) else src ! (a - s)))"

lemma wrote_bytes_step:
  assumes ok: "medium_ok m0" and c: "0 < c" "c \<le> length src" "s mod 512 + c \<le> 512"
    and io: "length io = 512" "s mod 512 = 0 \<or> io = m0 (AB ! (s div 512))"
    and dist: "\<And>j. s div 512 < j \<Longrightarrow> 512 * j < s + length src \<Longrightarrow> AB ! j \<noteq> AB ! (s div 512)"
    and rest: "wrote_bytes AB (s + c) (drop c src) (m0(AB ! (s div 512) := blit io (s mod 512) (take c src))) m"
  shows "wrote_bytes AB s src m0 m"
proof -
  define j0 off b1 where "j0 = s div 512" and "off = s mod 512" and "b1 = blit io off (take c src)"
  have s: "s = 512 * j0 + off" "off < 512" by (simp_all add: j0_def off_def)
  have io2: "off = 0 \<or> io = m0 (AB ! j0)" using io(2) by (simp add: off_def j0_def)
  have r: "medium_ok m" "\<And>b. (\<And>j. touched (s + c) (length src - c) j \<Longrightarrow> b \<noteq> AB ! j) \<Longrightarrow> m b = (m0(AB ! j0 := b1)) b"
    "\<And>a. 512 * ((s + c) div 512) \<le> a \<Longrightarrow> a < s + length src \<Longrightarrow> m (AB ! (a div 512)) ! (a mod 512)
        = (if a < s + c then (m0(AB ! j0 := b1)) (AB ! (a div 512)) ! (a mod 512) else drop c src ! (a - (s + c)))"
    using rest c(2) unfolding wrote_bytes_def b1_def j0_def[symmetric] off_def[symmetric] by auto
  have e: "(s + c) div 512 = j0 \<or> (s + c) div 512 = j0 + 1 \<and> s + c = 512 * (j0 + 1)"
  proof (cases "off + c = 512")
    case False
    then have "(512 * j0 + (off + c)) div 512 = j0" using c(3) s(2) off_def by (simp add: div_mult_self4)
    then show ?thesis by (simp add: s(1) add.assoc)
  next
    case True
    then have "s + c = 512 * (j0 + 1)" by (simp add: s(1))
    then show ?thesis by (metis nonzero_mult_div_cancel_left zero_neq_numeral)
  qed
  have K: "b1 ! (a mod 512) = (if a < s then m0 (AB ! j0) ! (a mod 512) else src ! (a - s))"
    if a: "512 * j0 \<le> a" "a < s + c" for a
  proof -
    obtain q where q: "a = 512 * j0 + q" using a(1) le_Suc_ex by blast
    then have ql: "q < off + c" "q < 512" using a(2) s(1) c(3) off_def by linarith+
    then have m: "a mod 512 = q" by (simp add: q)
    have "off + length (take c src) \<le> length io" "q < length io" using io(1) c(2,3) ql(2) off_def by simp_all
    then have "b1 ! q = (if off \<le> q \<and> q < off + length (take c src) then take c src ! (q - off) else io ! q)"
      unfolding b1_def by (rule nth_blit)
    then show ?thesis unfolding m using q s(1) ql io2 c(2) by auto
  qed
  have "m b = m0 b" if "\<And>j. touched s (length src) j \<Longrightarrow> b \<noteq> AB ! j" for b
  proof -
    have "512 * j0 < s + length src" using s(1) c(1,2) by linarith
    then have "touched s (length src) j0" by (simp add: touched_def j0_def)
    moreover have "touched s (length src) j" if "touched (s + c) (length src - c) j" for j
      using that c(2) div_le_mono[of s "s + c" 512] by (simp add: touched_def)
    ultimately show ?thesis using r(2)[of b] that by auto
  qed
  moreover have "m (AB ! (a div 512)) ! (a mod 512) = (if a < s then m0 (AB ! (a div 512)) ! (a mod 512) else src ! (a - s))"
    if a: "512 * j0 \<le> a" "a < s + length src" for a
  proof (cases "a < s + c")
    case True
    obtain q where q: "a = 512 * j0 + q" using a(1) le_Suc_ex by blast
    then have "q < 512" using True s(1) c(3) off_def by linarith
    then have d: "a div 512 = j0" by (simp add: q)
    have "m (AB ! j0) ! (a mod 512) = b1 ! (a mod 512)"
    proof (cases "(s + c) div 512 = j0")
      case True
      then show ?thesis using r(3)[of a] a \<open>a < s + c\<close> d by simp
    next
      case False
      then have "(s + c) div 512 = j0 + 1" using e by blast
      then have "AB ! j0 \<noteq> AB ! j" if "touched (s + c) (length src - c) j" for j
        using that dist[of j] c(2) by (force simp: touched_def j0_def)
      then show ?thesis using r(2)[of "AB ! j0"] by simp
    qed
    then show ?thesis using K[OF a(1) True] unfolding d by simp
  next
    case False
    moreover have "512 * ((s + c) div 512) \<le> s + c" by simp
    ultimately have "512 * ((s + c) div 512) \<le> a" by linarith
    then show ?thesis using r(3)[of a] a(2) False c(2) by simp
  qed
  ultimately show ?thesis unfolding wrote_bytes_def j0_def[symmetric] using r(1) by blast
qed

lemma write_loop_ok:
  assumes "inodes f p = Some i" "i_size i + length src < 71680" "medium_ok (medium f)" "fd_pos (file_table f ! k) < 4294967296"
    and "k < length (file_table f)"
    and "\<And>j. i_size i div 512 \<le> j \<Longrightarrow> 512 * j < i_size i + length src \<Longrightarrow> in_range (AB ! j) 1"
    and "\<And>j l. i_size i div 512 \<le> j \<Longrightarrow> j < l \<Longrightarrow> 512 * l < i_size i + length src \<Longrightarrow> AB ! l \<noteq> AB ! j"
    and "first \<or> src = [] \<or> i_size i mod 512 = 0"
  shows "\<exists>m. write_loop k p AB first src f = Some (f\<lparr>medium := m, inodes := (inodes f)(p \<mapsto> i\<lparr>i_size := i_size i + length src\<rparr>),
      file_table := (file_table f)[k := (file_table f ! k)\<lparr>fd_pos := W32 (fd_pos (file_table f ! k) + length src)\<rparr>]\<rparr>)
    \<and> wrote_bytes AB (i_size i) src (medium f) m"
  using assms
proof (induction "length src" arbitrary: src f i first rule: less_induct)
  case less
  show ?case
  proof (cases "src = []")
    case True
    have "f = f\<lparr>medium := medium f, inodes := (inodes f)(p \<mapsto> i\<lparr>i_size := i_size i + length src\<rparr>),
      file_table := (file_table f)[k := (file_table f ! k)\<lparr>fd_pos := W32 (fd_pos (file_table f ! k) + length src)\<rparr>]\<rparr>"
      using True less(2,5) by (simp add: W32_def fun_upd_idem)
    moreover have "wrote_bytes AB (i_size i) src (medium f) (medium f)" using True less(4) by (simp add: wrote_bytes_def)
    moreover have "write_loop k p AB first src f = Some f" by (subst write_loop.simps) (simp add: True)
    ultimately show ?thesis by (metis)
  next
    case False
    define s n c where "s = i_size i" and "n = length src" and "c = chunk_size n s"
    have n: "0 < n" using False by (simp add: n_def)
    have c: "0 < c" "c \<le> n" "c + s mod 512 \<le> 512" using n chunk_size_le[of n s] by (simp_all add: c_def)
    have s: "s + n < 71680" "512 * (s div 512) \<le> s" using less(3) by (simp_all add: s_def n_def)
    have "512 * (s div 512) < s + n" using s(2) n by linarith
    then have j0: "in_range (AB ! (s div 512)) 1" using less(7)[of "s div 512"] by (simp add: s_def n_def)
    define io where "io = (if first then medium f (AB ! (s div 512)) else replicate 512 0)"
    have io: "length io = 512" "s mod 512 = 0 \<or> io = medium f (AB ! (s div 512))"
      "(if first then fs_read (AB ! (s div 512)) 1 f else Some (replicate 512 0)) = Some io"
      using less(4,9) False fs_read_one[OF j0] by (auto simp: io_def medium_ok_def s_def)
    define b1 m1 where "b1 = blit io (s mod 512) (take c src)" and "m1 = (medium f)(AB ! (s div 512) := blit io (s mod 512) (take c src))"
    have b1: "length b1 = 512" using io(1) c n_def by (simp add: b1_def)
    define e where "e = file_table f ! k"
    define f1 where "f1 = f\<lparr>medium := m1, inodes := (inodes f)(p \<mapsto> i\<lparr>i_size := s + c\<rparr>), file_table := (file_table f)[k := e\<lparr>fd_pos := W32 (fd_pos e + c)\<rparr>]\<rparr>"
    have w: "fs_write (AB ! (s div 512)) b1 f = Some (f\<lparr>medium := m1\<rparr>)" using fs_write_one[OF j0 b1] by (simp add: m1_def b1_def)
    have W: "W32 (s + c) = s + c" using s(1) c(2) by (simp add: W32_def)
    have "s div 512 < 140" using s(1) by (simp add: div_less_iff_less_mult)
    then have step: "write_loop k p AB first src f = write_loop k p AB False (drop c src) f1"
      using False less(2) io(3) w W
      by (subst write_loop.simps) (simp add: s_def[symmetric] n_def[symmetric] c_def[symmetric] b1_def[symmetric] f1_def set_inode_def set_file_def e_def)
    have f1: "inodes f1 p = Some (i\<lparr>i_size := s + c\<rparr>)" "k < length (file_table f1)" "file_table f1 ! k = e\<lparr>fd_pos := W32 (fd_pos e + c)\<rparr>" "medium f1 = m1"
      using less(6) by (simp_all add: f1_def)
    have ok1: "medium_ok (medium f1)" using less(4) b1 by (simp add: f1(4) m1_def b1_def[symmetric] medium_ok_def)
    have mono: "s div 512 \<le> j" if "(s + c) div 512 \<le> j" for j using div_le_mono[of s "s + c" 512] that by linarith
    have n': "length (drop c src) = n - c" by (simp add: n_def)
    have sz: "i_size (i\<lparr>i_size := s + c\<rparr>) + (n - c) = s + n" "i_size (i\<lparr>i_size := s + c\<rparr>) = s + c" using c(2) by simp_all
    have last: "False \<or> drop c src = [] \<or> i_size (i\<lparr>i_size := s + c\<rparr>) mod 512 = 0"
      using chunk_end[of n s, folded c_def] c(2) by (cases "c < n") (simp_all add: n_def)
    have rng: "in_range (AB ! j) 1" if "i_size (i\<lparr>i_size := s + c\<rparr>) div 512 \<le> j" "512 * j < i_size (i\<lparr>i_size := s + c\<rparr>) + length (drop c src)" for j
      by (rule less(7)) (use that mono[of j] in \<open>simp_all add: s_def n_def c_def chunk_size_le\<close>)
    have dst: "AB ! l \<noteq> AB ! j" if "i_size (i\<lparr>i_size := s + c\<rparr>) div 512 \<le> j" "j < l" "512 * l < i_size (i\<lparr>i_size := s + c\<rparr>) + length (drop c src)" for j l
      by (rule less(8)) (use that mono[of j] in \<open>simp_all add: s_def n_def c_def chunk_size_le\<close>)
    have "length (drop c src) < length src" using c(1) n by (simp add: n_def)
    from less(1)[OF this f1(1) _ ok1 _ f1(2) rng dst last]
    obtain m where m: "write_loop k p AB False (drop c src) f1 = Some (f1\<lparr>medium := m, inodes := (inodes f1)(p \<mapsto> i\<lparr>i_size := s + n\<rparr>),
        file_table := (file_table f1)[k := (file_table f1 ! k)\<lparr>fd_pos := W32 (fd_pos (file_table f1 ! k) + (n - c))\<rparr>]\<rparr>)"
      "wrote_bytes AB (s + c) (drop c src) m1 m" using s(1) c(2) unfolding n' sz f1(3,4) by (auto simp: W32_def)
    obtain d where d: "n = c + d" using c(2) le_Suc_ex by blast
    have "W32 (W32 (fd_pos e + c) + (n - c)) = W32 (fd_pos e + n)" unfolding d by (simp add: W32_def mod_add_left_eq add.assoc)
    then have "write_loop k p AB first src f = Some (f\<lparr>medium := m, inodes := (inodes f)(p \<mapsto> i\<lparr>i_size := s + n\<rparr>),
        file_table := (file_table f)[k := e\<lparr>fd_pos := W32 (fd_pos e + n)\<rparr>]\<rparr>)"
      unfolding step m(1) f1(3) by (simp add: f1_def)
    moreover have "wrote_bytes AB s src (medium f) m"
      using wrote_bytes_step[OF less(4) c(1) _ _ io(1,2) _ m(2)[unfolded m1_def]] c(2,3) less(8)[of "s div 512"] by (simp add: n_def s_def add.commute)
    ultimately show ?thesis unfolding s_def n_def e_def by blast
  qed
qed

section \<open>file_write\<close>

text \<open>The content of a file.\<close>

definition content :: "fs \<Rightarrow> inode \<Rightarrow> u8 list" where
  "content f i = map (\<lambda>a. medium f (blocks f i ! (a div 512)) ! (a mod 512)) [0..<i_size i]"

lemma length_content [simp]: "length (content f i) = i_size i"
  by (simp add: content_def)

lemma own_nth: "shape f i u \<Longrightarrow> j < u \<Longrightarrow> blocks f i ! j \<in> set (own f i u)"
  using shapeD(1,2)[of f i u] by (auto simp: own_def in_set_conv_nth)

lemma own_table: "shape f i u \<Longrightarrow> 12 < u \<Longrightarrow> i_sectors i ! 12 \<in> set (own f i u)"
  by (simp add: own_def)

lemma nmalloc_simps [simp]:
  "vol_ok (f\<lparr>nmalloc := x\<rparr>) = vol_ok f" "nfree (f\<lparr>nmalloc := x\<rparr>) = nfree f" "blocks (f\<lparr>nmalloc := x\<rparr>) i = blocks f i"
  "own (f\<lparr>nmalloc := x\<rparr>) i u = own f i u" "file_ok (f\<lparr>nmalloc := x\<rparr>) i = file_ok f i" "data_block (f\<lparr>nmalloc := x\<rparr>) b = data_block f b"
  "free_lba (f\<lparr>nmalloc := x\<rparr>) b = free_lba f b"
  by (simp_all add: vol_ok_def nfree_def blocks_def own_def file_ok_def shape_def data_block_def free_lba_def cong: if_cong)

lemma file_ok_block: "vol_ok f \<Longrightarrow> file_ok f i \<Longrightarrow> a < i_size i \<Longrightarrow> data_block f (blocks f i ! (a div 512)) \<and> a div 512 < used_blocks i"
proof -
  assume a: "vol_ok f" "file_ok f i" "a < i_size i"
  have "a div 512 < used_blocks i" using a div_le_mono[of a "i_size i" 512] by (auto simp: file_ok_def used_blocks_def)
  then show ?thesis using a(2) shapeD(7) by (auto simp: file_ok_def)
qed

text \<open>The blocks are there: the content is as before, and the transfer can begin.\<close>

definition ready :: "fs \<Rightarrow> nat \<Rightarrow> inode \<Rightarrow> nat \<Rightarrow> nat list \<Rightarrow> inode \<Rightarrow> fs \<Rightarrow> bool" where
  "ready f p i n AB i2 g \<longleftrightarrow> inodes g = (inodes f)(p \<mapsto> i2) \<and> i2 = i\<lparr>i_sectors := i_sectors i2\<rparr> \<and> vol_ok g \<and> same_rest f g
     \<and> shape g i2 ((i_size i + n) div 512 + 1) \<and> length AB = 140 \<and> i_sectors i2 ! 0 \<noteq> 0
     \<and> (\<forall>j. i_size i div 512 \<le> j \<and> j \<le> (i_size i + n) div 512 \<longrightarrow> AB ! j = blocks g i2 ! j)
     \<and> (\<forall>a<i_size i. medium g (blocks g i2 ! (a div 512)) = medium f (blocks f i ! (a div 512)))
     \<and> (\<forall>b. data_block f b \<and> b \<notin> set (own f i (used_blocks i)) \<longrightarrow>
          medium g b = medium f b \<and> data_block g b \<and> b \<notin> set (own g i2 ((i_size i + n) div 512 + 1)))"

lemma write_ready:
  assumes "vol_ok f" "inodes f p = Some i" "file_ok f i" "i_size i + n < 71680" "blocks_for i n \<le> nfree f"
  shows "\<exists>f1 AB i2 g. first_block p f = Some (True, f1) \<and> collect_write p n f1 = Some (True, AB, g) \<and> ready f p i n AB i2 g"
proof -
  define w where "w = (i_size i + n) div 512 + 1"
  have nf: "i_sectors i ! 0 = 0 \<Longrightarrow> 0 < nfree f" using assms(5) by (simp add: blocks_for_def Let_def)
  obtain T i1 f1 where fb: "first_block p f = Some (True, f1)" "took f T f1" "length T = (if i_sectors i ! 0 = 0 then 1 else 0)"
    "inodes f1 = (inodes f)(p \<mapsto> i1)" "i1 = i\<lparr>i_sectors := i_sectors i1\<rparr>" "i_sectors i1 ! 0 \<noteq> 0" "file_ok f1 i1"
    "set (own f1 i1 (used_blocks i1)) \<subseteq> set (own f i (used_blocks i)) \<union> set T"
    "\<forall>j. 512 * j < i_size i \<longrightarrow> blocks f1 i1 ! j = blocks f i ! j"
    using first_block_ok[OF assms(1-3) nf] by blast
  note t1 = tookD[OF fb(2)]
  have v1: "vol_ok f1" by (rule took_vol_ok[OF fb(2) assms(1)])
  have sz: "i_size i1 = i_size i" by (subst fb(5)) simp
  have "blocks_for i n = length T + blocks_for i1 n" using fb(3,6) sz by (simp add: blocks_for_def Let_def)
  then have "blocks_for i1 n \<le> nfree f1" using took_nfree[OF fb(2)] assms(5) by linarith
  then obtain AB i2 T2 g where cw: "collect_write p n f1 = Some (True, AB, g)" "collected p i1 (i_size i div 512 + 1) w f1 AB i2 T2 g"
    using collect_write_ok[OF v1 _ fb(7,6), of p n] fb(4) assms(4) unfolding w_def sz by (simp del: fun_upd_apply add: fun_upd_same) blast
  have ub: "used_blocks i1 = i_size i div 512 + 1" using fb(6) sz by (simp add: used_blocks_def)
  have C: "inodes g = (inodes f1)(p \<mapsto> i2)" "i2 = i1\<lparr>i_sectors := i_sectors i2\<rparr>" "shape g i2 w"
    "set (own g i2 w) \<subseteq> set (own f1 i1 (used_blocks i1)) \<union> set T2" "vol_ok g" "same_rest f1 g" "length AB = 140"
    "\<forall>b\<in>set T2. free_lba f1 b" "\<forall>j. block_used g j \<longleftrightarrow> block_used f1 j \<or> data_start f1 + j \<in> set T2"
    "\<forall>j. i_size i div 512 \<le> j \<and> j < w \<longrightarrow> AB ! j = blocks g i2 ! j" "\<forall>j \<le> i_size i div 512. blocks g i2 ! j = blocks f1 i1 ! j"
    "\<forall>k. inode_table_lba (sb (cur_part f1)) \<le> k \<and> k \<notin> set (own g i2 w) \<longrightarrow> medium g k = medium f1 k"
    "\<forall>j \<le> i_size i div 512. medium g (blocks g i2 ! j) = medium f1 (blocks f1 i1 ! j)"
    using cw(2) unfolding collected_def ub Suc_eq_plus1[symmetric] diff_Suc_1 less_Suc_eq_le by blast+
  have e2: "i2 = i\<lparr>i_sectors := i_sectors i2\<rparr>" by (subst C(2), subst fb(5)) simp
  have data: "medium f1 b = medium f b" if "data_block f b" for b
    using t1(11)[of b] data_block_table[OF assms(1) that] by simp
  have cont: "medium g (blocks g i2 ! (a div 512)) = medium f (blocks f i ! (a div 512))" if "a < i_size i" for a
  proof -
    have l: "a div 512 \<le> i_size i div 512" "512 * (a div 512) < i_size i"
      using that div_le_mono[of a "i_size i" 512] times_div_less_eq_dividend[of 512 a] by (simp_all add: le_less_trans)
    then have "blocks f1 i1 ! (a div 512) = blocks f i ! (a div 512)" using fb(9) by blast
    then show ?thesis using C(13) l(1) data file_ok_block[OF assms(1,3) that] by simp
  qed
  have other: "medium g b = medium f b \<and> data_block g b \<and> b \<notin> set (own g i2 w)"
    if b: "data_block f b" "b \<notin> set (own f i (used_blocks i))" for b
  proof -
    have b1: "data_block f1 b" "b \<notin> set T" using took_data_block[OF fb(2) b(1)] took_not_new[OF fb(2) b(1)] by blast+
    then have "b \<notin> set T2" using C(8) by (auto simp: data_block_def free_lba_def)
    then have n: "b \<notin> set (own g i2 w)" using C(4) fb(8) b(2) b1(2) by auto
    moreover have "medium g b = medium f1 b" using C(12) n data_block_table[OF v1 b1(1)] by simp
    moreover have "data_block g b" using b1(1) C(6,9) by (auto simp: data_block_def same_rest_def)
    ultimately show ?thesis using data[OF b(1)] by simp
  qed
  have s0: "i_sectors i2 ! 0 \<noteq> 0"
  proof -
    have "data_block g (blocks g i2 ! 0)" by (rule shapeD(7)[OF C(3)]) (simp add: w_def)
    then show ?thesis using shapeD(1)[OF C(3)] by (auto simp: data_block_def blocks_def nth_append)
  qed
  have "same_rest f g" using same_rest_took[OF fb(2)] C(6) by (auto simp: same_rest_def)
  moreover have "inodes g = (inodes f)(p \<mapsto> i2)" using C(1) fb(4) by simp
  ultimately have "ready f p i n AB i2 g"
    unfolding ready_def w_def[symmetric] using e2 C(3,5,7,10) s0 cont other by (auto simp: w_def less_Suc_eq_le)
  then show ?thesis using fb(1) cw(1) by blast
qed

text \<open>What has to hold before a write: room, and an inode whose entry in the table does not cross a sector,
  because file_write has a buffer of one sector only.\<close>

definition can_write :: "fs \<Rightarrow> nat \<Rightarrow> nat \<Rightarrow> inode \<Rightarrow> nat \<Rightarrow> bool" where
  "can_write f k p i n \<longleftrightarrow> vol_ok f \<and> k < length (file_table f) \<and> fd_inode (file_table f ! k) = Some p \<and> inodes f p = Some i \<and> file_ok f i
     \<and> i_size i + n < 71680 \<and> blocks_for i n \<le> nfree f \<and> mallocs f (nmalloc f) \<and> mallocs f (nmalloc f + 1)
     \<and> inode_place f (i_no i mod 256) \<and> \<not> crosses (i_no i mod 256)"

text \<open>The file after the transfer loop, up to the entry in the inode table.\<close>

lemma transfer_ok:
  assumes r: "ready f p i (length buf) AB i2 g" and s: "i_size i + length buf < 71680" and k: "k < length (file_table f)" and v: "vol_ok f" "file_ok f i"
  shows "\<exists>m. write_loop k p AB True buf (set_file k ((file_table g ! k)\<lparr>fd_pos := W32 (i_size i + 4294967295)\<rparr>) g)
      = Some (g\<lparr>medium := m, inodes := (inodes f)(p \<mapsto> i2\<lparr>i_size := i_size i + length buf\<rparr>),
           file_table := (file_table f)[k := (file_table f ! k)\<lparr>fd_pos := W32 (i_size i + 4294967295 + length buf)\<rparr>]\<rparr>)
    \<and> wrote_bytes AB (i_size i) buf (medium g) m"
proof -
  define w e where "w = (i_size i + length buf) div 512 + 1" and "e = (file_table f ! k)\<lparr>fd_pos := W32 (i_size i + 4294967295)\<rparr>"
  have R: "inodes g p = Some i2" "i2 = i\<lparr>i_sectors := i_sectors i2\<rparr>" "vol_ok g" "file_table g = file_table f" "shape g i2 w"
    "inodes g = (inodes f)(p \<mapsto> i2)"
    "\<And>j. i_size i div 512 \<le> j \<Longrightarrow> j < w \<Longrightarrow> AB ! j = blocks g i2 ! j"
    using r by (auto simp: ready_def same_rest_def w_def less_Suc_eq_le)
  have sz: "i_size i2 = i_size i" by (subst R(2)) simp
  let ?g = "set_file k ((file_table g ! k)\<lparr>fd_pos := W32 (i_size i + 4294967295)\<rparr>) g"
  have G: "inodes ?g p = Some i2" "medium ?g = medium g" "k < length (file_table ?g)" "file_table ?g ! k = e" "fd_pos e < 4294967296"
    "file_table ?g = (file_table f)[k := e]" "inodes ?g = (inodes f)(p \<mapsto> i2)"
    using R(1,4,6) k by (simp_all add: set_file_def e_def W32_def)
  have tw: "j < w" if "512 * j < i_size i + length buf" for j using that unfolding w_def by (simp add: less_Suc_eq_le less_eq_div_iff_mult_less_eq)
  have rng: "in_range (AB ! j) 1" if "i_size i2 div 512 \<le> j" "512 * j < i_size i2 + length buf" for j
    using that R(7)[of j] tw[of j] shapeD(7)[OF R(5), of j] by (simp add: sz data_block_def)
  have dst: "AB ! l \<noteq> AB ! j" if "i_size i2 div 512 \<le> j" "j < l" "512 * l < i_size i2 + length buf" for j l
    using that R(7)[of j] R(7)[of l] tw[of l] shapeD(9)[OF R(5), of j l] by (auto simp: sz)
  have "medium_ok (medium ?g)" using vol_okD(1)[OF R(3)] by (simp add: G(2))
  from write_loop_ok[OF G(1) _ this _ G(3), of buf AB True] rng dst s G(5)
  obtain m where "write_loop k p AB True buf ?g = Some (?g\<lparr>medium := m, inodes := (inodes ?g)(p \<mapsto> i2\<lparr>i_size := i_size i2 + length buf\<rparr>),
      file_table := (file_table ?g)[k := (file_table ?g ! k)\<lparr>fd_pos := W32 (fd_pos (file_table ?g ! k) + length buf)\<rparr>]\<rparr>)"
    "wrote_bytes AB (i_size i2) buf (medium ?g) m" unfolding sz G(4) by blast
  moreover have "W32 (W32 (i_size i + 4294967295) + length buf) = W32 (i_size i + 4294967295 + length buf)" by (simp add: W32_def mod_add_left_eq)
  ultimately show ?thesis using k unfolding G(2,4,6,7) sz by (auto simp: set_file_def e_def)
qed

lemma file_write_steps:
  assumes "fd_inode (file_table f ! k) = Some p" "inodes f p = Some i" "W32 (i_size i + length buf) \<le> 71680"
    and "mallocs f (nmalloc f)" "mallocs f (nmalloc f + 1)" "first_block p (f\<lparr>nmalloc := nmalloc f + 2\<rparr>) = Some (True, f1)"
    and "collect_write p (length buf) f1 = Some (True, AB, g)"
    and "write_loop k p AB True buf (set_file k ((file_table g ! k)\<lparr>fd_pos := W32 (i_size i + 4294967295)\<rparr>) g) = Some g2"
    and "inodes g2 p = Some i3" "inode_sync 512 i3 g2 = Some f'"
  shows "file_write k buf f = Some (int (length buf), f')"
proof -
  have n: "\<not> 71680 < W32 (i_size i + length buf)" using assms(3) by simp
  have k: "kmalloc f = (Some (nmalloc f + 1), f\<lparr>nmalloc := nmalloc f + 1\<rparr>)"
    "kmalloc (f\<lparr>nmalloc := nmalloc f + 1\<rparr>) = (Some (nmalloc f + 2), f\<lparr>nmalloc := nmalloc f + 2\<rparr>)"
    using assms(4,5) by (simp_all add: kmalloc_def)
  show ?thesis using assms by (simp add: file_write_def k n del: One_nat_def add_2_eq_Suc')
qed

lemma file_write_ok:
  assumes c: "can_write f k p i (length buf)"
  shows "\<exists>f' i'. file_write k buf f = Some (int (length buf), f') \<and> inodes f' = (inodes f)(p \<mapsto> i') \<and> i_no i' = i_no i \<and> vol_ok f' \<and> file_ok f' i'
    \<and> content f' i' = content f i @ buf \<and> (inode_wf i \<longrightarrow> disk_inode f' (i_no i mod 256) = pure_inode i')
    \<and> (\<forall>b. data_block f b \<and> b \<notin> set (own f i (used_blocks i)) \<longrightarrow> medium f' b = medium f b \<and> data_block f' b)
    \<and> mallocs f' = mallocs f \<and> file_table f' = (file_table f)[k := (file_table f ! k)\<lparr>fd_pos := W32 (i_size i + 4294967295 + length buf)\<rparr>]"
proof -
  define s n where "s = i_size i" and "n = length buf"
  define w where "w = (s + n) div 512 + 1"
  have C: "vol_ok f" "k < length (file_table f)" "fd_inode (file_table f ! k) = Some p" "inodes f p = Some i" "file_ok f i"
    "s + n < 71680" "blocks_for i n \<le> nfree f" "mallocs f (nmalloc f)" "mallocs f (nmalloc f + 1)"
    "inode_place f (i_no i mod 256)" "\<not> crosses (i_no i mod 256)" using c by (simp_all add: can_write_def s_def n_def)
  define f0 where "f0 = f\<lparr>nmalloc := nmalloc f + 2\<rparr>"
  have F0: "vol_ok f0" "inodes f0 p = Some i" "file_ok f0 i" "blocks_for i n \<le> nfree f0" "k < length (file_table f0)" "inodes f0 = inodes f"
    using C by (simp_all add: f0_def)
  obtain f1 AB i2 g where W: "first_block p f0 = Some (True, f1)" "collect_write p n f1 = Some (True, AB, g)" "ready f0 p i n AB i2 g"
    using write_ready[OF F0(1-3) _ F0(4)] C(6) unfolding s_def by blast
  define i3 where "i3 = i2\<lparr>i_size := s + n\<rparr>"
  obtain m where m: "write_loop k p AB True buf (set_file k ((file_table g ! k)\<lparr>fd_pos := W32 (s + 4294967295)\<rparr>) g)
      = Some (g\<lparr>medium := m, inodes := (inodes f)(p \<mapsto> i3), file_table := (file_table f)[k := (file_table f ! k)\<lparr>fd_pos := W32 (s + 4294967295 + n)\<rparr>]\<rparr>)"
    "wrote_bytes AB s buf (medium g) m"
    using transfer_ok[OF W(3)[unfolded n_def] _ F0(5,1,3)] C(6) unfolding s_def n_def F0(6) i3_def by (auto simp: f0_def)
  define g2 where "g2 = g\<lparr>medium := m, inodes := (inodes f)(p \<mapsto> i3), file_table := (file_table f)[k := (file_table f ! k)\<lparr>fd_pos := W32 (s + 4294967295 + n)\<rparr>]\<rparr>"
  have R: "i2 = i\<lparr>i_sectors := i_sectors i2\<rparr>" "vol_ok g" "same_rest f0 g" "shape g i2 w" "i_sectors i2 ! 0 \<noteq> 0"
    "\<And>j. s div 512 \<le> j \<Longrightarrow> j < w \<Longrightarrow> AB ! j = blocks g i2 ! j"
    "\<And>a. a < s \<Longrightarrow> medium g (blocks g i2 ! (a div 512)) = medium f (blocks f i ! (a div 512))"
    "\<And>b. data_block f b \<Longrightarrow> b \<notin> set (own f i (used_blocks i)) \<Longrightarrow> medium g b = medium f b \<and> data_block g b \<and> b \<notin> set (own g i2 w)"
    using W(3) unfolding ready_def w_def[symmetric] s_def[symmetric] n_def[symmetric]
    by (auto simp: f0_def w_def less_Suc_eq_le)
  have no: "i_no i3 = i_no i" "i_size i3 = s + n" "i_sectors i3 = i_sectors i2"
    unfolding i3_def by (subst R(1), simp)+
  have M: "medium_ok m" "\<And>b. (\<And>j. touched s n j \<Longrightarrow> b \<noteq> AB ! j) \<Longrightarrow> m b = medium g b"
    "\<And>a. 512 * (s div 512) \<le> a \<Longrightarrow> a < s + n \<Longrightarrow> m (AB ! (a div 512)) ! (a mod 512)
       = (if a < s then medium g (AB ! (a div 512)) ! (a mod 512) else buf ! (a - s))"
    using m(2) by (auto simp: wrote_bytes_def n_def)
  have pl: "inode_place g2 (i_no i3 mod 256)" using C(10) R(3) no(1) by (simp add: g2_def inode_place_def same_rest_def f0_def)
  obtain m2 where m2: "inode_sync 512 i3 g2 = Some (g2\<lparr>medium := m2\<rparr>)"
    "replaced (inode_addr g2 (i_no i3 mod 256)) (inode_bytes (pure_inode i3)) m m2"
    using inode_sync_ok[of g2 i3 512] M(1) pl shapeD(1)[OF R(4)] no(1,3) C(11) by (auto simp: g2_def)
  define f' where "f' = g2\<lparr>medium := m2\<rparr>"
  have "W32 (i_size i + length buf) \<le> 71680" using C(6) by (simp add: W32_def s_def n_def)
  then have fw: "file_write k buf f = Some (int n, f')"
    using file_write_steps[OF C(3,4) _ C(8,9) W(1)[unfolded f0_def] W(2)[unfolded n_def] m(1)[folded g2_def, unfolded s_def]] m2(1)
    by (simp add: g2_def f'_def n_def)
  have db: "data_block f' b \<longleftrightarrow> data_block g b" for b by (simp add: f'_def g2_def data_block_def)
  have l76: "length (inode_bytes (pure_inode i3)) = 76" using shapeD(1)[OF R(4)] no(3) by (simp add: pure_inode_def)
  have m2m: "m2 b = m b" if "data_block g b" for b
  proof (rule replaced_sector[OF m2(2) M(1)])
    have "76 * (i_no i3 mod 256) + 76 \<le> 512 * 608" using mod_less_divisor[of 256 "i_no i3"] by linarith
    then have "inode_addr g2 (i_no i3 mod 256) + 76 \<le> 512 * (inode_table_lba (sb (cur_part g)) + 608)"
      by (simp add: inode_addr_def g2_def sizeof_inode_def)
    then show "512 * b + 512 \<le> inode_addr g2 (i_no i3 mod 256) \<or> inode_addr g2 (i_no i3 mod 256) + length (inode_bytes (pure_inode i3)) \<le> 512 * b"
      using le_trans[OF _ mult_le_mono2[OF less_imp_le[OF data_block_table[OF R(2) that]], of 512]] unfolding l76 by blast
  qed
  have tAB: "AB ! j = blocks g i2 ! j \<and> j < w" if "touched s n j" for j
    using that R(6)[of j] unfolding touched_def w_def by (simp add: less_Suc_eq_le less_eq_div_iff_mult_less_eq)
  have keep: "m2 b = medium g b" if "data_block g b" "\<And>j. j < w \<Longrightarrow> s div 512 \<le> j \<Longrightarrow> b \<noteq> blocks g i2 ! j" for b
    using m2m[OF that(1)] M(2)[of b] tAB that(2) unfolding touched_def by metis
  have bl: "blocks f' i3 = blocks g i2"
  proof -
    have "medium f' (i_sectors i2 ! 12) = medium g (i_sectors i2 ! 12)" if "12 < w"
      using keep[OF shapeD(8)[OF R(4) that]] shapeD(10)[OF R(4)] by (metis f'_def fs.select_convs(1) fs.surjective fs.update_convs(1))
    then have "blocks f' i2 = blocks g i2" by (rule blocks_cong[OF _ R(4)])
    moreover have "blocks f' i3 = blocks f' i2" by (simp add: blocks_def no(3))
    ultimately show ?thesis by simp
  qed
  have sh: "shape f' i3 w" using R(4) db by (simp add: shape_def own_def bl no(3))
  have ub: "used_blocks i3 = w" using R(5) by (simp add: used_blocks_def no(2,3) w_def)
  have "file_ok f' i3" using sh ub C(6) R(5) by (simp add: file_ok_def no(2,3))
  moreover have "vol_ok f'" using R(2) replacedD(1)[OF m2(2)] by (simp add: vol_ok_def Let_def f'_def g2_def)
  moreover have "content f' i3 = content f i @ buf"
  proof (rule nth_equalityI)
    show "length (content f' i3) = length (content f i @ buf)" by (simp add: no(2) s_def n_def)
    fix a assume "a < length (content f' i3)"
    then have a: "a < s + n" by (simp add: no(2))
    then have aw: "a div 512 < w" unfolding w_def using div_le_mono[of a "s + n" 512] by simp
    have dbl: "data_block g (blocks g i2 ! (a div 512))" by (rule shapeD(7)[OF R(4) aw])
    have mf: "medium f' = m2" by (simp add: f'_def)
    have "m2 (blocks g i2 ! (a div 512)) ! (a mod 512) = (content f i @ buf) ! a"
    proof (cases "512 * (s div 512) \<le> a")
      case True
      then have "s div 512 \<le> a div 512" by (metis div_le_mono nonzero_mult_div_cancel_left zero_neq_numeral)
      then have "AB ! (a div 512) = blocks g i2 ! (a div 512)" using R(6) aw by blast
      then show ?thesis using M(3)[OF True a] m2m[OF dbl] R(7)[of a] by (simp add: nth_append content_def s_def)
    next
      case False
      then have as: "a < s" using times_div_less_eq_dividend[of 512 s] by linarith
      have "a div 512 < s div 512" using False by (simp add: div_less_iff_less_mult mult.commute)
      then have "blocks g i2 ! (a div 512) \<noteq> blocks g i2 ! j" if "j < w" "s div 512 \<le> j" for j
        using shapeD(9)[OF R(4) aw that(1)] that(2) by auto
      then have "m2 (blocks g i2 ! (a div 512)) = medium g (blocks g i2 ! (a div 512))" using keep[OF dbl] by blast
      then show ?thesis using R(7)[OF as] as by (simp add: nth_append content_def s_def)
    qed
    then show "content f' i3 ! a = (content f i @ buf) ! a" using a by (simp add: content_def bl no(2) mf)
  qed
  moreover have "medium f' b = medium f b \<and> data_block f' b" if "data_block f b" "b \<notin> set (own f i (used_blocks i))" for b
  proof -
    have g: "medium g b = medium f b" "data_block g b" "b \<notin> set (own g i2 w)" using R(8)[OF that] by blast+
    then have "m2 b = medium g b" using keep[OF g(2)] own_nth[OF R(4)] by metis
    then show ?thesis using g db by (simp add: f'_def)
  qed
  moreover have "disk_inode f' (i_no i mod 256) = pure_inode i3" if "inode_wf i"
  proof -
    have "\<forall>b\<in>set (i_sectors i3). b < 4294967296"
    proof
      fix b assume "b \<in> set (i_sectors i3)"
      then obtain j where j: "j < 13" "b = i_sectors i3 ! j" using shapeD(1)[OF sh] by (metis in_set_conv_nth)
      show "b < 4294967296"
      proof (cases "j = 12")
        case True
        then show ?thesis using shapeD(3,8)[OF sh] j(2) in_range_u32 by (cases "12 < w") (auto simp: data_block_def)
      next
        case False
        then have "b = blocks f' i3 ! j" using j shapeD(1)[OF sh] by (simp add: blocks_def nth_append)
        then show ?thesis using blocks_less[OF sh, of j] j(1) by simp
      qed
    qed
    moreover have "i_open_cnts i3 = i_open_cnts i" unfolding i3_def by (subst R(1)) simp
    ultimately have "inode_wf (pure_inode i3)" using that no C(6) shapeD(1)[OF sh] by (simp add: inode_wf_def pure_inode_def)
    moreover have "replaced (inode_addr g2 (i_no i3 mod 256)) (inode_bytes (pure_inode i3)) (medium g2) m2" using m2(2) by (simp add: g2_def)
    ultimately show ?thesis using disk_inode_replaced[of g2 "i_no i3 mod 256"] l76 inode_of_bytes no(1) by (simp add: f'_def)
  qed
  moreover have "inodes f' = (inodes f)(p \<mapsto> i3)" by (simp add: f'_def g2_def)
  moreover have "mallocs f' = mallocs f" using R(3) by (simp add: f'_def g2_def f0_def same_rest_def)
  moreover have "file_table f' = (file_table f)[k := (file_table f ! k)\<lparr>fd_pos := W32 (i_size i + 4294967295 + length buf)\<rparr>]"
    by (simp add: f'_def g2_def s_def n_def)
  ultimately show ?thesis using fw no(1) unfolding n_def by blast
qed

end
