(* ===== verification/Fileread.thy ===== *)
theory Fileread
  imports Filedata
begin

text \<open>
  file_read in terms of the content of a file (\<open>Filedata\<close>), the write and the read together, and a disk on
  which both are tried: a file of one block on a partition with a bitmap of one sector.
\<close>

section \<open>file_read\<close>

text \<open>The blocks that file_read collects are those of the file.\<close>

lemma collect_read_ok:
  assumes "file_ok f i" "pos + n \<le> i_size i" "i_size i < 71168"
  shows "\<exists>AB. collect_read i pos n f = Some AB \<and> length AB = 140
    \<and> (\<forall>j. pos div 512 \<le> j \<and> 512 * j < pos + n \<longrightarrow> AB ! j = blocks f i ! j)"
proof -
  define s w where "s = pos div 512" and "w = (pos + n) div 512"
  have W: "W32 (pos + n) div 512 = w" using assms by (simp add: W32_def w_def)
  have sw: "s \<le> w" by (simp add: s_def w_def div_le_mono)
  have sh: "shape f i (used_blocks i)" using assms(1) by (simp add: file_ok_def)
  have l: "length (i_sectors i) = 13" by (rule shapeD(1)[OF sh])
  have w: "w < 139" using assms(2,3) by (simp add: w_def div_less_iff_less_mult)
  have ub: "w < used_blocks i" if "12 \<le> w"
  proof -
    have "w \<le> i_size i div 512" "0 < i_size i" using assms(2) that by (auto simp: w_def div_le_mono intro: Nat.gr0I)
    then show ?thesis using assms(1) by (auto simp: file_ok_def used_blocks_def)
  qed
  have tab: "i_sectors i ! 12 \<noteq> 0" "fs_read (i_sectors i ! 12) 1 f = Some (medium f (i_sectors i ! 12))" if "12 \<le> w"
    using shapeD(3,8)[OF sh] ub[OF that] that fs_read_one by (auto simp: data_block_def simp del: One_nat_def)
  have direct: "blocks f i ! j = i_sectors i ! j" if "j < 12" for j using that l by (simp add: blocks_def nth_append)
  have table: "blocks f i ! j = table_of (medium f (i_sectors i ! 12)) ! (j - 12)" if "12 \<le> j" "12 \<le> w" for j
    using that l tab(1) by (simp add: blocks_def nth_append)
  have jw: "s \<le> j" "j \<le> w" if "pos div 512 \<le> j" "512 * j < pos + n" for j
    using that div_le_mono[of "512 * j" "pos + n" 512] by (simp_all add: s_def w_def)
  define AB where "AB = (if s = w then if w < 12 then (replicate 140 0)[w := i_sectors i ! w] else blit (replicate 140 0) 12 (table_of (medium f (i_sectors i ! 12)))
     else if w < 12 then blit (replicate 140 0) s (sub_buf (i_sectors i) s (w + 1 - s))
     else if s < 12 then blit (blit (replicate 140 0) s (sub_buf (i_sectors i) s (12 - s))) 12 (table_of (medium f (i_sectors i ! 12)))
     else blit (replicate 140 0) 12 (table_of (medium f (i_sectors i ! 12))))"
  have "collect_read i pos n f = Some AB"
    using w sw tab unfolding collect_read_def W Let_def s_def[symmetric] AB_def by (simp del: One_nat_def)
  moreover have "length AB = 140" using w sw l by (simp add: AB_def)
  moreover have "AB ! j = blocks f i ! j" if "s \<le> j" "j \<le> w" for j
    using that w l by (cases "j < 12") (auto simp: AB_def direct table nth_blit nth_sub_buf)
  ultimately show ?thesis using jw by blast
qed

lemma chunk_block: "s mod 512 + j < 512 \<Longrightarrow> (s + j) div 512 = s div 512 \<and> (s + j) mod 512 = s mod 512 + j" for s j :: nat
proof -
  assume a: "s mod 512 + j < 512"
  define q r where "q = s div 512" and "r = s mod 512"
  have "s + j = r + j + 512 * q" by (simp add: q_def r_def)
  moreover have "(r + j + 512 * q) div 512 = q" "(r + j + 512 * q) mod 512 = r + j" using a by (simp_all add: r_def[symmetric])
  ultimately show ?thesis unfolding q_def[symmetric] r_def[symmetric] by metis
qed

lemma map_upt_chunk: "c \<le> n \<Longrightarrow> map g [a..<a + n] = map g [a..<a + c] @ map g [a + c..<a + n]"
  by (metis add_le_mono le_add1 le_refl map_append upt_add_eq_append nat_add_left_cancel_le le_add_diff_inverse)

lemma read_file_loop_ok:
  assumes "medium_ok (medium f)" "k < length (file_table f)" "fd_pos (file_table f ! k) = s" "s + n < 71680"
    and "\<And>j. s div 512 \<le> j \<Longrightarrow> 512 * j < s + n \<Longrightarrow> in_range (AB ! j) 1"
  shows "read_file_loop k (Some q) AB n f = Some (map (\<lambda>a. medium f (AB ! (a div 512)) ! (a mod 512)) [s..<s + n],
    set_file k ((file_table f ! k)\<lparr>fd_pos := s + n\<rparr>) f)"
  using assms
proof (induction n arbitrary: s f rule: less_induct)
  case (less n)
  show ?case
  proof (cases "n = 0")
    case True
    have "(file_table f ! k)\<lparr>fd_pos := s\<rparr> = file_table f ! k" using less(4) by simp
    then show ?thesis using True by (subst read_file_loop.simps) (simp add: set_file_def)
  next
    case False
    define c where "c = chunk_size n s"
    have c: "0 < c" "c \<le> n" "s mod 512 + c \<le> 512" using False chunk_size_le[of n s] by (simp_all add: c_def)
    define f1 where "f1 = set_file k ((file_table f ! k)\<lparr>fd_pos := s + c\<rparr>) f"
    have f1: "medium f1 = medium f" "k < length (file_table f1)" "file_table f1 ! k = (file_table f ! k)\<lparr>fd_pos := s + c\<rparr>"
      using less(3) by (simp_all add: f1_def set_file_def)
    have j0: "in_range (AB ! (s div 512)) 1" by (rule less(6)) (use False in simp_all)
    have len: "length (medium f (AB ! (s div 512))) = 512" using less(2) by (simp add: medium_ok_def)
    have "read_file_loop k (Some q) AB (n - c) f1 = Some (map (\<lambda>a. medium f1 (AB ! (a div 512)) ! (a mod 512)) [s + c..<s + c + (n - c)],
      set_file k ((file_table f1 ! k)\<lparr>fd_pos := s + c + (n - c)\<rparr>) f1)"
    proof (rule less(1))
      show "in_range (AB ! j) 1" if "(s + c) div 512 \<le> j" "512 * j < s + c + (n - c)" for j
        using less(6)[of j] that c(2) div_le_mono[of s "s + c" 512] by simp
    qed (use less(2-5) c f1 in simp_all)
    then have r: "read_file_loop k (Some q) AB (n - c) f1 = Some (map (\<lambda>a. medium f (AB ! (a div 512)) ! (a mod 512)) [s + c..<s + n],
      set_file k ((file_table f ! k)\<lparr>fd_pos := s + n\<rparr>) f)" using c(2) unfolding f1 by (simp add: f1_def set_file_def)
    have "sub_buf (medium f (AB ! (s div 512))) (s mod 512) c = map (\<lambda>a. medium f (AB ! (a div 512)) ! (a mod 512)) [s..<s + c]"
    proof (rule nth_equalityI)
      fix j assume "j < length (sub_buf (medium f (AB ! (s div 512))) (s mod 512) c)"
      then have j: "j < c" using c(3) len by simp
      have m: "(s + j) div 512 = s div 512" "(s + j) mod 512 = s mod 512 + j" using chunk_block[of s j] j c(3) by simp_all
      show "sub_buf (medium f (AB ! (s div 512))) (s mod 512) c ! j = map (\<lambda>a. medium f (AB ! (a div 512)) ! (a mod 512)) [s..<s + c] ! j"
        using j c(3) len by (simp add: nth_sub_buf m)
    qed (use c(3) len in simp)
    moreover have "s div 512 < 140" "W32 (s + c) = s + c" using less(5) c(2) by (simp_all add: div_less_iff_less_mult W32_def)
    ultimately show ?thesis using False less(4) j0 r
      by (subst read_file_loop.simps) (simp add: c_def[symmetric] f1_def fs_read_one map_upt_chunk[OF c(2), where a = s] del: One_nat_def)
  qed
qed

text \<open>file_read on a well-formed file. The last block it can reach is number 138.\<close>

definition can_read :: "fs \<Rightarrow> nat \<Rightarrow> nat \<Rightarrow> inode \<Rightarrow> nat \<Rightarrow> bool" where
  "can_read f k p i count \<longleftrightarrow> vol_ok f \<and> k < length (file_table f) \<and> fd_inode (file_table f ! k) = Some p \<and> inodes f p = Some i \<and> file_ok f i
     \<and> i_size i < 71168 \<and> fd_pos (file_table f ! k) \<le> i_size i \<and> fd_pos (file_table f ! k) + count < 4294967296
     \<and> mallocs f (nmalloc f) \<and> mallocs f (nmalloc f + 1)"

lemma file_read_ok:
  assumes c: "can_read f k p i count" and pos: "pos = fd_pos (file_table f ! k)" and n: "n = min count (i_size i - pos)" "n = 0 \<longrightarrow> count = 0"
  shows "file_read k count f = Some (int n, take n (drop pos (content f i)),
    set_file k ((file_table f ! k)\<lparr>fd_pos := pos + n\<rparr>) (f\<lparr>nmalloc := nmalloc f + 2\<rparr>))"
proof -
  let ?f = "f\<lparr>nmalloc := nmalloc f + 2\<rparr>"
  have C: "vol_ok f" "k < length (file_table f)" "fd_inode (file_table f ! k) = Some p" "inodes f p = Some i" "file_ok f i"
    "i_size i < 71168" "pos \<le> i_size i" "pos + count < 4294967296" "mallocs f (nmalloc f)" "mallocs f (nmalloc f + 1)"
    using c pos by (simp_all add: can_read_def)
  have pn: "pos + n \<le> i_size i" using C(7) n(1) by linarith
  obtain AB where AB: "collect_read i pos n ?f = Some AB" "\<And>j. pos div 512 \<le> j \<Longrightarrow> 512 * j < pos + n \<Longrightarrow> AB ! j = blocks f i ! j"
    using collect_read_ok[of ?f i pos n] C(5,6) pn by auto
  have rng: "in_range (AB ! j) 1" if "pos div 512 \<le> j" "512 * j < pos + n" for j
  proof -
    have "data_block f (blocks f i ! (512 * j div 512))" using file_ok_block[OF C(1,5), of "512 * j"] that(2) pn by simp
    then show ?thesis using AB(2)[OF that] by (simp add: data_block_def)
  qed
  have bytes: "map (\<lambda>a. medium f (AB ! (a div 512)) ! (a mod 512)) [pos..<pos + n] = take n (drop pos (content f i))"
  proof (rule nth_equalityI)
    fix j assume "j < length (map (\<lambda>a. medium f (AB ! (a div 512)) ! (a mod 512)) [pos..<pos + n])"
    then have j: "j < n" by simp
    have "512 * ((pos + j) div 512) < pos + n" using times_div_less_eq_dividend[of 512 "pos + j"] j by linarith
    then have "AB ! ((pos + j) div 512) = blocks f i ! ((pos + j) div 512)" using AB(2) div_le_mono[of pos "pos + j" 512] by simp
    then show "map (\<lambda>a. medium f (AB ! (a div 512)) ! (a mod 512)) [pos..<pos + n] ! j = take n (drop pos (content f i)) ! j"
      using j pn by (simp add: content_def)
  qed (use pn in simp)
  have loop: "read_file_loop k (Some (nmalloc f + 1)) AB n ?f = Some (take n (drop pos (content f i)),
      set_file k ((file_table f ! k)\<lparr>fd_pos := pos + n\<rparr>) ?f)"
    using read_file_loop_ok[of ?f k pos n AB "nmalloc f + 1"] C(1,2,6) pn rng bytes pos vol_okD(1)[OF C(1)] by simp
  have W: "W32 (pos + count) = pos + count" "W32 (i_size i + 4294967296 - pos) = i_size i - pos"
  proof -
    show "W32 (pos + count) = pos + count" using C(8) by (simp add: W32_def)
    obtain d where d: "i_size i = pos + d" using C(7) le_Suc_ex by blast
    then show "W32 (i_size i + 4294967296 - pos) = i_size i - pos" using C(6) by (simp add: W32_def)
  qed
  have over: "(if i_size i < W32 (pos + count) then W32 (i_size i + 4294967296 - pos) else count) = n"
    "(i_size i < W32 (pos + count) \<and> n = 0) = False" unfolding W using n C(7) by auto
  have km: "kmalloc f = (Some (nmalloc f + 1), f\<lparr>nmalloc := nmalloc f + 1\<rparr>)" "kmalloc (f\<lparr>nmalloc := nmalloc f + 1\<rparr>) = (Some (nmalloc f + 2), ?f)"
    using C(9,10) by (simp_all add: kmalloc_def)
  have len: "length (take n (drop pos (content f i))) = n" using pn by simp
  show ?thesis unfolding file_read_def using C(3,4) km AB(1) loop len
    by (simp add: pos[symmetric] over Let_def split del: if_split del: One_nat_def add_2_eq_Suc')
qed

lemma file_read_end:
  assumes "can_read f k p i count" "min count (i_size i - fd_pos (file_table f ! k)) = 0" "0 < count"
  shows "file_read k count f = Some (-1, [], f)"
proof -
  have "fd_pos (file_table f ! k) = i_size i" using assms by (auto simp: can_read_def)
  then show ?thesis using assms(1,3) by (simp add: file_read_def can_read_def W32_def)
qed

lemma set_file_simps [simp]:
  "vol_ok (set_file k e f) = vol_ok f" "blocks (set_file k e f) i = blocks f i" "own (set_file k e f) i u = own f i u"
  "file_ok (set_file k e f) i = file_ok f i" "content (set_file k e f) i = content f i" "medium (set_file k e f) = medium f"
  "file_table (set_file k e f) = (file_table f)[k := e]" "inodes (set_file k e f) = inodes f" "mallocs (set_file k e f) = mallocs f"
  "nmalloc (set_file k e f) = nmalloc f"
  by (simp_all add: set_file_def vol_ok_def blocks_def own_def file_ok_def shape_def data_block_def content_def cong: if_cong)

section \<open>A disk\<close>

text \<open>The partition of \<open>fs1\<close> with an empty file, inode 1, open as entry 3 of the table.\<close>

definition fs2 :: fs where
  "fs2 = fs1\<lparr>inodes := (inodes fs1)(1 \<mapsto> inode_init 1), file_table := (file_table fs1)[3 := \<lparr>fd_pos = 0, fd_flag = O_RDWR, fd_inode = Some 1\<rparr>]\<rparr>"

lemma fs2_used: "block_used fs2 k \<longleftrightarrow> k = 0"
proof -
  have "block_used fs2 k \<longleftrightarrow> k div 8 = 0 \<and> k mod 8 = 0" by (simp add: fs2_def fs1_def scan_test_bit bit_1_iff)
  then show ?thesis using div_mod_8_eq[of k 0] by auto
qed

lemma fs2_file: "inodes fs2 1 = Some (inode_init 1)" "fd_inode (file_table fs2 ! 3) = Some 1" "length (file_table fs2) = 32"
  "fd_pos (file_table fs2 ! 3) = 0" "mallocs fs2 n"
  by (simp_all add: fs2_def fs1_def)

lemma fs2_ok: "vol_ok fs2" "file_ok fs2 (inode_init 1)" "nfree fs2 = 4095"
proof -
  have p: "cur_part fs2 = cur_part fs1" "medium fs2 = medium fs1" by (simp_all add: fs2_def)
  show "vol_ok fs2" using fs1_ok(1) fs2_used[of 0] unfolding vol_ok_def Let_def p
    by (simp add: fs1_def in_range_def max_lba_def)
  have i: "i_sectors (inode_init 1) = replicate 13 0" "i_size (inode_init 1) = 0" by (simp_all add: inode_init_def)
  have "blocks fs2 (inode_init 1) = replicate 140 0" by (simp add: blocks_def i replicate_add[symmetric] del: One_nat_def)
  then have "shape fs2 (inode_init 1) 0" by (intro shapeI) (simp_all add: i del: One_nat_def)
  moreover have "used_blocks (inode_init 1) = 0" by (simp add: used_blocks_def inode_init_def)
  ultimately show "file_ok fs2 (inode_init 1)" unfolding file_ok_def i by simp
  have "{k. k < 4096 \<and> \<not> block_used fs2 k} = {1..<4096}"
    unfolding set_eq_iff mem_Collect_eq fs2_used atLeastLessThan_iff by (intro allI) linarith
  moreover have "bitmap_len fs2 = 4096" by (simp add: p fs1_def)
  ultimately show "nfree fs2 = 4095" by (simp add: nfree_def)
qed

lemma fs2_can_write: "n \<le> 1000 \<Longrightarrow> can_write fs2 3 1 (inode_init 1) n"
proof -
  assume n: "n \<le> 1000"
  have i: "i_size (inode_init 1) = 0" "i_no (inode_init 1) = 1" "i_sectors (inode_init 1) = replicate 13 0" by (simp_all add: inode_init_def)
  have "inode_place fs2 1" using fs1_ok(2)[of 1] by (simp add: fs2_def inode_place_def)
  moreover have "n div 512 \<le> 1" using n div_le_mono[of n 1000 512] by simp
  ultimately show ?thesis using n fs2_ok fs2_file by (simp add: can_write_def i blocks_for_def Let_def crosses_def del: One_nat_def)
qed

section \<open>Properties\<close>



text \<open>C17: file_read on an open well-formed file returns the bytes of its content from the position of the
  descriptor, as many as asked for and at most up to the end of the file, moves the position behind them and
  changes nothing else; at the end of the file it returns -1.\<close>
theorem file_read_content:
  assumes "can_read f k p i count"
  shows "file_read k count f = (let pos = fd_pos (file_table f ! k); n = min count (i_size i - pos) in
    if n = 0 \<and> 0 < count then Some (-1, [], f)
    else Some (int n, take n (drop pos (content f i)), set_file k ((file_table f ! k)\<lparr>fd_pos := pos + n\<rparr>) (f\<lparr>nmalloc := nmalloc f + 2\<rparr>)))"
proof (cases "min count (i_size i - fd_pos (file_table f ! k)) = 0 \<and> 0 < count")
  case True
  then show ?thesis using file_read_end[OF assms] by (simp add: Let_def)
next
  case False
  then show ?thesis using file_read_ok[OF assms refl refl] by (auto simp: Let_def)
qed

theorem file_read_witness:
  "file_read 3 10 fs2 = Some (-1, [], fs2)"
proof -
  have "can_read fs2 3 1 (inode_init 1) 10" using fs2_ok fs2_file by (simp add: can_read_def inode_init_def)
  then show ?thesis using file_read_content[of fs2 3 1 "inode_init 1" 10] fs2_file by (simp add: inode_init_def Let_def)
qed

text \<open>C18: what is written is read back: after file_write, a file_read from the old end of the file returns
  the bytes written.\<close>
theorem write_then_read:
  assumes "can_write f k p i (length buf)" "i_size i + length buf < 71168" "\<forall>n. mallocs f n" "buf \<noteq> []"
  shows "\<exists>f1 f2. file_write k buf f = Some (int (length buf), f1)
    \<and> file_read k (length buf) (set_file k ((file_table f1 ! k)\<lparr>fd_pos := i_size i\<rparr>) f1) = Some (int (length buf), buf, f2)"
proof -
  obtain f1 i1 where w: "file_write k buf f = Some (int (length buf), f1)" "inodes f1 = (inodes f)(p \<mapsto> i1)" "vol_ok f1" "file_ok f1 i1"
    "content f1 i1 = content f i @ buf" "mallocs f1 = mallocs f"
    "file_table f1 = (file_table f)[k := (file_table f ! k)\<lparr>fd_pos := W32 (i_size i + 4294967295 + length buf)\<rparr>]"
    using file_write_ok[OF assms(1)] by blast
  let ?g = "set_file k ((file_table f1 ! k)\<lparr>fd_pos := i_size i\<rparr>) f1"
  have k: "k < length (file_table f)" "fd_inode (file_table f ! k) = Some p" using assms(1) by (simp_all add: can_write_def)
  have sz: "i_size i1 = i_size i + length buf" using arg_cong[OF w(5), of length] by simp
  have "can_read ?g k p i1 (length buf)" "content ?g i1 = content f1 i1" "fd_pos (file_table ?g ! k) = i_size i"
    using w k assms(2,3) by (simp_all add: can_read_def set_file_simps sz)
  then show ?thesis using file_read_ok[of ?g k p i1 "length buf" "i_size i" "length buf"] w(1) sz
    by (auto simp: w(5))
qed

theorem write_then_read_witness:
  "\<exists>f1 f2. file_write 3 (replicate 600 7) fs2 = Some (600, f1)
    \<and> file_read 3 600 (set_file 3 ((file_table f1 ! 3)\<lparr>fd_pos := 0\<rparr>) f1) = Some (600, replicate 600 7, f2)"
  using write_then_read[OF fs2_can_write, of "replicate 600 7"] fs2_file by (simp add: inode_init_def)

end
