(* ===== verification/Descriptor.thy ===== *)
theory Descriptor
  imports Ioqueue Fs
begin

text \<open>
  The system calls on a file descriptor: fs.c (close, write, read, lseek) and pipe.c. They lead to a file,
  to the ring of a pipe, to the keyboard or to the console, so their state has the file system, the rings,
  the scheduler that a ring wakes threads with, and the text printed so far. A pipe is an entry of the file
  table whose \<open>fd_inode\<close> is the page of its ring and whose \<open>fd_pos\<close> counts its descriptors. A call that
  sleeps has no outcome, as in Ioqueue.
\<close>

record io =
  fsys :: fs
  rings :: "nat \<Rightarrow> ioqueue option"
  kbd_buf :: ioqueue
  threads :: sched
  printed :: "u8 list"

definition text_bytes :: "string \<Rightarrow> u8 list" where
  "text_bytes = map of_char"

section \<open>Descriptors\<close>

definition fd_local2global :: "nat \<Rightarrow> fs \<Rightarrow> nat option" where
  "fd_local2global local_fd f =
     do {
       ASSERT (local_fd < MAX_FILES_OPEN_PER_PROC);
       let global_fd = fd_table f ! local_fd in do {
         ASSERT (0 \<le> global_fd \<and> global_fd < int MAX_FILE_OPEN);
         Some (nat global_fd)
       }
     }"

definition is_pipe :: "nat \<Rightarrow> fs \<Rightarrow> bool option" where
  "is_pipe local_fd f = do { global_fd \<leftarrow> fd_local2global local_fd f; Some (fd_flag (file_table f ! global_fd) = PIPE_FLAG) }"

definition sys_close :: "int \<Rightarrow> io \<Rightarrow> (int \<times> io) option" where
  "sys_close fd s =
     (if fd \<le> 2 then Some (-1, s)
      else do {
        global_fd \<leftarrow> fd_local2global (nat fd) (fsys s);
        pipe \<leftarrow> is_pipe (nat fd) (fsys s);
        (ret, s) \<leftarrow>
          (if pipe
           then let e = file_table (fsys s) ! global_fd; n = W32 (fd_pos e + 4294967295); e = e\<lparr>fd_pos := n\<rparr> in
             if n = 0
             then do {
               p \<leftarrow> fd_inode e;
               Some (0, s\<lparr>fsys := set_file global_fd (e\<lparr>fd_inode := None\<rparr>) (fsys s), rings := (rings s)(p := None)\<rparr>)
             }
             else Some (0, s\<lparr>fsys := set_file global_fd e (fsys s)\<rparr>)
           else do { (ret, f) \<leftarrow> file_close (Some global_fd) (fsys s); Some (ret, s\<lparr>fsys := f\<rparr>) });
        Some (ret, s\<lparr>fsys := (fsys s)\<lparr>fd_table := (fd_table (fsys s))[nat fd := -1]\<rparr>\<rparr>)
      })"

section \<open>Pipes\<close>

definition ring_of :: "nat \<Rightarrow> io \<Rightarrow> (nat \<times> ioqueue) option" where
  "ring_of fd s =
     do {
       global_fd \<leftarrow> fd_local2global fd (fsys s);
       p \<leftarrow> fd_inode (file_table (fsys s) ! global_fd);
       q \<leftarrow> rings s p;
       Some (p, q)
     }"

definition fd_pipe_read :: "nat \<Rightarrow> nat \<Rightarrow> io \<Rightarrow> (int \<times> u8 list \<times> io) option" where
  "fd_pipe_read fd count s =
     do {
       (p, q) \<leftarrow> ring_of fd s;
       (bs, q, k) \<leftarrow> pipe_read count (q, threads s);
       Some (int (length bs), bs, s\<lparr>rings := (rings s)(p := Some q), threads := k\<rparr>)
     }"

definition fd_pipe_write :: "nat \<Rightarrow> u8 list \<Rightarrow> io \<Rightarrow> (int \<times> io) option" where
  "fd_pipe_write fd buf s =
     do {
       (p, q) \<leftarrow> ring_of fd s;
       (n, q, k) \<leftarrow> pipe_write buf (q, threads s);
       Some (int n, s\<lparr>rings := (rings s)(p := Some q), threads := k\<rparr>)
     }"

text \<open>No free slot and no page for the ring are not checked for in time: the code stores before the table
  or through NULL, which has no defined result. The descriptors are the two of \<open>pipefd\<close>.\<close>

definition sys_pipe :: "io \<Rightarrow> (int \<times> (int \<times> int) \<times> io) option" where
  "sys_pipe s =
     (let global_fd = get_free_slot_in_global (fsys s); (page, f) = kmalloc (fsys s) in do {
        ASSERT (global_fd \<noteq> -1);
        p \<leftarrow> page;
        let q = ioqueue_init \<lparr>ioq_lock = lock_init, producer = 0, consumer = 0, ioq_buf = replicate bufsize 0, ioq_head = 0, ioq_tail = 0\<rparr>;
            f = set_file (nat global_fd) \<lparr>fd_pos = 2, fd_flag = PIPE_FLAG, fd_inode = Some p\<rparr> f;
            (fd0, f) = pcb_fd_install global_fd f;
            (fd1, f) = pcb_fd_install global_fd f
        in Some (0, (fd0, fd1), s\<lparr>fsys := f, rings := (rings s)(p := Some q)\<rparr>)
      })"

definition sys_fd_redirect :: "nat \<Rightarrow> nat \<Rightarrow> fs \<Rightarrow> fs option" where
  "sys_fd_redirect old_local_fd new_local_fd f =
     do {
       ASSERT (old_local_fd < MAX_FILES_OPEN_PER_PROC);
       if new_local_fd < 3 then Some (f\<lparr>fd_table := (fd_table f)[old_local_fd := int new_local_fd]\<rparr>)
       else do {
         ASSERT (new_local_fd < MAX_FILES_OPEN_PER_PROC);
         Some (f\<lparr>fd_table := (fd_table f)[old_local_fd := fd_table f ! new_local_fd]\<rparr>)
       }
     }"

section \<open>Reading and writing\<close>

text \<open>The console gets a C string from a cleared buffer of 1024 bytes; more bytes overrun it, and 1024
  without a NUL are not a string.\<close>

definition console_write :: "u8 list \<Rightarrow> io \<Rightarrow> io option" where
  "console_write buf s =
     do {
       ASSERT (length buf \<le> 1024);
       t \<leftarrow> buf_str (blit (replicate 1024 0) 0 buf);
       Some (s\<lparr>printed := printed s @ t\<rparr>)
     }"

definition sys_write :: "int \<Rightarrow> u8 list \<Rightarrow> io \<Rightarrow> (int \<times> io) option" where
  "sys_write fd buf s =
     (if fd < 0 then Some (-1, s)
      else do {
        pipe \<leftarrow> is_pipe (nat fd) (fsys s);
        if fd = 1
        then if pipe then fd_pipe_write (nat fd) buf s
          else do { s \<leftarrow> console_write buf s; Some (int (length buf), s) }
        else if pipe then fd_pipe_write (nat fd) buf s
        else do {
          g \<leftarrow> fd_local2global (nat fd) (fsys s);
          let flag = fd_flag (file_table (fsys s) ! g) in
          if flag AND O_WRONLY \<noteq> 0 \<or> flag AND O_RDWR \<noteq> 0
          then do { (n, f) \<leftarrow> file_write g buf (fsys s); Some (n, s\<lparr>fsys := f\<rparr>) }
          else Some (-1, s\<lparr>printed := printed s @ text_bytes ''sys_write: not allowed to write file without flag O_RDWR or O_WRONLY\<newline>''\<rparr>)
        }
      })"

text \<open>Reading from the keyboard takes exactly \<open>count\<close> keys; a count of 0 is an error.\<close>

definition sys_read :: "int \<Rightarrow> nat \<Rightarrow> io \<Rightarrow> (int \<times> u8 list \<times> io) option" where
  "sys_read fd count s =
     (if fd < 0 \<or> fd = 1 \<or> fd = 2 then Some (-1, [], s)
      else do {
        pipe \<leftarrow> is_pipe (nat fd) (fsys s);
        if fd = 0
        then if pipe then fd_pipe_read (nat fd) count s
          else do {
            (bs, q, k) \<leftarrow> pipe_read_loop count (kbd_buf s, threads s);
            Some (if count = 0 then -1 else int count, bs, s\<lparr>kbd_buf := q, threads := k\<rparr>)
          }
        else if pipe then fd_pipe_read (nat fd) count s
        else do {
          g \<leftarrow> fd_local2global (nat fd) (fsys s);
          (n, bs, f) \<leftarrow> file_read g count (fsys s);
          Some (n, bs, s\<lparr>fsys := f\<rparr>)
        }
      })"

definition SEEK_SET :: nat where "SEEK_SET = 1"
definition SEEK_CUR :: nat where "SEEK_CUR = 2"

text \<open>A sum past the range of an int has no defined result.\<close>

definition int_add :: "int \<Rightarrow> int \<Rightarrow> int option" where
  "int_add a b = do { ASSERT (-2147483648 \<le> a + b \<and> a + b < 2147483648); Some (a + b) }"

definition sys_lseek :: "int \<Rightarrow> int \<Rightarrow> nat \<Rightarrow> fs \<Rightarrow> (int \<times> fs) option" where
  "sys_lseek fd offset whence f =
     (if fd < 0 then Some (-1, f)
      else do {
        ASSERT (0 < whence \<and> whence < 4);
        g \<leftarrow> fd_local2global (nat fd) f;
        let pf = file_table f ! g in do {
          p \<leftarrow> fd_inode pf;
          i \<leftarrow> inodes f p;
          let file_size = s32 (i_size i) in do {
            new_pos \<leftarrow> (if whence = SEEK_SET then Some offset
              else if whence = SEEK_CUR then int_add (s32 (fd_pos pf)) offset
              else int_add file_size offset);
            if new_pos < 0 \<or> new_pos > file_size - 1 then Some (-1, f)
            else Some (new_pos, set_file g (pf\<lparr>fd_pos := nat new_pos\<rparr>) f)
          }
        }
      })"

end
