(* ===== verification/Process.thy ===== *)
theory Process
  imports Malloc Descriptor
begin

text \<open>
  process.c and fork.c: user processes. The state of the machine joins those of the components: the file
  system with the scheduler (\<open>sys\<close>), the heap with the pages (\<open>hp\<close>), and what a PCB holds beside the fields of
  \<open>task_struct\<close>: the user address space and the interrupt stacks, which lie in the page of the PCB. The fields
  of the running thread are those the components work on; \<open>checkin\<close> stores them in its PCB, \<open>checkout\<close> loads
  those of the thread that runs next, which the code does by reading everything through \<open>running_thread\<close>.
  The words of memory are those at addresses divisible by 4.
\<close>

section \<open>The state\<close>

record intr_stack =
  is_edi :: u32
  is_esi :: u32
  is_ebp :: u32
  is_esp_dummy :: u32
  is_ebx :: u32
  is_edx :: u32
  is_ecx :: u32
  is_eax :: u32
  is_gs :: u32
  is_fs :: u32
  is_es :: u32
  is_ds :: u32
  is_eip :: u32
  is_cs :: u32
  is_eflags :: u32
  is_esp :: u32
  is_ss :: u32

text \<open>\<open>us_bits\<close> is the address of the bitmap of the user pages.\<close>

record uspace =
  us_vaddr :: virtual_addr
  us_bits :: u32
  us_descs :: "mem_block_desc list"

record os =
  sys :: io
  hp :: heap
  uspaces :: "u32 \<Rightarrow> uspace"
  istacks :: "u32 \<Rightarrow> intr_stack"

abbreviation sched_of :: "os \<Rightarrow> sched" where
  "sched_of s \<equiv> threads (sys s)"

abbreviation cur_of :: "os \<Rightarrow> u32" where
  "cur_of s \<equiv> running (sched_of s)"

abbreviation mem_of :: "os \<Rightarrow> memory" where
  "mem_of s \<equiv> mem (hp s)"

definition set_sched :: "sched \<Rightarrow> os \<Rightarrow> os" where
  "set_sched k s = s\<lparr>sys := (sys s)\<lparr>threads := k\<rparr>\<rparr>"

definition set_mem :: "memory \<Rightarrow> os \<Rightarrow> os" where
  "set_mem m s = s\<lparr>hp := (hp s)\<lparr>mem := m\<rparr>\<rparr>"

definition set_mach :: "machine \<Rightarrow> os \<Rightarrow> os" where
  "set_mach m s = set_mem ((mem_of s)\<lparr>mach := m\<rparr>) s"

definition set_fs :: "fs \<Rightarrow> os \<Rightarrow> os" where
  "set_fs f s = s\<lparr>sys := (sys s)\<lparr>fsys := f\<rparr>\<rparr>"

definition on_task :: "u32 \<Rightarrow> (task_struct \<Rightarrow> task_struct) \<Rightarrow> os \<Rightarrow> os" where
  "on_task t g s = set_sched (task_upd t g (sched_of s)) s"

definition kernel_pages :: "nat \<Rightarrow> os \<Rightarrow> (u32 \<times> os) option" where
  "kernel_pages n s = do { (p, m) \<leftarrow> get_kernel_pages n (mem_of s); Some (p, set_mem m s) }"

definition free_kernel_pages :: "u32 \<Rightarrow> nat \<Rightarrow> os \<Rightarrow> os option" where
  "free_kernel_pages p n s = do { m \<leftarrow> Paging.mfree_page PF_KERNEL p n (mem_of s); Some (set_mem m s) }"

definition checkin :: "os \<Rightarrow> os" where
  "checkin s =
     (let t = cur_of s in
      (on_task t (\<lambda>p. p\<lparr>task_struct.fd_table := fs.fd_table (fsys (sys s)), task_struct.cwd_inode_nr := fs.cwd_inode_nr (fsys (sys s))\<rparr>) s)
        \<lparr>uspaces := (uspaces s)(t := (uspaces s t)\<lparr>us_vaddr := userprog_vaddr (mem_of s), us_descs := u_block_desc (hp s)\<rparr>)\<rparr>)"

definition checkout :: "os \<Rightarrow> os" where
  "checkout s =
     (let t = cur_of s; p = tasks (sched_of s) t; u = uspaces s t; m = mem_of s in
      (set_fs ((fsys (sys s))\<lparr>fs.fd_table := task_struct.fd_table p, fs.cwd_inode_nr := task_struct.cwd_inode_nr p\<rparr>) s)
        \<lparr>hp := (hp s)\<lparr>u_block_desc := us_descs u,
           mem := m\<lparr>userprog_vaddr := us_vaddr u, cur_pgdir := pgdir p, mach := (mach m)\<lparr>pg_root := cr3 (sched_of s)\<rparr>\<rparr>\<rparr>\<rparr>)"

text \<open>The pages that an operation of the scheduler gives back.\<close>

fun free_logged :: "u32 list \<Rightarrow> os \<Rightarrow> os option" where
  "free_logged [] s = Some s"
| "free_logged (p # ps) s = do { s \<leftarrow> free_kernel_pages p 1 s; free_logged ps s }"

text \<open>An operation of the scheduler that may switch to another thread: its page directory is translated by the
  page tables, and the pages the operation frees are given back.\<close>

definition on_sched :: "(sched \<Rightarrow> ('a \<times> sched) option) \<Rightarrow> os \<Rightarrow> ('a \<times> os) option" where
  "on_sched act s =
     (let s = checkin s;
          k = (sched_of s)\<lparr>page_walk := \<lambda>v. case addr_v2p v (mach (mem_of s)) of None \<Rightarrow> 0 | Some a \<Rightarrow> a\<rparr> in do {
        (r, k') \<leftarrow> act k;
        ASSERT (pgdir (tasks k' (running k')) = 0 \<or> addr_v2p (pgdir (tasks k' (running k'))) (mach (mem_of s)) \<noteq> None);
        s \<leftarrow> free_logged (drop (length (freed_pages k)) (freed_pages k')) (set_sched k' s);
        Some (r, checkout s)
      })"

section \<open>process.c\<close>

definition SELECTOR_U_CODE :: u32 where "SELECTOR_U_CODE = push_bit 3 5 + push_bit 2 0 + 3"
definition SELECTOR_U_DATA :: u32 where "SELECTOR_U_DATA = push_bit 3 6 + push_bit 2 0 + 3"
definition EFLAGS_IOPL_0 :: u32 where "EFLAGS_IOPL_0 = push_bit 12 0"
definition EFLAGS_MBS :: u32 where "EFLAGS_MBS = push_bit 1 1"
definition EFLAGS_IF_1 :: u32 where "EFLAGS_IF_1 = push_bit 9 1"
definition USER_STACK3_VADDR :: u32 where "USER_STACK3_VADDR = 0xc0000000 - 0x1000"
definition USER_VADDR_START :: u32 where "USER_VADDR_START = 0x8048000"
definition default_prio :: int where "default_prio = 31"

text \<open>The processor goes on at the frame it leaves on the stack. Adding \<open>sizeof(struct thread_stack)\<close> to a
  \<open>uint32_t*\<close> adds 128 bytes. A page that could not be had is not checked for: the stack is then the page at 0.\<close>

definition start_process :: "u32 \<Rightarrow> os \<Rightarrow> os option" where
  "start_process function s =
     (let cur = cur_of s; s = on_task cur (\<lambda>p. p\<lparr>self_kstack := self_kstack p + 4 * 32\<rparr>) s;
          proc_stack = self_kstack (tasks (sched_of s) cur) in do {
        (v, m) \<leftarrow> get_a_page PF_USER USER_STACK3_VADDR (mem_of s);
        let s = set_mem m s in
        Some (s\<lparr>istacks := (istacks s)(proc_stack := \<lparr>is_edi = 0, is_esi = 0, is_ebp = 0, is_esp_dummy = 0, is_ebx = 0, is_edx = 0,
          is_ecx = 0, is_eax = 0, is_gs = 0, is_fs = SELECTOR_U_DATA, is_es = SELECTOR_U_DATA, is_ds = SELECTOR_U_DATA, is_eip = function,
          is_cs = SELECTOR_U_CODE, is_eflags = EFLAGS_IOPL_0 OR EFLAGS_MBS OR EFLAGS_IF_1, is_esp = v + PG_SIZE, is_ss = SELECTOR_U_DATA\<rparr>)\<rparr>)
      })"

text \<open>page_dir_activate on the memory of the machine.\<close>

definition page_dir_load :: "u32 \<Rightarrow> os \<Rightarrow> os option" where
  "page_dir_load p_thread s =
     do {
       pagedir_phy_addr \<leftarrow> (let d = pgdir (tasks (sched_of s) p_thread) in if d \<noteq> 0 then addr_v2p d (mach (mem_of s)) else Some 0x100000);
       Some (set_mach ((mach (mem_of s))\<lparr>pg_root := pagedir_phy_addr\<rparr>) (set_sched ((sched_of s)\<lparr>cr3 := pagedir_phy_addr\<rparr>) s))
     }"

text \<open>memcpy of \<open>n\<close> words.\<close>

primrec copy_words :: "nat \<Rightarrow> u32 \<Rightarrow> u32 \<Rightarrow> machine \<Rightarrow> machine option" where
  "copy_words 0 dst src m = Some m"
| "copy_words (Suc n) dst src m = do { w \<leftarrow> load src m; m \<leftarrow> store dst w m; copy_words n (dst + 4) (src + 4) m }"

definition create_page_dir :: "os \<Rightarrow> (u32 \<times> os) option" where
  "create_page_dir s =
     do {
       (page_dir_vaddr, s) \<leftarrow> kernel_pages 1 s;
       if page_dir_vaddr = 0
       then Some (0, s\<lparr>sys := (sys s)\<lparr>printed := printed (sys s) @ text_bytes ''create_page_dir: get_kernel_page failed!''\<rparr>\<rparr>)
       else do {
         m \<leftarrow> copy_words 256 (page_dir_vaddr + 0x300 * 4) (0xfffff000 + 0x300 * 4) (mach (mem_of s));
         new_page_dir_phy_addr \<leftarrow> addr_v2p page_dir_vaddr m;
         m \<leftarrow> store (page_dir_vaddr + 1023 * 4) (new_page_dir_phy_addr OR 4 OR 2 OR 1) m;
         Some (page_dir_vaddr, set_mach m s)
       }
     }"

text \<open>A user space has 94199 bytes of bitmap, which take 23 pages.\<close>

definition user_bitmap_len :: nat where
  "user_bitmap_len = (0xc0000000 - 0x8048000) div 4096 div 8"

definition bitmap_pg_cnt :: nat where
  "bitmap_pg_cnt = DIV_ROUND_UP user_bitmap_len PG"

definition create_user_vaddr_bitmap :: "u32 \<Rightarrow> os \<Rightarrow> os option" where
  "create_user_vaddr_bitmap user_prog s =
     do {
       (b, s) \<leftarrow> kernel_pages bitmap_pg_cnt s;
       ASSERT (b \<noteq> 0);
       Some (s\<lparr>uspaces := (uspaces s)(user_prog := (uspaces s user_prog)\<lparr>us_bits := b,
         us_vaddr := \<lparr>vaddr_bitmap = bitmap_init \<lparr>btmp_bytes_len = user_bitmap_len, bits = \<lambda>_. 0\<rparr>, vaddr_start = USER_VADDR_START\<rparr>\<rparr>)\<rparr>)
     }"

text \<open>The two appends that make a thread known to the scheduler.\<close>

definition enlist :: "u32 \<Rightarrow> sched \<Rightarrow> sched option" where
  "enlist t k =
     do {
       ASSERT (t \<notin> set (thread_ready_list k));
       ASSERT (t \<notin> set (thread_all_list k));
       Some (k\<lparr>thread_ready_list := thread_ready_list k @ [t], thread_all_list := thread_all_list k @ [t]\<rparr>)
     }"

definition process_execute :: "u32 \<Rightarrow> u32 \<Rightarrow> u32 \<Rightarrow> string \<Rightarrow> os \<Rightarrow> os option" where
  "process_execute kernel_thread start_process_addr function name s =
     do {
       (t, s) \<leftarrow> kernel_pages 1 s;
       k \<leftarrow> init_thread t name default_prio (sched_of s);
       s \<leftarrow> create_user_vaddr_bitmap t (set_sched k s);
       let s = set_sched (thread_create kernel_thread t start_process_addr function (sched_of s)) s in do {
         (d, s) \<leftarrow> create_page_dir s;
         let s = on_task t (\<lambda>p. p\<lparr>pgdir := d\<rparr>) s;
             s = s\<lparr>uspaces := (uspaces s)(t := (uspaces s t)\<lparr>us_descs := block_desc_init\<rparr>)\<rparr>;
             (old_status, fl) = intr_disable (eflags_reg (sched_of s)) in do {
           k \<leftarrow> enlist t ((sched_of s)\<lparr>eflags_reg := fl\<rparr>);
           Some (set_sched (k\<lparr>eflags_reg := snd (intr_set_status old_status (eflags_reg k))\<rparr>) s)
         }
       }
     }"

section \<open>fork.c\<close>

text \<open>The page of the PCB is copied with the stacks in it.\<close>

definition copy_stacks :: "u32 \<Rightarrow> u32 \<Rightarrow> (u32 \<Rightarrow> 'a) \<Rightarrow> u32 \<Rightarrow> 'a" where
  "copy_stacks child parent st a = (if a AND 0xfffff000 = child then st (a - child + parent) else st a)"

text \<open>The fields of the PCB that are not those of the parent.\<close>

definition fork_task :: "u32 \<Rightarrow> u32 \<Rightarrow> sched \<Rightarrow> sched option" where
  "fork_task child_thread parent_thread k =
     do {
       let k = task_upd child_thread (\<lambda>_. tasks k parent_thread) (k\<lparr>kstacks := copy_stacks child_thread parent_thread (kstacks k)\<rparr>) in do {
         (p, k) \<leftarrow> allocate_pid k;
         Some (task_upd child_thread (\<lambda>c. c\<lparr>pid := p, elapsed_ticks := 0, status := TASK_READY, ticks := priority c,
                   parent_pid := pid (tasks k parent_thread)\<rparr>) k)
       }
     }"

definition copy_pcb_vaddrbitmap_stack0 :: "u32 \<Rightarrow> u32 \<Rightarrow> os \<Rightarrow> (int \<times> os) option" where
  "copy_pcb_vaddrbitmap_stack0 child_thread parent_thread s =
     do {
       let s = s\<lparr>uspaces := (uspaces s)(child_thread := (uspaces s parent_thread)\<lparr>us_descs := block_desc_init\<rparr>),
                 istacks := copy_stacks child_thread parent_thread (istacks s)\<rparr> in do {
         k \<leftarrow> fork_task child_thread parent_thread (sched_of s);
         (vaddr_btmp, s) \<leftarrow> kernel_pages bitmap_pg_cnt (set_sched k s);
         if vaddr_btmp = 0 then Some (-1, s)
         else Some (0, s\<lparr>uspaces := (uspaces s)(child_thread := (uspaces s child_thread)\<lparr>us_bits := vaddr_btmp\<rparr>)\<rparr>)
       }
     }"

text \<open>One page of the parent, by way of the page \<open>buf_page\<close> of the kernel.\<close>

definition copy_page :: "u32 \<Rightarrow> u32 \<Rightarrow> u32 \<Rightarrow> u32 \<Rightarrow> os \<Rightarrow> os option" where
  "copy_page child_thread parent_thread buf_page prog_vaddr s =
     do {
       m \<leftarrow> copy_words 1024 buf_page prog_vaddr (mach (mem_of s));
       s \<leftarrow> page_dir_load child_thread (set_mach m s);
       (_, mm) \<leftarrow> get_a_page_without_opvaddrbitmap PF_USER prog_vaddr (mem_of s);
       m \<leftarrow> copy_words 1024 prog_vaddr buf_page (mach mm);
       page_dir_load parent_thread (set_mach m (set_mem mm s))
     }"

fun copy_bits :: "(u32 \<Rightarrow> os \<Rightarrow> os option) \<Rightarrow> virtual_addr \<Rightarrow> nat \<Rightarrow> nat list \<Rightarrow> os \<Rightarrow> os option" where
  "copy_bits copy va idx_byte [] s = Some s"
| "copy_bits copy va idx_byte (idx_bit # ks) s =
     do {
       s \<leftarrow> (if push_bit idx_bit 1 AND bits (vaddr_bitmap va) idx_byte \<noteq> 0
             then copy (of_nat (idx_byte * 8 + idx_bit) * PG_SIZE + vaddr_start va) s else Some s);
       copy_bits copy va idx_byte ks s
     }"

fun copy_bytes :: "(u32 \<Rightarrow> os \<Rightarrow> os option) \<Rightarrow> virtual_addr \<Rightarrow> nat list \<Rightarrow> os \<Rightarrow> os option" where
  "copy_bytes copy va [] s = Some s"
| "copy_bytes copy va (idx_byte # ks) s =
     do {
       s \<leftarrow> (if bits (vaddr_bitmap va) idx_byte \<noteq> 0 then copy_bits copy va idx_byte [0..<8] s else Some s);
       copy_bytes copy va ks s
     }"

definition copy_body_stack3 :: "u32 \<Rightarrow> u32 \<Rightarrow> u32 \<Rightarrow> os \<Rightarrow> os option" where
  "copy_body_stack3 child_thread parent_thread buf_page s =
     (let va = us_vaddr (uspaces s parent_thread)
      in copy_bytes (copy_page child_thread parent_thread buf_page) va [0..<btmp_bytes_len (vaddr_bitmap va)] s)"

text \<open>The interrupt stack has 19 words at the end of the page, the frame of switch_to five words below it.\<close>

definition build_child_stack :: "u32 \<Rightarrow> u32 \<Rightarrow> os \<Rightarrow> os" where
  "build_child_stack intr_exit child_thread s =
     (let intr_0_stack = child_thread + PG_SIZE - 19 * 4; ebp_ptr = intr_0_stack - 4 * 5;
          s = s\<lparr>istacks := (istacks s)(intr_0_stack := (istacks s intr_0_stack)\<lparr>is_eax := 0\<rparr>)\<rparr>; k = sched_of s;
          k = k\<lparr>kstacks := (kstacks k)(ebp_ptr := (kstacks k ebp_ptr)\<lparr>ts_eip := intr_exit, ts_ebp := 0, ts_ebx := 0, ts_edi := 0, ts_esi := 0\<rparr>)\<rparr>
      in set_sched (task_upd child_thread (\<lambda>p. p\<lparr>self_kstack := ebp_ptr\<rparr>) k) s)"

text \<open>The descriptors are those of the child; \<open>is_pipe\<close> asks those of the running thread, which are the same.\<close>

fun update_open_cnts :: "int list \<Rightarrow> nat list \<Rightarrow> fs \<Rightarrow> fs option" where
  "update_open_cnts fds [] f = Some f"
| "update_open_cnts fds (local_fd # ks) f =
     (let global_fd = fds ! local_fd in do {
        ASSERT (global_fd < int MAX_FILE_OPEN);
        f \<leftarrow>
          (if global_fd \<noteq> -1
           then do {
             pipe \<leftarrow> is_pipe local_fd f;
             let e = file_table f ! nat global_fd in
             if pipe then Some (set_file (nat global_fd) (e\<lparr>fd_pos := W32 (fd_pos e + 1)\<rparr>) f)
             else do { p \<leftarrow> fd_inode e; i \<leftarrow> inodes f p; Some (set_inode p (i\<lparr>i_open_cnts := W32 (i_open_cnts i + 1)\<rparr>) f) }
           }
           else Some f);
        update_open_cnts fds ks f
      })"

definition update_inode_open_cnts :: "u32 \<Rightarrow> os \<Rightarrow> os option" where
  "update_inode_open_cnts thread s =
     do {
       f \<leftarrow> update_open_cnts (task_struct.fd_table (tasks (sched_of s) thread)) [3..<MAX_FILES_OPEN_PER_PROC] (fsys (sys s));
       Some (set_fs f s)
     }"

definition copy_process :: "u32 \<Rightarrow> u32 \<Rightarrow> u32 \<Rightarrow> os \<Rightarrow> (int \<times> os) option" where
  "copy_process intr_exit child_thread parent_thread s =
     do {
       (buf_page, s) \<leftarrow> kernel_pages 1 s;
       if buf_page = 0 then Some (-1, s)
       else do {
         (r, s) \<leftarrow> copy_pcb_vaddrbitmap_stack0 child_thread parent_thread s;
         if r = -1 then Some (-1, s)
         else do {
           (d, s) \<leftarrow> create_page_dir s;
           let s = on_task child_thread (\<lambda>p. p\<lparr>pgdir := d\<rparr>) s in
           if d = 0 then Some (-1, s)
           else do {
             s \<leftarrow> copy_body_stack3 child_thread parent_thread buf_page s;
             s \<leftarrow> update_inode_open_cnts child_thread (build_child_stack intr_exit child_thread s);
             s \<leftarrow> free_kernel_pages buf_page 1 s;
             Some (0, s)
           }
         }
       }
     }"

definition sys_fork :: "u32 \<Rightarrow> os \<Rightarrow> (int \<times> os) option" where
  "sys_fork intr_exit s =
     (let s = checkin s; parent_thread = cur_of s in do {
        (child_thread, s) \<leftarrow> kernel_pages 1 s;
        if child_thread = 0 then Some (-1, s)
        else do {
          ASSERT (intr_get_status (eflags_reg (sched_of s)) = INTR_OFF \<and> pgdir (tasks (sched_of s) parent_thread) \<noteq> 0);
          (r, s) \<leftarrow> copy_process intr_exit child_thread parent_thread s;
          if r = -1 then Some (-1, s)
          else do {
            k \<leftarrow> enlist child_thread (sched_of s);
            Some (sint (pid (tasks k child_thread)), set_sched k s)
          }
        }
      })"

end
