(* ===== verification/Wait.thy ===== *)
theory Wait
  imports Process
begin

text \<open>
  wait_exit.c: a process that ends gives its resources back, hands its children to init and stays in the
  table as HANGING until its parent has taken its exit status with \<open>sys_wait\<close>. The part of the two calls that
  works on the threads is stated on the scheduler alone; a step relation has every order in which they and the
  scheduler can run.
\<close>

section \<open>Resources\<close>

fun release_ptes :: "u32 \<Rightarrow> nat list \<Rightarrow> memory \<Rightarrow> memory option" where
  "release_ptes first_pte [] m = Some m"
| "release_ptes first_pte (pte_idx # ks) m =
     do {
       pte \<leftarrow> load (first_pte + of_nat pte_idx * 4) (mach m);
       m \<leftarrow> (if pte AND 0x00000001 \<noteq> 0 then free_a_phy_page (pte AND 0xfffff000) m else Some m);
       release_ptes first_pte ks m
     }"

fun release_pdes :: "u32 \<Rightarrow> nat list \<Rightarrow> memory \<Rightarrow> memory option" where
  "release_pdes pgdir_vaddr [] m = Some m"
| "release_pdes pgdir_vaddr (pde_idx # ks) m =
     do {
       pde \<leftarrow> load (pgdir_vaddr + of_nat pde_idx * 4) (mach m);
       m \<leftarrow> (if pde AND 0x00000001 \<noteq> 0
             then do { m \<leftarrow> release_ptes (pte_ptr (of_nat pde_idx * 0x400000)) [0..<1024] m; free_a_phy_page (pde AND 0xfffff000) m }
             else Some m);
       release_pdes pgdir_vaddr ks m
     }"

text \<open>A pipe loses a descriptor; the last one gives the page of the ring back.\<close>

fun release_files :: "nat list \<Rightarrow> io \<Rightarrow> io option" where
  "release_files [] s = Some s"
| "release_files (local_fd # ks) s =
     do {
       s \<leftarrow>
         (if fs.fd_table (fsys s) ! local_fd \<noteq> -1
          then do {
            pipe \<leftarrow> is_pipe local_fd (fsys s);
            if pipe
            then do {
              global_fd \<leftarrow> fd_local2global local_fd (fsys s);
              let e = file_table (fsys s) ! global_fd; n = W32 (fd_pos e + 4294967295); e = e\<lparr>fd_pos := n\<rparr> in
              if n = 0
              then do { p \<leftarrow> fd_inode e; Some (s\<lparr>fsys := set_file global_fd (e\<lparr>fd_inode := None\<rparr>) (fsys s), rings := (rings s)(p := None)\<rparr>) }
              else Some (s\<lparr>fsys := set_file global_fd e (fsys s)\<rparr>)
            }
            else do { (_, s) \<leftarrow> sys_close (int local_fd) s; Some s }
          }
          else Some s);
       release_files ks s
     }"

text \<open>The number of pages of the bitmap is rounded down here and rounded up where they are taken.\<close>

definition release_prog_resource :: "u32 \<Rightarrow> os \<Rightarrow> os option" where
  "release_prog_resource release_thread s =
     do {
       m \<leftarrow> release_pdes (pgdir (tasks (sched_of s) release_thread)) [0..<768] (mem_of s);
       s \<leftarrow> free_kernel_pages (us_bits (uspaces s release_thread)) (btmp_bytes_len (vaddr_bitmap (us_vaddr (uspaces s release_thread))) div PG)
             (set_mem m s);
       i \<leftarrow> release_files [3..<MAX_FILES_OPEN_PER_PROC] (sys s);
       Some (s\<lparr>sys := i\<rparr>)
     }"

section \<open>Children\<close>

definition find_child :: "int \<Rightarrow> sched \<Rightarrow> u32 \<Rightarrow> bool" where
  "find_child ppid k t \<longleftrightarrow> sint (parent_pid (tasks k t)) = ppid"

definition find_hanging_child :: "int \<Rightarrow> sched \<Rightarrow> u32 \<Rightarrow> bool" where
  "find_hanging_child ppid k t \<longleftrightarrow> sint (parent_pid (tasks k t)) = ppid \<and> status (tasks k t) = TASK_HANGING"

definition init_adopt_a_child :: "int \<Rightarrow> u32 \<Rightarrow> sched \<Rightarrow> sched" where
  "init_adopt_a_child p t k = (if sint (parent_pid (tasks k t)) = p then task_upd t (\<lambda>c. c\<lparr>parent_pid := 1\<rparr>) k else k)"

section \<open>sys_wait\<close>

text \<open>One round of the loop: a status taken, no child left, or the thread asleep, which goes on with the next
  round when it runs again. The status and the pid are read before thread_exit frees the PCB.\<close>

datatype wait_result = Reaped int "16 word" | No_child | Asleep

definition wait_round :: "sched \<Rightarrow> (wait_result \<times> sched) option" where
  "wait_round k =
     (let ppid = sint (pid (tasks k (running k))) in
      case find (find_hanging_child ppid k) (thread_all_list k) of
        Some c \<Rightarrow> do { k' \<leftarrow> thread_exit c False k; Some (Reaped (sint (exit_status (tasks k c))) (pid (tasks k c)), k') }
      | None \<Rightarrow>
          if find (find_child ppid k) (thread_all_list k) = None then Some (No_child, k)
          else do { k' \<leftarrow> thread_block TASK_WAITING k; Some (Asleep, k') })"

definition sys_wait :: "os \<Rightarrow> (wait_result \<times> os) option" where
  "sys_wait s = on_sched wait_round s"

section \<open>sys_exit\<close>

text \<open>Before the resources are released.\<close>

definition exit_begin :: "u8 \<Rightarrow> sched \<Rightarrow> sched option" where
  "exit_begin st k =
     (let c = running k; k = task_upd c (\<lambda>p. p\<lparr>exit_status := st\<rparr>) k in do {
        ASSERT (parent_pid (tasks k c) \<noteq> -1);
        Some (fold (init_adopt_a_child (sint (pid (tasks k c)))) (thread_all_list k) k)
      })"

text \<open>Behind it. A parent that is not in the list any more is the NULL pointer.\<close>

definition exit_end :: "sched \<Rightarrow> sched option" where
  "exit_end k =
     (let parent = pid2thread (sint (parent_pid (tasks k (running k)))) k in do {
        ASSERT (parent \<noteq> 0);
        k \<leftarrow> (if stat k parent = TASK_WAITING then thread_unblock parent k else Some k);
        thread_block TASK_HANGING k
      })"

definition sys_exit :: "int \<Rightarrow> os \<Rightarrow> os option" where
  "sys_exit st s =
     do {
       k \<leftarrow> exit_begin (of_int st) (sched_of s);
       s \<leftarrow> release_prog_resource (cur_of s) (checkin (set_sched k s));
       (_, s) \<leftarrow> on_sched (\<lambda>k. do { k \<leftarrow> exit_end k; Some ((), k) }) s;
       Some s
     }"

end
