(* ===== verification/Waitexit.thy ===== *)
theory Waitexit
  imports Wait
begin

text \<open>
  Exit and wait under every order of the threads: a step is an event of the scheduler, a fork, a round of
  \<open>sys_wait\<close> or a \<open>sys_exit\<close> of the running thread. A thread that waits has a child, and none of its children
  has ended yet; for init the second part fails, because a process that ends hands over children that have
  ended before it without waking init.
\<close>

section \<open>The invariant\<close>

definition hanging_child :: "sched \<Rightarrow> u32 \<Rightarrow> bool" where
  "hanging_child k p \<longleftrightarrow> (\<exists>c\<in>set (thread_all_list k). parent_pid (tasks k c) = pid (tasks k p) \<and> stat k c = TASK_HANGING)"

definition has_child :: "sched \<Rightarrow> u32 \<Rightarrow> bool" where
  "has_child k p \<longleftrightarrow> (\<exists>c\<in>set (thread_all_list k). parent_pid (tasks k c) = pid (tasks k p))"

definition has_parent :: "sched \<Rightarrow> u32 \<Rightarrow> bool" where
  "has_parent k c \<longleftrightarrow> (\<exists>p\<in>set (thread_all_list k). pid (tasks k p) = parent_pid (tasks k c) \<and> stat k p \<noteq> TASK_HANGING)"

definition procs_inv :: "sched \<Rightarrow> bool" where
  "procs_inv k \<longleftrightarrow> pids_ok k \<and> distinct (thread_all_list k) \<and> main_thread k \<notin> set (thread_all_list k)
     \<and> stat k (idle_thread k) \<notin> {TASK_WAITING, TASK_HANGING}
     \<and> (\<exists>i\<in>set (thread_all_list k). pid (tasks k i) = 1 \<and> stat k i \<noteq> TASK_HANGING)
     \<and> (\<forall>c\<in>set (thread_all_list k). parent_pid (tasks k c) \<noteq> -1 \<longrightarrow> has_parent k c)
     \<and> (\<forall>p\<in>set (thread_all_list k). stat k p = TASK_WAITING \<longrightarrow> has_child k p \<and> (pid (tasks k p) \<noteq> 1 \<longrightarrow> \<not> hanging_child k p))"

lemma procs_invD:
  assumes "procs_inv k"
  shows "pids_ok k" "distinct (thread_all_list k)" "main_thread k \<notin> set (thread_all_list k)"
    "stat k (idle_thread k) \<notin> {TASK_WAITING, TASK_HANGING}"
    "\<exists>i\<in>set (thread_all_list k). pid (tasks k i) = 1 \<and> stat k i \<noteq> TASK_HANGING"
    "c \<in> set (thread_all_list k) \<Longrightarrow> parent_pid (tasks k c) \<noteq> -1 \<Longrightarrow> has_parent k c"
    "p \<in> set (thread_all_list k) \<Longrightarrow> stat k p = TASK_WAITING \<Longrightarrow> has_child k p"
    "p \<in> set (thread_all_list k) \<Longrightarrow> stat k p = TASK_WAITING \<Longrightarrow> pid (tasks k p) \<noteq> 1 \<Longrightarrow> \<not> hanging_child k p"
  using assms unfolding procs_inv_def by blast+

lemma pid_unique: "pids_ok k \<Longrightarrow> t \<in> set (thread_all_list k) \<Longrightarrow> u \<in> set (thread_all_list k) \<Longrightarrow> pid (tasks k t) = pid (tasks k u) \<Longrightarrow> t = u"
  by (auto simp: pids_ok_def inj_on_def)

text \<open>Two states that differ for the scheduler only.\<close>

definition same_procs :: "sched \<Rightarrow> sched \<Rightarrow> bool" where
  "same_procs k k' \<longleftrightarrow> thread_all_list k' = thread_all_list k \<and> main_thread k' = main_thread k \<and> idle_thread k' = idle_thread k
     \<and> pid_bitmap k' = pid_bitmap k
     \<and> (\<forall>t. pid (tasks k' t) = pid (tasks k t) \<and> parent_pid (tasks k' t) = parent_pid (tasks k t) \<and> exit_status (tasks k' t) = exit_status (tasks k t)
          \<and> (stat k' t = TASK_HANGING \<longleftrightarrow> stat k t = TASK_HANGING) \<and> (stat k' t = TASK_WAITING \<longleftrightarrow> stat k t = TASK_WAITING))"

lemma same_procsD:
  assumes "same_procs k k'"
  shows "thread_all_list k' = thread_all_list k" "main_thread k' = main_thread k" "idle_thread k' = idle_thread k" "pid_bitmap k' = pid_bitmap k"
    "pid (tasks k' t) = pid (tasks k t)" "parent_pid (tasks k' t) = parent_pid (tasks k t)" "exit_status (tasks k' t) = exit_status (tasks k t)"
    "stat k' t = TASK_HANGING \<longleftrightarrow> stat k t = TASK_HANGING" "stat k' t = TASK_WAITING \<longleftrightarrow> stat k t = TASK_WAITING"
  using assms unfolding same_procs_def by blast+

lemma procs_inv_same: "same_procs k k' \<Longrightarrow> procs_inv k' = procs_inv k"
  unfolding procs_inv_def pids_ok_def has_parent_def has_child_def hanging_child_def
  by (simp add: same_procsD)

lemma same_procs_trans: "same_procs a b \<Longrightarrow> same_procs b c \<Longrightarrow> same_procs a c"
  unfolding same_procs_def by simp

lemma same_procs_resume [simp]: "same_procs a (resume s) = same_procs a s"
  by (simp add: same_procs_def resume_def)

lemma switched_procs:
  assumes "sched_pre s" "switched s s'" "stat s (idle_thread s) \<notin> {TASK_WAITING, TASK_HANGING}"
  shows "same_procs s s'"
proof -
  let ?h = "hd (run_queue s)"
  have "?h \<in> set (thread_ready_list s) \<or> ?h = running s \<and> stat s (running s) = TASK_RUNNING \<or> ?h = idle_thread s"
    by (cases "thread_ready_list s") (auto simp: run_queue_def Let_def)
  then have "stat s ?h \<notin> {TASK_WAITING, TASK_HANGING}" using assms(1,3) unfolding sched_pre_def by auto
  then show ?thesis using assms(2) unfolding switched_def same_procs_def by auto
qed

lemma procs_inv_switch:
  assumes "sched_pre s" "switched s s'" "procs_inv s"
  shows "procs_inv (resume s')" "same_procs s (resume s')"
  using switched_procs[OF assms(1,2) procs_invD(4)[OF assms(3)]] procs_inv_same assms(3) by auto

section \<open>The scheduler\<close>

lemma block_same: "stat k (running k) = TASK_RUNNING \<Longrightarrow> same_procs k (block_entry TASK_BLOCKED k)"
  by (simp add: same_procs_def block_entry_def)

lemma yield_same: "stat k (running k) = TASK_RUNNING \<Longrightarrow> same_procs k (yield_entry k)"
  by (simp add: same_procs_def yield_entry_def)

lemma tick_same: "same_procs k (tick_entry k)"
  by (simp add: same_procs_def tick_entry_def)

text \<open>A thread may block itself on a semaphore or a ring, and only a thread blocked there is unblocked by
  others; a thread that waits or hangs belongs to exit and wait.\<close>

fun calm :: "sched_event \<Rightarrow> sched \<Rightarrow> bool" where
  "calm Tick k \<longleftrightarrow> True"
| "calm (Block st) k \<longleftrightarrow> st = TASK_BLOCKED"
| "calm (Unblock t) k \<longleftrightarrow> stat k t = TASK_BLOCKED"
| "calm Yield k \<longleftrightarrow> True"

lemma unblock_same:
  assumes "sched_ok k" "t \<in> set (thread_all_list k)" "stat k t = TASK_BLOCKED"
  shows "\<exists>k'. thread_unblock t k = Some k' \<and> sched_ok k' \<and> same_procs k k'"
proof -
  have n: "t \<notin> set (thread_ready_list k)" using sched_okD(1)[OF assms(1), of t] assms(3) by simp
  obtain k' where k': "thread_unblock t k = Some k'" "sched_ok k'" using thread_unblock_ok[OF assms(1,2)] assms(3) by auto
  then show ?thesis using thread_unblock_result[of k t] n assms(3) by (auto simp: same_procs_def split: if_splits)
qed

lemma sched_event_same:
  assumes "sched_ok k" "procs_inv k" "sched_may e k" "calm e k"
  shows "\<exists>k'. sched_do e k = Some k' \<and> sched_ok k' \<and> same_procs k k'"
proof -
  have r: "stat k (running k) = TASK_RUNNING" by (rule sched_okD(8)[OF assms(1)])
  have entry: "\<exists>k'. Some (resume s') = Some k' \<and> sched_ok k' \<and> same_procs k k'"
    if "switched e0 s'" "sched_pre e0" "same_procs k e0" "sched_ok s'" for e0 s'
    using procs_inv_switch(2)[OF that(2,1)] that(3,4) procs_inv_same[OF that(3)] assms(2) same_procs_trans by auto
  show ?thesis
  proof (cases e)
    case Tick
    show ?thesis
    proof (cases "ticks (tasks k (running k)) = 0")
      case True
      then obtain s' where s': "clock_interrupt k = Some (resume s')" "switched (tick_entry k) s'" "sched_ok s'"
        using clock_interrupt_switch[OF assms(1)] assms(3) Tick by auto
      then show ?thesis using entry[OF s'(2) _ tick_same s'(3)] tick_entry_ok[OF assms(1)] Tick by (simp add: sched_ok_def)
    next
      case False
      let ?k = "resume (task_upd (running k) (\<lambda>p. p\<lparr>ticks := ticks p - 1\<rparr>) (tick_entry k))"
      have "sched_ok ?k" unfolding resume_ok by (subst sched_pre_cong(2)[of _ k]) (simp_all add: assms(1))
      moreover have "same_procs k ?k" unfolding same_procs_resume by (simp add: same_procs_def tick_entry_def)
      ultimately show ?thesis using clock_interrupt_keep False assms(3) Tick by simp
    qed
  next
    case (Block st)
    then obtain s' where s': "thread_block st k = Some (resume s')" "switched (block_entry st k) s'" "sched_ok s'"
      using thread_block_result[OF assms(1), of st] assms(3) by auto
    then show ?thesis using entry[OF s'(2) block_entry_pre[OF assms(1)] _ s'(3)] block_same[OF r] Block assms(4) by simp
  next
    case (Unblock t)
    then show ?thesis using unblock_same[OF assms(1)] assms(3,4) by simp
  next
    case Yield
    then obtain s' where s': "thread_yield k = Some (resume s')" "switched (yield_entry k) s'" "sched_ok s'"
      using thread_yield_result[OF assms(1)] by auto
    then show ?thesis using entry[OF s'(2) yield_entry_pre[OF assms(1)] yield_same[OF r] s'(3)] Yield by simp
  qed
qed

section \<open>sys_wait\<close>

lemma wait_round_reaps:
  assumes "sched_ok k" "procs_inv k" "hanging_child k (running k)"
  shows "\<exists>c k' i. wait_round k = Some (Reaped (sint (exit_status (tasks k c))) (pid (tasks k c)), k')
    \<and> c \<in> set (thread_all_list k) \<and> parent_pid (tasks k c) = pid (tasks k (running k)) \<and> stat k c = TASK_HANGING
    \<and> sched_ok k' \<and> procs_inv k' \<and> set (thread_all_list k') = set (thread_all_list k) - {c} \<and> running k' = running k
    \<and> pid (tasks k c) = of_nat (i + 1) \<and> free_pid k' i
    \<and> freed_pages k' = freed_pages k @ (if pgdir (tasks k c) = 0 then [] else [pgdir (tasks k c)]) @ [c]"
proof -
  note inv = procs_invD[OF assms(2)] and ok = sched_okD[OF assms(1)]
  let ?P = "find_hanging_child (sint (pid (tasks k (running k)))) k"
  have P: "?P c \<longleftrightarrow> parent_pid (tasks k c) = pid (tasks k (running k)) \<and> stat k c = TASK_HANGING" for c
    by (simp add: find_hanging_child_def signed_word_eqI) (metis signed_word_eqI)
  have "find ?P (thread_all_list k) \<noteq> None" using assms(3) P by (auto simp: hanging_child_def find_None_iff)
  then obtain c where f: "find ?P (thread_all_list k) = Some c" by blast
  then have c: "c \<in> set (thread_all_list k)" "parent_pid (tasks k c) = pid (tasks k (running k))" "stat k c = TASK_HANGING"
    using P by (auto simp: find_Some_iff)
  have ne: "c \<noteq> running k" "c \<noteq> idle_thread k" "c \<noteq> main_thread k" using c(1,3) ok(8) inv(3,4) by auto
  obtain k' i where k': "thread_exit c False k = Some k'" "sched_ok k'" "pids_ok k'" "pid (tasks k c) = of_nat (i + 1)" "free_pid k' i"
    "set (thread_all_list k') = set (thread_all_list k) - {c}"
    "freed_pages k' = freed_pages k @ (if pgdir (tasks k c) = 0 then [] else [pgdir (tasks k c)]) @ [c]"
    "running k' = running k" "idle_thread k' = idle_thread k" "main_thread k' = main_thread k"
    "thread_all_list k' = remove1 c (thread_all_list k)" "tasks k' = (tasks k)(c := (tasks k c)\<lparr>status := TASK_DIED\<rparr>)"
    using thread_exit_other[OF assms(1) inv(1,2) c(1) ne] by blast
  have t: "pid (tasks k' t) = pid (tasks k t)" "parent_pid (tasks k' t) = parent_pid (tasks k t)" "t \<noteq> c \<Longrightarrow> stat k' t = stat k t" for t
    by (simp_all add: k'(12))
  have "procs_inv k'" unfolding procs_inv_def
  proof (intro conjI ballI impI)
    show "pids_ok k'" by (rule k'(3))
    show "distinct (thread_all_list k')" unfolding k'(11) using inv(2) by (rule distinct_remove1)
    show "main_thread k' \<notin> set (thread_all_list k')" using inv(3) k'(6,10) by simp
    show "stat k' (idle_thread k') \<notin> {TASK_WAITING, TASK_HANGING}" using inv(4) ne(2) t(3)[of "idle_thread k"] by (simp add: k'(9))
    obtain j where j: "j \<in> set (thread_all_list k)" "pid (tasks k j) = 1" "stat k j \<noteq> TASK_HANGING" using inv(5) by blast
    then have "j \<noteq> c" using c(3) by blast
    then show "\<exists>j\<in>set (thread_all_list k'). pid (tasks k' j) = 1 \<and> stat k' j \<noteq> TASK_HANGING" using j t k'(6) by (intro bexI[of _ j]) auto
    show "has_parent k' d" if "d \<in> set (thread_all_list k')" "parent_pid (tasks k' d) \<noteq> -1" for d
    proof -
      have "has_parent k d" using inv(6)[of d] that k'(6) t by simp
      then obtain p where p: "p \<in> set (thread_all_list k)" "pid (tasks k p) = parent_pid (tasks k d)" "stat k p \<noteq> TASK_HANGING"
        unfolding has_parent_def by blast
      then have "p \<noteq> c" using c(3) by blast
      then show ?thesis unfolding has_parent_def using p t k'(6) by (intro bexI[of _ p]) auto
    qed
    show "has_child k' p" if p: "p \<in> set (thread_all_list k')" "stat k' p = TASK_WAITING" for p
    proof -
      have pk: "p \<in> set (thread_all_list k)" "p \<noteq> c" "stat k p = TASK_WAITING" using p k'(6) t(3) by auto
      then obtain d where d: "d \<in> set (thread_all_list k)" "parent_pid (tasks k d) = pid (tasks k p)" using inv(7) unfolding has_child_def by blast
      have "p \<noteq> running k" using pk(3) ok(8) by auto
      then have "d \<noteq> c" using d(2) c(2) pid_unique[OF inv(1) pk(1) ok(7)] by auto
      then show ?thesis unfolding has_child_def using d t k'(6) by (intro bexI[of _ d]) auto
    qed
    show "\<not> hanging_child k' p" if p: "p \<in> set (thread_all_list k')" "stat k' p = TASK_WAITING" "pid (tasks k' p) \<noteq> 1" for p
    proof -
      have pk: "p \<in> set (thread_all_list k)" "p \<noteq> c" "stat k p = TASK_WAITING" using p k'(6) t(3) by auto
      then have "\<not> hanging_child k p" using inv(8) p(3) t by simp
      then show ?thesis unfolding hanging_child_def using k'(6) t by auto
    qed
  qed
  moreover have "wait_round k = Some (Reaped (sint (exit_status (tasks k c))) (pid (tasks k c)), k')"
    using f k'(1) by (simp add: wait_round_def)
  ultimately show ?thesis using c k'(2,4-8) by blast
qed

lemma wait_round_sleeps:
  assumes "sched_ok k" "procs_inv k" "\<not> hanging_child k (running k)" "running k \<noteq> idle_thread k"
  shows "\<exists>r k'. wait_round k = Some (r, k') \<and> r = (if has_child k (running k) then Asleep else No_child) \<and> sched_ok k' \<and> procs_inv k'
    \<and> (if has_child k (running k) then stat k' (running k) = TASK_WAITING else k' = k)"
proof -
  note inv = procs_invD[OF assms(2)] and ok = sched_okD[OF assms(1)]
  let ?p = "sint (pid (tasks k (running k)))"
  have e: "sint (parent_pid (tasks k c)) = ?p \<longleftrightarrow> parent_pid (tasks k c) = pid (tasks k (running k))" for c by (metis signed_word_eqI)
  have f1: "find (find_hanging_child ?p k) (thread_all_list k) = None"
    using assms(3) e by (auto simp: find_None_iff find_hanging_child_def hanging_child_def)
  have f2: "find (find_child ?p k) (thread_all_list k) = None \<longleftrightarrow> \<not> has_child k (running k)"
    using e by (auto simp: find_None_iff find_child_def has_child_def)
  show ?thesis
  proof (cases "has_child k (running k)")
    case False
    then show ?thesis using f1 f2 assms(1,2) by (simp add: wait_round_def)
  next
    case True
    let ?e = "block_entry TASK_WAITING k"
    obtain s' where s': "thread_block TASK_WAITING k = Some (resume s')" "switched ?e s'" "sched_ok s'"
      using thread_block_result[OF assms(1), of TASK_WAITING] by auto
    have b: "thread_all_list ?e = thread_all_list k" "idle_thread ?e = idle_thread k" "main_thread ?e = main_thread k" "pid_bitmap ?e = pid_bitmap k"
      "pid (tasks ?e t) = pid (tasks k t)" "parent_pid (tasks ?e t) = parent_pid (tasks k t)"
      "stat ?e t = (if t = running k then TASK_WAITING else stat k t)" for t by (simp_all add: block_entry_def)
    have h0: "stat ?e t = TASK_HANGING \<longleftrightarrow> stat k t = TASK_HANGING" for t using ok(8) b(7)[of t] by auto
    have h: "hanging_child ?e t \<longleftrightarrow> hanging_child k t" "has_child ?e t \<longleftrightarrow> has_child k t" "has_parent ?e t \<longleftrightarrow> has_parent k t" for t
      using h0 by (simp_all add: hanging_child_def has_child_def has_parent_def b(1,5,6))
    have "procs_inv ?e" unfolding procs_inv_def b(1-6) h h0
      using inv assms(3,4) True ok(8) by (auto simp: pids_ok_def b)
    then have "procs_inv (resume s')" "same_procs ?e (resume s')" using procs_inv_switch[OF block_entry_pre[OF assms(1)] s'(2)] by auto
    moreover have "stat (resume s') (running k) = TASK_WAITING" using same_procsD(9)[OF \<open>same_procs ?e (resume s')\<close>] b(7) by simp
    ultimately show ?thesis using True f1 f2 s' by (simp add: wait_round_def)
  qed
qed

section \<open>sys_exit\<close>

lemma adopt_all:
  "fold (init_adopt_a_child p) ts k
   = k\<lparr>tasks := \<lambda>t. if t \<in> set ts \<and> sint (parent_pid (tasks k t)) = p then (tasks k t)\<lparr>parent_pid := 1\<rparr> else tasks k t\<rparr>"
proof (induction ts arbitrary: k)
  case (Cons t ts)
  have "init_adopt_a_child p t k = k\<lparr>tasks := \<lambda>u. if u = t \<and> sint (parent_pid (tasks k u)) = p then (tasks k u)\<lparr>parent_pid := 1\<rparr> else tasks k u\<rparr>"
    by (rule sched.equality) (auto simp: init_adopt_a_child_def task_upd_def fun_eq_iff)
  then show ?case by (simp add: Cons.IH) (rule arg_cong[where f = "\<lambda>g. k\<lparr>tasks := g\<rparr>"], auto)
qed simp

text \<open>The state after the adoption: only parents have changed, and the process has no children.\<close>

definition adopted :: "u8 \<Rightarrow> sched \<Rightarrow> sched" where
  "adopted st k = k\<lparr>tasks := \<lambda>t. let p = (if t = running k then (tasks k t)\<lparr>exit_status := st\<rparr> else tasks k t) in
     if t \<in> set (thread_all_list k) \<and> parent_pid p = pid (tasks k (running k)) then p\<lparr>parent_pid := 1\<rparr> else p\<rparr>"

lemma adopted_simps [simp]:
  "running (adopted st k) = running k" "thread_ready_list (adopted st k) = thread_ready_list k" "thread_all_list (adopted st k) = thread_all_list k"
  "idle_thread (adopted st k) = idle_thread k" "main_thread (adopted st k) = main_thread k" "pid_bitmap (adopted st k) = pid_bitmap k"
  "stat (adopted st k) t = stat k t" "pid (tasks (adopted st k) t) = pid (tasks k t)" "exit_status (tasks (adopted st k) (running k)) = st"
  "parent_pid (tasks (adopted st k) t) =
     (if t \<in> set (thread_all_list k) \<and> parent_pid (tasks k t) = pid (tasks k (running k)) then 1 else parent_pid (tasks k t))"
  by (simp_all add: adopted_def Let_def, auto)

lemma exit_begin_result: "parent_pid (tasks k (running k)) \<noteq> -1 \<Longrightarrow> exit_begin st k = Some (adopted st k)"
proof -
  assume "parent_pid (tasks k (running k)) \<noteq> -1"
  moreover have "sint (parent_pid (tasks k t)) = sint (pid (tasks k (running k))) \<longleftrightarrow> parent_pid (tasks k t) = pid (tasks k (running k))" for t
    by (metis signed_word_eqI)
  ultimately show ?thesis
    by (simp add: exit_begin_def adopt_all adopted_def task_upd_def Let_def) (rule arg_cong[where f = "\<lambda>g. k\<lparr>tasks := g\<rparr>"], auto)
qed

lemma adopted_inv:
  assumes "sched_ok k" "procs_inv k" "pid (tasks k (running k)) \<noteq> 1"
  shows "sched_ok (adopted st k)" "procs_inv (adopted st k)"
proof -
  note inv = procs_invD[OF assms(2)] and ok = sched_okD[OF assms(1)]
  show "sched_ok (adopted st k)" using assms(1) by (subst sched_pre_cong(2)[of _ k]) simp_all
  have "has_parent (adopted st k) d" if d: "d \<in> set (thread_all_list k)" "parent_pid (tasks (adopted st k) d) \<noteq> -1" for d
  proof (cases "parent_pid (tasks k d) = pid (tasks k (running k))")
    case True
    then show ?thesis using inv(5) d(1) by (auto simp: has_parent_def)
  next
    case False
    then show ?thesis using inv(6)[of d] d by (auto simp: has_parent_def)
  qed
  moreover have "has_child (adopted st k) t \<and> (pid (tasks k t) \<noteq> 1 \<longrightarrow> \<not> hanging_child (adopted st k) t)"
    if t: "t \<in> set (thread_all_list k)" "stat k t = TASK_WAITING" for t
  proof -
    have "t \<noteq> running k" using t(2) ok(8) by auto
    then have "pid (tasks k t) \<noteq> pid (tasks k (running k))" using pid_unique[OF inv(1) t(1) ok(7)] by blast
    then have "parent_pid (tasks (adopted st k) d) = pid (tasks k t) \<longleftrightarrow> parent_pid (tasks k d) = pid (tasks k t)"
      if "d \<in> set (thread_all_list k)" "parent_pid (tasks k d) = pid (tasks k t) \<or> pid (tasks k t) \<noteq> 1" for d using that by auto
    then show ?thesis using inv(7,8)[OF t] unfolding has_child_def hanging_child_def by (metis adopted_simps(3,7,8))
  qed
  ultimately show "procs_inv (adopted st k)" unfolding procs_inv_def using inv by (simp add: pids_ok_def)
qed

text \<open>The wake-up of the parent.\<close>

definition woken :: "u32 \<Rightarrow> sched \<Rightarrow> sched" where
  "woken p k = (if stat k p = TASK_WAITING then set_status p TASK_READY (k\<lparr>thread_ready_list := p # thread_ready_list k\<rparr>) else k)"

lemma woken_simps [simp]:
  "running (woken p k) = running k" "thread_all_list (woken p k) = thread_all_list k" "idle_thread (woken p k) = idle_thread k"
  "main_thread (woken p k) = main_thread k" "pid_bitmap (woken p k) = pid_bitmap k" "freed_pages (woken p k) = freed_pages k"
  "pid (tasks (woken p k) t) = pid (tasks k t)" "parent_pid (tasks (woken p k) t) = parent_pid (tasks k t)"
  "exit_status (tasks (woken p k) t) = exit_status (tasks k t)"
  "stat (woken p k) t = (if t = p \<and> stat k p = TASK_WAITING then TASK_READY else stat k t)"
  "thread_ready_list (woken p k) = (if stat k p = TASK_WAITING then [p] else []) @ thread_ready_list k"
  by (simp_all add: woken_def)

lemma woken_ok:
  assumes "sched_ok k" "p \<in> set (thread_all_list k)"
  shows "sched_ok (woken p k)" "(if stat k p = TASK_WAITING then thread_unblock p k else Some k) = Some (woken p k)"
proof -
  have n: "p \<notin> set (thread_ready_list k)" if "stat k p = TASK_WAITING" using sched_okD(1)[OF assms(1), of p] that by simp
  then show e: "(if stat k p = TASK_WAITING then thread_unblock p k else Some k) = Some (woken p k)"
    using thread_unblock_result[of k p] by (simp add: woken_def)
  show "sched_ok (woken p k)" using thread_unblock_ok[OF assms] e assms(1) by (auto split: if_splits)
qed

lemma hang_entry_inv:
  assumes ok: "sched_ok k" and inv: "procs_inv k" and p: "p \<in> set (thread_all_list k)" "pid (tasks k p) = parent_pid (tasks k (running k))" "p \<noteq> running k"
    and run: "pid (tasks k (running k)) \<noteq> 1" "running k \<noteq> idle_thread k" "\<not> has_child k (running k)"
  shows "procs_inv (block_entry TASK_HANGING (woken p k))"
proof -
  let ?e = "block_entry TASK_HANGING (woken p k)"
  note I = procs_invD[OF inv] and O = sched_okD[OF ok]
  have b: "thread_all_list ?e = thread_all_list k" "idle_thread ?e = idle_thread k" "main_thread ?e = main_thread k" "pid_bitmap ?e = pid_bitmap k"
    "pid (tasks ?e t) = pid (tasks k t)" "parent_pid (tasks ?e t) = parent_pid (tasks k t)" for t by (simp_all add: block_entry_def)
  have h: "stat ?e t = TASK_HANGING \<longleftrightarrow> t = running k \<or> stat k t = TASK_HANGING" "stat ?e t = TASK_WAITING \<longleftrightarrow> stat k t = TASK_WAITING \<and> t \<noteq> p" for t
    using O(8) p(3) by (auto simp: block_entry_def)
  have "has_parent ?e d" if d: "d \<in> set (thread_all_list k)" "parent_pid (tasks k d) \<noteq> -1" for d
  proof -
    obtain q where q: "q \<in> set (thread_all_list k)" "pid (tasks k q) = parent_pid (tasks k d)" "stat k q \<noteq> TASK_HANGING"
      using I(6)[OF d] unfolding has_parent_def by blast
    then have "q \<noteq> running k" using run(3) d(1) by (metis has_child_def)
    then show ?thesis using q h(1) by (auto simp: has_parent_def b)
  qed
  moreover have "has_child ?e t \<and> (pid (tasks k t) \<noteq> 1 \<longrightarrow> \<not> hanging_child ?e t)" if t: "t \<in> set (thread_all_list k)" "stat k t = TASK_WAITING" "t \<noteq> p" for t
  proof -
    have "pid (tasks k t) \<noteq> pid (tasks k p)" using t(3) pid_unique[OF I(1) t(1) p(1)] by blast
    then show ?thesis using I(7,8)[OF t(1,2)] h(1) p(2) by (auto simp: has_child_def hanging_child_def b)
  qed
  moreover have "\<exists>i\<in>set (thread_all_list k). pid (tasks k i) = 1 \<and> stat ?e i \<noteq> TASK_HANGING" using I(5) run(1) h(1) by metis
  ultimately show ?thesis unfolding procs_inv_def b using I run(2) by (auto simp: pids_ok_def b h)
qed

text \<open>The exit of a process that is neither init nor the idle thread: it hangs with its status, and its parent
  runs next when it waits.\<close>

lemma exit_result:
  assumes "sched_ok k" "procs_inv k" "pid (tasks k (running k)) \<noteq> 1" "running k \<noteq> idle_thread k" "parent_pid (tasks k (running k)) \<noteq> -1"
  shows "\<exists>k1 p k'. exit_begin st k = Some k1 \<and> exit_end k1 = Some k' \<and> sched_ok k' \<and> procs_inv k'
    \<and> thread_all_list k' = thread_all_list k \<and> stat k' (running k) = TASK_HANGING \<and> exit_status (tasks k' (running k)) = st
    \<and> p \<in> set (thread_all_list k) \<and> pid (tasks k p) = parent_pid (tasks k' (running k)) \<and> stat k' p \<noteq> TASK_WAITING
    \<and> (stat k p = TASK_WAITING \<longrightarrow> running k' = p)
    \<and> (\<forall>t. pid (tasks k' t) = pid (tasks k t) \<and> parent_pid (tasks k' t) = parent_pid (tasks (adopted st k) t) \<and> (stat k' t = TASK_WAITING \<longleftrightarrow> stat k t = TASK_WAITING \<and> t \<noteq> p)
        \<and> (stat k' t = TASK_HANGING \<longleftrightarrow> stat k t = TASK_HANGING \<or> t = running k))"
proof -
  let ?c = "running k" and ?a = "adopted st k"
  note a = adopted_inv[OF assms(1-3), of st]
  note I = procs_invD[OF a(2)] and O = sched_okD[OF a(1)]
  have c: "?c \<in> set (thread_all_list k)" using sched_okD(7)[OF assms(1)] .
  have nochild: "\<not> has_child ?a ?c" using assms(3) by (auto simp: has_child_def)
  have "parent_pid (tasks ?a ?c) \<noteq> -1" using assms(5) by simp
  then obtain p where p: "p \<in> set (thread_all_list k)" "pid (tasks k p) = parent_pid (tasks ?a ?c)" "stat k p \<noteq> TASK_HANGING"
    using I(6)[of ?c] c unfolding has_parent_def by auto
  have pc: "p \<noteq> ?c" using nochild c p(2) by (auto simp: has_child_def)
  have "pid2thread (sint (parent_pid (tasks ?a ?c))) ?a = p" using pid2thread_found[OF I(1), of p] p(1,2) by simp
  moreover have "p \<noteq> 0" using sched_okD(6)[OF assms(1)] p(1) by metis
  ultimately have e: "exit_end ?a = thread_block TASK_HANGING (woken p ?a)"
    using woken_ok(2)[OF a(1), of p] p(1) by (simp add: exit_end_def Let_def cong: if_cong)
  have wok: "sched_ok (woken p ?a)" by (rule woken_ok(1)[OF a(1)]) (simp add: p(1))
  let ?e = "block_entry TASK_HANGING (woken p ?a)"
  obtain s' where s': "thread_block TASK_HANGING (woken p ?a) = Some (resume s')" "switched ?e s'" "sched_ok s'"
    using thread_block_result[OF wok, of TASK_HANGING] by auto
  have "procs_inv ?e" using hang_entry_inv[OF a, of p] p pc assms(3,4) nochild by simp
  then have fin: "procs_inv (resume s')" "same_procs ?e (resume s')"
    using procs_inv_switch[OF block_entry_pre[OF wok] s'(2)] by auto
  note same = same_procsD[OF fin(2)]
  have run: "running (resume s') = p" if "stat k p = TASK_WAITING"
  proof -
    have "running s' = hd (run_queue ?e)" using s'(2) by (simp add: switched_def)
    then show ?thesis using that by (simp add: run_queue_def Let_def block_entry_def)
  qed
  have st: "stat (resume s') t = TASK_HANGING \<longleftrightarrow> stat k t = TASK_HANGING \<or> t = ?c"
    "stat (resume s') t = TASK_WAITING \<longleftrightarrow> stat k t = TASK_WAITING \<and> t \<noteq> p" for t
    unfolding same(8,9) using sched_okD(8)[OF assms(1)] pc by (auto simp: block_entry_def)
  have f: "thread_all_list (resume s') = thread_all_list k" "pid (tasks (resume s') t) = pid (tasks k t)"
    "parent_pid (tasks (resume s') t) = parent_pid (tasks ?a t)" "exit_status (tasks (resume s') ?c) = st" for t
    unfolding same(1,5-7) by (simp_all add: block_entry_def)
  show ?thesis using exit_begin_result[OF assms(5), of st] e s'(1,3) fin(1) p(1,2) run st f by (intro exI[of _ ?a] exI[of _ p] exI[of _ "resume s'"]) auto
qed

section \<open>fork\<close>

lemma fork_task_result:
  assumes "btmp_bytes_len (pid_bitmap k) = 128" "free_pid k j" "ch \<noteq> pa"
  shows "\<exists>i k'. fork_task ch pa k = Some k' \<and> free_pid k i \<and> pid (tasks k' ch) = of_nat (i + 1) \<and> stat k' ch = TASK_READY
    \<and> parent_pid (tasks k' ch) = pid (tasks k pa) \<and> thread_ready_list k' = thread_ready_list k \<and> thread_all_list k' = thread_all_list k
    \<and> running k' = running k \<and> idle_thread k' = idle_thread k \<and> main_thread k' = main_thread k \<and> btmp_bytes_len (pid_bitmap k') = 128
    \<and> (\<forall>l. bitmap_scan_test (pid_bitmap k') l \<longleftrightarrow> l = i \<or> bitmap_scan_test (pid_bitmap k) l) \<and> (\<forall>t. t \<noteq> ch \<longrightarrow> tasks k' t = tasks k t)"
proof -
  let ?k = "task_upd ch (\<lambda>_. tasks k pa) (k\<lparr>kstacks := copy_stacks ch pa (kstacks k)\<rparr>)"
  have "btmp_bytes_len (pid_bitmap ?k) = 128" "free_pid ?k j" using assms(1,2) by (simp_all add: free_pid_def)
  then obtain i b where i: "allocate_pid ?k = Some (of_nat (i + 1), ?k\<lparr>pid_bitmap := b\<rparr>)" "free_pid ?k i"
    "btmp_bytes_len b = 128" "\<forall>l. bitmap_scan_test b l \<longleftrightarrow> l = i \<or> bitmap_scan_test (pid_bitmap ?k) l"
    using allocate_pid_result by blast
  then show ?thesis using assms(3) by (intro exI[of _ i]) (simp add: fork_task_def free_pid_def Let_def)
qed

lemma fork_result:
  assumes "sched_ok k" "procs_inv k" "free_pid k j" "ch \<notin> set (thread_all_list k)" "ch \<noteq> 0" "ch \<noteq> main_thread k"
  shows "\<exists>k1 k'. fork_task ch (running k) k = Some k1 \<and> enlist ch k1 = Some k' \<and> sched_ok k' \<and> procs_inv k'
    \<and> thread_all_list k' = thread_all_list k @ [ch] \<and> stat k' ch = TASK_READY \<and> parent_pid (tasks k' ch) = pid (tasks k (running k))
    \<and> pid2thread (sint (pid (tasks k' ch))) k' = ch"
proof -
  note I = procs_invD[OF assms(2)] and O = sched_okD[OF assms(1)]
  have ne: "ch \<noteq> running k" "ch \<noteq> idle_thread k" using O(4,7) assms(4) by auto
  have len: "btmp_bytes_len (pid_bitmap k) = 128" using I(1) by (simp add: pids_ok_def)
  obtain i k1 where f: "fork_task ch (running k) k = Some k1" "free_pid k i" "pid (tasks k1 ch) = of_nat (i + 1)" "stat k1 ch = TASK_READY"
    "parent_pid (tasks k1 ch) = pid (tasks k (running k))" "thread_ready_list k1 = thread_ready_list k" "thread_all_list k1 = thread_all_list k"
    "running k1 = running k" "idle_thread k1 = idle_thread k" "main_thread k1 = main_thread k" "btmp_bytes_len (pid_bitmap k1) = 128"
    "\<forall>l. bitmap_scan_test (pid_bitmap k1) l \<longleftrightarrow> l = i \<or> bitmap_scan_test (pid_bitmap k) l" "\<forall>t. t \<noteq> ch \<longrightarrow> tasks k1 t = tasks k t"
    using fork_task_result[OF len assms(3) ne(1)] by blast
  define k' where "k' = k1\<lparr>thread_ready_list := thread_ready_list k1 @ [ch], thread_all_list := thread_all_list k1 @ [ch]\<rparr>"
  have F: "pid (tasks k' ch) = of_nat (i + 1)" "stat k' ch = TASK_READY" "parent_pid (tasks k' ch) = pid (tasks k (running k))"
    "thread_ready_list k' = thread_ready_list k @ [ch]" "thread_all_list k' = thread_all_list k @ [ch]" "running k' = running k"
    "idle_thread k' = idle_thread k" "main_thread k' = main_thread k" "btmp_bytes_len (pid_bitmap k') = 128"
    "\<forall>l. bitmap_scan_test (pid_bitmap k') l \<longleftrightarrow> l = i \<or> bitmap_scan_test (pid_bitmap k) l" "\<forall>t. t \<noteq> ch \<longrightarrow> tasks k' t = tasks k t"
    using f by (simp_all add: k'_def)
  have "ch \<notin> set (thread_ready_list k)" using O(1) assms(4) by simp
  then have e: "enlist ch k1 = Some k'" using f(6,7) assms(4) by (simp add: enlist_def k'_def)
  have s: "sched_ok k'" by (rule sched_ok_new[OF assms(1,4,5) F(2,4-7,11)])
  have p: "pids_ok k'" by (rule pids_ok_new[OF I(1) f(2) assms(4) F(5,1,11,9,10)])
  have o: "tasks k' t = tasks k t" if "t \<in> set (thread_all_list k)" for t using F(11) assms(4) that by metis
  have "procs_inv k'" unfolding procs_inv_def
  proof (intro conjI ballI impI)
    show "distinct (thread_all_list k')" using I(2) assms(4) by (simp add: F(5))
    show "main_thread k' \<notin> set (thread_all_list k')" using I(3) assms(6) by (simp add: F(5,8))
    show "stat k' (idle_thread k') \<notin> {TASK_WAITING, TASK_HANGING}" using I(4) o[OF O(4)] by (simp add: F(7))
    show "\<exists>i\<in>set (thread_all_list k'). pid (tasks k' i) = 1 \<and> stat k' i \<noteq> TASK_HANGING" using I(5) o by (auto simp: F(5))
    show "has_parent k' c" if "c \<in> set (thread_all_list k')" "parent_pid (tasks k' c) \<noteq> -1" for c
    proof (cases "c = ch")
      case True
      then show ?thesis unfolding has_parent_def using F(3) O(7,8) o[OF O(7)] by (intro bexI[of _ "running k"]) (simp_all add: F(5))
    next
      case False
      then have "has_parent k c" "c \<in> set (thread_all_list k)" using I(6)[of c] that o[of c] by (auto simp: F(5))
      then show ?thesis unfolding has_parent_def using o by (auto simp: F(5))
    qed
    show "has_child k' t" if "t \<in> set (thread_all_list k')" "stat k' t = TASK_WAITING" for t
      using I(7)[of t] that F(2) o by (auto simp: F(5) has_child_def)
    show "\<not> hanging_child k' t" if "t \<in> set (thread_all_list k')" "stat k' t = TASK_WAITING" "pid (tasks k' t) \<noteq> 1" for t
      using I(8)[of t] that F(2) o by (auto simp: F(5) hanging_child_def)
  qed (rule p)
  moreover have "pid2thread (sint (pid (tasks k' ch))) k' = ch" using pid2thread_found[OF p, of ch] by (simp add: F(5))
  ultimately show ?thesis using f(1) e s F(2,3,5) by blast
qed

section \<open>Every order\<close>

text \<open>init does not call exit, and the idle thread neither exits nor waits.\<close>

inductive proc_reach :: "sched \<Rightarrow> sched \<Rightarrow> bool" for k0 where
  boot: "proc_reach k0 k0"
| event: "proc_reach k0 k \<Longrightarrow> sched_may e k \<Longrightarrow> calm e k \<Longrightarrow> sched_do e k = Some k' \<Longrightarrow> proc_reach k0 k'"
| forks: "proc_reach k0 k \<Longrightarrow> free_pid k j \<Longrightarrow> ch \<notin> set (thread_all_list k) \<Longrightarrow> ch \<noteq> 0 \<Longrightarrow> ch \<noteq> main_thread k
    \<Longrightarrow> fork_task ch (running k) k = Some k1 \<Longrightarrow> enlist ch k1 = Some k' \<Longrightarrow> proc_reach k0 k'"
| waits: "proc_reach k0 k \<Longrightarrow> running k \<noteq> idle_thread k \<Longrightarrow> wait_round k = Some (r, k') \<Longrightarrow> proc_reach k0 k'"
| exits: "proc_reach k0 k \<Longrightarrow> running k \<noteq> idle_thread k \<Longrightarrow> pid (tasks k (running k)) \<noteq> 1
    \<Longrightarrow> exit_begin st k = Some k1 \<Longrightarrow> exit_end k1 = Some k' \<Longrightarrow> proc_reach k0 k'"

lemma proc_reach_inv: "proc_reach k0 k \<Longrightarrow> sched_ok k0 \<Longrightarrow> procs_inv k0 \<Longrightarrow> sched_ok k \<and> procs_inv k"
proof (induction rule: proc_reach.induct)
  case (event k e k')
  then have "sched_ok k" "procs_inv k" by simp_all
  from sched_event_same[OF this event(2,3)] show ?case using event(4) \<open>procs_inv k\<close> procs_inv_same by auto
next
  case (forks k j ch k1 k')
  then have "sched_ok k" "procs_inv k" by simp_all
  from fork_result[OF this forks(2-5)] show ?case using forks(6,7) by auto
next
  case (waits k r k')
  then have i: "sched_ok k" "procs_inv k" by simp_all
  show ?case
  proof (cases "hanging_child k (running k)")
    case True
    then show ?thesis using wait_round_reaps[OF i True] waits(3) by auto
  next
    case False
    then show ?thesis using wait_round_sleeps[OF i False waits(2)] waits(3) by auto
  qed
next
  case (exits k st k1 k')
  then have i: "sched_ok k" "procs_inv k" by simp_all
  have "parent_pid (tasks k (running k)) \<noteq> -1" using exits(4) by (auto simp: exit_begin_def Let_def split: if_splits)
  from exit_result[OF i exits(3,2) this, of st] show ?case using exits(4,5) by auto
qed simp_all

section \<open>Properties\<close>

text \<open>The idle thread, init waiting, the shell (pid 3) waiting for its child (pid 4), which runs.\<close>

definition demo_procs :: sched where
  "demo_procs = demo_sched\<lparr>tasks := (\<lambda>_. zero_task)(
       0x1000 := (demo_task 2 TASK_BLOCKED)\<lparr>parent_pid := -1\<rparr>, 0x2000 := (demo_task 1 TASK_WAITING)\<lparr>parent_pid := -1\<rparr>,
       0x3000 := (demo_task 3 TASK_WAITING)\<lparr>parent_pid := 1\<rparr>, 0x4000 := (demo_task 4 TASK_RUNNING)\<lparr>parent_pid := 3\<rparr>),
     running := 0x4000, thread_ready_list := [], main_thread := 0x9000\<rparr>"

lemma demo_procs_ok: "sched_ok demo_procs" "procs_inv demo_procs"
proof -
  show "sched_ok demo_procs"
    by (auto simp: demo_procs_def demo_sched_def demo_task_def sched_ok_def sched_pre_def zero_task_def)
  have "\<exists>i<1024. pid (tasks demo_procs t) = of_nat (i + 1) \<and> bitmap_scan_test (pid_bitmap demo_procs) i"
    if t: "t \<in> set (thread_all_list demo_procs)" for t
  proof -
    have "t = 0x1000 \<or> t = 0x2000 \<or> t = 0x3000 \<or> t = 0x4000" using t by (simp add: demo_procs_def demo_sched_def)
    then have "\<exists>u\<in>set (thread_all_list demo_sched). pid (tasks demo_sched u) = pid (tasks demo_procs t)"
      by (elim disjE) (simp_all add: demo_procs_def demo_sched_def demo_task_def)
    then obtain u where u: "u \<in> set (thread_all_list demo_sched)" "pid (tasks demo_sched u) = pid (tasks demo_procs t)" by blast
    then show ?thesis using pids_okD[OF demo_pids_ok(1) u(1)] u(2) by (simp add: demo_procs_def)
  qed
  then have "pids_ok demo_procs"
    by (auto simp: pids_ok_def demo_procs_def demo_sched_def demo_task_def)
  then show "procs_inv demo_procs"
    by (auto simp: procs_inv_def has_child_def has_parent_def hanging_child_def demo_procs_def demo_sched_def demo_task_def zero_task_def)
qed

text \<open>C3: whatever the order of clock interrupts, blocks, forks, waits and exits, a thread that waits in sys_wait
  has a child to wait for, and unless it is init none of its children has already ended, so no exit is missed;
  the scheduler and the pids stay in order. Every fork, wait and exit that is called returns: it finds the
  parent it needs.\<close>
theorem no_exit_missed:
  assumes "sched_ok k0" "procs_inv k0" "proc_reach k0 k" "running k \<noteq> idle_thread k"
  shows "sched_ok k \<and> pids_ok k \<and> (\<exists>r k'. wait_round k = Some (r, k') \<and> proc_reach k0 k')
    \<and> (\<forall>p\<in>set (thread_all_list k). stat k p = TASK_WAITING \<longrightarrow> has_child k p \<and> (pid (tasks k p) \<noteq> 1 \<longrightarrow> \<not> hanging_child k p))
    \<and> (pid (tasks k (running k)) \<noteq> 1 \<and> parent_pid (tasks k (running k)) \<noteq> -1 \<longrightarrow>
         (\<exists>k1 k'. exit_begin st k = Some k1 \<and> exit_end k1 = Some k' \<and> proc_reach k0 k'))"
proof -
  have i: "sched_ok k" "procs_inv k" using proc_reach_inv[OF assms(3,1,2)] by simp_all
  have "\<exists>r k'. wait_round k = Some (r, k')"
  proof (cases "hanging_child k (running k)")
    case True
    then show ?thesis using wait_round_reaps[OF i True] by auto
  next
    case False
    then show ?thesis using wait_round_sleeps[OF i False assms(4)] by auto
  qed
  then have "\<exists>r k'. wait_round k = Some (r, k') \<and> proc_reach k0 k'" using proc_reach.waits[OF assms(3,4)] by blast
  moreover have "\<exists>k1 k'. exit_begin st k = Some k1 \<and> exit_end k1 = Some k' \<and> proc_reach k0 k'"
    if a: "pid (tasks k (running k)) \<noteq> 1" "parent_pid (tasks k (running k)) \<noteq> -1"
  proof -
    obtain k1 k' where e: "exit_begin st k = Some k1" "exit_end k1 = Some k'" using exit_result[OF i a(1) assms(4) a(2), of st] by auto
    then show ?thesis using proc_reach.exits[OF assms(3,4) a(1) e] by blast
  qed
  moreover have "\<forall>p\<in>set (thread_all_list k). stat k p = TASK_WAITING \<longrightarrow> has_child k p \<and> (pid (tasks k p) \<noteq> 1 \<longrightarrow> \<not> hanging_child k p)"
    using procs_invD(7,8)[OF i(2)] by blast
  ultimately show ?thesis using i(1) procs_invD(1)[OF i(2)] by simp
qed

theorem no_exit_missed_witness: "\<exists>k1 k'. exit_begin 7 demo_procs = Some k1 \<and> exit_end k1 = Some k' \<and> proc_reach demo_procs k'"
proof -
  have "running demo_procs \<noteq> idle_thread demo_procs" "pid (tasks demo_procs (running demo_procs)) \<noteq> 1" "parent_pid (tasks demo_procs (running demo_procs)) \<noteq> -1"
    by (simp_all add: demo_procs_def demo_sched_def demo_task_def)
  then show ?thesis using no_exit_missed[OF demo_procs_ok proc_reach.boot, where st = 7] by blast
qed

text \<open>C7: when a process exits while its parent, which is not init, waits for it, the parent runs next, and its
  sys_wait returns the pid and the exit status of that child; the child is then gone, its pid is free and its
  pages are given back.\<close>
theorem exit_then_wait:
  assumes "sched_ok k" "procs_inv k" "pid (tasks k (running k)) \<noteq> 1" "running k \<noteq> idle_thread k"
    and "p \<in> set (thread_all_list k)" "parent_pid (tasks k (running k)) = pid (tasks k p)" "stat k p = TASK_WAITING" "pid (tasks k p) \<noteq> 1"
  shows "\<exists>k1 k' k'' i. exit_begin st k = Some k1 \<and> exit_end k1 = Some k' \<and> running k' = p
    \<and> wait_round k' = Some (Reaped (sint st) (pid (tasks k (running k))), k'') \<and> running k'' = p
    \<and> set (thread_all_list k'') = set (thread_all_list k) - {running k} \<and> pid (tasks k (running k)) = of_nat (i + 1) \<and> free_pid k'' i"
proof -
  let ?c = "running k"
  have I: "pids_ok k" using procs_invD(1)[OF assms(2)] .
  have c: "?c \<in> set (thread_all_list k)" "p \<noteq> ?c" using sched_okD(7,8)[OF assms(1)] assms(7) by auto
  have np: "pid (tasks k p) \<noteq> pid (tasks k ?c)" using pid_unique[OF I assms(5) c(1)] c(2) by blast
  have m1: "parent_pid (tasks k ?c) \<noteq> -1"
  proof -
    obtain i where "i < 1024" "pid (tasks k p) = of_nat (i + 1)" using pids_okD[OF I assms(5)] by blast
    then have "sint (pid (tasks k p)) = int (i + 1)" using sint_pid by simp
    then show ?thesis using assms(6) by auto
  qed
  obtain k1 q k' where e: "exit_begin st k = Some k1" "exit_end k1 = Some k'" "sched_ok k'" "procs_inv k'" "thread_all_list k' = thread_all_list k"
    "stat k' ?c = TASK_HANGING" "exit_status (tasks k' ?c) = st" "q \<in> set (thread_all_list k)" "pid (tasks k q) = parent_pid (tasks k' ?c)"
    "stat k q = TASK_WAITING \<longrightarrow> running k' = q" "\<forall>t. pid (tasks k' t) = pid (tasks k t) \<and> parent_pid (tasks k' t) = parent_pid (tasks (adopted st k) t)
      \<and> (stat k' t = TASK_HANGING \<longleftrightarrow> stat k t = TASK_HANGING \<or> t = ?c)"
    using exit_result[OF assms(1-4) m1, of st] by blast
  have par: "parent_pid (tasks k' ?c) = pid (tasks k p)" using e(11) np assms(6) by simp
  then have "q = p" using pid_unique[OF I e(8) assms(5)] e(9) by simp
  then have run: "running k' = p" using e(10) assms(7) by simp
  have "hanging_child k' (running k')" unfolding hanging_child_def e(5) run using c(1) par e(6,11) by (intro bexI[of _ ?c]) simp_all
  then obtain d k'' i where w: "wait_round k' = Some (Reaped (sint (exit_status (tasks k' d))) (pid (tasks k' d)), k'')"
    "d \<in> set (thread_all_list k')" "parent_pid (tasks k' d) = pid (tasks k' (running k'))" "stat k' d = TASK_HANGING"
    "set (thread_all_list k'') = set (thread_all_list k') - {d}" "running k'' = running k'" "pid (tasks k' d) = of_nat (i + 1)" "free_pid k'' i"
    using wait_round_reaps[OF e(3,4)] by blast
  have "d = ?c"
  proof (rule ccontr)
    assume "d \<noteq> ?c"
    then have "stat k d = TASK_HANGING" "parent_pid (tasks k d) = pid (tasks k p)" using w(3,4) e(11) run assms(8) by (auto split: if_splits)
    then have "hanging_child k p" using w(2) e(5) by (auto simp: hanging_child_def)
    then show False using procs_invD(8)[OF assms(2,5,7,8)] by blast
  qed
  then show ?thesis using e(1,2,5,7,11) run w by auto
qed

theorem exit_then_wait_witness: "\<exists>k1 k' k''. exit_begin 7 demo_procs = Some k1 \<and> exit_end k1 = Some k' \<and> wait_round k' = Some (Reaped 7 4, k'')"
proof -
  have "pid (tasks demo_procs (running demo_procs)) = 4" "running demo_procs \<noteq> idle_thread demo_procs" "0x3000 \<in> set (thread_all_list demo_procs)"
    "parent_pid (tasks demo_procs (running demo_procs)) = pid (tasks demo_procs 0x3000)" "stat demo_procs 0x3000 = TASK_WAITING" "pid (tasks demo_procs 0x3000) \<noteq> 1"
    by (simp_all add: demo_procs_def demo_sched_def demo_task_def)
  then show ?thesis using exit_then_wait[OF demo_procs_ok, of "0x3000" 7] by auto
qed

end
