(* ===== verification/Syscall.thy ===== *)
theory Syscall
  imports Prelude
begin

text \<open>
  syscall.h, syscall.c, syscall-init.c and syscall_handler of kernel.asm: the numbers of the system calls, the
  functions a program calls, the table of the kernel and the way from one to the other through the registers.
  A handler is the address of a function, named here by its constructor; \<open>call\<close> stands for running one on its
  arguments, and the theories of the components say what that does. The functions of syscall.c have the suffix
  \<open>_stub\<close>. A pointer is a word.
\<close>

section \<open>The numbers\<close>

datatype SYSCALL_NR =
  SYS_GETPID | SYS_WRITE | SYS_MALLOC | SYS_FREE | SYS_FORK | SYS_READ | SYS_PUTCHAR
  | SYS_CLEAR | SYS_GETCWD | SYS_OPEN | SYS_CLOSE | SYS_LSEEK | SYS_UNLINK | SYS_MKDIR
  | SYS_OPENDIR | SYS_CLOSEDIR | SYS_CHDIR | SYS_RMDIR | SYS_READDIR | SYS_REWINDDIR | SYS_STAT
  | SYS_PS | SYS_EXECV | SYS_EXIT | SYS_WAIT | SYS_PIPE | SYS_FD_REDIRECT | SYS_HELP

fun nr :: "SYSCALL_NR \<Rightarrow> nat" where
  "nr SYS_GETPID = 0"
| "nr SYS_WRITE = 1"
| "nr SYS_MALLOC = 2"
| "nr SYS_FREE = 3"
| "nr SYS_FORK = 4"
| "nr SYS_READ = 5"
| "nr SYS_PUTCHAR = 6"
| "nr SYS_CLEAR = 7"
| "nr SYS_GETCWD = 8"
| "nr SYS_OPEN = 9"
| "nr SYS_CLOSE = 10"
| "nr SYS_LSEEK = 11"
| "nr SYS_UNLINK = 12"
| "nr SYS_MKDIR = 13"
| "nr SYS_OPENDIR = 14"
| "nr SYS_CLOSEDIR = 15"
| "nr SYS_CHDIR = 16"
| "nr SYS_RMDIR = 17"
| "nr SYS_READDIR = 18"
| "nr SYS_REWINDDIR = 19"
| "nr SYS_STAT = 20"
| "nr SYS_PS = 21"
| "nr SYS_EXECV = 22"
| "nr SYS_EXIT = 23"
| "nr SYS_WAIT = 24"
| "nr SYS_PIPE = 25"
| "nr SYS_FD_REDIRECT = 26"
| "nr SYS_HELP = 27"

section \<open>The handlers\<close>

datatype handler =
  Sys_getpid | Sys_write | Sys_malloc | Sys_free | Sys_fork | Sys_read | Sys_putchar
  | Cls_screen | Sys_getcwd | Sys_open | Sys_close | Sys_lseek | Sys_unlink | Sys_mkdir
  | Sys_opendir | Sys_closedir | Sys_chdir | Sys_rmdir | Sys_readdir | Sys_rewinddir | Sys_stat
  | Sys_ps | Sys_execv | Sys_exit | Sys_wait | Sys_pipe | Sys_fd_redirect | Sys_help

text \<open>The number of parameters of a handler's declaration. Each is a word on the stack; the handler reads no
  more of them.\<close>

fun params :: "handler \<Rightarrow> nat" where
  "params Sys_getpid = 0"
| "params Sys_write = 3"
| "params Sys_malloc = 1"
| "params Sys_free = 1"
| "params Sys_fork = 0"
| "params Sys_read = 3"
| "params Sys_putchar = 1"
| "params Cls_screen = 0"
| "params Sys_getcwd = 2"
| "params Sys_open = 2"
| "params Sys_close = 1"
| "params Sys_lseek = 3"
| "params Sys_unlink = 1"
| "params Sys_mkdir = 1"
| "params Sys_opendir = 1"
| "params Sys_closedir = 1"
| "params Sys_chdir = 1"
| "params Sys_rmdir = 1"
| "params Sys_readdir = 1"
| "params Sys_rewinddir = 1"
| "params Sys_stat = 2"
| "params Sys_ps = 0"
| "params Sys_execv = 2"
| "params Sys_exit = 1"
| "params Sys_wait = 1"
| "params Sys_pipe = 1"
| "params Sys_fd_redirect = 2"
| "params Sys_help = 0"

definition syscall_nr :: nat where "syscall_nr = 32"

text \<open>The table is in .bss: the entries that syscall_init does not set are NULL.\<close>

definition syscall_init :: "handler option list" where
  "syscall_init = fold (\<lambda>(n, h) t. t[nr n := Some h])
     [(SYS_GETPID, Sys_getpid), (SYS_WRITE, Sys_write), (SYS_MALLOC, Sys_malloc), (SYS_FREE, Sys_free),
      (SYS_FORK, Sys_fork), (SYS_READ, Sys_read), (SYS_PUTCHAR, Sys_putchar), (SYS_CLEAR, Cls_screen),
      (SYS_GETCWD, Sys_getcwd), (SYS_OPEN, Sys_open), (SYS_CLOSE, Sys_close), (SYS_LSEEK, Sys_lseek),
      (SYS_UNLINK, Sys_unlink), (SYS_MKDIR, Sys_mkdir), (SYS_OPENDIR, Sys_opendir), (SYS_CLOSEDIR, Sys_closedir),
      (SYS_CHDIR, Sys_chdir), (SYS_RMDIR, Sys_rmdir), (SYS_READDIR, Sys_readdir), (SYS_REWINDDIR, Sys_rewinddir),
      (SYS_STAT, Sys_stat), (SYS_PS, Sys_ps), (SYS_EXECV, Sys_execv), (SYS_EXIT, Sys_exit),
      (SYS_WAIT, Sys_wait), (SYS_PIPE, Sys_pipe), (SYS_FD_REDIRECT, Sys_fd_redirect), (SYS_HELP, Sys_help)]
     (replicate syscall_nr None)"

section \<open>The gate\<close>

record regs =
  reg_eax :: u32
  reg_ebx :: u32
  reg_ecx :: u32
  reg_edx :: u32

text \<open>The number in eax is not compared with the length of the table: for a larger one the processor calls
  what lies behind it, which has no defined result; neither has the call of NULL.\<close>

definition syscall_handler :: "(handler \<Rightarrow> u32 list \<Rightarrow> 's \<Rightarrow> (u32 \<times> 's) option) \<Rightarrow> regs \<Rightarrow> 's \<Rightarrow> (regs \<times> 's) option" where
  "syscall_handler call r s =
     do {
       ASSERT (unat (reg_eax r) < syscall_nr);
       h \<leftarrow> syscall_init ! unat (reg_eax r);
       (v, s) \<leftarrow> call h (take (params h) [reg_ebx r, reg_ecx r, reg_edx r]) s;
       Some (r\<lparr>reg_eax := v\<rparr>, s)
     }"

section \<open>The functions of a program\<close>

text \<open>The macros: the registers that are not set keep what they held.\<close>

type_synonym 's kernel = "regs \<Rightarrow> 's \<Rightarrow> (regs \<times> 's) option"

definition result :: "(regs \<times> 's) option \<Rightarrow> (u32 \<times> 's) option" where
  "result x = do { (r, s) \<leftarrow> x; Some (reg_eax r, s) }"

definition syscall0 :: "SYSCALL_NR \<Rightarrow> 's kernel \<Rightarrow> regs \<Rightarrow> 's \<Rightarrow> (u32 \<times> 's) option" where
  "syscall0 n int80 r s = result (int80 (r\<lparr>reg_eax := of_nat (nr n)\<rparr>) s)"

definition syscall1 :: "SYSCALL_NR \<Rightarrow> u32 \<Rightarrow> 's kernel \<Rightarrow> regs \<Rightarrow> 's \<Rightarrow> (u32 \<times> 's) option" where
  "syscall1 n a int80 r s = result (int80 (r\<lparr>reg_eax := of_nat (nr n), reg_ebx := a\<rparr>) s)"

definition syscall2 :: "SYSCALL_NR \<Rightarrow> u32 \<Rightarrow> u32 \<Rightarrow> 's kernel \<Rightarrow> regs \<Rightarrow> 's \<Rightarrow> (u32 \<times> 's) option" where
  "syscall2 n a b int80 r s = result (int80 (r\<lparr>reg_eax := of_nat (nr n), reg_ebx := a, reg_ecx := b\<rparr>) s)"

definition syscall3 :: "SYSCALL_NR \<Rightarrow> u32 \<Rightarrow> u32 \<Rightarrow> u32 \<Rightarrow> 's kernel \<Rightarrow> regs \<Rightarrow> 's \<Rightarrow> (u32 \<times> 's) option" where
  "syscall3 n a b c int80 r s = result (int80 (r\<lparr>reg_eax := of_nat (nr n), reg_ebx := a, reg_ecx := b, reg_edx := c\<rparr>) s)"

text \<open>The result of a function declared \<open>pid_t\<close> is cut to 16 bits, that of a void function is dropped.\<close>

definition as_pid :: "(u32 \<times> 's) option \<Rightarrow> ('p::len word \<times> 's) option" where
  "as_pid x = do { (v, s) \<leftarrow> x; Some (ucast v, s) }"

definition as_void :: "(u32 \<times> 's) option \<Rightarrow> (unit \<times> 's) option" where
  "as_void x = do { (_, s) \<leftarrow> x; Some ((), s) }"

definition getpid_stub :: "'s kernel \<Rightarrow> regs \<Rightarrow> 's \<Rightarrow> (u32 \<times> 's) option" where
  "getpid_stub int80 r s = syscall0 SYS_GETPID int80 r s"

definition write_stub :: "u32 \<Rightarrow> u32 \<Rightarrow> u32 \<Rightarrow> 's kernel \<Rightarrow> regs \<Rightarrow> 's \<Rightarrow> (u32 \<times> 's) option" where
  "write_stub fd buf count int80 r s = syscall3 SYS_WRITE fd buf count int80 r s"

definition malloc_stub :: "u32 \<Rightarrow> 's kernel \<Rightarrow> regs \<Rightarrow> 's \<Rightarrow> (u32 \<times> 's) option" where
  "malloc_stub sz int80 r s = syscall1 SYS_MALLOC sz int80 r s"

definition free_stub :: "u32 \<Rightarrow> 's kernel \<Rightarrow> regs \<Rightarrow> 's \<Rightarrow> (unit \<times> 's) option" where
  "free_stub ptr int80 r s = as_void (syscall1 SYS_FREE ptr int80 r s)"

definition fork_stub :: "'s kernel \<Rightarrow> regs \<Rightarrow> 's \<Rightarrow> (16 word \<times> 's) option" where
  "fork_stub int80 r s = as_pid (syscall0 SYS_FORK int80 r s)"

definition read_stub :: "u32 \<Rightarrow> u32 \<Rightarrow> u32 \<Rightarrow> 's kernel \<Rightarrow> regs \<Rightarrow> 's \<Rightarrow> (u32 \<times> 's) option" where
  "read_stub fd buf count int80 r s = syscall3 SYS_READ fd buf count int80 r s"

definition putchar_stub :: "u8 \<Rightarrow> 's kernel \<Rightarrow> regs \<Rightarrow> 's \<Rightarrow> (unit \<times> 's) option" where
  "putchar_stub char_asci int80 r s = as_void (syscall1 SYS_PUTCHAR (scast char_asci) int80 r s)"

definition clear_stub :: "'s kernel \<Rightarrow> regs \<Rightarrow> 's \<Rightarrow> (unit \<times> 's) option" where
  "clear_stub int80 r s = as_void (syscall0 SYS_CLEAR int80 r s)"

definition getcwd_stub :: "u32 \<Rightarrow> u32 \<Rightarrow> 's kernel \<Rightarrow> regs \<Rightarrow> 's \<Rightarrow> (u32 \<times> 's) option" where
  "getcwd_stub buf sz int80 r s = syscall2 SYS_GETCWD buf sz int80 r s"

definition open_stub :: "u32 \<Rightarrow> u8 \<Rightarrow> 's kernel \<Rightarrow> regs \<Rightarrow> 's \<Rightarrow> (u32 \<times> 's) option" where
  "open_stub pathname flag int80 r s = syscall2 SYS_OPEN pathname (ucast flag) int80 r s"

definition close_stub :: "u32 \<Rightarrow> 's kernel \<Rightarrow> regs \<Rightarrow> 's \<Rightarrow> (u32 \<times> 's) option" where
  "close_stub fd int80 r s = syscall1 SYS_CLOSE fd int80 r s"

definition lseek_stub :: "u32 \<Rightarrow> u32 \<Rightarrow> u8 \<Rightarrow> 's kernel \<Rightarrow> regs \<Rightarrow> 's \<Rightarrow> (u32 \<times> 's) option" where
  "lseek_stub fd offset whence int80 r s = syscall3 SYS_LSEEK fd offset (ucast whence) int80 r s"

definition unlink_stub :: "u32 \<Rightarrow> 's kernel \<Rightarrow> regs \<Rightarrow> 's \<Rightarrow> (u32 \<times> 's) option" where
  "unlink_stub pathname int80 r s = syscall1 SYS_UNLINK pathname int80 r s"

definition mkdir_stub :: "u32 \<Rightarrow> 's kernel \<Rightarrow> regs \<Rightarrow> 's \<Rightarrow> (u32 \<times> 's) option" where
  "mkdir_stub pathname int80 r s = syscall1 SYS_MKDIR pathname int80 r s"

definition opendir_stub :: "u32 \<Rightarrow> 's kernel \<Rightarrow> regs \<Rightarrow> 's \<Rightarrow> (u32 \<times> 's) option" where
  "opendir_stub dirname int80 r s = syscall1 SYS_OPENDIR dirname int80 r s"

definition closedir_stub :: "u32 \<Rightarrow> 's kernel \<Rightarrow> regs \<Rightarrow> 's \<Rightarrow> (u32 \<times> 's) option" where
  "closedir_stub dirp int80 r s = syscall1 SYS_CLOSEDIR dirp int80 r s"

definition rmdir_stub :: "u32 \<Rightarrow> 's kernel \<Rightarrow> regs \<Rightarrow> 's \<Rightarrow> (u32 \<times> 's) option" where
  "rmdir_stub pathname int80 r s = syscall1 SYS_RMDIR pathname int80 r s"

definition readdir_stub :: "u32 \<Rightarrow> 's kernel \<Rightarrow> regs \<Rightarrow> 's \<Rightarrow> (u32 \<times> 's) option" where
  "readdir_stub dirp int80 r s = syscall1 SYS_READDIR dirp int80 r s"

definition rewinddir_stub :: "u32 \<Rightarrow> 's kernel \<Rightarrow> regs \<Rightarrow> 's \<Rightarrow> (unit \<times> 's) option" where
  "rewinddir_stub dirp int80 r s = as_void (syscall1 SYS_REWINDDIR dirp int80 r s)"

definition stat_stub :: "u32 \<Rightarrow> u32 \<Rightarrow> 's kernel \<Rightarrow> regs \<Rightarrow> 's \<Rightarrow> (u32 \<times> 's) option" where
  "stat_stub path buf int80 r s = syscall2 SYS_STAT path buf int80 r s"

definition chdir_stub :: "u32 \<Rightarrow> 's kernel \<Rightarrow> regs \<Rightarrow> 's \<Rightarrow> (u32 \<times> 's) option" where
  "chdir_stub path int80 r s = syscall1 SYS_CHDIR path int80 r s"

definition ps_stub :: "'s kernel \<Rightarrow> regs \<Rightarrow> 's \<Rightarrow> (unit \<times> 's) option" where
  "ps_stub int80 r s = as_void (syscall0 SYS_PS int80 r s)"

definition execv_stub :: "u32 \<Rightarrow> u32 \<Rightarrow> 's kernel \<Rightarrow> regs \<Rightarrow> 's \<Rightarrow> (u32 \<times> 's) option" where
  "execv_stub pathname argv int80 r s = syscall2 SYS_EXECV pathname argv int80 r s"

definition exit_stub :: "u32 \<Rightarrow> 's kernel \<Rightarrow> regs \<Rightarrow> 's \<Rightarrow> (unit \<times> 's) option" where
  "exit_stub st int80 r s = as_void (syscall1 SYS_EXIT st int80 r s)"

definition wait_stub :: "u32 \<Rightarrow> 's kernel \<Rightarrow> regs \<Rightarrow> 's \<Rightarrow> (16 word \<times> 's) option" where
  "wait_stub st int80 r s = as_pid (syscall1 SYS_WAIT st int80 r s)"

definition pipe_stub :: "u32 \<Rightarrow> 's kernel \<Rightarrow> regs \<Rightarrow> 's \<Rightarrow> (u32 \<times> 's) option" where
  "pipe_stub pipefd int80 r s = syscall1 SYS_PIPE pipefd int80 r s"

definition fd_redirect_stub :: "u32 \<Rightarrow> u32 \<Rightarrow> 's kernel \<Rightarrow> regs \<Rightarrow> 's \<Rightarrow> (unit \<times> 's) option" where
  "fd_redirect_stub old_local_fd new_local_fd int80 r s = as_void (syscall2 SYS_FD_REDIRECT old_local_fd new_local_fd int80 r s)"

definition help_stub :: "'s kernel \<Rightarrow> regs \<Rightarrow> 's \<Rightarrow> (unit \<times> 's) option" where
  "help_stub int80 r s = as_void (syscall0 SYS_HELP int80 r s)"

section \<open>The way through the gate\<close>

lemma table_entry: "syscall_init ! nr n = Some (case n of
    SYS_GETPID \<Rightarrow> Sys_getpid
  | SYS_WRITE \<Rightarrow> Sys_write
  | SYS_MALLOC \<Rightarrow> Sys_malloc
  | SYS_FREE \<Rightarrow> Sys_free
  | SYS_FORK \<Rightarrow> Sys_fork
  | SYS_READ \<Rightarrow> Sys_read
  | SYS_PUTCHAR \<Rightarrow> Sys_putchar
  | SYS_CLEAR \<Rightarrow> Cls_screen
  | SYS_GETCWD \<Rightarrow> Sys_getcwd
  | SYS_OPEN \<Rightarrow> Sys_open
  | SYS_CLOSE \<Rightarrow> Sys_close
  | SYS_LSEEK \<Rightarrow> Sys_lseek
  | SYS_UNLINK \<Rightarrow> Sys_unlink
  | SYS_MKDIR \<Rightarrow> Sys_mkdir
  | SYS_OPENDIR \<Rightarrow> Sys_opendir
  | SYS_CLOSEDIR \<Rightarrow> Sys_closedir
  | SYS_CHDIR \<Rightarrow> Sys_chdir
  | SYS_RMDIR \<Rightarrow> Sys_rmdir
  | SYS_READDIR \<Rightarrow> Sys_readdir
  | SYS_REWINDDIR \<Rightarrow> Sys_rewinddir
  | SYS_STAT \<Rightarrow> Sys_stat
  | SYS_PS \<Rightarrow> Sys_ps
  | SYS_EXECV \<Rightarrow> Sys_execv
  | SYS_EXIT \<Rightarrow> Sys_exit
  | SYS_WAIT \<Rightarrow> Sys_wait
  | SYS_PIPE \<Rightarrow> Sys_pipe
  | SYS_FD_REDIRECT \<Rightarrow> Sys_fd_redirect
  | SYS_HELP \<Rightarrow> Sys_help)"
  by (cases n) (simp_all add: syscall_init_def syscall_nr_def)

lemma nr_less: "nr n < 32"
  by (cases n) simp_all

lemma number_back: "unat (of_nat (nr n) :: u32) = nr n"
  using nr_less[of n] by (simp add: unat_of_nat)

lemma result_of_call: "result (do { (v, s) \<leftarrow> x; Some (r\<lparr>reg_eax := v\<rparr>, s) }) = x"
  by (cases x) (auto simp: result_def)

lemma gate:
  assumes "reg_eax r = of_nat (nr n)" "syscall_init ! nr n = Some h"
  shows "result (syscall_handler call r s) = call h (take (params h) [reg_ebx r, reg_ecx r, reg_edx r]) s"
proof -
  have "unat (of_nat (nr n) :: u32) < 32" using number_back[of n] nr_less[of n] by simp
  then show ?thesis using assms result_of_call[of "call h (take (params h) [reg_ebx r, reg_ecx r, reg_edx r]) s" r]
    by (simp add: syscall_handler_def number_back syscall_nr_def del: One_nat_def)
qed

lemmas stub_defs = getpid_stub_def write_stub_def malloc_stub_def free_stub_def fork_stub_def read_stub_def putchar_stub_def clear_stub_def getcwd_stub_def open_stub_def close_stub_def lseek_stub_def unlink_stub_def mkdir_stub_def
  opendir_stub_def closedir_stub_def rmdir_stub_def readdir_stub_def rewinddir_stub_def stat_stub_def chdir_stub_def ps_stub_def execv_stub_def exit_stub_def wait_stub_def pipe_stub_def fd_redirect_stub_def help_stub_def

text \<open>C26: a system call made by a function of syscall.c runs the handler of its own name in the kernel, on
  exactly the arguments of the function in their order, whatever the other registers hold, and returns its
  result, cut to 16 bits by fork and wait; a char is passed with its sign, the flags of open and the origin of
  lseek without. The numbers behind the last call lead nowhere.\<close>
theorem syscall_reaches_handler:
  "getpid_stub (syscall_handler call) r s = call Sys_getpid [] s
    \<and> write_stub fd buf count (syscall_handler call) r s = call Sys_write [fd, buf, count] s
    \<and> malloc_stub sz (syscall_handler call) r s = call Sys_malloc [sz] s
    \<and> free_stub ptr (syscall_handler call) r s = as_void (call Sys_free [ptr] s)
    \<and> fork_stub (syscall_handler call) r s = as_pid (call Sys_fork [] s)
    \<and> read_stub fd buf count (syscall_handler call) r s = call Sys_read [fd, buf, count] s
    \<and> putchar_stub char_asci (syscall_handler call) r s = as_void (call Sys_putchar [(scast char_asci)] s)
    \<and> clear_stub (syscall_handler call) r s = as_void (call Cls_screen [] s)
    \<and> getcwd_stub buf sz (syscall_handler call) r s = call Sys_getcwd [buf, sz] s
    \<and> open_stub pathname flag (syscall_handler call) r s = call Sys_open [pathname, (ucast flag)] s
    \<and> close_stub fd (syscall_handler call) r s = call Sys_close [fd] s
    \<and> lseek_stub fd offset whence (syscall_handler call) r s = call Sys_lseek [fd, offset, (ucast whence)] s
    \<and> unlink_stub pathname (syscall_handler call) r s = call Sys_unlink [pathname] s
    \<and> mkdir_stub pathname (syscall_handler call) r s = call Sys_mkdir [pathname] s
    \<and> opendir_stub dirname (syscall_handler call) r s = call Sys_opendir [dirname] s
    \<and> closedir_stub dirp (syscall_handler call) r s = call Sys_closedir [dirp] s
    \<and> rmdir_stub pathname (syscall_handler call) r s = call Sys_rmdir [pathname] s
    \<and> readdir_stub dirp (syscall_handler call) r s = call Sys_readdir [dirp] s
    \<and> rewinddir_stub dirp (syscall_handler call) r s = as_void (call Sys_rewinddir [dirp] s)
    \<and> stat_stub path buf (syscall_handler call) r s = call Sys_stat [path, buf] s
    \<and> chdir_stub path (syscall_handler call) r s = call Sys_chdir [path] s
    \<and> ps_stub (syscall_handler call) r s = as_void (call Sys_ps [] s)
    \<and> execv_stub pathname argv (syscall_handler call) r s = call Sys_execv [pathname, argv] s
    \<and> exit_stub st (syscall_handler call) r s = as_void (call Sys_exit [st] s)
    \<and> wait_stub st (syscall_handler call) r s = as_pid (call Sys_wait [st] s)
    \<and> pipe_stub pipefd (syscall_handler call) r s = call Sys_pipe [pipefd] s
    \<and> fd_redirect_stub old_local_fd new_local_fd (syscall_handler call) r s = as_void (call Sys_fd_redirect [old_local_fd, new_local_fd] s)
    \<and> help_stub (syscall_handler call) r s = as_void (call Sys_help [] s)
    \<and> (28 \<le> unat (reg_eax r) \<longrightarrow> syscall_handler call r s = None)"
proof -
  have "syscall_init ! k = None" if "28 \<le> k" "k < 32" for k
  proof -
    have "k = 28 \<or> k = 29 \<or> k = 30 \<or> k = 31" using that by linarith
    then show ?thesis by (auto simp: syscall_init_def syscall_nr_def)
  qed
  then have "syscall_handler call r s = None" if "28 \<le> unat (reg_eax r)" using that
    by (cases "unat (reg_eax r) < 32") (simp_all add: syscall_handler_def syscall_nr_def)
  then show ?thesis
    by (simp add: stub_defs syscall0_def syscall1_def syscall2_def syscall3_def gate[OF _ table_entry] del: nr.simps)
qed

theorem syscall_reaches_handler_witness:
  "syscall_handler (\<lambda>_ _ s. Some (0, s)) \<lparr>reg_eax = 40, reg_ebx = 0, reg_ecx = 0, reg_edx = 0\<rparr> () = None"
  using syscall_reaches_handler[where call = "\<lambda>_ _ s. Some (0, s)" and r = "\<lparr>reg_eax = 40, reg_ebx = 0, reg_ecx = 0, reg_edx = 0\<rparr>" and s = "()"]
  by simp

end
