(* ===== verification/Irq.thy ===== *)
theory Irq
  imports Interrupt
begin

text \<open>
  interrupt.c, the rest: the programming of the two 8259A interrupt controllers, the table of handlers with the
  names of the exceptions, the handler of an interrupt nobody has asked for, and idt_init. Output to a port is
  the list of (port, byte) pairs, output to the screen the list of calls.
\<close>

section \<open>pic_init\<close>

definition PIC_M_CTRL :: nat where "PIC_M_CTRL = 0x20"
definition PIC_M_DATA :: nat where "PIC_M_DATA = 0x21"
definition PIC_S_CTRL :: nat where "PIC_S_CTRL = 0xa0"
definition PIC_S_DATA :: nat where "PIC_S_DATA = 0xa1"

definition pic_init :: "(nat \<times> u8) list" where
  "pic_init =
     [(PIC_M_CTRL, 0x11), (PIC_M_DATA, 0x20), (PIC_M_DATA, 0x04), (PIC_M_DATA, 0x01),
      (PIC_S_CTRL, 0x11), (PIC_S_DATA, 0x28), (PIC_S_DATA, 0x02), (PIC_S_DATA, 0x01),
      (PIC_M_DATA, 0xfe), (PIC_S_DATA, 0xff),
      (PIC_M_DATA, 0xf8), (PIC_S_DATA, 0xbf)]"

text \<open>What a controller makes of the bytes: a command with bit 4 starts the initialisation, the next three data
  bytes are the first vector, the wiring and the mode; every later data byte is the mask.\<close>

record pic =
  awaiting :: nat
  first_vector :: u8
  wiring :: u8
  mask_reg :: u8

definition pic_write :: "bool \<Rightarrow> u8 \<Rightarrow> pic \<Rightarrow> pic" where
  "pic_write ctrl b p =
     (if ctrl then (if bit b 4 then p\<lparr>awaiting := 3\<rparr> else p)
      else if awaiting p = 3 then p\<lparr>first_vector := b, awaiting := 2\<rparr>
      else if awaiting p = 2 then p\<lparr>wiring := b, awaiting := 1\<rparr>
      else if awaiting p = 1 then p\<lparr>awaiting := 0\<rparr>
      else p\<lparr>mask_reg := b\<rparr>)"

definition port_write :: "nat \<times> u8 \<Rightarrow> pic \<times> pic \<Rightarrow> pic \<times> pic" where
  "port_write pb ms =
     (let (port, b) = pb; (m, s) = ms in
      if port = PIC_M_CTRL \<or> port = PIC_M_DATA then (pic_write (port = PIC_M_CTRL) b m, s)
      else if port = PIC_S_CTRL \<or> port = PIC_S_DATA then (m, pic_write (port = PIC_S_CTRL) b s)
      else (m, s))"

text \<open>The vector that line \<open>irq\<close> raises: lines 8 to 15 are those of the second controller, which reaches the
  processor by line 2 of the first.\<close>

definition irq_vector :: "pic \<times> pic \<Rightarrow> nat \<Rightarrow> u8 option" where
  "irq_vector ms irq =
     (let (m, s) = ms in
      if irq < 8 then (if bit (mask_reg m) irq then None else Some (first_vector m + of_nat irq))
      else if irq < 16 \<and> \<not> bit (mask_reg m) 2 \<and> bit (wiring m) 2 \<and> wiring s = 2 \<and> \<not> bit (mask_reg s) (irq - 8)
      then Some (first_vector s + of_nat (irq - 8))
      else None)"

section \<open>exception_init\<close>

text \<open>The handlers are addresses, \<open>general\<close> that of general_intr_handler.\<close>

definition exception_names :: "string list" where
  "exception_names =
     [''#DE Divide Error'', ''#DB Debug Exception'', ''NMI Interrupt'', ''#BP Breakpoint Exception'',
      ''#OF Overflow Exception'', ''#BR BOUND Range Exceeded Exception'', ''#UD Invalid Opcode Exception'',
      ''#NM Device Not Available Exception'', ''#DF Double Fault Exception'', ''Coprocessor Segment Overrun'',
      ''#TS Invalid TSS Exception'', ''#NP Segment Not Present'', ''#SS Stack Fault Exception'',
      ''#GP General Protection Exception'', ''#PF Page-Fault Exception'', ''unknown'',
      ''#MF x87 FPU Floating-Point Error'', ''#AC Alignment Check Exception'', ''#MC Machine-Check Exception'',
      ''#XF SIMD Floating-Point Exception'']"

definition exception_init :: "u32 \<Rightarrow> u32 list \<times> string list" where
  "exception_init general =
     (replicate IDT_DESC_CNT general, exception_names @ replicate (IDT_DESC_CNT - length exception_names) ''unknown'')"

section \<open>general_intr_handler\<close>

datatype screen = Cursor nat | Blank | Text string | Newline_text string | Hex u32

text \<open>The handler returns on the two spurious vectors (None); otherwise it shows the exception, for a page fault
  with the address \<open>cr2\<close>, and never returns.\<close>

definition general_intr_handler :: "string list \<Rightarrow> u32 \<Rightarrow> u8 \<Rightarrow> screen list option" where
  "general_intr_handler intr_name cr2 vec_nr =
     (if vec_nr = 0x27 \<or> vec_nr = 0x2f then None
      else Some ([Cursor 0] @ replicate 320 Blank @ [Cursor 0, Text ''!!!!!!!      excetion message begin  !!!!!!!!'', Newline_text '''',
             Cursor 88, Text (intr_name ! unat vec_nr)]
           @ (if vec_nr = 14 then [Newline_text ''page fault addr is '', Hex cr2] else [])
           @ [Newline_text ''!!!!!!!      excetion message end    !!!!!!!!'', Newline_text '''']))"

section \<open>idt_init\<close>

record interrupts =
  gates :: "gate_desc list"
  handlers :: "u32 list"
  intr_names :: "string list"
  pics :: "pic \<times> pic"
  idt_operand :: "64 word"

definition idt_init :: "(nat \<Rightarrow> u32) \<Rightarrow> u32 \<Rightarrow> u32 \<Rightarrow> u32 \<Rightarrow> pic \<times> pic \<Rightarrow> interrupts" where
  "idt_init intr_entry_table syscall_handler general idt_addr ms =
     \<lparr>gates = idt_desc_init intr_entry_table syscall_handler,
      handlers = fst (exception_init general),
      intr_names = snd (exception_init general),
      pics = fold port_write pic_init ms,
      idt_operand = of_nat (8 * IDT_DESC_CNT - 1) OR push_bit 16 (ucast idt_addr)\<rparr>"

text \<open>After a handler was registered, the interrupt with number \<open>vec\<close> runs the one in the table.\<close>

fun register_all :: "(u8 \<times> u32) list \<Rightarrow> interrupts \<Rightarrow> interrupts option" where
  "register_all [] i = Some i"
| "register_all ((v, h) # hs) i = do { t \<leftarrow> register_handler v h (handlers i); register_all hs (i\<lparr>handlers := t\<rparr>) }"

section \<open>The interrupts of the devices\<close>

lemma pics_after_init: "fold port_write pic_init (m, s)
    = (m\<lparr>awaiting := 0, first_vector := 0x20, wiring := 4, mask_reg := 0xf8\<rparr>, s\<lparr>awaiting := 0, first_vector := 0x28, wiring := 2, mask_reg := 0xbf\<rparr>)"
  by (simp add: pic_init_def port_write_def pic_write_def PIC_M_CTRL_def PIC_M_DATA_def PIC_S_CTRL_def PIC_S_DATA_def)

lemma irq_vector_after_init: "irq_vector (fold port_write pic_init (m, s)) irq = map_of [(0, 0x20), (1, 0x21), (2, 0x22), (14, 0x2e)] irq"
proof (cases "irq < 16")
  case True
  then have "irq = 0 \<or> irq = 1 \<or> irq = 2 \<or> irq = 3 \<or> irq = 4 \<or> irq = 5 \<or> irq = 6 \<or> irq = 7 \<or> irq = 8 \<or> irq = 9 \<or> irq = 10 \<or> irq = 11
    \<or> irq = 12 \<or> irq = 13 \<or> irq = 14 \<or> irq = 15" by presburger
  then show ?thesis by (elim disjE) (simp_all add: pics_after_init irq_vector_def)
next
  case False
  then show ?thesis by (simp add: pics_after_init irq_vector_def)
qed

lemma length_exception_init: "length (fst (exception_init g)) = IDT_DESC_CNT" "length (snd (exception_init g)) = IDT_DESC_CNT"
  by (simp_all add: exception_init_def exception_names_def IDT_DESC_CNT_def)



end
