(* ===== verification/Exec.thy ===== *)
theory Exec
  imports Process
begin

text \<open>
  exec.c: loading an ELF file over the running process. The headers are byte strings as they lie in the file;
  a segment is read to the addresses it names, byte by byte through the page tables, in pages that
  \<open>get_a_page\<close> adds where none is mapped. The stacks of sys_open's callee are the arguments \<open>junk1\<close>, \<open>junk2\<close>,
  as in Fs.
\<close>

section \<open>Bytes in memory\<close>

text \<open>A byte of a little-endian word, and the word with a byte replaced.\<close>

definition set_byte :: "u32 \<Rightarrow> nat \<Rightarrow> u8 \<Rightarrow> u32" where
  "set_byte w k b = (w AND NOT (push_bit (8 * k) 0xFF)) OR push_bit (8 * k) (ucast b)"

definition store_byte :: "u32 \<Rightarrow> u8 \<Rightarrow> machine \<Rightarrow> machine option" where
  "store_byte v b m = (let a = v AND NOT 3 in do { w \<leftarrow> load a m; store a (set_byte w (unat (v AND 3)) b) m })"

fun store_bytes :: "u32 \<Rightarrow> u8 list \<Rightarrow> machine \<Rightarrow> machine option" where
  "store_bytes v [] m = Some m"
| "store_bytes v (b # bs) m = do { m \<leftarrow> store_byte v b m; store_bytes (v + 1) bs m }"

section \<open>Headers\<close>

record Elf32_Ehdr =
  e_ident :: "u8 list"
  e_type :: nat
  e_machine :: nat
  e_version :: nat
  e_entry :: nat
  e_phoff :: nat
  e_phentsize :: nat
  e_phnum :: nat

record Elf32_Phdr =
  p_type :: nat
  p_offset :: nat
  p_vaddr :: nat
  p_filesz :: nat

definition u16_at :: "u8 list \<Rightarrow> nat \<Rightarrow> nat" where
  "u16_at bs k = unat (bs ! k) + 256 * unat (bs ! (k + 1))"

definition ehdr_of :: "u8 list \<Rightarrow> Elf32_Ehdr" where
  "ehdr_of bs = \<lparr>e_ident = take 16 bs, e_type = u16_at bs 16, e_machine = u16_at bs 18, e_version = u32_at bs 20, e_entry = u32_at bs 24,
     e_phoff = u32_at bs 28, e_phentsize = u16_at bs 42, e_phnum = u16_at bs 44\<rparr>"

definition phdr_of :: "u8 list \<Rightarrow> Elf32_Phdr" where
  "phdr_of bs = \<lparr>p_type = u32_at bs 0, p_offset = u32_at bs 4, p_vaddr = u32_at bs 8, p_filesz = u32_at bs 16\<rparr>"

definition PT_LOAD :: nat where "PT_LOAD = 1"
definition sizeof_ehdr :: nat where "sizeof_ehdr = 52"
definition sizeof_phdr :: nat where "sizeof_phdr = 32"

text \<open>The check of the header: the magic, an executable for the 386, version 1, entries of the right size.\<close>

definition elf_valid :: "Elf32_Ehdr \<Rightarrow> bool" where
  "elf_valid h \<longleftrightarrow> take 7 (e_ident h) = [0x7f, 0x45, 0x4c, 0x46, 1, 1, 1] \<and> e_type h = 2 \<and> e_machine h = 3 \<and> e_version h = 1
     \<and> e_phnum h \<le> 1024 \<and> e_phentsize h = sizeof_phdr"

section \<open>Loading\<close>

definition lift_fs :: "(fs \<Rightarrow> ('a \<times> fs) option) \<Rightarrow> os \<Rightarrow> ('a \<times> os) option" where
  "lift_fs act s = do { (r, f) \<leftarrow> act (fsys (sys s)); Some (r, set_fs f s) }"

definition lift_io :: "(io \<Rightarrow> ('a \<times> io) option) \<Rightarrow> os \<Rightarrow> ('a \<times> os) option" where
  "lift_io act s = do { (r, i) \<leftarrow> act (sys s); Some (r, s\<lparr>sys := i\<rparr>) }"

text \<open>sys_read into the memory of the process.\<close>

definition read_to :: "int \<Rightarrow> u32 \<Rightarrow> nat \<Rightarrow> os \<Rightarrow> (int \<times> os) option" where
  "read_to fd vaddr n s =
     do {
       (r, s) \<leftarrow> lift_io (\<lambda>i. do { (r, bs, i) \<leftarrow> sys_read fd n i; Some ((r, bs), i) }) s;
       m \<leftarrow> store_bytes vaddr (snd r) (mach (mem_of s));
       Some (fst r, set_mach m s)
     }"

text \<open>The pages a segment of \<open>filesz\<close> bytes at \<open>vaddr\<close> takes, in the 32-bit arithmetic of the code.\<close>

definition occupy_pages :: "u32 \<Rightarrow> u32 \<Rightarrow> u32" where
  "occupy_pages vaddr filesz =
     (let size_in_first_page = 4096 - (vaddr AND 0x00000fff) in
      if size_in_first_page < filesz then (filesz - size_in_first_page + 4096 - 1) div 4096 + 1 else 1)"

text \<open>The loop over the pages; the flag is False when a page could not be had.\<close>

fun load_pages :: "nat \<Rightarrow> u32 \<Rightarrow> os \<Rightarrow> (bool \<times> os) option" where
  "load_pages 0 vaddr_page s = Some (True, s)"
| "load_pages (Suc n) vaddr_page s =
     do {
       pde \<leftarrow> load (pde_ptr vaddr_page) (mach (mem_of s));
       missing \<leftarrow> (if pde AND 0x00000001 = 0 then Some True
         else do { pte \<leftarrow> load (pte_ptr vaddr_page) (mach (mem_of s)); Some (pte AND 0x00000001 = 0) });
       (ok, s) \<leftarrow> (if missing then do { (v, m) \<leftarrow> get_a_page PF_USER vaddr_page (mem_of s); Some (v \<noteq> 0, set_mem m s) } else Some (True, s));
       if ok then load_pages n (vaddr_page + PG_SIZE) s else Some (False, s)
     }"

definition segment_load :: "int \<Rightarrow> nat \<Rightarrow> nat \<Rightarrow> nat \<Rightarrow> os \<Rightarrow> (bool \<times> os) option" where
  "segment_load fd offset filesz vaddr s =
     (let v = of_nat vaddr :: u32 in do {
        (ok, s) \<leftarrow> load_pages (unat (occupy_pages v (of_nat filesz))) (v AND 0xfffff000) s;
        if \<not> ok then Some (False, s)
        else do {
          (_, s) \<leftarrow> lift_fs (sys_lseek fd (s32 offset) SEEK_SET) s;
          (_, s) \<leftarrow> read_to fd v filesz s;
          Some (True, s)
        }
      })"

text \<open>sys_read into a variable of the kernel stack, cleared before: a short read leaves the rest 0.\<close>

definition read_bytes :: "int \<Rightarrow> nat \<Rightarrow> os \<Rightarrow> (int \<times> u8 list \<times> os) option" where
  "read_bytes fd n s =
     do {
       (r, s) \<leftarrow> lift_io (\<lambda>i. do { (r, bs, i) \<leftarrow> sys_read fd n i; Some ((r, bs), i) }) s;
       Some (fst r, blit (replicate n 0) 0 (snd r), s)
     }"

text \<open>The loop over the program headers, \<open>n\<close> of which are left; the offset is a number of 32 bits.\<close>

fun load_segments :: "int \<Rightarrow> nat \<Rightarrow> nat \<Rightarrow> os \<Rightarrow> (bool \<times> os) option" where
  "load_segments fd 0 prog_header_offset s = Some (True, s)"
| "load_segments fd (Suc n) prog_header_offset s =
     do {
       (_, s) \<leftarrow> lift_fs (sys_lseek fd (s32 prog_header_offset) SEEK_SET) s;
       (r, bs, s) \<leftarrow> read_bytes fd sizeof_phdr s;
       if r \<noteq> int sizeof_phdr then Some (False, s)
       else let h = phdr_of bs in do {
         (ok, s) \<leftarrow> (if p_type h = PT_LOAD then segment_load fd (p_offset h) (p_filesz h) (p_vaddr h) s else Some (True, s));
         if ok then load_segments fd n (W32 (prog_header_offset + sizeof_phdr)) s else Some (False, s)
       }
     }"

definition O_RDONLY :: nat where "O_RDONLY = 0"

definition load_prog :: "u8 list \<Rightarrow> u8 list \<Rightarrow> cstring \<Rightarrow> os \<Rightarrow> (int \<times> os) option" where
  "load_prog junk1 junk2 pathname s =
     do {
       (fd, s) \<leftarrow> lift_fs (sys_open junk1 junk2 pathname O_RDONLY) s;
       if fd = -1 then Some (-1, s)
       else do {
         (r, bs, s) \<leftarrow> read_bytes fd sizeof_ehdr s;
         (ret, s) \<leftarrow>
           (if r \<noteq> int sizeof_ehdr then Some (-1, s)
            else let h = ehdr_of bs in
              if \<not> elf_valid h then Some (-1, s)
              else do { (ok, s) \<leftarrow> load_segments fd (e_phnum h) (e_phoff h) s; Some (if ok then s32 (e_entry h) else -1, s) });
         (_, s) \<leftarrow> lift_io (sys_close fd) s;
         Some (ret, s)
       }
     }"

text \<open>The name of the process is 16 bytes from the path, which may have no NUL among them; \<open>path_bytes\<close> is the
  memory from the path on. A call that succeeds goes on at the entry point and does not return: the result is
  then None and the state that of the new program.\<close>

definition sys_execv :: "u8 list \<Rightarrow> u8 list \<Rightarrow> u8 list \<Rightarrow> u32 \<Rightarrow> u32 \<Rightarrow> os \<Rightarrow> (int option \<times> os) option" where
  "sys_execv junk1 junk2 path_bytes argv argc s =
     do {
       path \<leftarrow> buf_str path_bytes;
       (entry_point, s) \<leftarrow> load_prog junk1 junk2 path s;
       if entry_point = -1 then Some (Some (-1), s)
       else let cur = cur_of s; intr_0_stack = cur + PG_SIZE - 19 * 4;
                s = on_task cur (\<lambda>p. p\<lparr>pname := map (\<lambda>b. char_of (unat b)) (take 16 path_bytes)\<rparr>) s in
         Some (None, s\<lparr>istacks := (istacks s)(intr_0_stack := (istacks s intr_0_stack)\<lparr>is_ebx := argv, is_ecx := argc,
           is_eip := of_int entry_point, is_esp := 0xc0000000\<rparr>)\<rparr>)
     }"

end
