(* ===== verification/Ps.thy ===== *)
theory Ps
  imports Process Stdio
begin

text \<open>
  thread.c, the rest: the list of the threads that \<open>sys_ps\<close> prints, the idle thread and \<open>thread_init\<close>. A
  formatted text is the expansion that Stdio shows \<open>vsprintf\<close> to write. \<open>pad_print\<close> gets a pointer and reads
  as much as its format says: for \<open>%x\<close> the four bytes from there on.
\<close>

section \<open>Columns\<close>

text \<open>What the pointer leads to: a string, two bytes that are the first of four, or four bytes.\<close>

datatype cell = Cell_s "u8 list" | Cell_d "16 word" u32 | Cell_x u32

text \<open>\<open>sprintf\<close> does not end its text with a NUL: on a longer text the rest of that stays.\<close>

definition sprintf_over :: "u8 list \<Rightarrow> u8 list \<Rightarrow> u8 list" where
  "sprintf_over old t = t @ drop (length t) old"

text \<open>The case \<open>d\<close> has no break and goes on with the case \<open>x\<close>.\<close>

fun pad_text :: "cell \<Rightarrow> u8 list option" where
  "pad_text (Cell_s t) = expand (text_bytes ''%s'') [AStr t]"
| "pad_text (Cell_d h w) =
     do {
       d \<leftarrow> expand (text_bytes ''%d'') [AInt (scast h)];
       x \<leftarrow> expand (text_bytes ''%x'') [AInt w];
       Some (sprintf_over d x)
     }"
| "pad_text (Cell_x w) = expand (text_bytes ''%x'') [AInt w]"

definition pad_print :: "nat \<Rightarrow> cell \<Rightarrow> io \<Rightarrow> io option" where
  "pad_print buf_len c s =
     do {
       buf \<leftarrow> pad_text c;
       ASSERT (length buf < buf_len);
       (_, s) \<leftarrow> sys_write 1 (take (buf_len - 1) (buf @ replicate (buf_len - length buf) 0x20)) s;
       Some s
     }"

section \<open>sys_ps\<close>

fun status_name :: "task_status \<Rightarrow> string" where
  "status_name TASK_RUNNING = ''RUNNING''"
| "status_name TASK_READY = ''READY''"
| "status_name TASK_BLOCKED = ''BLOCKED''"
| "status_name TASK_WAITING = ''WAITING''"
| "status_name TASK_HANGING = ''HANGING''"
| "status_name TASK_DIED = ''DIED''"

text \<open>Behind \<open>pid\<close> lie two bytes of padding, which are 0 from the clearing of the PCB on; behind \<open>parent_pid\<close>
  the exit status and one byte of padding. The name and a newline have to fit in 16 bytes with the NUL.\<close>

definition pid_cell :: "task_struct \<Rightarrow> cell" where
  "pid_cell p = Cell_d (pid p) (ucast (pid p))"

definition parent_cell :: "task_struct \<Rightarrow> cell" where
  "parent_cell p =
     (if parent_pid p = -1 then Cell_s (text_bytes ''NULL'')
      else Cell_d (parent_pid p) (ucast (parent_pid p) OR push_bit 16 (ucast (exit_status p))))"

definition name_bytes :: "task_struct \<Rightarrow> u8 list" where
  "name_bytes p = takeWhile (\<lambda>c. c \<noteq> 0) (text_bytes (pname p))"

definition elem2thread_info :: "u32 \<Rightarrow> io \<Rightarrow> io option" where
  "elem2thread_info t s =
     do {
       s \<leftarrow> pad_print 16 (pid_cell (tasks (threads s) t)) s;
       s \<leftarrow> pad_print 16 (parent_cell (tasks (threads s) t)) s;
       s \<leftarrow> pad_print 16 (Cell_s (text_bytes (status_name (stat (threads s) t)))) s;
       s \<leftarrow> pad_print 16 (Cell_x (elapsed_ticks (tasks (threads s) t))) s;
       ASSERT (length (name_bytes (tasks (threads s) t)) < 15);
       (_, s) \<leftarrow> sys_write 1 (name_bytes (tasks (threads s) t) @ [0x0a]) s;
       Some s
     }"

fun print_threads :: "u32 list \<Rightarrow> io \<Rightarrow> io option" where
  "print_threads [] s = Some s"
| "print_threads (t # ts) s = do { s \<leftarrow> elem2thread_info t s; print_threads ts s }"

definition ps_title :: "u8 list" where
  "ps_title = text_bytes ''PID            PPID           STAT           TICKS          COMMAND'' @ [0x0a]"

definition sys_ps :: "io \<Rightarrow> io option" where
  "sys_ps s =
     do {
       (_, s) \<leftarrow> sys_write 1 ps_title s;
       print_threads (thread_all_list (threads s)) s
     }"

definition sys_getpid :: "os \<Rightarrow> u32" where
  "sys_getpid s = scast (pid (tasks (sched_of s) (cur_of s)))"

section \<open>The idle thread and the start of the threads\<close>

text \<open>A round of the idle thread blocks it; when it runs again it lets interrupts in and halts until the next.\<close>

definition idle_block :: "sched \<Rightarrow> sched option" where
  "idle_block k = thread_block TASK_BLOCKED k"

definition idle_halt :: "sched \<Rightarrow> sched" where
  "idle_halt k = k\<lparr>eflags_reg := eflags_reg k OR EFLAGS_IF\<rparr>"

text \<open>The arguments are the addresses of the functions and the stack pointer.\<close>

definition thread_init :: "u32 \<Rightarrow> u32 \<Rightarrow> u32 \<Rightarrow> u32 \<Rightarrow> u32 \<Rightarrow> os \<Rightarrow> os option" where
  "thread_init kernel_thread start_process_addr init_addr idle_addr esp s =
     do {
       s \<leftarrow> process_execute kernel_thread start_process_addr init_addr ''init''
             (set_sched (pid_pool_init ((sched_of s)\<lparr>thread_ready_list := [], thread_all_list := []\<rparr>)) s);
       k \<leftarrow> make_main_thread esp (sched_of s);
       (t, s) \<leftarrow> kernel_pages 1 (set_sched k s);
       k \<leftarrow> thread_start kernel_thread t ''idle'' 10 idle_addr 0 (sched_of s);
       Some (set_sched (k\<lparr>idle_thread := t\<rparr>) s)
     }"

end
