(* ===== verification/Command.thy ===== *)
theory Command
  imports Exec Wait Ps Shell
begin

text \<open>
  buildin_cmd.c, the rest of shell.c and main.c: the commands of the shell, the line it runs, and the loop of
  init. A function of syscall.c is the handler it leads to (Syscall). The variables of the shell are those of
  its process: a fork copies them, so the state has them beside the machine. A buffer with a path is the string
  in it. A command that waits for a child leaves the processor: the shell goes on with the jobs that are left
  when it runs again. A failed assertion and a panic have no outcome.
\<close>

record shell =
  kern :: os
  final_path :: cstring
  cwd_cache :: cstring

section \<open>Output\<close>

text \<open>The text has to fit in the buffer of 1024 bytes of \<open>printf\<close>.\<close>

definition user_printf :: "string \<Rightarrow> arg list \<Rightarrow> shell \<Rightarrow> shell option" where
  "user_printf fmt args s =
     do {
       t \<leftarrow> expand (text_bytes fmt) args;
       ASSERT (length t < 1024 \<and> 0 \<notin> set t);
       (_, k) \<leftarrow> lift_io (sys_write 1 t) (kern s);
       Some (s\<lparr>kern := k\<rparr>)
     }"

definition sys_putchar :: "u8 \<Rightarrow> io \<Rightarrow> io" where
  "sys_putchar char_asci s = s\<lparr>printed := printed s @ [char_asci]\<rparr>"

text \<open>\<open>printed\<close> is the text on the screen: clearing it starts anew.\<close>

definition cls_screen :: "io \<Rightarrow> io" where
  "cls_screen s = s\<lparr>printed := []\<rparr>"

definition help_text :: string where
  "help_text =
     '' buildin commands:'' @ [CHR 0x0a] @
     ''       ls: show directory or file information'' @ [CHR 0x0a] @
     ''       cd: change current work directory'' @ [CHR 0x0a] @
     ''       mkdir: create a directory'' @ [CHR 0x0a] @
     ''       rmdir: remove a empty directory'' @ [CHR 0x0a] @
     ''       rm: remove a regular file'' @ [CHR 0x0a] @
     ''       pwd: show current work directory'' @ [CHR 0x0a] @
     ''       ps: show process information'' @ [CHR 0x0a] @
     ''       clear: clear screen'' @ [CHR 0x0a] @
     '' shortcut key:'' @ [CHR 0x0a] @
     ''       ctrl+l: clear screen'' @ [CHR 0x0a] @
     ''       ctrl+u: clear input'' @ [CHR 0x0a, CHR 0x0a]"

definition sys_help :: "io \<Rightarrow> io option" where
  "sys_help s = do { t \<leftarrow> expand (text_bytes help_text) []; Some (s\<lparr>printed := printed s @ t\<rparr>) }"

definition on_io :: "(io \<Rightarrow> io option) \<Rightarrow> shell \<Rightarrow> shell option" where
  "on_io act s = do { i \<leftarrow> act (sys (kern s)); Some (s\<lparr>kern := (kern s)\<lparr>sys := i\<rparr>\<rparr>) }"

definition on_fs :: "(fs \<Rightarrow> ('a \<times> fs) option) \<Rightarrow> shell \<Rightarrow> ('a \<times> shell) option" where
  "on_fs act s = do { (r, k) \<leftarrow> lift_fs act (kern s); Some (r, s\<lparr>kern := k\<rparr>) }"

section \<open>buildin_cmd.c\<close>

text \<open>make_clear_abs_path with the call of getcwd, into \<open>final_path\<close>.\<close>

definition final_of :: "cstring \<Rightarrow> shell \<Rightarrow> shell option" where
  "final_of path s =
     do {
       (cwd, s) \<leftarrow> (if path = [] \<or> hd path \<noteq> SLASH then on_fs (sys_getcwd MAX_PATH_LEN) s else Some (None, s));
       p \<leftarrow> make_clear_abs_path cwd path;
       Some (s\<lparr>final_path := p\<rparr>)
     }"

definition buildin_pwd :: "int \<Rightarrow> shell \<Rightarrow> shell option" where
  "buildin_pwd argc s =
     (if argc \<noteq> 1 then do { s \<leftarrow> user_printf ''pwd: no argument support!'' [] s; user_printf [CHR 0x0a] [] s }
      else do {
        (p, s) \<leftarrow> on_fs (sys_getcwd MAX_PATH_LEN) s;
        case p of
          Some p \<Rightarrow> do { s \<leftarrow> user_printf ''%s'' [AStr p] (s\<lparr>final_path := p\<rparr>); user_printf [CHR 0x0a] [] s }
        | None \<Rightarrow> do { s \<leftarrow> user_printf ''pwd: get current work directory failed.'' [] s; user_printf [CHR 0x0a] [] s }
      })"

text \<open>The flag is False for NULL.\<close>

definition buildin_cd :: "int \<Rightarrow> cstring option list \<Rightarrow> shell \<Rightarrow> (bool \<times> shell) option" where
  "buildin_cd argc argv s =
     (if argc > 2 then do { s \<leftarrow> user_printf ''cd: only support 1 argument!'' [] s; s \<leftarrow> user_printf [CHR 0x0a] [] s; Some (False, s) }
      else do {
        s \<leftarrow> (if argc = 1 then Some (s\<lparr>final_path := [SLASH]\<rparr>) else do { a \<leftarrow> argv ! 1; final_of a s });
        (r, s) \<leftarrow> on_fs (sys_chdir (final_path s)) s;
        if r = -1
        then do { s \<leftarrow> user_printf (''cd: no such directory %s'' @ [CHR 0x0a]) [AStr (final_path s)] s; Some (False, s) }
        else Some (True, s)
      })"

datatype ls_opts = Usage | Invalid cstring | Two_paths | Listing bool "cstring option"

fun ls_options :: "cstring list \<Rightarrow> bool \<Rightarrow> cstring option \<Rightarrow> ls_opts" where
  "ls_options [] long_info pathname = Listing long_info pathname"
| "ls_options (a # as) long_info pathname =
     (if a \<noteq> [] \<and> hd a = 0x2d
      then if a = text_bytes ''-l'' then ls_options as True pathname
        else if a = text_bytes ''-h'' then Usage
        else Invalid a
      else if pathname = None then ls_options as long_info (Some a)
      else Two_paths)"

text \<open>The loops over the directory \<open>d\<close>; \<open>prefix\<close> is \<open>sub_pathname\<close> up to the slash. An entry that cannot be
  looked up ends \<open>ls\<close> with the directory open: the flag is then False.\<close>

partial_function (option) ls_long :: "nat option \<Rightarrow> cstring \<Rightarrow> shell \<Rightarrow> (bool \<times> shell) option" where
  "ls_long d prefix s =
     do {
       (e, s) \<leftarrow> on_fs (sys_readdir d) s;
       case e of None \<Rightarrow> Some (True, s)
       | Some dir_e \<Rightarrow> do {
           fname \<leftarrow> buf_str (filename dir_e);
           ASSERT (length (prefix @ fname) < MAX_PATH_LEN);
           (r, s) \<leftarrow> on_fs (\<lambda>f. do { (r, st, f) \<leftarrow> sys_stat (prefix @ fname) f; Some ((r, st), f) }) s;
           case snd r of
             None \<Rightarrow> do {
               s \<leftarrow> user_printf ''ls: cannot access %s: No such file or directory'' [AStr fname] s;
               s \<leftarrow> user_printf [CHR 0x0a] [] s;
               Some (False, s)
             }
           | Some st \<Rightarrow> do {
               s \<leftarrow> user_printf (''%c  %d  %d  %s'' @ [CHR 0x0a])
                     [AChar (if f_type dir_e = FT_REGULAR then 0x2d else 0x64), AInt (of_nat (e_ino dir_e)), AInt (of_nat (st_size st)), AStr fname] s;
               ls_long d prefix s
             }
         }
     }"

partial_function (option) ls_short :: "nat option \<Rightarrow> shell \<Rightarrow> shell option" where
  "ls_short d s =
     do {
       (e, s) \<leftarrow> on_fs (sys_readdir d) s;
       case e of None \<Rightarrow> user_printf [CHR 0x0a] [] s
       | Some dir_e \<Rightarrow> do {
           fname \<leftarrow> buf_str (filename dir_e);
           s \<leftarrow> user_printf ''%s '' [AStr fname] s;
           ls_short d s
         }
     }"

text \<open>A directory that cannot be opened is not checked for.\<close>

definition ls_directory :: "bool \<Rightarrow> cstring \<Rightarrow> Fs.stat \<Rightarrow> shell \<Rightarrow> shell option" where
  "ls_directory long_info pathname file_stat s =
     do {
       (d, s) \<leftarrow> on_fs (sys_opendir pathname) s;
       ASSERT (pathname \<noteq> [] \<and> length pathname < MAX_PATH_LEN);
       dd \<leftarrow> d;
       (_, s) \<leftarrow> on_fs (\<lambda>f. do { f \<leftarrow> sys_rewinddir dd f; Some ((), f) }) s;
       (fin, s) \<leftarrow>
         (if long_info
          then do {
            s \<leftarrow> user_printf ''total: %d'' [AInt (of_nat (st_size file_stat))] s;
            s \<leftarrow> user_printf [CHR 0x0a] [] s;
            ls_long d (if last pathname = SLASH then pathname else pathname @ [SLASH]) s
          }
          else do { s \<leftarrow> ls_short d s; Some (True, s) });
       if fin then do { (_, s) \<leftarrow> on_fs (sys_closedir d) s; Some s } else Some s
     }"

definition ls_path :: "bool \<Rightarrow> cstring \<Rightarrow> shell \<Rightarrow> shell option" where
  "ls_path long_info pathname s =
     do {
       (r, s) \<leftarrow> on_fs (\<lambda>f. do { (r, st, f) \<leftarrow> sys_stat pathname f; Some ((r, st), f) }) s;
       case snd r of
         None \<Rightarrow> do {
           s \<leftarrow> user_printf ''ls: cannot access %s: No such file or directory'' [AStr pathname] s;
           user_printf [CHR 0x0a] [] s
         }
       | Some st \<Rightarrow>
           if st_filetype st = FT_DIRECTORY then ls_directory long_info pathname st s
           else do {
             s \<leftarrow> (if long_info then user_printf ''-  %d  %d  %s'' [AInt (of_int (st_ino st)), AInt (of_nat (st_size st)), AStr pathname] s
                   else user_printf ''%s'' [AStr pathname] s);
             user_printf [CHR 0x0a] [] s
           }
     }"

definition buildin_ls :: "int \<Rightarrow> cstring option list \<Rightarrow> shell \<Rightarrow> shell option" where
  "buildin_ls argc argv s =
     (case ls_options (map the (take (nat (argc - 1)) (tl argv))) False None of
        Usage \<Rightarrow> do {
          s \<leftarrow> user_printf ''usage: -l list all infomation about the file.'' [] s;
          s \<leftarrow> user_printf [CHR 0x0a] [] s;
          s \<leftarrow> user_printf ''-h for help'' [] s;
          s \<leftarrow> user_printf [CHR 0x0a] [] s;
          s \<leftarrow> user_printf ''list all files in the current dirctory if no option'' [] s;
          user_printf [CHR 0x0a] [] s
        }
      | Invalid a \<Rightarrow> do {
          s \<leftarrow> user_printf ''ls: invalid option %s'' [AStr a] s;
          s \<leftarrow> user_printf [CHR 0x0a] [] s;
          s \<leftarrow> user_printf (''Try '' @ [CHR 0x60] @ ''ls -h'' @ [CHR 0x27] @ '' for more information.'') [] s;
          user_printf [CHR 0x0a] [] s
        }
      | Two_paths \<Rightarrow> do { s \<leftarrow> user_printf ''ls: only support one path'' [] s; user_printf [CHR 0x0a] [] s }
      | Listing long_info None \<Rightarrow> do {
          (p, s) \<leftarrow> on_fs (sys_getcwd MAX_PATH_LEN) s;
          case p of
            Some p \<Rightarrow> ls_path long_info p (s\<lparr>final_path := p\<rparr>)
          | None \<Rightarrow> do { s \<leftarrow> user_printf ''ls: getcwd for default path failed'' [] s; user_printf [CHR 0x0a] [] s }
        }
      | Listing long_info (Some p) \<Rightarrow> do { s \<leftarrow> final_of p s; ls_path long_info (final_path s) s })"

definition buildin_ps :: "int \<Rightarrow> shell \<Rightarrow> shell option" where
  "buildin_ps argc s =
     (if argc \<noteq> 1 then do { s \<leftarrow> user_printf ''ps: no argument support!'' [] s; user_printf [CHR 0x0a] [] s } else on_io sys_ps s)"

definition buildin_clear :: "int \<Rightarrow> shell \<Rightarrow> shell option" where
  "buildin_clear argc s =
     (if argc \<noteq> 1 then do { s \<leftarrow> user_printf ''clear: no argument support!'' [] s; user_printf [CHR 0x0a] [] s }
      else on_io (\<lambda>i. Some (cls_screen i)) s)"

text \<open>mkdir, rmdir and rm do the same with the path of their argument, unless it is the root.\<close>

definition path_command :: "(cstring \<Rightarrow> fs \<Rightarrow> (int \<times> fs) option) \<Rightarrow> string \<Rightarrow> string \<Rightarrow> int \<Rightarrow> cstring option list \<Rightarrow> shell \<Rightarrow> (int \<times> shell) option" where
  "path_command act usage failed argc argv s =
     (if argc \<noteq> 2 then do { s \<leftarrow> user_printf usage [] s; s \<leftarrow> user_printf [CHR 0x0a] [] s; Some (-1, s) }
      else do {
        a \<leftarrow> argv ! 1;
        s \<leftarrow> final_of a s;
        if final_path s = [SLASH] then Some (-1, s)
        else do {
          (r, s) \<leftarrow> on_fs (act (final_path s)) s;
          if r = 0 then Some (0, s)
          else do { s \<leftarrow> user_printf failed [AStr a] s; s \<leftarrow> user_printf [CHR 0x0a] [] s; Some (-1, s) }
        }
      })"

definition buildin_mkdir :: "u8 list \<Rightarrow> u8 list \<Rightarrow> int \<Rightarrow> cstring option list \<Rightarrow> shell \<Rightarrow> (int \<times> shell) option" where
  "buildin_mkdir junk1 junk2 = path_command (sys_mkdir junk1 junk2) ''mkdir: only support 1 argument!'' ''mkdir: create directory %s failed.''"

definition buildin_rmdir :: "int \<Rightarrow> cstring option list \<Rightarrow> shell \<Rightarrow> (int \<times> shell) option" where
  "buildin_rmdir = path_command sys_rmdir ''rmdir: only support 1 argument!'' ''rmdir: remove %s failed.''"

definition buildin_rm :: "int \<Rightarrow> cstring option list \<Rightarrow> shell \<Rightarrow> (int \<times> shell) option" where
  "buildin_rm = path_command sys_unlink ''rm: only support 1 argument!'' ''rm: delete %s failed.''"

definition buildin_help :: "shell \<Rightarrow> shell option" where
  "buildin_help s = on_io sys_help s"

end
