(* ===== verification/Session.thy ===== *)
theory Session
  imports Command
begin

text \<open>
  shell.c: the dispatch of a command, pipelines and the loop of the shell, and the loop of init in main.c. A
  line is a list of jobs; a job that sleeps in \<open>wait\<close> leaves the jobs behind it to be run later.
\<close>

section \<open>cmd_execute\<close>

text \<open>The shell waits for its child: the flag is True when it sleeps. No child at all is a panic.\<close>

definition await_child :: "shell \<Rightarrow> (bool \<times> shell) option" where
  "await_child s =
     do {
       (r, k) \<leftarrow> sys_wait (kern s);
       case r of
         Reaped st p \<Rightarrow> do {
           s \<leftarrow> user_printf (''child_pid %d, it'' @ [CHR 0x27] @ ''s status: %d'' @ [CHR 0x0a]) [AInt (scast p), AInt (of_int st)] (s\<lparr>kern := k\<rparr>);
           Some (False, s)
         }
       | No_child \<Rightarrow> None
       | Asleep \<Rightarrow> Some (True, s\<lparr>kern := k\<rparr>)
     }"

text \<open>What the child does. \<open>path_bytes\<close> is the memory behind \<open>final_path\<close>, \<open>argv_addr\<close> the address of the
  array; the program that \<open>execv\<close> could not load has the child go on as a second shell. The result is None
  when the child does not come back.\<close>

definition child_command :: "u8 list \<Rightarrow> u8 list \<Rightarrow> u8 list \<Rightarrow> u32 \<Rightarrow> cstring option list \<Rightarrow> shell \<Rightarrow> (int option \<times> shell) option" where
  "child_command junk1 junk2 behind argv_addr argv s =
     do {
       a \<leftarrow> argv ! 0;
       s \<leftarrow> final_of a s;
       (r, s) \<leftarrow> on_fs (\<lambda>f. do { (r, st, f) \<leftarrow> sys_stat (final_path s) f; Some (r, f) }) s;
       if r = -1
       then do {
         s \<leftarrow> user_printf (''my_shell: cannot access %s: No such file or directory'' @ [CHR 0x0a]) [AStr (final_path s)] s;
         k \<leftarrow> sys_exit (-1) (kern s);
         Some (None, s\<lparr>kern := k\<rparr>)
       }
       else do {
         ASSERT (None \<in> set argv);
         (r, k) \<leftarrow> sys_execv junk1 junk2 (final_path s @ 0 # behind) argv_addr (of_nat (length (takeWhile (\<lambda>a. a \<noteq> None) argv))) (kern s);
         Some (r, s\<lparr>kern := k\<rparr>)
       }
     }"

text \<open>The commands. A line of spaces has no first word: the comparison with NULL is a failed assertion. The flag
  is True when the shell sleeps.\<close>

definition cmd_execute :: "u8 list \<Rightarrow> u8 list \<Rightarrow> u32 \<Rightarrow> int \<Rightarrow> cstring option list \<Rightarrow> shell \<Rightarrow> (bool \<times> shell) option" where
  "cmd_execute junk1 junk2 intr_exit argc argv s =
     do {
       c \<leftarrow> argv ! 0;
       if c = text_bytes ''ls'' then do { s \<leftarrow> buildin_ls argc argv s; Some (False, s) }
       else if c = text_bytes ''cd''
       then do { (ok, s) \<leftarrow> buildin_cd argc argv s; Some (False, if ok then s\<lparr>cwd_cache := final_path s\<rparr> else s) }
       else if c = text_bytes ''pwd'' then do { s \<leftarrow> buildin_pwd argc s; Some (False, s) }
       else if c = text_bytes ''ps'' then do { s \<leftarrow> buildin_ps argc s; Some (False, s) }
       else if c = text_bytes ''clear'' then do { s \<leftarrow> buildin_clear argc s; Some (False, s) }
       else if c = text_bytes ''mkdir'' then do { (_, s) \<leftarrow> buildin_mkdir junk1 junk2 argc argv s; Some (False, s) }
       else if c = text_bytes ''rmdir'' then do { (_, s) \<leftarrow> buildin_rmdir argc argv s; Some (False, s) }
       else if c = text_bytes ''rm'' then do { (_, s) \<leftarrow> buildin_rm argc argv s; Some (False, s) }
       else if c = text_bytes ''help'' then do { s \<leftarrow> buildin_help s; Some (False, s) }
       else do { (_, k) \<leftarrow> sys_fork intr_exit (kern s); await_child (s\<lparr>kern := k\<rparr>) }
     }"

section \<open>A line\<close>

datatype job = Single cstring | Stage cstring | Await | Redirect nat nat | Close_fd int

text \<open>The words of a command: the strings that \<open>argv\<close> points to in the buffer.\<close>

definition parse_args :: "cstring \<Rightarrow> (int \<times> cstring option list) option" where
  "parse_args cmd = do { (argc, argv, buf) \<leftarrow> cmd_parse (cmd @ [0]) 0x20; Some (argc, map (map_option (str_at buf)) argv) }"

text \<open>A stage of a pipeline does not check for too many words.\<close>

fun run_job :: "u8 list \<Rightarrow> u8 list \<Rightarrow> u32 \<Rightarrow> job \<Rightarrow> shell \<Rightarrow> (bool \<times> shell) option" where
  "run_job junk1 junk2 intr_exit (Single cmd) s =
     do {
       (argc, argv) \<leftarrow> parse_args cmd;
       if argc = -1 then do { s \<leftarrow> user_printf (''num of arguments exceed %d'' @ [CHR 0x0a]) [AInt (of_nat MAX_ARG_NR)] s; Some (False, s) }
       else cmd_execute junk1 junk2 intr_exit argc argv s
     }"
| "run_job junk1 junk2 intr_exit (Stage cmd) s = do { (argc, argv) \<leftarrow> parse_args cmd; cmd_execute junk1 junk2 intr_exit argc argv s }"
| "run_job junk1 junk2 intr_exit Await s = await_child s"
| "run_job junk1 junk2 intr_exit (Redirect a b) s =
     do { (_, s) \<leftarrow> on_fs (\<lambda>f. do { f \<leftarrow> sys_fd_redirect a b f; Some ((), f) }) s; Some (False, s) }"
| "run_job junk1 junk2 intr_exit (Close_fd fd) s = do { (_, k) \<leftarrow> lift_io (sys_close fd) (kern s); Some (False, s\<lparr>kern := k\<rparr>) }"

fun run_jobs :: "u8 list \<Rightarrow> u8 list \<Rightarrow> u32 \<Rightarrow> job list \<Rightarrow> shell \<Rightarrow> (job list \<times> shell) option" where
  "run_jobs junk1 junk2 intr_exit [] s = Some ([], s)"
| "run_jobs junk1 junk2 intr_exit (j # js) s =
     do {
       (sleeps, s) \<leftarrow> run_job junk1 junk2 intr_exit j s;
       if sleeps then Some (Await # js, s) else run_jobs junk1 junk2 intr_exit js s
     }"

definition PIPE_SYMBOL :: u8 where "PIPE_SYMBOL = 0x7c"

text \<open>The part up to the first pipe symbol, and those behind it: the last is run with the screen as output.\<close>

function stages :: "cstring \<Rightarrow> job list" where
  "stages each_cmd =
     (if PIPE_SYMBOL \<in> set each_cmd
      then Stage (takeWhile (\<lambda>c. c \<noteq> PIPE_SYMBOL) each_cmd) # stages (tl (dropWhile (\<lambda>c. c \<noteq> PIPE_SYMBOL) each_cmd))
      else [Redirect 1 1, Stage each_cmd])"
  by pat_completeness auto
termination
proof (relation "measure length", goal_cases)
  case (2 each_cmd)
  then have "dropWhile (\<lambda>c. c \<noteq> PIPE_SYMBOL) each_cmd \<noteq> []" by (auto simp: dropWhile_eq_Nil_conv)
  then have "length (tl (dropWhile (\<lambda>c. c \<noteq> PIPE_SYMBOL) each_cmd)) < length (dropWhile (\<lambda>c. c \<noteq> PIPE_SYMBOL) each_cmd)" by simp
  also have "\<dots> \<le> length each_cmd" by (rule length_dropWhile_le)
  finally show ?case by simp
qed simp

declare stages.simps [simp del]

definition pipeline :: "int \<Rightarrow> int \<Rightarrow> cstring \<Rightarrow> job list" where
  "pipeline fd0 fd1 line =
     [Redirect 1 (u32_of fd1), Stage (takeWhile (\<lambda>c. c \<noteq> PIPE_SYMBOL) line), Redirect 0 (u32_of fd0)]
     @ stages (tl (dropWhile (\<lambda>c. c \<noteq> PIPE_SYMBOL) line))
     @ [Redirect 0 0, Close_fd fd0, Close_fd fd1]"

definition line_jobs :: "cstring \<Rightarrow> shell \<Rightarrow> (job list \<times> shell) option" where
  "line_jobs line s =
     (if PIPE_SYMBOL \<in> set line
      then do {
        (r, k) \<leftarrow> lift_io (\<lambda>i. do { (r, fds, i) \<leftarrow> sys_pipe i; Some (fds, i) }) (kern s);
        Some (pipeline (fst r) (snd r) line, s\<lparr>kern := k\<rparr>)
      }
      else Some ([Single line], s))"

section \<open>my_shell\<close>

definition print_prompt :: "shell \<Rightarrow> shell option" where
  "print_prompt s = user_printf ''[uuchen@localhost %s]$ '' [AStr (cwd_cache s)] s"

fun echo_out :: "echo list \<Rightarrow> shell \<Rightarrow> shell option" where
  "echo_out [] s = Some s"
| "echo_out (e # es) s =
     do {
       s \<leftarrow>
         (case e of
            Putchar c \<Rightarrow> on_io (\<lambda>i. Some (sys_putchar c i)) s
          | Clear \<Rightarrow> on_io (\<lambda>i. Some (cls_screen i)) s
          | Prompt \<Rightarrow> print_prompt s
          | Line t \<Rightarrow> user_printf ''%s'' [AStr t] s
          | Too_long \<Rightarrow> user_printf ''readline: read max char is 128!'' [] s);
       echo_out es s
     }"

text \<open>One round of the loop up to the jobs of the line; the keys are those \<open>read\<close> returns.\<close>

definition shell_round :: "u8 option list \<Rightarrow> shell \<Rightarrow> (job list \<times> u8 option list \<times> shell) option" where
  "shell_round keys s =
     do {
       s \<leftarrow> print_prompt s;
       (buf, out, keys) \<leftarrow> readline keys MAX_PATH_LEN 0 (replicate MAX_PATH_LEN 0) [];
       s \<leftarrow> echo_out out (s\<lparr>final_path := []\<rparr>);
       line \<leftarrow> buf_str buf;
       if line = [] then Some ([], keys, s)
       else do { (js, s) \<leftarrow> line_jobs line s; Some (js, keys, s) }
     }"

definition my_shell :: "shell \<Rightarrow> shell" where
  "my_shell s = s\<lparr>cwd_cache := [SLASH]\<rparr>"

section \<open>init\<close>

text \<open>One round of init, which reaps the children it has or adopts; \<open>junk\<close> is \<open>status\<close> before any child has
  set it. Without a child \<open>wait\<close> returns at once and the loop prints for ever.\<close>

definition init_round :: "int \<Rightarrow> shell \<Rightarrow> (bool \<times> shell) option" where
  "init_round junk s =
     do {
       (r, k) \<leftarrow> sys_wait (kern s);
       let s = s\<lparr>kern := k\<rparr>;
           out = (\<lambda>p st. user_printf (''I'' @ [CHR 0x60] @ ''m init, My pid is 1, I recieve a child, It'' @ [CHR 0x60] @ ''s pid is %d, status is %d'' @ [CHR 0x0a])
             [AInt p, AInt (of_int st)] s) in
       case r of
         Reaped st p \<Rightarrow> do { s \<leftarrow> out (scast p) st; Some (False, s) }
       | No_child \<Rightarrow> do { s \<leftarrow> out (-1) junk; Some (False, s) }
       | Asleep \<Rightarrow> Some (True, s)
     }"

end
