(* ===== verification/Space.thy ===== *)
theory Space
  imports Process
begin

text \<open>
  Address spaces: what the tables of one page directory say does not depend on frames outside them, so a kernel
  and its processes can share frames. A space is the machine with another root; two spaces share the entries of
  the kernel, 768 to 1022, and nothing below.
\<close>

section \<open>The frames of the tables\<close>

abbreviation at_root :: "u32 \<Rightarrow> machine \<Rightarrow> machine" where
  "at_root r m \<equiv> m\<lparr>pg_root := r\<rparr>"

definition tables :: "machine \<Rightarrow> u32 set" where
  "tables m = insert (pg_root m) {frame (pde_of m w) | w. present (pde_of m w)}"

lemma pde_in_tables: "present (pde_of m w) \<Longrightarrow> frame (pde_of m w) \<in> tables m"
  by (auto simp: tables_def)

lemma root_in_tables: "pg_root m \<in> tables m"
  by (simp add: tables_def)

lemma recursive_pte:
  assumes "root_ok m" "recursive w" "PDE_IDX u = PTE_IDX w"
  shows "pte_of m w = pde_of m u" "pde_of m w = phys m (slot (pg_root m) 0x3FF)"
proof -
  show e: "pde_of m w = phys m (slot (pg_root m) 0x3FF)" using assms(2) by (simp add: pde_of_def)
  then have "slot (pde_of m w) i = slot (pg_root m) i" for i using assms(1) by (metis root_ok_def slot_frame)
  then show "pte_of m w = pde_of m u" by (simp add: pte_of_def pte_addr_def pde_of_def assms(3))
qed

lemma PDE_IDX_of: "PDE_IDX (push_bit 22 (PTE_IDX w)) = PTE_IDX w"
  by (rule bit_word_eqI) (auto simp: bit_PDE_IDX bit_PTE_IDX bit_push_bit_iff)

lemma frame_walk: "walk m w = Some a \<Longrightarrow> frame a = frame (pte_of m w)"
  using frame_plus_low[of "frame (pte_of m w)" w] by (auto simp: walk_def split: if_splits)

text \<open>A frame is no table when no recursive address leads to it.\<close>

lemma leaf_iff:
  assumes "root_ok m"
  shows "leaf_frame m a \<longleftrightarrow> frame a = a \<and> a \<notin> tables m"
proof
  assume l: "leaf_frame m a"
  show "frame a = a \<and> a \<notin> tables m"
    using leaf_not_table[OF assms l] l by (auto simp: tables_def leaf_frame_def)
next
  assume a: "frame a = a \<and> a \<notin> tables m"
  have "frame p \<noteq> a" if w: "recursive w" "walk m w = Some p" for w p
  proof -
    note rp = recursive_pte[OF assms w(1) PDE_IDX_of[of w]]
    have "present (pte_of m w)" using w(2) by (auto simp: walk_def split: if_splits)
    then have "frame (pte_of m w) \<in> tables m" using pde_in_tables rp(1) by metis
    then show ?thesis using a frame_walk[OF w(2)] by auto
  qed
  then show "leaf_frame m a" using a by (auto simp: leaf_frame_def)
qed

text \<open>Writes outside the tables change no translation.\<close>

lemma tables_frame:
  assumes "pg_root m' = pg_root m" "\<And>x. frame x \<in> tables m \<Longrightarrow> phys m' x = phys m x" "root_ok m"
  shows "pde_of m' = pde_of m" "pte_addr m' = pte_addr m" "tables m' = tables m" "walk m' = walk m" "root_ok m'"
proof -
  have fr: "frame (pg_root m) = pg_root m" using assms(3) by (simp add: root_ok_def)
  have s: "phys m' (slot (pg_root m) (PDE_IDX w)) = phys m (slot (pg_root m) (PDE_IDX w))" for w
    by (rule assms(2)) (simp add: fr tables_def)
  show pd: "pde_of m' = pde_of m" by (rule ext) (simp add: pde_of_def assms(1) s)
  show pa: "pte_addr m' = pte_addr m" by (rule ext) (simp add: pte_addr_def pd)
  show "tables m' = tables m" by (simp add: tables_def pd assms(1))
  have "pte_of m' w = pte_of m w" if "present (pde_of m w)" for w
    unfolding pte_of_def pa by (rule assms(2)) (simp add: pde_in_tables[OF that])
  then show "walk m' = walk m" by (intro ext) (simp add: walk_def pd cong: conj_cong)
  show "root_ok m'" using assms(1,3) s[of "pte_ptr 0"] by (simp add: root_ok_def pte_ptr_parts)
qed

section \<open>Copies of pages\<close>

text \<open>The words \<open>k\<close> to \<open>k + n\<close> of a frame copied from another.\<close>

definition paste :: "u32 \<Rightarrow> u32 \<Rightarrow> nat \<Rightarrow> nat \<Rightarrow> machine \<Rightarrow> machine" where
  "paste f g k n m = m\<lparr>phys := (\<lambda>x. if \<exists>i. k \<le> i \<and> i < k + n \<and> x = slot f (of_nat i) then phys m (slot g (word_index x)) else phys m x)\<rparr>"

lemma phys_paste: "phys (paste f g k n m) x
    = (if \<exists>i. k \<le> i \<and> i < k + n \<and> x = slot f (of_nat i) then phys m (slot g (word_index x)) else phys m x)"
  by (simp add: paste_def)

lemma paste_Suc:
  assumes "frame f \<noteq> frame g" "k + Suc n \<le> 1024"
  shows "paste f g (Suc k) n (poke (slot f (of_nat k)) (phys m (slot g (of_nat k))) m) = paste f g k (Suc n) m"
proof -
  have e: "(\<exists>i. k \<le> i \<and> i < k + Suc n \<and> x = slot f (of_nat i)) \<longleftrightarrow>
    x = slot f (of_nat k) \<or> (\<exists>i. Suc k \<le> i \<and> i < Suc k + n \<and> x = slot f (of_nat i))" for x
    by (auto simp: le_eq_less_or_eq[of k] Suc_le_eq)
  have w: "word_index (slot f (of_nat i)) = of_nat i" if "i < 1024" for i
    by (rule word_index_slot[OF idx10_of_nat[OF that]])
  have ne: "slot g (of_nat i) \<noteq> slot f (of_nat k)" if "i < 1024" for i
  proof
    assume "slot g (of_nat i) = slot f (of_nat k)"
    then have "frame (slot g (of_nat i)) = frame (slot f (of_nat k))" by simp
    then show False using assms frame_slot[OF idx10_of_nat[OF that], of g] frame_slot[OF idx10_of_nat[of k], of f] by simp
  qed
  show ?thesis
    unfolding paste_def e
    by (rule machine.equality) (use w ne assms(2) in \<open>auto simp: fun_eq_iff\<close>)
qed

lemma copy_words_paste:
  assumes "root_ok m" "walk m b = Some f" "walk m c = Some g" "frame b = b" "frame c = c" "leaf_frame m f" "frame g = g" "f \<noteq> g" "k + n \<le> 1024"
  shows "copy_words n (slot b (of_nat k)) (slot c (of_nat k)) m = Some (paste f g k n m)"
  using assms
proof (induction n arbitrary: k m)
  case 0
  have e: "(\<lambda>x. if \<exists>i. k \<le> i \<and> i < k + 0 \<and> x = slot f (of_nat i) then phys m (slot g (word_index x)) else phys m x) = phys m"
    by (rule ext, rule if_not_P) auto
  show ?case unfolding paste_def e by simp
next
  case (Suc n)
  define m1 where "m1 = poke (slot f (of_nat k)) (phys m (slot g (of_nat k))) m"
  have k: "k < 1024" using Suc.prems by simp
  have f: "frame f = f" "f \<notin> tables m" using Suc.prems(6) leaf_iff[OF Suc.prems(1)] by auto
  have x: "frame x \<in> tables m \<Longrightarrow> phys m1 x = phys m x" for x
    using f frame_slot[OF idx10_of_nat[OF k], of f] by (auto simp: m1_def)
  note t = tables_frame[OF _ x Suc.prems(1)]
  have m1: "root_ok m1" "walk m1 = walk m" "tables m1 = tables m" by (rule t; simp add: m1_def)+
  have "copy_words n (slot b (of_nat (Suc k))) (slot c (of_nat (Suc k))) m1 = Some (paste f g (Suc k) n m1)"
    using Suc.prems m1 f leaf_iff[OF m1(1)] by (intro Suc.IH) (simp_all add: m1)
  then have "copy_words n (slot b (of_nat k) + 4) (slot c (of_nat k) + 4) m1 = Some (paste f g k (Suc n) m)"
    using paste_Suc[of f g k n m] Suc.prems(7,8,9) f(1) by (simp only: slot_Suc m1_def) simp
  moreover have "load (slot c (of_nat k)) m = Some (phys m (slot g (of_nat k)))"
    by (simp add: load_def walk_slot[OF Suc.prems(3,5,7) k])
  moreover have "store (slot b (of_nat k)) (phys m (slot g (of_nat k))) m = Some m1"
    by (simp add: store_def walk_slot[OF Suc.prems(2,4) f(1) k] m1_def)
  ultimately show ?case by simp
qed

lemma paste_out: "k + n \<le> 1024 \<Longrightarrow> frame x \<noteq> frame f \<Longrightarrow> phys (paste f g k n m) x = phys m x"
  by (auto simp: paste_def frame_slot[OF idx10_of_nat])

lemma paste_in: "k \<le> i \<Longrightarrow> i < k + n \<Longrightarrow> k + n \<le> 1024 \<Longrightarrow> phys (paste f g k n m) (slot f (of_nat i)) = phys m (slot g (of_nat i))"
  by (auto simp: paste_def word_index_slot[OF idx10_of_nat])

lemma pg_root_paste [simp]: "pg_root (paste f g k n m) = pg_root m"
  by (simp add: paste_def)

section \<open>Two spaces\<close>

definition in_space :: "u32 \<Rightarrow> memory \<Rightarrow> memory" where
  "in_space r s = s\<lparr>mach := at_root r (mach s)\<rparr>"

abbreviation kernel_addr :: "u32 \<Rightarrow> bool" where
  "kernel_addr w \<equiv> 768 \<le> PDE_IDX w \<and> \<not> recursive w"

text \<open>The frames of the user part, with its tables, and all frames that addresses lead to.\<close>

definition user_frames :: "machine \<Rightarrow> u32 set" where
  "user_frames m = {frame a | w a. PDE_IDX w < 768 \<and> walk m w = Some a} \<union> {frame (pde_of m w) | w. PDE_IDX w < 768 \<and> present (pde_of m w)}"

definition reach :: "machine \<Rightarrow> u32 set" where
  "reach m = {frame a | w a. walk m w = Some a}"

definition spaces :: "u32 \<Rightarrow> u32 \<Rightarrow> memory \<Rightarrow> bool" where
  "spaces p c s \<longleftrightarrow> mem_ok (in_space p s) \<and> mem_ok (in_space c s)
     \<and> (\<forall>w. kernel_addr w \<longrightarrow> pde_of (at_root c (mach s)) w = pde_of (at_root p (mach s)) w)
     \<and> c \<notin> tables (at_root p (mach s)) \<and> p \<notin> tables (at_root c (mach s))
     \<and> user_frames (at_root c (mach s)) \<inter> reach (at_root p (mach s)) = {}
     \<and> (\<forall>w a. PDE_IDX w < 768 \<longrightarrow> walk (at_root c (mach s)) w = Some a \<longrightarrow> frame a \<notin> tables (at_root c (mach s)))"

lemma in_space_simps [simp]:
  "mach (in_space r s) = at_root r (mach s)" "kernel_pool (in_space r s) = kernel_pool s" "user_pool (in_space r s) = user_pool s"
  "pool_of pf (in_space r s) = pool_of pf s" "kernel_vaddr (in_space r s) = kernel_vaddr s" "userprog_vaddr (in_space r s) = userprog_vaddr s"
  "in_space r (in_space q s) = in_space r s" "vaddr_of pf (in_space r s) = vaddr_of pf s" "cur_pgdir (in_space r s) = cur_pgdir s"
  by (simp_all add: in_space_def pool_of_def vaddr_of_def)

lemma in_space_self: "in_space (pg_root (mach s)) s = s"
  by (simp add: in_space_def)

lemma any_free_in_space [simp]: "any_free (in_space r s) a \<longleftrightarrow> any_free s a"
  by (simp add: any_free_def)

lemma any_frame_in_space [simp]: "any_frame (in_space r s) a \<longleftrightarrow> any_frame s a"
  by (simp add: any_frame_def)

lemma tables_reach:
  assumes "root_ok m"
  shows "tables m \<subseteq> reach m"
proof
  fix x assume "x \<in> tables m"
  then consider "x = pg_root m" | w where "present (pde_of m w)" "x = frame (pde_of m w)" by (auto simp: tables_def)
  then show "x \<in> reach m"
  proof cases
    case 1
    have "frame (slot (pg_root m) (PDE_IDX 0)) = pg_root m" using assms by (simp add: root_ok_def)
    then show ?thesis using walk_pde_ptr[OF assms, of 0] 1 unfolding reach_def by (metis (mono_tags, lifting) mem_Collect_eq)
  next
    case 2
    then show ?thesis using walk_pte_ptr[OF assms 2(1)] frame_pte_addr[of m w] 2(2) unfolding reach_def by (metis (mono_tags, lifting) mem_Collect_eq)
  qed
qed

lemma sealed_reach: "sealed s \<Longrightarrow> a \<in> reach (mach s) \<Longrightarrow> \<not> any_free s a"
  by (auto simp: sealed_def reach_def)

section \<open>A new page directory\<close>

text \<open>The page \<open>v\<close> of zeros leads to the frame \<open>f\<close>: what create_page_dir writes into it.\<close>

definition new_dir :: "u32 \<Rightarrow> machine \<Rightarrow> machine" where
  "new_dir f m = poke (slot f 1023) (f OR 4 OR 2 OR 1) (paste f (pg_root m) 768 256 m)"

lemma of_nat_1023: "of_nat 1023 = (1023 :: u32)" "of_nat 768 = (768 :: u32)"
  by simp_all

lemma new_dir_words:
  assumes "frame f = f"
  shows "frame x \<noteq> f \<Longrightarrow> phys (new_dir f m) x = phys m x" "pg_root (new_dir f m) = pg_root m"
    "i < 1024 \<Longrightarrow> phys (new_dir f m) (slot f (of_nat i))
       = (if i < 768 then phys m (slot f (of_nat i)) else if i < 1023 then phys m (slot (pg_root m) (of_nat i)) else f OR 4 OR 2 OR 1)"
proof -
  have d: "frame (slot f 1023) = f" using frame_slot[OF idx10_of_nat[of 1023], of f] assms by simp
  show "frame x \<noteq> f \<Longrightarrow> phys (new_dir f m) x = phys m x" using d assms by (auto simp: new_dir_def paste_out)
  show "pg_root (new_dir f m) = pg_root m" by (simp add: new_dir_def)
  assume i: "i < 1024"
  have e: "slot f (of_nat i) = slot f (of_nat j) \<longleftrightarrow> i = j" if "j < 1024" for j
    using slot_inj[OF idx10_of_nat[OF i] idx10_of_nat[OF that], of f f] i that by (auto simp: word_of_nat_eq_iff take_bit_nat_eq_self)
  have l: "phys (paste f (pg_root m) 768 256 m) (slot f (of_nat i)) = phys m (slot f (of_nat i))" if "i < 768"
  proof -
    have n: "(\<exists>j. 768 \<le> j \<and> j < 768 + 256 \<and> slot f (of_nat i) = slot f (of_nat j)) = False" using that e by auto
    show ?thesis by (simp only: phys_paste n if_False)
  qed
  have "slot f (of_nat i) = slot f 1023 \<longleftrightarrow> i = 1023" using e[of 1023] by simp
  then show "phys (new_dir f m) (slot f (of_nat i))
       = (if i < 768 then phys m (slot f (of_nat i)) else if i < 1023 then phys m (slot (pg_root m) (of_nat i)) else f OR 4 OR 2 OR 1)"
    using i l paste_in[of 768 i 256 f "pg_root m" m] by (auto simp: new_dir_def)
qed

lemma PDE_IDX_nat: "PDE_IDX w = of_nat (unat (PDE_IDX w))" "unat (PDE_IDX w) < 1024"
  using PDE_IDX_less[of w] by (simp_all add: word_less_nat_alt)

lemma frame_attr: "frame f = f \<Longrightarrow> frame (f OR 4 OR 2 OR 1) = f"
  using entry_attr(1) by blast

lemma new_dir_pde:
  assumes "frame f = f" "\<forall>i<1024. phys m (slot f (of_nat i)) = 0" "frame (pg_root m) = pg_root m"
  shows "pde_of (at_root f (new_dir f m)) w = (if PDE_IDX w < 768 then 0 else if recursive w then f OR 4 OR 2 OR 1 else pde_of m w)"
proof -
  let ?i = "unat (PDE_IDX w)"
  have e: "PDE_IDX w < 768 \<longleftrightarrow> ?i < 768" by (simp add: word_less_nat_alt)
  have r: "recursive w \<longleftrightarrow> ?i = 1023" using unat_1023[of "PDE_IDX w"] by simp
  have "pde_of (at_root f (new_dir f m)) w = phys (new_dir f m) (slot f (of_nat ?i))" by (simp add: pde_of_def)
  then show ?thesis
    using new_dir_words(3)[OF assms(1) PDE_IDX_nat(2), of m w] assms(2)[rule_format, OF PDE_IDX_nat(2)] PDE_IDX_nat[of w] e r
    by (auto simp: pde_of_def)
qed

lemma new_dir_here:
  assumes "root_ok m" "leaf_frame m f"
  shows "walk (new_dir f m) = walk m" "pde_of (new_dir f m) = pde_of m" "pte_addr (new_dir f m) = pte_addr m"
    "tables (new_dir f m) = tables m" "root_ok (new_dir f m)"
proof -
  have f: "frame f = f" "f \<notin> tables m" using leaf_iff[OF assms(1)] assms(2) by auto
  have "\<And>x. frame x \<in> tables m \<Longrightarrow> phys (new_dir f m) x = phys m x" using f new_dir_words(1)[OF f(1)] by metis
  note t = tables_frame[OF new_dir_words(2)[OF f(1)] this assms(1)]
  show "walk (new_dir f m) = walk m" "pde_of (new_dir f m) = pde_of m" "pte_addr (new_dir f m) = pte_addr m"
    "tables (new_dir f m) = tables m" "root_ok (new_dir f m)" by (rule t; simp)+
qed

lemma kernel_or: "PDE_IDX w < 768 \<or> recursive w \<or> kernel_addr w"
  by auto

lemma new_dir_walk:
  assumes "root_ok m" "leaf_frame m f" "\<forall>i<1024. phys m (slot f (of_nat i)) = 0"
  defines "n \<equiv> at_root f (new_dir f m)"
  shows "PDE_IDX w < 768 \<Longrightarrow> \<not> present (pde_of n w)" "kernel_addr w \<Longrightarrow> pde_of n w = pde_of m w"
    "kernel_addr w \<Longrightarrow> pte_addr n w = pte_addr m w" "PDE_IDX w < 768 \<Longrightarrow> walk n w = None" "kernel_addr w \<Longrightarrow> walk n w = walk m w"
    "root_ok n" "tables n \<subseteq> insert f (tables m)" "pg_root n = f" "recursive w \<Longrightarrow> frame (pde_of n w) = f"
proof -
  have f: "frame f = f" "f \<notin> tables m" using leaf_iff[OF assms(1)] assms(2) by auto
  have fr: "frame (pg_root m) = pg_root m" using assms(1) by (simp add: root_ok_def)
  note pd = new_dir_pde[OF f(1) assms(3) fr, folded n_def]
  show pu: "PDE_IDX w < 768 \<Longrightarrow> \<not> present (pde_of n w)" for w by (simp add: pd)
  show pk: "kernel_addr w \<Longrightarrow> pde_of n w = pde_of m w" for w by (auto simp: pd)
  show pr: "recursive w \<Longrightarrow> frame (pde_of n w) = f" for w using frame_attr[OF f(1)] by (simp add: pd)
  show pa: "kernel_addr w \<Longrightarrow> pte_addr n w = pte_addr m w" for w by (simp add: pte_addr_def pk)
  show "PDE_IDX w < 768 \<Longrightarrow> walk n w = None" using pu by (simp add: walk_def)
  show rn: "pg_root n = f" by (simp add: n_def)
  have pn: "phys n x = phys m x" if "frame x \<in> tables m" for x
  proof -
    have "frame x \<noteq> f" using that f(2) by metis
    then show ?thesis using new_dir_words(1)[OF f(1)] by (simp add: n_def)
  qed
  show "walk n w = walk m w" if w: "kernel_addr w"
  proof -
    have "pte_of n w = pte_of m w" if "present (pde_of m w)"
      unfolding pte_of_def pa[OF w] by (rule pn) (use pde_in_tables[OF that] in simp)
    then show ?thesis using pk[OF w] by (simp add: walk_def cong: conj_cong)
  qed
  have rp: "recursive (pte_ptr 0)" by (simp add: pte_ptr_parts)
  have "pde_of n (pte_ptr 0) = f OR 4 OR 2 OR 1" using pd[of "pte_ptr 0"] rp by simp
  then have w: "phys n (slot f 0x3FF) = f OR 4 OR 2 OR 1" using rp by (simp add: pde_of_def rn)
  show "root_ok n" unfolding root_ok_def rn w using f(1) frame_attr[OF f(1)] entry_attr(2) by blast
  show "tables n \<subseteq> insert f (tables m)"
  proof
    fix x assume "x \<in> tables n"
    then consider "x = f" | u where "present (pde_of n u)" "x = frame (pde_of n u)" by (auto simp: tables_def rn)
    then show "x \<in> insert f (tables m)"
    proof cases
      case 2
      consider "recursive u" | "kernel_addr u" using kernel_or[of u] pu[of u] 2(1) by blast
      then show ?thesis
      proof cases
        case 1
        then show ?thesis using 2(2) pr by simp
      next
        case k: 2
        then show ?thesis using 2 pk[OF k] pde_in_tables[of m u] by simp
      qed
    qed simp
  qed
qed

lemma pt_okD:
  "pt_ok m \<Longrightarrow> root_ok m" "pt_ok m \<Longrightarrow> \<not> recursive v \<Longrightarrow> present (pde_of m v) \<Longrightarrow> frame (pde_of m v) \<noteq> pg_root m"
  "pt_ok m \<Longrightarrow> heap v \<Longrightarrow> heap w \<Longrightarrow> present (pde_of m v) \<Longrightarrow> present (pde_of m w) \<Longrightarrow> frame (pde_of m v) = frame (pde_of m w)
    \<Longrightarrow> PDE_IDX v = PDE_IDX w"
  unfolding pt_ok_def by blast+

lemma free_not_tables: "mem_ok s \<Longrightarrow> any_free s a \<Longrightarrow> a \<notin> tables (mach s)"
  using free_not_table[of s a] by (auto simp: tables_def)

text \<open>What frames a recursive address leads to.\<close>

lemma recursive_reach:
  assumes "root_ok m" "recursive w" "walk m w = Some a"
  shows "frame a \<in> tables m"
  using assms leaf_iff[OF assms(1), of "frame a"] by (auto simp: leaf_frame_def)

lemma new_dir_mem_ok:
  assumes ok: "mem_ok s" and f: "walk (mach s) v = Some f" "leaf_frame (mach s) f" "\<forall>i<1024. phys (mach s) (slot f (of_nat i)) = 0"
  defines "s' \<equiv> s\<lparr>mach := new_dir f (mach s)\<rparr>"
  shows "mem_ok s'" "mem_ok (in_space f s')"
proof -
  have pt: "pt_ok (mach s)" and po: "pools_ok s" and se: "sealed s" and ow: "owned s" using ok by (simp_all add: mem_ok_def)
  have r: "root_ok (mach s)" using pt by (simp add: pt_ok_def)
  note h = new_dir_here[OF r f(2)] and n = new_dir_walk[OF r f(2,3)]
  have ft: "frame f = f" "f \<notin> tables (mach s)" using leaf_iff[OF r] f(2) by auto
  have s': "mach s' = new_dir f (mach s)" "kernel_pool s' = kernel_pool s" "user_pool s' = user_pool s"
    "any_free s' = any_free s" "any_frame s' = any_frame s" by (simp_all add: s'_def any_free_def any_frame_def fun_eq_iff)
  have "pt_ok (new_dir f (mach s))"
    using pt h(5) unfolding pt_ok_def h(2) new_dir_words(2)[OF ft(1)] by (elim conjE) (intro conjI)
  moreover have "sealed s'" using se unfolding sealed_def s' h .
  moreover have "owned s'" using ow unfolding owned_def s' h .
  moreover have "pools_ok s'" using po unfolding pools_ok_def s' .
  ultimately show "mem_ok s'" unfolding mem_ok_def s'(1) by blast
  let ?n = "at_root f (new_dir f (mach s))"
  have "pt_ok ?n"
    unfolding pt_ok_def
  proof (intro conjI allI impI n(6))
    fix w assume w: "\<not> recursive w" "present (pde_of ?n w)"
    then have k: "kernel_addr w" using n(1)[of w] kernel_or[of w] by blast
    then have "frame (pde_of ?n w) \<in> tables (mach s)" using w(2) n(2)[OF k] pde_in_tables[of "mach s" w] by simp
    then show "frame (pde_of ?n w) \<noteq> pg_root ?n" using ft(2) n(8) by metis
  next
    fix v w assume a: "heap v" "heap w" "present (pde_of ?n v)" "present (pde_of ?n w)" "frame (pde_of ?n v) = frame (pde_of ?n w)"
    then have "kernel_addr v" "kernel_addr w" using n(1) kernel_or by blast+
    then show "PDE_IDX v = PDE_IDX w" using a n(2) pt_okD(3)[OF pt a(1,2)] by simp
  qed
  moreover have "sealed (in_space f s')"
    unfolding sealed_def in_space_simps s' any_free_in_space
  proof (intro allI impI)
    fix w a assume w: "walk ?n w = Some a"
    then consider "recursive w" | "kernel_addr w" using kernel_or[of w] n(4)[of w] by force
    then show "\<not> any_free s (frame a)"
    proof cases
      case 1
      have "\<not> any_free s (frame f)" using se f(1) by (auto simp: sealed_def)
      then show ?thesis using recursive_reach[OF n(6) 1 w] n(7) free_not_tables[OF ok] ft(1) by auto
    next
      case 2
      then show ?thesis using w n(5)[OF 2] se by (auto simp: sealed_def)
    qed
  qed
  moreover have "owned (in_space f s')"
    unfolding owned_def in_space_simps s' any_frame_in_space
  proof (intro allI impI)
    fix v w a b assume a: "\<not> recursive v" "\<not> recursive w" "walk ?n v = Some a" "walk ?n w = Some b" "frame a = frame b" "any_frame s (frame a)"
    then have "kernel_addr v" "kernel_addr w" using kernel_or n(4) by force+
    then show "pte_addr ?n v = pte_addr ?n w" using a n(3,5) ownedD[OF ow a(1,2)] by simp
  qed
  ultimately show "mem_ok (in_space f s')" using po by (simp add: mem_ok_def pools_ok_def s')
qed

lemma new_dir_spaces:
  assumes ok: "mem_ok s" and f: "walk (mach s) v = Some f" "leaf_frame (mach s) f" "\<forall>i<1024. phys (mach s) (slot f (of_nat i)) = 0"
  defines "s' \<equiv> s\<lparr>mach := new_dir f (mach s)\<rparr>"
  shows "spaces (pg_root (mach s)) f s'"
proof -
  have r: "root_ok (mach s)" and pt: "pt_ok (mach s)" using ok by (simp_all add: mem_ok_def pt_ok_def)
  note h = new_dir_here[OF r f(2)] and n = new_dir_walk[OF r f(2,3)]
  have ft: "frame f = f" "f \<notin> tables (mach s)" using leaf_iff[OF r] f(2) by auto
  have m': "mach s' = new_dir f (mach s)" by (simp add: s'_def)
  have rt: "at_root (pg_root (mach s)) (new_dir f (mach s)) = new_dir f (mach s)"
    using new_dir_words(2)[OF ft(1), of "mach s"] by (cases "new_dir f (mach s)") simp
  let ?n = "at_root f (new_dir f (mach s))"
  have "pg_root (mach s) \<notin> tables ?n"
  proof
    assume "pg_root (mach s) \<in> tables ?n"
    moreover have "pg_root (mach s) \<noteq> f" using ft(2) root_in_tables by metis
    ultimately obtain u where u: "present (pde_of ?n u)" "frame (pde_of ?n u) = pg_root (mach s)"
      using n(8) by (auto simp: tables_def)
    then consider "recursive u" | "kernel_addr u" using n(1) kernel_or by blast
    then show False
    proof cases
      case 1
      then show False using u(2) n(9) \<open>pg_root (mach s) \<noteq> f\<close> by simp
    next
      case 2
      then show False using u n(2)[OF 2] pt_okD(2)[OF pt, of u] by simp
    qed
  qed
  moreover have "user_frames ?n = {}" using n(1,4) by (auto simp: user_frames_def)
  moreover have "walk ?n w \<noteq> Some a" if "PDE_IDX w < 768" for w a using n(4)[OF that] by simp
  moreover have "mem_ok s'" "mem_ok (in_space f s')" unfolding s'_def by (rule new_dir_mem_ok[OF ok f])+
  moreover have "in_space (pg_root (mach s)) s' = s'" using rt by (simp add: in_space_def m' s'_def)
  ultimately show ?thesis using ft(2) h(4) n(2) unfolding spaces_def m' rt h by auto
qed

lemma word_at: "frame v = v \<Longrightarrow> v + of_nat j * 4 = slot v (of_nat j)"
  by (simp add: slot_def)

lemma directory_page: "frame 0xfffff000 = (0xfffff000 :: u32)" "root_ok m \<Longrightarrow> walk m 0xfffff000 = Some (pg_root m)"
proof -
  show "frame 0xfffff000 = (0xfffff000 :: u32)" by (simp add: frame_def)
  have z: "PDE_IDX 0 = 0" by (simp add: PDE_IDX_def)
  assume r: "root_ok m"
  then show "walk m 0xfffff000 = Some (pg_root m)"
    using walk_pde_ptr[OF r, of 0] by (simp add: pde_ptr_def z slot_def root_ok_def)
qed

text \<open>What create_page_dir does with the page that get_kernel_pages gave.\<close>

lemma build_dir:
  assumes r: "root_ok m" and v: "walk m v = Some f" "frame v = v" "leaf_frame m f"
  shows "\<exists>m1. copy_words 256 (v + 0x300 * 4) (0xfffff000 + 0x300 * 4) m = Some m1 \<and> addr_v2p v m1 = Some f
    \<and> store (v + 1023 * 4) (f OR 4 OR 2 OR 1) m1 = Some (new_dir f m)"
proof -
  have ft: "frame f = f" "f \<notin> tables m" using leaf_iff[OF r] v(3) by auto
  have fr: "frame (pg_root m) = pg_root m" using r by (simp add: root_ok_def)
  have ne: "f \<noteq> pg_root m" using ft(2) root_in_tables by metis
  let ?m1 = "paste f (pg_root m) 768 256 m"
  have c: "copy_words 256 (v + 0x300 * 4) (0xfffff000 + 0x300 * 4) m = Some ?m1"
    using copy_words_paste[OF r v(1) directory_page(2)[OF r] v(2) directory_page(1) v(3) fr ne, of 768 256]
      word_at[OF v(2), of 768] word_at[OF directory_page(1), of 768] by simp
  have "frame x \<in> tables m \<Longrightarrow> phys ?m1 x = phys m x" for x using ft by (intro paste_out) auto
  note t = tables_frame[OF pg_root_paste this r]
  have w: "walk ?m1 v = Some f" using t(4) v(1) by simp
  have "walk ?m1 (v + 1023 * 4) = Some (slot f 1023)"
    using walk_slot[OF w v(2) ft(1), of 1023] word_at[OF v(2), of 1023] by simp
  then have "store (v + 1023 * 4) (f OR 4 OR 2 OR 1) ?m1 = Some (new_dir f m)" by (simp add: store_def new_dir_def)
  then show ?thesis using c recursive_entry(3)[OF t(5) w] by (intro exI[of _ ?m1]) simp
qed

lemma mem_of_set_mach [simp]: "mem_of (set_mach m s) = (mem_of s)\<lparr>mach := m\<rparr>"
  by (simp add: set_mach_def set_mem_def)

text \<open>No operation on pages changes the root.\<close>

lemma store_root: "store v w m = Some m' \<Longrightarrow> pg_root m' = pg_root m"
  by (auto simp: store_def)

lemma clear_words_root: "clear_words n v m = Some m' \<Longrightarrow> pg_root m' = pg_root m"
  by (induction n arbitrary: v m) (auto simp: bind_Some_iff dest: store_root)

lemma page_table_add_root: "page_table_add v a s = Some s' \<Longrightarrow> pg_root (mach s') = pg_root (mach s)"
  by (auto simp: page_table_add_def Let_def bind_Some_iff dest!: store_root clear_words_root split: if_splits)

lemma map_pages_root: "map_pages n pf v s = Some (b, s') \<Longrightarrow> pg_root (mach s') = pg_root (mach s)"
  by (induction n arbitrary: v s) (auto simp: bind_Some_iff dest: page_table_add_root split: if_splits)

lemma vaddr_get_mach: "vaddr_get pf n s = Some (v, s') \<Longrightarrow> mach s' = mach s"
  by (clarsimp simp: vaddr_get_def Let_def bind_Some_iff split: if_splits) (metis set_vaddr_simps(1))

lemma malloc_page_root: "malloc_page pf n s = Some (v, s') \<Longrightarrow> pg_root (mach s') = pg_root (mach s)"
  by (clarsimp simp: malloc_page_def bind_Some_iff split: if_splits) (metis vaddr_get_mach map_pages_root)+

lemma get_pages_root:
  assumes "get_pages pf n s = Some (v, s')"
  shows "pg_root (mach s') = pg_root (mach s)"
proof -
  obtain w s1 where s1: "malloc_page pf n s = Some (w, s1)"
    "(if w \<noteq> 0 then do { m \<leftarrow> clear_words (n * 1024) w (mach s1); Some (w, s1\<lparr>mach := m\<rparr>) } else Some (0, s1)) = Some (v, s')"
    using assms by (cases "malloc_page pf n s") (auto simp: get_pages_def)
  from s1(2) have "pg_root (mach s') = pg_root (mach s1)"
    by (cases "clear_words (n * 1024) w (mach s1)") (auto split: if_splits dest: clear_words_root)
  then show ?thesis using malloc_page_root[OF s1(1)] by simp
qed

lemma get_page_ok:
  assumes "mem_ok s" "vspace PF_KERNEL s" and "free_run (vaddr_bitmap (kernel_vaddr s)) r 1" "r < 8 * btmp_bytes_len (vaddr_bitmap (kernel_vaddr s))"
    and "stocked PF_KERNEL 1 s"
  shows "\<exists>k v f s1. get_pages PF_KERNEL 1 s = Some (v, s1) \<and> mem_ok s1 \<and> vspace PF_KERNEL s1 \<and> maps_new PF_KERNEL 1 v s s1
    \<and> pg_root (mach s1) = pg_root (mach s) \<and> v = page (vaddr_start (kernel_vaddr s)) k \<and> k < 8 * btmp_bytes_len (vaddr_bitmap (kernel_vaddr s))
    \<and> v \<noteq> 0 \<and> frame v = v \<and> walk (mach s1) v = Some f \<and> leaf_frame (mach s1) f \<and> (\<forall>i<1024. phys (mach s1) (slot f (of_nat i)) = 0)
    \<and> free_frame (kernel_pool s) f"
proof -
  have kv: "vaddr_of PF_KERNEL s = kernel_vaddr s" by (simp add: vaddr_of_def)
  have g1: "guarded 1 (vaddr_bitmap (vaddr_of PF_KERNEL s))" by (simp add: guarded_def)
  let ?base = "vaddr_start (kernel_vaddr s)" and ?len = "8 * btmp_bytes_len (vaddr_bitmap (kernel_vaddr s))"
  obtain k s1 where s1: "get_pages PF_KERNEL 1 s = Some (page ?base k, s1)" "first_fit (vaddr_bitmap (kernel_vaddr s)) 1 k"
    "mem_ok s1" "vspace PF_KERNEL s1" "maps_new PF_KERNEL 1 (page ?base k) s s1"
    "\<forall>i<1. \<forall>j<1024. load (page (page ?base k) i + of_nat j * 4) (mach s1) = Some 0"
    using get_pages_ok[OF assms(1,2) _ _ g1, of r] assms(3-5) unfolding kv by auto
  have b: "frame ?base = ?base" "?base \<noteq> 0" "unat ?base + 4096 * ?len \<le> 4294967296" using assms(2) by (simp_all add: vspace_def Let_def kv)
  have k: "k < ?len" using s1(2) by (simp add: first_fit_def)
  have "unat (page ?base k) = unat ?base + 4096 * k" using b(3) k by (intro unat_page) simp
  moreover have "unat ?base \<noteq> 0" using b(2) by (simp add: unat_eq_zero)
  ultimately have nz: "page ?base k \<noteq> 0" by auto
  obtain f where f: "walk (mach s1) (page ?base k) = Some f" "frame f = f" "free_frame (kernel_pool s) f" "leaf s1 f"
    using s1(5) by (auto simp: maps_new_def page_simps)
  have fv: "frame (page ?base k) = page ?base k" by (rule frame_page[OF b(1)])
  have z: "phys (mach s1) (slot f (of_nat i)) = 0" if "i < 1024" for i
  proof -
    have "load (slot (page ?base k) (of_nat i)) (mach s1) = Some 0" using s1(6) that by (simp add: page_simps word_at[OF fv])
    then show ?thesis using walk_slot[OF f(1) fv f(2) that] by (simp add: load_def)
  qed
  have "leaf_frame (mach s1) f" using f(2,4) by (auto simp: leaf_frame_def leaf_def)
  then show ?thesis using s1(1,3-5) get_pages_root[OF s1(1)] k nz fv f(1,3) z by blast
qed

lemma create_page_dir_ok:
  assumes "get_pages PF_KERNEL 1 (mem_of s) = Some (v, s1)" "v \<noteq> 0" "frame v = v" "mem_ok s1" "walk (mach s1) v = Some f" "leaf_frame (mach s1) f"
  shows "create_page_dir s = Some (v, set_mach (new_dir f (mach s1)) (set_mem s1 s))"
proof -
  have r: "root_ok (mach s1)" using assms(4) by (simp add: mem_ok_def pt_ok_def)
  obtain m1 where "copy_words 256 (v + 0x300 * 4) (0xfffff000 + 0x300 * 4) (mach s1) = Some m1" "addr_v2p v m1 = Some f"
    "store (v + 1023 * 4) (f OR 4 OR 2 OR 1) m1 = Some (new_dir f (mach s1))" using build_dir[OF r assms(5,3,6)] by blast
  then show ?thesis using assms(1,2) by (simp add: create_page_dir_def kernel_pages_def get_kernel_pages_def set_mem_def)
qed

text \<open>C8: create_page_dir, when the kernel has a page and a frame to spare, returns a page with a directory in
  which no user address is mapped and every kernel address leads where it leads in the current space; the
  directory reaches its own tables, both spaces satisfy the invariants of the page tables and share no frame but
  those of the kernel, and no translation of the current space is lost.\<close>
theorem create_page_dir_correct:
  assumes "mem_ok (mem_of s)" "vspace PF_KERNEL (mem_of s)" and "free_run (vaddr_bitmap (kernel_vaddr (mem_of s))) r 1"
    and "r < 8 * btmp_bytes_len (vaddr_bitmap (kernel_vaddr (mem_of s)))" "stocked PF_KERNEL 1 (mem_of s)"
  shows "\<exists>v f s'. create_page_dir s = Some (v, s') \<and> v \<noteq> 0 \<and> walk (mach (mem_of s')) v = Some f
    \<and> pg_root (mach (mem_of s')) = pg_root (mach (mem_of s)) \<and> spaces (pg_root (mach (mem_of s))) f (mem_of s')
    \<and> root_ok (at_root f (mach (mem_of s')))
    \<and> (\<forall>w. PDE_IDX w < 768 \<longrightarrow> walk (at_root f (mach (mem_of s'))) w = None)
    \<and> (\<forall>w. kernel_addr w \<longrightarrow> walk (at_root f (mach (mem_of s'))) w = walk (mach (mem_of s')) w)
    \<and> (\<forall>w. \<not> recursive w \<longrightarrow> walk (mach (mem_of s)) w \<noteq> None \<longrightarrow> walk (mach (mem_of s')) w = walk (mach (mem_of s)) w)"
proof -
  obtain v f s1 where s1: "get_pages PF_KERNEL 1 (mem_of s) = Some (v, s1)" "mem_ok s1" "maps_new PF_KERNEL 1 v (mem_of s) s1"
    "pg_root (mach s1) = pg_root (mach (mem_of s))" "v \<noteq> 0" "frame v = v" "walk (mach s1) v = Some f" "leaf_frame (mach s1) f"
    "\<forall>i<1024. phys (mach s1) (slot f (of_nat i)) = 0" using get_page_ok[OF assms] by blast
  define s' where "s' = set_mach (new_dir f (mach s1)) (set_mem s1 s)"
  have m': "mem_of s' = s1\<lparr>mach := new_dir f (mach s1)\<rparr>" by (simp add: s'_def set_mem_def)
  have r: "root_ok (mach s1)" using s1(2) by (simp add: mem_ok_def pt_ok_def)
  note h = new_dir_here[OF r s1(8)] and n = new_dir_walk[OF r s1(8,9)]
  have ft: "frame f = f" using s1(8) by (simp add: leaf_frame_def)
  have "spaces (pg_root (mach (mem_of s))) f (mem_of s')" using new_dir_spaces[OF s1(2,7,8,9)] s1(4) m' by simp
  moreover have "create_page_dir s = Some (v, s')" unfolding s'_def by (rule create_page_dir_ok[OF s1(1,5,6,2,7,8)])
  moreover have "walk (mach s1) w = walk (mach (mem_of s)) w" if "\<not> recursive w" "walk (mach (mem_of s)) w \<noteq> None" for w
    using s1(3) that unfolding maps_new_def by blast
  ultimately show ?thesis using s1(4,5,7) n(4-6) h(1) new_dir_words(2)[OF ft, of "mach s1"] m'
    by (intro exI[of _ v] exI[of _ f] exI[of _ s']) simp
qed

theorem create_page_dir_witness:
  "\<forall>s. \<exists>v f s'. create_page_dir (set_mem memory1 s) = Some (v, s') \<and> v \<noteq> 0 \<and> walk (mach (mem_of s')) v = Some f
     \<and> spaces (pg_root (mach memory1)) f (mem_of s') \<and> walk (at_root f (mach (mem_of s'))) 0x8048000 = None
     \<and> walk (at_root f (mach (mem_of s'))) 0xc0000000 = walk (mach (mem_of s')) 0xc0000000"
proof
  fix s
  have m: "mem_of (set_mem memory1 s) = memory1" by (simp add: set_mem_def)
  have k: "vaddr_of PF_KERNEL memory1 = kernel_vaddr memory1" by (simp add: vaddr_of_def)
  have st: "stocked PF_KERNEL 1 memory1" by (simp add: stocked_def memory1_room)
  have "PDE_IDX 0x8048000 = 32" "PDE_IDX 0xc0000000 = 768" by (simp_all add: PDE_IDX_def)
  then show "\<exists>v f s'. create_page_dir (set_mem memory1 s) = Some (v, s') \<and> v \<noteq> 0 \<and> walk (mach (mem_of s')) v = Some f
     \<and> spaces (pg_root (mach memory1)) f (mem_of s') \<and> walk (at_root f (mach (mem_of s'))) 0x8048000 = None
     \<and> walk (at_root f (mach (mem_of s'))) 0xc0000000 = walk (mach (mem_of s')) 0xc0000000"
    using create_page_dir_correct[of "set_mem memory1 s" 0, unfolded m, OF memory1_ok(1,2) memory1_run[of 1, unfolded k] _ st]
      memory1_ok(3) unfolding k by fastforce
qed

end
