(* ===== verification/Forkmem.thy ===== *)
theory Forkmem
  imports Space
begin

text \<open>
  fork.c, the memory: \<open>copy_body_stack3\<close> copies every page of the parent by way of a page of the kernel,
  switching between the two page directories. What is written while the child's directory is loaded lies in
  the child's directory, in its tables, or in frames that nobody used.
\<close>

section \<open>What page_table_add writes\<close>

lemma page_table_add_writes:
  assumes ok: "mem_ok s" and v: "\<not> recursive v" and a: "frame a = a" and res: "page_table_add v a s = Some s'"
  shows "frame x \<noteq> pg_root (mach s) \<Longrightarrow> frame x \<noteq> frame (pde_of (mach s') v) \<Longrightarrow> phys (mach s') x = phys (mach s) x"
    "present (pde_of (mach s) v) \<Longrightarrow> pde_of (mach s') v = pde_of (mach s) v"
    "\<not> present (pde_of (mach s) v) \<Longrightarrow> free_frame (kernel_pool s) (frame (pde_of (mach s') v))"
    "PDE_IDX w \<noteq> PDE_IDX v \<Longrightarrow> pde_of (mach s') w = pde_of (mach s) w" "present (pde_of (mach s') v)"
    "user_pool s' = user_pool s" "nfree (kernel_pool s) \<le> Suc (nfree (kernel_pool s'))"
proof -
  have pt: "pt_ok (mach s)" and r: "root_ok (mach s)" and po: "pools_ok s" using ok by (simp_all add: mem_ok_def pt_ok_def)
  have "(\<forall>x. frame x \<noteq> pg_root (mach s) \<longrightarrow> frame x \<noteq> frame (pde_of (mach s') v) \<longrightarrow> phys (mach s') x = phys (mach s) x)
    \<and> (present (pde_of (mach s) v) \<longrightarrow> pde_of (mach s') v = pde_of (mach s) v)
    \<and> (\<not> present (pde_of (mach s) v) \<longrightarrow> free_frame (kernel_pool s) (frame (pde_of (mach s') v)))
    \<and> (\<forall>w. PDE_IDX w \<noteq> PDE_IDX v \<longrightarrow> pde_of (mach s') w = pde_of (mach s) w) \<and> present (pde_of (mach s') v)
    \<and> user_pool s' = user_pool s \<and> nfree (kernel_pool s) \<le> Suc (nfree (kernel_pool s'))"
  proof (cases "present (pde_of (mach s) v)")
    case True
    note mp = map_present[OF pt v True a]
    have "load (pte_ptr v) (mach s) = Some (pte_of (mach s) v)" "load (pde_ptr v) (mach s) = Some (pde_of (mach s) v)"
      using load_pte[OF r True] load_pde[OF r] by simp_all
    then have "s' = s\<lparr>mach := poke (pte_addr (mach s) v) (a OR 4 OR 2 OR 1) (mach s)\<rparr>"
      using res mp(1) True by (auto simp: page_table_add_def Let_def present_def bind_Some_iff)
    then show ?thesis using mp(6) True by auto
  next
    case False
    have l: "load (pde_ptr v) (mach s) = Some (pde_of (mach s) v)" using load_pde[OF r] .
    obtain f kp where pal: "palloc (kernel_pool s) = Some (f, kp)"
      using res False l by (auto simp: page_table_add_def Let_def present_def bind_Some_iff)
    have kok: "pool_ok (kernel_pool s)" using po by (simp add: pools_ok_def)
    note ps = palloc_spec[OF kok pal]
    note nt = free_not_table[OF ok free_frame_any[OF ps(1)]]
    note mp = map_absent[OF pt v False a ps(3) nt]
    define m1 where "m1 = poke (slot (pg_root (mach s)) (PDE_IDX v)) (f OR 4 OR 2 OR 1) (mach s)"
    define m2 where "m2 = wipe f 0 1024 m1"
    define m3 where "m3 = poke (pte_addr m2 v) (a OR 4 OR 2 OR 1) m2"
    note mp = mp[folded m1_def, folded m2_def, folded m3_def]
    obtain e where e: "load (pte_ptr v) m2 = Some e" "\<not> present e" using mp(3) by blast
    have s': "s' = s\<lparr>mach := m3, kernel_pool := kp\<rparr>"
      using res False mp(1,2,4) pal e l by (simp add: page_table_add_def present_def)
    have r1: "root_ok m1" using pde_poke_root[OF r v, of "f OR 7"] by (simp add: m1_def)
    have fr: "frame f \<noteq> pg_root m1" using nt(1) ps(3) by (simp add: m1_def)
    have fv: "frame (pde_of m3 v) = f" using mp(10)[of v] entry7(1)[OF ps(3)] by simp
    have pa2: "frame (pte_addr m2 v) = f"
      using pde_wipe(1)[OF r1 fr, of v, folded m2_def] mp(10)[of v] pde_poke_root(1)[OF r v, of "f OR 7" v] entry7(1)[OF ps(3)]
      by (simp add: m1_def)
    have ph: "phys m3 x = phys (mach s) x" if x: "frame x \<noteq> pg_root (mach s)" "frame x \<noteq> f" for x
    proof -
      have "x \<noteq> pte_addr m2 v" using x(2) pa2 by metis
      then have "phys m3 x = phys m2 x" by (simp add: m3_def)
      also have "\<dots> = phys m1 x" unfolding m2_def by (rule wipe_out) (use x ps(3) in simp_all)
      also have "\<dots> = phys (mach s) x" using x(1) r frame_pde_slot[of "pg_root (mach s)" v] by (auto simp: m1_def root_ok_def)
      finally show ?thesis .
    qed
    have "Suc (nfree kp) = nfree (kernel_pool s)" by (rule palloc_nfree[OF pal])
    then show ?thesis using s' ph fv ps(1) mp(10) False entry7(2)[of f] by auto
  qed
  then show "frame x \<noteq> pg_root (mach s) \<Longrightarrow> frame x \<noteq> frame (pde_of (mach s') v) \<Longrightarrow> phys (mach s') x = phys (mach s) x"
    "present (pde_of (mach s) v) \<Longrightarrow> pde_of (mach s') v = pde_of (mach s) v"
    "\<not> present (pde_of (mach s) v) \<Longrightarrow> free_frame (kernel_pool s) (frame (pde_of (mach s') v))"
    "PDE_IDX w \<noteq> PDE_IDX v \<Longrightarrow> pde_of (mach s') w = pde_of (mach s) w" "present (pde_of (mach s') v)"
    "user_pool s' = user_pool s" "nfree (kernel_pool s) \<le> Suc (nfree (kernel_pool s'))" by blast+
qed

section \<open>A new page of the child\<close>

lemma at_root_self: "pg_root m = r \<Longrightarrow> at_root r m = m"
  by (cases m) simp

lemma spacesD:
  assumes "spaces p c s"
  shows "mem_ok (in_space p s)" "mem_ok (in_space c s)"
    "kernel_addr w \<Longrightarrow> pde_of (at_root c (mach s)) w = pde_of (at_root p (mach s)) w"
    "c \<notin> tables (at_root p (mach s))" "p \<notin> tables (at_root c (mach s))"
    "x \<in> user_frames (at_root c (mach s)) \<Longrightarrow> x \<notin> reach (at_root p (mach s))"
    "PDE_IDX w < 768 \<Longrightarrow> walk (at_root c (mach s)) w = Some a \<Longrightarrow> frame a \<notin> tables (at_root c (mach s))"
  using assms unfolding spaces_def by blast+

lemma mem_okD: "mem_ok s \<Longrightarrow> pt_ok (mach s)" "mem_ok s \<Longrightarrow> root_ok (mach s)" "mem_ok s \<Longrightarrow> sealed s" "mem_ok s \<Longrightarrow> owned s" "mem_ok s \<Longrightarrow> pools_ok s"
  by (simp_all add: mem_ok_def pt_ok_def)

lemma pde_of_index: "PDE_IDX u = PDE_IDX v \<Longrightarrow> pde_of m u = pde_of m v"
  by (simp add: pde_of_def)

text \<open>What entering the page does to the space that is not loaded.\<close>

definition entered :: "u32 \<Rightarrow> u32 \<Rightarrow> u32 \<Rightarrow> u32 \<Rightarrow> memory \<Rightarrow> memory \<Rightarrow> bool" where
  "entered p c v a s s' \<longleftrightarrow> pg_root (mach s') = c \<and> walk (mach s') v = Some a \<and> frame a = a
     \<and> a \<notin> reach (at_root p (mach s)) \<and> a \<notin> tables (mach s') \<and> \<not> any_free s' a
     \<and> walk (at_root p (mach s')) = walk (at_root p (mach s)) \<and> tables (at_root p (mach s')) = tables (at_root p (mach s))
     \<and> (\<forall>x. frame x \<in> reach (at_root p (mach s)) \<longrightarrow> frame x \<noteq> c \<longrightarrow> phys (mach s') x = phys (mach s) x)
     \<and> (\<forall>w. \<not> recursive w \<longrightarrow> walk (mach s) w \<noteq> None \<longrightarrow> walk (mach s') w = walk (mach s) w)
     \<and> (\<forall>w. heap w \<longrightarrow> frame w \<noteq> v \<longrightarrow> walk (mach s') w = walk (mach s) w)
     \<and> (\<forall>w b x. PDE_IDX w < 768 \<longrightarrow> walk (mach s) w = Some b \<longrightarrow> frame x = frame b \<longrightarrow> frame b \<noteq> a \<and> phys (mach s') x = phys (mach s) x)
     \<and> (\<forall>b. b \<notin> tables (mach s) \<longrightarrow> \<not> any_free s b \<longrightarrow> b \<notin> tables (mach s'))
     \<and> nfree (user_pool s) \<le> Suc (nfree (user_pool s')) \<and> nfree (kernel_pool s) \<le> Suc (nfree (kernel_pool s'))"

lemma child_page:
  assumes sp: "spaces p c s" and rt: "pg_root (mach s) = c" and v: "PDE_IDX v < 768" "PDE_IDX v \<noteq> 0" "frame v = v"
    and w0: "walk (mach s) v = None" and nf: "0 < nfree (kernel_pool s)" "0 < nfree (user_pool s)"
  shows "\<exists>a s'. get_a_page_without_opvaddrbitmap PF_USER v s = Some (v, s') \<and> spaces p c s' \<and> entered p c v a s s'"
proof -
  let ?P = "at_root p (mach s)"
  have cs: "at_root c (mach s) = mach s" "in_space c s = s" using rt in_space_self[of s] by (simp_all add: at_root_self)
  note D = spacesD[OF sp, unfolded cs]
  have ok: "mem_ok s" using D(2) .
  note oks = mem_okD[OF ok] and okp = mem_okD[OF D(1)]
  have rP: "root_ok ?P" using okp(2) by simp
  have nr: "\<not> recursive v" using v(1) by auto
  have rm: "room PF_USER (Suc 0) v s" using nf missing_le[of "mach s" v 1] by (auto simp: room_def)
  obtain a pl s1 where s1: "palloc (pool_of PF_USER s) = Some (a, pl)" "a \<noteq> 0" "page_table_add v a (set_pool PF_USER pl s) = Some s1"
    "mem_ok s1" "extends s s1" "mapped (mach s) v a (mach s1)" "free_frame (pool_of PF_USER s) a" "frame a = a" "\<not> any_free s1 a"
    "\<forall>w p. recursive w \<longrightarrow> walk (mach s1) w = Some p \<longrightarrow> frame p \<noteq> a"
    using map_step[OF ok _ w0 rm] nr v(2) by auto
  define s0 where "s0 = set_pool PF_USER pl s"
  have m0: "mach s0 = mach s" "kernel_pool s0 = kernel_pool s" by (simp_all add: s0_def set_pool_def)
  have ok0: "mem_ok s0" unfolding s0_def by (rule palloc_fresh(1)[OF ok s1(1)])
  note wr = page_table_add_writes[OF ok0 nr s1(8) s1(3)[folded s0_def], unfolded m0]
  define T where "T = frame (pde_of (mach s1) v)"
  have rt1: "pg_root (mach s1) = c" using s1(5) rt by (simp add: extends_def)
  have cs1: "in_space c s1 = s1" using rt1 in_space_self[of s1] by simp
  note oks1 = mem_okD[OF s1(4)]
  have Told: "T \<in> tables (mach s) \<and> T \<in> user_frames (mach s) \<or> any_free s T"
  proof (cases "present (pde_of (mach s) v)")
    case True
    then show ?thesis using wr(2) v(1) pde_in_tables[OF True] by (auto simp: T_def user_frames_def)
  next
    case False
    then show ?thesis using wr(3) free_frame_any[of s T] by (simp add: T_def)
  qed
  have TP: "T \<notin> reach ?P" using Told D(6) sealed_reach[OF okp(3)] by auto
  have aP: "a \<notin> reach ?P" using sealed_reach[OF okp(3), of a] s1(7) by (auto simp: any_free_def)
  have tr: "tables ?P \<subseteq> reach ?P" by (rule tables_reach[OF rP])
  have keepP: "phys (at_root p (mach s1)) x = phys ?P x" if "frame x \<in> tables ?P" for x
  proof -
    have "frame x \<noteq> c" "frame x \<noteq> T" using that D(4) tr TP by auto
    then show ?thesis using wr(1)[of x] rt by (simp add: T_def)
  qed
  note P = tables_frame[OF _ keepP rP, simplified]
  have reachP: "reach (at_root p (mach s1)) = reach ?P" by (simp add: reach_def P(4))
  have aT: "a \<notin> tables (mach s1)" using leaf_iff[OF oks1(2), of a] s1(8,10) by (auto simp: leaf_frame_def)
  have tb: "x \<in> tables (mach s) \<or> x = T" if "x \<in> tables (mach s1)" for x
  proof -
    from that consider "x = pg_root (mach s1)" | u where "present (pde_of (mach s1) u)" "x = frame (pde_of (mach s1) u)" by (auto simp: tables_def)
    then show ?thesis
    proof cases
      case 1
      then show ?thesis using rt rt1 root_in_tables by metis
    next
      case 2
      then show ?thesis using pde_of_index[of u v "mach s1"] wr(4)[of u] pde_in_tables[of "mach s" u] by (cases "PDE_IDX u = PDE_IDX v") (auto simp: T_def)
    qed
  qed
  have cases: "(frame b = a \<and> pte_addr (mach s1) w = pte_addr (mach s1) v) \<or> walk (mach s) w = Some b"
    if "PDE_IDX w < 768" "walk (mach s1) w = Some b" for w b
  proof -
    have "\<not> recursive w" using that(1) by auto
    then show ?thesis using mapped_cases[OF s1(6,8) _ that(2)] by blast
  qed
  have Tleaf: "frame b \<noteq> T" if "PDE_IDX w < 768" "walk (mach s) w = Some b" for w b
    using Told D(7)[OF that] oks(3) that(2) by (auto simp: sealed_def)
  have "mem_ok (in_space p s1)"
  proof -
    have "\<forall>a pf. pool_frame (pool_of pf s1) a = pool_frame (pool_of pf s) a" using s1(5) unfolding extends_def by blast
    then have af: "any_frame s1 b = any_frame s b" for b unfolding any_frame_pool by simp
    have "pt_ok (at_root p (mach s1))" using okp(1) P(5) unfolding pt_ok_def P(1) by simp
    moreover have "sealed (in_space p s1)" using okp(3) extends_free[OF s1(5)] unfolding sealed_def in_space_simps any_free_in_space P(4) by blast
    moreover have "owned (in_space p s1)" using okp(4) unfolding owned_def in_space_simps P(2,4) any_frame_in_space af .
    ultimately show ?thesis using oks1(5) by (simp add: mem_ok_def pools_ok_def)
  qed
  moreover have "user_frames (mach s1) \<subseteq> insert a (insert T (user_frames (mach s)))"
  proof
    fix x assume "x \<in> user_frames (mach s1)"
    then consider w b where "PDE_IDX w < 768" "walk (mach s1) w = Some b" "x = frame b"
      | w where "PDE_IDX w < 768" "present (pde_of (mach s1) w)" "x = frame (pde_of (mach s1) w)" by (auto simp: user_frames_def)
    then show "x \<in> insert a (insert T (user_frames (mach s)))"
    proof cases
      case 1
      then show ?thesis using cases[OF 1(1,2)] by (auto simp: user_frames_def)
    next
      case 2
      then show ?thesis using pde_of_index[of w v "mach s1"] wr(4)[of w] by (cases "PDE_IDX w = PDE_IDX v") (auto simp: T_def user_frames_def)
    qed
  qed
  moreover have "pde_of (mach s1) w = pde_of (at_root p (mach s1)) w" if "kernel_addr w" for w
    using D(3)[OF that] wr(4)[of w] that v(1) by (auto simp: P(1))
  moreover have "p \<notin> tables (mach s1)" using tb[of p] D(5) TP tr root_in_tables[of ?P] by auto
  moreover have "frame b \<notin> tables (mach s1)" if "PDE_IDX w < 768" "walk (mach s1) w = Some b" for w b
    using cases[OF that] aT tb[of "frame b"] D(7)[of w b] Tleaf[of w b] that(1) by auto
  ultimately have sp1: "spaces p c s1"
    using s1(4) D(4,6) TP aP unfolding spaces_def at_root_self[OF rt1] cs1 P reachP by auto
  have "walk (mach s1) v = Some a" using s1(6) wr(5) v(3) nr by (simp add: mapped_def frame_iff)
  moreover have "walk (mach s1) w = walk (mach s) w" if "heap w" "frame w \<noteq> v" for w
    by (rule mapped_other[OF s1(6) oks1(1)]) (use nr v that in simp_all)
  moreover have "frame b \<noteq> a \<and> phys (mach s1) x = phys (mach s) x" if "PDE_IDX w < 768" "walk (mach s) w = Some b" "frame x = frame b" for w b x
  proof -
    have "frame b \<noteq> c" using D(7)[OF that(1,2)] rt root_in_tables[of "mach s"] by auto
    moreover have "frame b \<noteq> a" using that(2) oks(3) s1(7) by (auto simp: sealed_def any_free_def)
    ultimately show ?thesis using wr(1)[of x] Tleaf[OF that(1,2)] that(3) rt by (simp add: T_def)
  qed
  moreover have "b \<notin> tables (mach s1)" if "b \<notin> tables (mach s)" "\<not> any_free s b" for b using tb[of b] Told that by auto
  moreover have "phys (mach s1) x = phys (mach s) x" if "frame x \<in> reach ?P" "frame x \<noteq> c" for x
  proof -
    have "frame x \<noteq> T" using that(1) TP by metis
    then show ?thesis using wr(1)[of x] that(2) rt by (simp add: T_def)
  qed
  moreover have "nfree (user_pool s) \<le> Suc (nfree (user_pool s1))"
    using palloc_nfree[OF s1(1)] wr(6) by (simp add: s0_def set_pool_def)
  ultimately have "entered p c v a s s1"
    using rt1 s1(5,8,9) aP aT P(3,4) wr(7) unfolding entered_def extends_def by simp
  moreover have "get_a_page_without_opvaddrbitmap PF_USER v s = Some (v, s1)"
    using s1(1-3) by (simp add: get_a_page_without_opvaddrbitmap_def)
  ultimately show ?thesis using sp1 by blast
qed

section \<open>Writes to a frame that is no table\<close>

lemma mem_ok_same:
  assumes "mem_ok s" "kernel_pool s' = kernel_pool s" "user_pool s' = user_pool s" "pg_root (mach s') = pg_root (mach s)"
    "pde_of (mach s') = pde_of (mach s)" "pte_addr (mach s') = pte_addr (mach s)" "walk (mach s') = walk (mach s)" "root_ok (mach s')"
  shows "mem_ok s'"
  using assms(1,8) unfolding mem_ok_def pt_ok_def pools_ok_def sealed_def owned_def any_free_def any_frame_def assms(2-7) by blast

lemma spaces_write:
  assumes sp: "spaces p c s" and m: "\<And>x. frame x \<noteq> g \<Longrightarrow> phys m' x = phys (mach s) x"
    and g: "g \<notin> tables (at_root p (mach s))" "g \<notin> tables (at_root c (mach s))"
  shows "spaces p c (s\<lparr>mach := m'\<rparr>)" "walk (at_root p m') = walk (at_root p (mach s))" "walk (at_root c m') = walk (at_root c (mach s))"
    "tables (at_root p m') = tables (at_root p (mach s))" "tables (at_root c m') = tables (at_root c (mach s))"
proof -
  note D = spacesD[OF sp]
  have k: "phys (at_root r m') x = phys (at_root r (mach s)) x" if "frame x \<in> tables (at_root r (mach s))" "r = p \<or> r = c" for r x
    using that g m[of x] by auto
  have "root_ok (at_root p (mach s))" "root_ok (at_root c (mach s))" using mem_okD(2)[OF D(1)] mem_okD(2)[OF D(2)] by simp_all
  note P = tables_frame[OF _ k[of _ p] this(1), simplified] and C = tables_frame[OF _ k[of _ c] this(2), simplified]
  show "walk (at_root p m') = walk (at_root p (mach s))" "walk (at_root c m') = walk (at_root c (mach s))"
    "tables (at_root p m') = tables (at_root p (mach s))" "tables (at_root c m') = tables (at_root c (mach s))" by (rule P C)+
  have mach': "mach (s\<lparr>mach := m'\<rparr>) = m'" by simp
  have "mem_ok (in_space p (s\<lparr>mach := m'\<rparr>))" by (rule mem_ok_same[OF D(1)]) (simp_all add: P)
  moreover have "mem_ok (in_space c (s\<lparr>mach := m'\<rparr>))" by (rule mem_ok_same[OF D(2)]) (simp_all add: C)
  ultimately show "spaces p c (s\<lparr>mach := m'\<rparr>)"
    using D unfolding spaces_def mach' reach_def user_frames_def P C by blast
qed

lemma spaces_root [simp]: "spaces p c (s\<lparr>mach := at_root r (mach s)\<rparr>) \<longleftrightarrow> spaces p c s"
  by (simp add: spaces_def in_space_def)

text \<open>A page copied within a space.\<close>

lemma copy_page_words:
  assumes "root_ok m" "walk m b = Some f" "walk m c = Some g" "frame b = b" "frame c = c" "leaf_frame m f" "frame g = g" "f \<noteq> g"
  shows "copy_words 1024 b c m = Some (paste f g 0 1024 m)"
  using copy_words_paste[OF assms, of 0 1024] assms(4,5) by (simp add: slot_def)

section \<open>copy_page\<close>

definition fork_state :: "u32 \<Rightarrow> u32 \<Rightarrow> u32 \<Rightarrow> u32 \<Rightarrow> u32 \<Rightarrow> u32 \<Rightarrow> os \<Rightarrow> bool" where
  "fork_state child parent buf g p c s \<longleftrightarrow>
     (let m = mach (mem_of s); dc = pgdir (tasks (sched_of s) child); dp = pgdir (tasks (sched_of s) parent) in
      spaces p c (mem_of s) \<and> pg_root m = p
      \<and> dc \<noteq> 0 \<and> walk m dc = Some c
      \<and> (if dp = 0 then p = 0x100000 else kernel_addr dp \<and> walk m dp = Some p)
      \<and> frame buf = buf \<and> kernel_addr buf \<and> walk m buf = Some g \<and> frame g = g
      \<and> g \<notin> tables (at_root p m) \<and> g \<notin> tables (at_root c m)
      \<and> (\<forall>w b. PDE_IDX w < 768 \<longrightarrow> PDE_IDX w \<noteq> 0 \<longrightarrow> walk m w = Some b \<longrightarrow> frame b \<noteq> g \<and> frame b \<noteq> c))"

lemma page_dir_load_task:
  "page_dir_load t s = do { a \<leftarrow> (if pgdir (tasks (sched_of s) t) \<noteq> 0 then addr_v2p (pgdir (tasks (sched_of s) t)) (mach (mem_of s)) else Some 0x100000);
     Some (set_mach (at_root a (mach (mem_of s))) (set_sched ((sched_of s)\<lparr>cr3 := a\<rparr>) s)) }"
  by (simp add: page_dir_load_def Let_def)

lemma set_simps [simp]:
  "mem_of (set_mem m s) = m" "sched_of (set_mach mm s) = sched_of s" "sched_of (set_mem m s) = sched_of s" "uspaces (set_mach mm s) = uspaces s"
  "uspaces (set_mem m s) = uspaces s" "mem_of (set_sched k s) = mem_of s" "sched_of (set_sched k s) = k" "uspaces (set_sched k s) = uspaces s"
  by (simp_all add: set_mem_def set_mach_def set_sched_def)

text \<open>What copying the page \<open>v\<close> keeps and does.\<close>

definition page_copied :: "u32 \<Rightarrow> u32 \<Rightarrow> u32 \<Rightarrow> os \<Rightarrow> os \<Rightarrow> bool" where
  "page_copied p c v s s' \<longleftrightarrow>
     (let m = mach (mem_of s); m' = mach (mem_of s') in
      tasks (sched_of s') = tasks (sched_of s) \<and> uspaces s' = uspaces s
      \<and> walk (at_root p m') = walk (at_root p m)
      \<and> (\<forall>w b x. PDE_IDX w < 768 \<longrightarrow> PDE_IDX w \<noteq> 0 \<longrightarrow> walk (at_root p m) w = Some b \<longrightarrow> frame x = frame b \<longrightarrow> phys m' x = phys m x)
      \<and> (\<forall>j<1024. load (slot v (of_nat j)) (at_root c m') = load (slot v (of_nat j)) (at_root p m))
      \<and> walk (at_root c m') v \<noteq> None
      \<and> (\<forall>w. PDE_IDX w < 768 \<longrightarrow> PDE_IDX w \<noteq> 0 \<longrightarrow> frame w \<noteq> v \<longrightarrow> walk (at_root c m') w = walk (at_root c m) w)
      \<and> (\<forall>w b x. PDE_IDX w < 768 \<longrightarrow> walk (at_root c m) w = Some b \<longrightarrow> frame x = frame b \<longrightarrow> phys m' x = phys m x)
      \<and> nfree (user_pool (mem_of s)) \<le> Suc (nfree (user_pool (mem_of s'))) \<and> nfree (kernel_pool (mem_of s)) \<le> Suc (nfree (kernel_pool (mem_of s'))))"

lemma kernel_walk:
  assumes "spaces p c s" "kernel_addr w"
  shows "walk (at_root c (mach s)) w = walk (at_root p (mach s)) w"
  using spacesD(3)[OF assms(1,2)] by (simp add: walk_def pte_of_def pte_addr_def)

lemma walk_aligned: "walk m v = Some b \<Longrightarrow> frame v = v \<Longrightarrow> frame b = b"
  using frame_iff[of v] by (auto simp: walk_def split: if_splits)

lemma in_reach: "walk m w = Some b \<Longrightarrow> frame b \<in> reach m"
  by (auto simp: reach_def)

lemma frame_slot_nat: "j < 1024 \<Longrightarrow> frame f = f \<Longrightarrow> frame (slot f (of_nat j)) = f"
  using frame_slot[OF idx10_of_nat] by simp

lemma copy_page_ok:
  assumes fs: "fork_state child parent buf g p c s" and v: "PDE_IDX v < 768" "PDE_IDX v \<noteq> 0" "frame v = v"
    and b: "walk (mach (mem_of s)) v = Some b" and w0: "walk (at_root c (mach (mem_of s))) v = None"
    and nf: "0 < nfree (kernel_pool (mem_of s))" "0 < nfree (user_pool (mem_of s))"
  shows "\<exists>s'. copy_page child parent buf v s = Some s' \<and> fork_state child parent buf g p c s' \<and> page_copied p c v s s'"
proof -
  define m where "m = mach (mem_of s)"
  define dc where "dc = pgdir (tasks (sched_of s) child)"
  define dp where "dp = pgdir (tasks (sched_of s) parent)"
  have F: "spaces p c (mem_of s)" "pg_root m = p" "dc \<noteq> 0" "walk m dc = Some c"
    "if dp = 0 then p = 0x100000 else kernel_addr dp \<and> walk m dp = Some p"
    "frame buf = buf" "kernel_addr buf" "walk m buf = Some g" "frame g = g" "g \<notin> tables (at_root p m)" "g \<notin> tables (at_root c m)"
    "\<And>w b. PDE_IDX w < 768 \<Longrightarrow> PDE_IDX w \<noteq> 0 \<Longrightarrow> walk m w = Some b \<Longrightarrow> frame b \<noteq> g \<and> frame b \<noteq> c"
    using fs unfolding fork_state_def Let_def m_def dc_def dp_def by blast+
  note b = b[folded m_def] and w0 = w0[folded m_def] and mp = at_root_self[OF F(2)]
  note D = spacesD[OF F(1), folded m_def, unfolded mp]
  have r: "root_ok m" using mem_okD(2)[OF D(1)] by (simp add: m_def[symmetric] mp)
  have fb: "frame b = b" "b \<noteq> g" using walk_aligned[OF b v(3)] F(12)[OF v(1,2) b] by auto
  have lg: "leaf_frame m g" using leaf_iff[OF r] F(9,10) mp by simp
  define m1 where "m1 = paste g b 0 1024 m"
  have c1: "copy_words 1024 buf v m = Some m1"
    unfolding m1_def by (rule copy_page_words[OF r F(8) b F(6) v(3) lg fb(1)]) (use fb(2) in simp)
  have o1: "phys m1 x = phys m x" if "frame x \<noteq> g" for x using that F(9) by (simp add: m1_def paste_out)
  note W1 = spaces_write[OF F(1) o1[unfolded m_def] F(10,11)[unfolded m_def], folded m_def]
  have rt1: "pg_root m1 = p" using F(2) by (simp add: m1_def)
  have mp1: "at_root p m1 = m1" by (rule at_root_self[OF rt1])
  have walk1: "walk m1 = walk m" using W1(2) mp mp1 by simp
  have r1: "root_ok m1" using mem_okD(2)[OF spacesD(1)[OF W1(1)]] by (simp add: mp1)
  define M2 where "M2 = (mem_of s)\<lparr>mach := at_root c m1\<rparr>"
  have M2: "spaces p c M2" "pg_root (mach M2) = c" "at_root p (mach M2) = m1" "mach M2 = at_root c m1"
    "kernel_pool M2 = kernel_pool (mem_of s)" "user_pool M2 = user_pool (mem_of s)" "any_free M2 = any_free (mem_of s)"
    using W1(1) spaces_root[where s = "(mem_of s)\<lparr>mach := m1\<rparr>" and p = p and c = c and r = c] by (simp_all add: M2_def mp1 any_free_def fun_eq_iff)
  have "walk (mach M2) v = None" using w0 W1(3) M2(4) by simp
  then obtain a M3 where a: "get_a_page_without_opvaddrbitmap PF_USER v M2 = Some (v, M3)" "spaces p c M3" "entered p c v a M2 M3"
    using child_page[OF M2(1,2) v] nf M2(5,6) by auto
  define m3 where "m3 = mach M3"
  have pc1: "phys (at_root c m1) = phys m1" by simp
  note E = a(3)[unfolded entered_def M2(3), unfolded M2(4) pc1, folded m3_def]
  have E1: "pg_root m3 = c" "walk m3 v = Some a" "frame a = a" "a \<notin> reach m1" "a \<notin> tables m3" "walk (at_root p m3) = walk m1"
    "tables (at_root p m3) = tables m1" using E mp1 by simp_all
  have Ephys: "phys m3 x = phys m1 x" if "frame x \<in> reach m1" "frame x \<noteq> c" for x using E that by blast
  have Ekern: "walk m3 w = walk (at_root c m1) w" if "\<not> recursive w" "walk (at_root c m1) w \<noteq> None" for w using E that by blast
  have Eheap: "walk m3 w = walk (at_root c m1) w" if "heap w" "frame w \<noteq> v" for w using E that by blast
  have Eleaf: "frame bb \<noteq> a \<and> phys m3 x = phys m1 x" if "PDE_IDX w < 768" "walk (at_root c m1) w = Some bb" "frame x = frame bb" for w bb x
    using E that by blast
  have Etab: "bb \<notin> tables m3" if "bb \<notin> tables (at_root c m1)" "\<not> any_free M2 bb" for bb using E that by blast
  have mc3: "at_root c m3 = m3" by (rule at_root_self[OF E1(1)])
  have r3: "root_ok m3" using mem_okD(2)[OF spacesD(2)[OF a(2)]] by (simp add: m3_def[symmetric] mc3)
  have greach: "g \<in> reach m1" using in_reach[of m1 buf g] walk1 F(8,9) by simp
  have kern1: "walk (at_root c m1) w = walk m w" if "kernel_addr w" for w
    using kernel_walk[OF W1(1) that] mp1 walk1 by simp
  have wb3: "walk m3 buf = Some g" using Ekern[of buf] kern1[OF F(7)] F(7,8) by simp
  have ag: "a \<noteq> g" using greach E1(4) by auto
  have gc: "g \<noteq> c" using F(11) root_in_tables[of "at_root c m"] by auto
  have la: "leaf_frame m3 a" using leaf_iff[OF r3] E1(3,5) by simp
  define m4 where "m4 = paste a g 0 1024 m3"
  have c4: "copy_words 1024 v buf m3 = Some m4"
    unfolding m4_def by (rule copy_page_words[OF r3 E1(2) wb3 v(3) F(6) la F(9) ag])
  have o4: "phys m4 x = phys m3 x" if "frame x \<noteq> a" for x using that E1(3) by (simp add: m4_def paste_out)
  have "a \<notin> tables (at_root p m3)" using E1(4,7) tables_reach[OF r1] by auto
  then have ta: "a \<notin> tables (at_root p (mach M3))" "a \<notin> tables (at_root c (mach M3))" using E1(5) mc3 by (simp_all add: m3_def)
  note W4 = spaces_write[OF a(2) o4[unfolded m3_def] ta, folded m3_def, unfolded mc3 E1(6,7)]
  have rt4: "pg_root m4 = c" using E1(1) by (simp add: m4_def)
  have mc4: "at_root c m4 = m4" by (rule at_root_self[OF rt4])
  have r4: "root_ok m4" using mem_okD(2)[OF spacesD(2)[OF W4(1)]] by (simp add: mc4)
  define s1 where "s1 = set_mach (at_root c m1) (set_sched ((sched_of s)\<lparr>cr3 := c\<rparr>) (set_mach m1 s))"
  have l1: "page_dir_load child (set_mach m1 s) = Some s1"
    using recursive_entry(3)[OF r1, of dc c] walk1 F(3,4) by (simp add: page_dir_load_task dc_def s1_def)
  have ms1: "mem_of s1 = M2" "tasks (sched_of s1) = tasks (sched_of s)" "uspaces s1 = uspaces s" by (simp_all add: s1_def M2_def)
  define s4 where "s4 = set_mach m4 (set_mem M3 s1)"
  have ms4: "mem_of s4 = M3\<lparr>mach := m4\<rparr>" "tasks (sched_of s4) = tasks (sched_of s)" "uspaces s4 = uspaces s" using ms1 by (simp_all add: s4_def)
  have "addr_v2p dp m4 = Some p" if "dp \<noteq> 0"
  proof (rule recursive_entry(3)[OF r4])
    have k: "kernel_addr dp" "walk m dp = Some p" using F(5) that by simp_all
    have "walk m3 dp = Some p" using Ekern[of dp] kern1[OF k(1)] k by simp
    then show "walk m4 dp = Some p" using W4(3) mc4 by simp
  qed
  then have l4: "page_dir_load parent s4 = Some (set_mach (at_root p m4) (set_sched ((sched_of s4)\<lparr>cr3 := p\<rparr>) s4))"
    using F(5) ms4 by (cases "dp = 0") (simp_all add: page_dir_load_task dp_def)
  define s' where "s' = set_mach (at_root p m4) (set_sched ((sched_of s4)\<lparr>cr3 := p\<rparr>) s4)"
  have ms': "mem_of s' = M3\<lparr>mach := at_root p m4\<rparr>" "tasks (sched_of s') = tasks (sched_of s)" "uspaces s' = uspaces s"
    using ms4 by (simp_all add: s'_def)
  have res: "copy_page child parent buf v s = Some s'"
    using c1 l1 a(1) ms1(1) c4 l4 by (simp add: copy_page_def m_def[symmetric] m3_def[symmetric] s4_def[symmetric] s'_def)
  have ws: "walk (at_root p m4) = walk m" "walk (at_root c m4) = walk m3" using W4(2,3) walk1 by simp_all
  have ng: "\<not> any_free M2 g" using sealed_reach[OF mem_okD(3)[OF D(1)], of g] greach M2(7) walk1 by (simp add: m_def[symmetric] mp reach_def)
  have "spaces p c (mem_of s')" using W4(1) spaces_root[where s = "M3\<lparr>mach := m4\<rparr>" and p = p and c = c and r = p] ms'(1) by simp
  moreover have "g \<notin> tables (at_root p m4)" using W4(4) W1(4) F(10) mp1 by simp
  moreover have "g \<notin> tables (at_root c m4)" using W4(5) Etab[of g] ng F(11) W1(5) by simp
  ultimately have "fork_state child parent buf g p c s'"
    using F(3-9,12) ws(1) unfolding fork_state_def Let_def ms'(2) dc_def[symmetric] dp_def[symmetric] by (simp add: ms'(1))
  moreover have "page_copied p c v s s'"
  proof -
    have par: "phys m4 x = phys m x" if "PDE_IDX w < 768" "PDE_IDX w \<noteq> 0" "walk m w = Some bb" "frame x = frame bb" for w bb x
    proof -
      have x: "frame x \<noteq> g" "frame x \<noteq> c" using F(12)[OF that(1-3)] that(4) by simp_all
      have "frame x \<in> reach m1" using in_reach[of m1 w bb] that(3,4) walk1 by simp
      then show ?thesis using o1[OF x(1)] Ephys[of x] o4[of x] x(2) E1(4) by auto
    qed
    have cop: "load (slot v (of_nat j)) (at_root c m4) = load (slot v (of_nat j)) m" if j: "j < 1024" for j
    proof -
      have "walk (at_root c m4) v = Some a" using ws(2) E1(2) by simp
      then have "load (slot v (of_nat j)) (at_root c m4) = Some (phys m4 (slot a (of_nat j)))"
        using walk_slot[OF _ v(3) E1(3) j] by (simp add: load_def)
      also have "phys m4 (slot a (of_nat j)) = phys m3 (slot g (of_nat j))" unfolding m4_def by (rule paste_in) (use j in simp_all)
      also have "phys m3 (slot g (of_nat j)) = phys m1 (slot g (of_nat j))" using frame_slot_nat[OF j F(9)] greach gc by (intro Ephys) simp_all
      also have "phys m1 (slot g (of_nat j)) = phys m (slot b (of_nat j))" unfolding m1_def by (rule paste_in) (use j in simp_all)
      also have "Some (phys m (slot b (of_nat j))) = load (slot v (of_nat j)) m" using walk_slot[OF b v(3) fb(1) j] by (simp add: load_def)
      finally show ?thesis .
    qed
    have leafc: "phys m4 x = phys m x" if "PDE_IDX w < 768" "walk (at_root c m) w = Some bb" "frame x = frame bb" for w bb x
    proof -
      have "frame bb \<in> user_frames (at_root c m)" using that(1,2) by (auto simp: user_frames_def)
      then have "frame bb \<noteq> g" using D(6)[of "frame bb"] greach walk1 by (auto simp: reach_def)
      moreover have "frame bb \<noteq> a \<and> phys m3 x = phys m1 x" using Eleaf[OF that(1) _ that(3)] that(2) W1(3) by simp
      ultimately show ?thesis using o1[of x] o4[of x] that(3) by simp
    qed
    have oth: "walk (at_root c m4) w = walk (at_root c m) w" if "PDE_IDX w < 768" "PDE_IDX w \<noteq> 0" "frame w \<noteq> v" for w
    proof -
      have "heap w" using that(1,2) by auto
      then show ?thesis using Eheap[of w] that(3) ws(2) W1(3) by simp
    qed
    have n: "nfree (user_pool (mem_of s)) \<le> Suc (nfree (user_pool M3))" "nfree (kernel_pool (mem_of s)) \<le> Suc (nfree (kernel_pool M3))"
      using E M2(5,6) by simp_all
    have mm: "mach (mem_of s') = at_root p m4" "at_root p (at_root p m4) = at_root p m4" "at_root c (at_root p m4) = at_root c m4"
      "phys (at_root p m4) = phys m4" "nfree (user_pool (mem_of s')) = nfree (user_pool M3)" "nfree (kernel_pool (mem_of s')) = nfree (kernel_pool M3)"
      using ms'(1) by simp_all
    show ?thesis unfolding page_copied_def Let_def m_def[symmetric] mm mp
      using ms'(2,3) ws par cop leafc oth n E1(2) by auto
  qed
  ultimately show ?thesis using res by blast
qed

section \<open>The loop\<close>

fun each_page :: "(u32 \<Rightarrow> os \<Rightarrow> os option) \<Rightarrow> u32 list \<Rightarrow> os \<Rightarrow> os option" where
  "each_page copy [] s = Some s"
| "each_page copy (v # vs) s = do { s \<leftarrow> copy v s; each_page copy vs s }"

lemma each_page_append: "each_page copy (us @ vs) s = do { s \<leftarrow> each_page copy us s; each_page copy vs s }"
  by (induction us arbitrary: s) (auto split: bind_splits)

definition byte_pages :: "virtual_addr \<Rightarrow> nat \<Rightarrow> nat list" where
  "byte_pages va i = map (\<lambda>k. i * 8 + k) (filter (\<lambda>k. bitmap_scan_test (vaddr_bitmap va) (i * 8 + k)) [0..<8])"

lemma test_bit: "k < 8 \<Longrightarrow> push_bit k 1 AND bits (vaddr_bitmap va) i \<noteq> 0 \<longleftrightarrow> bitmap_scan_test (vaddr_bitmap va) (i * 8 + k)"
  by (simp add: bitmap_scan_test_def and.commute)

lemma copy_bits_each:
  "set ks \<subseteq> {0..<8} \<Longrightarrow> copy_bits copy va i ks s
    = each_page copy (map (\<lambda>k. page (vaddr_start va) (i * 8 + k)) (filter (\<lambda>k. bitmap_scan_test (vaddr_bitmap va) (i * 8 + k)) ks)) s"
proof (induction ks arbitrary: s)
  case (Cons k ks)
  have "of_nat (i * 8 + k) * PG_SIZE + vaddr_start va = page (vaddr_start va) (i * 8 + k)" by (simp add: page_def)
  then show ?case using Cons test_bit[of k va i] by (auto split: bind_splits)
qed simp

lemma copy_bytes_each:
  "copy_bytes copy va is s = each_page copy (map (page (vaddr_start va)) (concat (map (byte_pages va) is))) s"
proof (induction "is" arbitrary: s)
  case (Cons i "is")
  have e: "map (\<lambda>k. page (vaddr_start va) (i * 8 + k)) (filter (\<lambda>k. bitmap_scan_test (vaddr_bitmap va) (i * 8 + k)) [0..<8])
      = map (page (vaddr_start va)) (byte_pages va i)" by (simp add: byte_pages_def)
  have "byte_pages va i = []" if "bits (vaddr_bitmap va) i = 0"
    using that test_bit[of _ va i] by (auto simp: byte_pages_def filter_empty_conv)
  moreover have "copy_bytes copy va is = each_page copy (map (page (vaddr_start va)) (concat (map (byte_pages va) is)))" by (rule ext) (rule Cons.IH)
  ultimately show ?case using copy_bits_each[of "[0..<8]" copy va i s] e by (auto simp: each_page_append)
qed simp

text \<open>The pages whose bits are set, in order.\<close>

definition used_pages :: "bitmap \<Rightarrow> nat list" where
  "used_pages b = filter (bitmap_scan_test b) [0..<8 * btmp_bytes_len b]"

lemma bytes_used: "concat (map (byte_pages va) [0..<n]) = filter (bitmap_scan_test (vaddr_bitmap va)) [0..<8 * n]"
proof (induction n)
  case (Suc n)
  have u: "[0..<8 * Suc n] = [0..<8 * n] @ map (\<lambda>k. n * 8 + k) [0..<8]"
  proof -
    have "[0..<n * 8 + 8] = [0..<n * 8] @ [n * 8..<n * 8 + 8]" by (rule upt_add_eq_append) simp
    then show ?thesis by (simp add: map_add_upt mult.commute add.commute)
  qed
  have "byte_pages va n = filter (bitmap_scan_test (vaddr_bitmap va)) (map (\<lambda>k. n * 8 + k) [0..<8])"
    by (simp add: byte_pages_def filter_map comp_def)
  then show ?case unfolding u by (simp add: Suc)
qed simp

lemma copy_body_each:
  "copy_body_stack3 child parent buf s = each_page (copy_page child parent buf)
     (map (page (vaddr_start (us_vaddr (uspaces s parent)))) (used_pages (vaddr_bitmap (us_vaddr (uspaces s parent))))) s"
  by (simp add: copy_body_stack3_def Let_def copy_bytes_each bytes_used used_pages_def)

definition pages_copied :: "u32 \<Rightarrow> u32 \<Rightarrow> u32 list \<Rightarrow> os \<Rightarrow> os \<Rightarrow> bool" where
  "pages_copied p c vs s s' \<longleftrightarrow>
     (let m = mach (mem_of s); m' = mach (mem_of s') in
      walk (at_root p m') = walk (at_root p m)
      \<and> (\<forall>w b x. PDE_IDX w < 768 \<longrightarrow> PDE_IDX w \<noteq> 0 \<longrightarrow> walk (at_root p m) w = Some b \<longrightarrow> frame x = frame b \<longrightarrow> phys m' x = phys m x)
      \<and> (\<forall>v\<in>set vs. \<forall>j<1024. load (slot v (of_nat j)) (at_root c m') = load (slot v (of_nat j)) (at_root p m))
      \<and> (\<forall>w. PDE_IDX w < 768 \<longrightarrow> PDE_IDX w \<noteq> 0 \<longrightarrow> frame w \<notin> set vs \<longrightarrow> walk (at_root c m') w = walk (at_root c m) w)
      \<and> (\<forall>w b x. PDE_IDX w < 768 \<longrightarrow> PDE_IDX w \<noteq> 0 \<longrightarrow> walk (at_root c m) w = Some b \<longrightarrow> frame x = frame b \<longrightarrow> phys m' x = phys m x))"

lemma load_page:
  assumes "walk m v = Some b" "frame v = v" "j < 1024"
  shows "load (slot v (of_nat j)) m = Some (phys m (slot b (of_nat j)))" "frame (slot b (of_nat j)) = frame b" "frame b = b"
proof -
  show b: "frame b = b" by (rule walk_aligned[OF assms(1,2)])
  show "load (slot v (of_nat j)) m = Some (phys m (slot b (of_nat j)))" using walk_slot[OF assms(1,2) b assms(3)] by (simp add: load_def)
  show "frame (slot b (of_nat j)) = frame b" using frame_slot_nat[OF assms(3) b] b by simp
qed

lemma walk_frame_None: "walk m (frame w) = None \<Longrightarrow> walk m w = None"
  by (simp add: walk_def pde_of_def pte_of_def pte_addr_def frame_parts split: if_splits)

lemma each_copy_ok:
  assumes "fork_state child parent buf g p c s" "distinct vs" "length vs \<le> nfree (kernel_pool (mem_of s))" "length vs \<le> nfree (user_pool (mem_of s))"
    and "\<forall>v\<in>set vs. PDE_IDX v < 768 \<and> PDE_IDX v \<noteq> 0 \<and> frame v = v \<and> walk (mach (mem_of s)) v \<noteq> None \<and> walk (at_root c (mach (mem_of s))) v = None"
  shows "\<exists>s'. each_page (copy_page child parent buf) vs s = Some s' \<and> fork_state child parent buf g p c s' \<and> pages_copied p c vs s s'"
  using assms
proof (induction vs arbitrary: s)
  case Nil
  then show ?case by (simp add: pages_copied_def)
next
  case (Cons v vs)
  have v: "PDE_IDX v < 768" "PDE_IDX v \<noteq> 0" "frame v = v" "walk (at_root c (mach (mem_of s))) v = None" using Cons.prems(5) by auto
  obtain b where b: "walk (mach (mem_of s)) v = Some b" using Cons.prems(5) by auto
  have nf: "0 < nfree (kernel_pool (mem_of s))" "0 < nfree (user_pool (mem_of s))" using Cons.prems(3,4) by auto
  obtain s1 where s1: "copy_page child parent buf v s = Some s1" "fork_state child parent buf g p c s1" "page_copied p c v s s1"
    using copy_page_ok[OF Cons.prems(1) v(1-3) b v(4) nf] by blast
  have root: "at_root p (mach (mem_of t)) = mach (mem_of t)" if "fork_state child parent buf g p c t" for t
    using that by (intro at_root_self) (simp add: fork_state_def Let_def)
  note mp = root[OF Cons.prems(1)] and mp1 = root[OF s1(2)]
  note S = s1(3)[unfolded page_copied_def Let_def]
  have W: "walk (at_root p (mach (mem_of s1))) = walk (at_root p (mach (mem_of s)))" using S by blast
  have par: "phys (mach (mem_of s1)) x = phys (mach (mem_of s)) x"
    if "PDE_IDX w < 768" "PDE_IDX w \<noteq> 0" "walk (at_root p (mach (mem_of s))) w = Some b" "frame x = frame b" for w b x using S that by blast
  have cop: "load (slot v (of_nat j)) (at_root c (mach (mem_of s1))) = load (slot v (of_nat j)) (at_root p (mach (mem_of s)))" if "j < 1024" for j
    using S that by blast
  obtain a where a: "walk (at_root c (mach (mem_of s1))) v = Some a" using S by blast
  have chi: "walk (at_root c (mach (mem_of s1))) w = walk (at_root c (mach (mem_of s))) w"
    if "PDE_IDX w < 768" "PDE_IDX w \<noteq> 0" "frame w \<noteq> v" for w using S that by blast
  have lea: "phys (mach (mem_of s1)) x = phys (mach (mem_of s)) x"
    if "PDE_IDX w < 768" "walk (at_root c (mach (mem_of s))) w = Some b" "frame x = frame b" for w b x using S that by blast
  have n: "length vs \<le> nfree (kernel_pool (mem_of s1))" "length vs \<le> nfree (user_pool (mem_of s1))" using S Cons.prems(3,4) by auto
  have pre: "\<forall>w\<in>set vs. PDE_IDX w < 768 \<and> PDE_IDX w \<noteq> 0 \<and> frame w = w \<and> walk (mach (mem_of s1)) w \<noteq> None \<and> walk (at_root c (mach (mem_of s1))) w = None"
  proof
    fix w assume w: "w \<in> set vs"
    then have q: "PDE_IDX w < 768" "PDE_IDX w \<noteq> 0" "frame w = w" "walk (mach (mem_of s)) w \<noteq> None" "walk (at_root c (mach (mem_of s))) w = None" "w \<noteq> v"
      using Cons.prems(2,5) by auto
    then show "PDE_IDX w < 768 \<and> PDE_IDX w \<noteq> 0 \<and> frame w = w \<and> walk (mach (mem_of s1)) w \<noteq> None \<and> walk (at_root c (mach (mem_of s1))) w = None"
      using chi[of w] W mp mp1 by simp
  qed
  obtain s' where s': "each_page (copy_page child parent buf) vs s1 = Some s'" "fork_state child parent buf g p c s'" "pages_copied p c vs s1 s'"
    using Cons.IH[OF s1(2) _ n pre] Cons.prems(2) by auto
  note R = s'(3)[unfolded pages_copied_def Let_def]
  have W': "walk (at_root p (mach (mem_of s'))) = walk (at_root p (mach (mem_of s1)))" using R by blast
  have par': "phys (mach (mem_of s')) x = phys (mach (mem_of s1)) x"
    if "PDE_IDX w < 768" "PDE_IDX w \<noteq> 0" "walk (at_root p (mach (mem_of s1))) w = Some b" "frame x = frame b" for w b x using R that by blast
  have cop': "load (slot w (of_nat j)) (at_root c (mach (mem_of s'))) = load (slot w (of_nat j)) (at_root p (mach (mem_of s1)))"
    if "w \<in> set vs" "j < 1024" for w j using R that by blast
  have chi': "walk (at_root c (mach (mem_of s'))) w = walk (at_root c (mach (mem_of s1))) w"
    if "PDE_IDX w < 768" "PDE_IDX w \<noteq> 0" "frame w \<notin> set vs" for w using R that by blast
  have lea': "phys (mach (mem_of s')) x = phys (mach (mem_of s1)) x"
    if "PDE_IDX w < 768" "PDE_IDX w \<noteq> 0" "walk (at_root c (mach (mem_of s1))) w = Some b" "frame x = frame b" for w b x using R that by blast
  have all: "load (slot w (of_nat j)) (at_root c (mach (mem_of s'))) = load (slot w (of_nat j)) (at_root p (mach (mem_of s)))"
    if w: "w \<in> set (v # vs)" and j: "j < 1024" for w j
  proof (cases "w = v")
    case True
    have nv: "frame v \<notin> set vs" using Cons.prems(2) v(3) by simp
    have a': "walk (at_root c (mach (mem_of s'))) v = Some a" using chi'[OF v(1,2) nv] a by simp
    have "phys (mach (mem_of s')) (slot a (of_nat j)) = phys (mach (mem_of s1)) (slot a (of_nat j))"
      by (rule lea'[OF v(1,2) a load_page(2)[OF a v(3) j]])
    then show ?thesis using load_page(1)[OF a' v(3) j] load_page(1)[OF a v(3) j] cop[OF j] True by simp
  next
    case False
    then have wv: "w \<in> set vs" using w by simp
    then have wp: "PDE_IDX w < 768" "frame w = w" "walk (mach (mem_of s)) w \<noteq> None" "PDE_IDX w \<noteq> 0" using Cons.prems(5) by auto
    then obtain bw where bw: "walk (at_root p (mach (mem_of s))) w = Some bw" using mp by auto
    have bw1: "walk (at_root p (mach (mem_of s1))) w = Some bw" using bw W by simp
    show ?thesis using cop'[OF wv j] load_page(1)[OF bw wp(2) j] load_page(1)[OF bw1 wp(2) j] par[OF wp(1,4) bw load_page(2)[OF bw wp(2) j]] by simp
  qed
  have "pages_copied p c (v # vs) s s'"
    unfolding pages_copied_def Let_def
  proof (intro conjI allI ballI impI)
    show "walk (at_root p (mach (mem_of s'))) = walk (at_root p (mach (mem_of s)))" using W W' by simp
    show "load (slot w (of_nat j)) (at_root c (mach (mem_of s'))) = load (slot w (of_nat j)) (at_root p (mach (mem_of s)))"
      if "w \<in> set (v # vs)" "j < 1024" for w j by (rule all[OF that])
    show "phys (mach (mem_of s')) x = phys (mach (mem_of s)) x"
      if "PDE_IDX w < 768" "PDE_IDX w \<noteq> 0" "walk (at_root p (mach (mem_of s))) w = Some b" "frame x = frame b" for w b x
      using par[OF that] par'[OF that(1,2) _ that(4)] that(3) W by simp
    show "walk (at_root c (mach (mem_of s'))) w = walk (at_root c (mach (mem_of s))) w"
      if "PDE_IDX w < 768" "PDE_IDX w \<noteq> 0" "frame w \<notin> set (v # vs)" for w using chi[of w] chi'[of w] that by simp
    show "phys (mach (mem_of s')) x = phys (mach (mem_of s)) x"
      if q: "PDE_IDX w < 768" "PDE_IDX w \<noteq> 0" "walk (at_root c (mach (mem_of s))) w = Some b" "frame x = frame b" for w b x
    proof -
      have "frame w \<noteq> v" using walk_frame_None[of _ w] v(4) q(3) by auto
      then have "walk (at_root c (mach (mem_of s1))) w = Some b" using chi q(1-3) by simp
      then show ?thesis using lea'[OF q(1,2) _ q(4)] lea[OF q(1,3,4)] by simp
    qed
  qed
  then show ?case using s1(1) s'(1,2) by auto
qed

section \<open>fork\<close>

lemma page_table_add_frames:
  "page_table_add v a s = Some s' \<Longrightarrow> nfree (kernel_pool s) \<le> Suc (nfree (kernel_pool s')) \<and> user_pool s' = user_pool s"
  by (auto simp: page_table_add_def Let_def bind_Some_iff dest: palloc_nfree split: if_splits)

lemma map_page_frames:
  "map_pages (Suc 0) PF_KERNEL v s = Some (b, s') \<Longrightarrow> nfree (kernel_pool s) \<le> 2 + nfree (kernel_pool s') \<and> user_pool s' = user_pool s"
  by (auto simp: bind_Some_iff set_pool_def pool_of_def dest!: page_table_add_frames dest: palloc_nfree split: if_splits)

lemma vaddr_get_pools: "vaddr_get pf n s = Some (v, s') \<Longrightarrow> kernel_pool s' = kernel_pool s \<and> user_pool s' = user_pool s"
  by (clarsimp simp: vaddr_get_def Let_def bind_Some_iff split: if_splits) (metis set_vaddr_simps(2,3))

lemma get_page_frames:
  assumes "get_pages PF_KERNEL 1 s = Some (v, s')"
  shows "nfree (kernel_pool s) \<le> 2 + nfree (kernel_pool s')" "user_pool s' = user_pool s"
proof -
  obtain w s1 where s1: "malloc_page PF_KERNEL 1 s = Some (w, s1)" "kernel_pool s' = kernel_pool s1" "user_pool s' = user_pool s1"
    using assms by (auto simp: get_pages_def bind_Some_iff split: if_splits)
  obtain u s0 where s0: "vaddr_get PF_KERNEL (Suc 0) s = Some (u, s0)"
    "(if u = 0 then Some (0, s0) else do { (ok, s2) \<leftarrow> map_pages (Suc 0) PF_KERNEL u s0; Some (if ok then u else 0, s2) }) = Some (w, s1)"
    using s1(1) by (auto simp: malloc_page_def bind_Some_iff simp del: map_pages.simps)
  have "nfree (kernel_pool s0) \<le> 2 + nfree (kernel_pool s1) \<and> user_pool s1 = user_pool s0"
    using s0(2) map_page_frames[of u s0] by (auto simp: bind_Some_iff simp del: map_pages.simps split: if_splits)
  then show "nfree (kernel_pool s) \<le> 2 + nfree (kernel_pool s')" "user_pool s' = user_pool s"
    using vaddr_get_pools[OF s0(1)] s1(2,3) by simp_all
qed

text \<open>When the kernel's space has a page for the directory and the page \<open>buf\<close> leads to a frame of the pools.\<close>

definition fork_ready :: "u32 \<Rightarrow> u32 \<Rightarrow> u32 \<Rightarrow> os \<Rightarrow> bool" where
  "fork_ready child parent buf s \<longleftrightarrow>
     (let mm = mem_of s; m = mach mm; b = vaddr_bitmap (kernel_vaddr mm); dp = pgdir (tasks (sched_of s) parent) in
      mem_ok mm \<and> vspace PF_KERNEL mm \<and> stocked PF_KERNEL 1 mm \<and> vaddr_start (kernel_vaddr mm) = K_HEAP_START
      \<and> (\<exists>r < 8 * btmp_bytes_len b. free_run b r 1)
      \<and> frame buf = buf \<and> kernel_addr buf \<and> (\<exists>g. walk m buf = Some g \<and> leaf_frame m g \<and> any_frame mm g)
      \<and> (if dp = 0 then pg_root m = 0x100000 else kernel_addr dp \<and> walk m dp = Some (pg_root m)) \<and> child \<noteq> parent)"

lemma other_part:
  assumes "mem_ok s" "heap v" "heap w" "walk (mach s) v = Some a" "walk (mach s) w = Some b" "any_frame s (frame a)" "PDE_IDX v \<noteq> PDE_IDX w"
  shows "frame b \<noteq> frame a"
proof
  assume e: "frame b = frame a"
  have "pte_addr (mach s) v = pte_addr (mach s) w"
    using ownedD[OF mem_okD(4)[OF assms(1)] _ _ assms(4,5) e[symmetric] assms(6)] assms(2,3) by blast
  moreover have "present (pde_of (mach s) v)" "present (pde_of (mach s) w)" using assms(4,5) by (auto simp: walk_def split: if_splits)
  ultimately have "frame v = frame w" using same_page[OF mem_okD(1)[OF assms(1)] assms(2,3)] by blast
  then show False using assms(7) frame_parts(1) by metis
qed

lemma heap_page_index:
  assumes "k < 8 * btmp_bytes_len b" "unat K_HEAP_START + 4096 * (8 * btmp_bytes_len b) \<le> 4294967296"
  shows "768 \<le> PDE_IDX (page K_HEAP_START k)"
proof -
  have h: "unat K_HEAP_START = 3222274048" by (simp add: K_HEAP_START_def)
  have "unat (page K_HEAP_START k) = unat K_HEAP_START + 4096 * k" by (rule unat_page) (use assms in linarith)
  then have "768 \<le> unat (PDE_IDX (page K_HEAP_START k))" unfolding unat_PDE_IDX h by simp
  then show ?thesis by (simp add: word_le_nat_alt)
qed

lemma create_page_dir_fork:
  assumes fr: "fork_ready child parent buf s"
  shows "\<exists>d g f s1. create_page_dir s = Some (d, s1) \<and> d \<noteq> 0 \<and> walk (mach (mem_of s1)) d = Some f
    \<and> fork_state child parent buf g (pg_root (mach (mem_of s))) f (on_task child (\<lambda>t. t\<lparr>pgdir := d\<rparr>) s1)
    \<and> (\<forall>w. PDE_IDX w < 768 \<longrightarrow> walk (at_root f (mach (mem_of s1))) w = None)
    \<and> (\<forall>w. \<not> recursive w \<longrightarrow> walk (mach (mem_of s)) w \<noteq> None \<longrightarrow> walk (mach (mem_of s1)) w = walk (mach (mem_of s)) w)
    \<and> uspaces s1 = uspaces s \<and> nfree (user_pool (mem_of s1)) = nfree (user_pool (mem_of s))
    \<and> nfree (kernel_pool (mem_of s)) \<le> 2 + nfree (kernel_pool (mem_of s1))"
proof -
  define mm where "mm = mem_of s"
  define dp where "dp = pgdir (tasks (sched_of s) parent)"
  define p where "p = pg_root (mach mm)"
  obtain r g where F: "mem_ok mm" "vspace PF_KERNEL mm" "stocked PF_KERNEL 1 mm" "vaddr_start (kernel_vaddr mm) = K_HEAP_START"
    "r < 8 * btmp_bytes_len (vaddr_bitmap (kernel_vaddr mm))" "free_run (vaddr_bitmap (kernel_vaddr mm)) r 1" "frame buf = buf" "kernel_addr buf"
    "walk (mach mm) buf = Some g" "leaf_frame (mach mm) g" "any_frame mm g" "if dp = 0 then p = 0x100000 else kernel_addr dp \<and> walk (mach mm) dp = Some p"
    "child \<noteq> parent" using fr unfolding fork_ready_def Let_def mm_def dp_def p_def by blast
  obtain k d f s1 where s1: "get_pages PF_KERNEL 1 mm = Some (d, s1)" "mem_ok s1" "maps_new PF_KERNEL 1 d mm s1" "pg_root (mach s1) = p"
    "d = page K_HEAP_START k" "k < 8 * btmp_bytes_len (vaddr_bitmap (kernel_vaddr mm))" "d \<noteq> 0" "frame d = d" "walk (mach s1) d = Some f"
    "leaf_frame (mach s1) f" "\<forall>i<1024. phys (mach s1) (slot f (of_nat i)) = 0" "free_frame (kernel_pool mm) f"
    using get_page_ok[OF F(1,2,6,5,3)] F(4) by (auto simp: p_def)
  define m' where "m' = new_dir f (mach s1)"
  define s' where "s' = set_mach m' (set_mem s1 s)"
  have ms': "mem_of s' = s1\<lparr>mach := m'\<rparr>" by (simp add: s'_def set_mem_def)
  have r: "root_ok (mach s1)" by (rule mem_okD(2)[OF s1(2)])
  note h = new_dir_here[OF r s1(10), folded m'_def] and n = new_dir_walk[OF r s1(10,11), folded m'_def]
  have ft: "frame f = f" "frame g = g" using s1(10) F(10) by (simp_all add: leaf_frame_def)
  have rt: "pg_root m' = p" using new_dir_words(2)[OF ft(1), of "mach s1"] s1(4) by (simp add: m'_def)
  have old: "walk (mach s1) w = walk (mach mm) w" if "\<not> recursive w" "walk (mach mm) w \<noteq> None" for w
    using s1(3) that unfolding maps_new_def by blast
  have pf: "any_frame s1 a = any_frame mm a" for a using s1(3) unfolding maps_new_def any_frame_pool by blast
  have gb: "walk (mach s1) buf = Some g" using old[of buf] F(8,9) by simp
  have gn: "\<not> any_free mm g" using mem_okD(3)[OF F(1)] F(9) ft(2) unfolding sealed_def by metis
  have "leaf mm g" using F(10) by (simp add: leaf_frame_def leaf_def)
  then have "leaf s1 g" using s1(3) gn unfolding maps_new_def by blast
  then have g1: "g \<notin> tables (mach s1)" using leaf_iff[OF r, of g] ft(2) by (simp add: leaf_frame_def leaf_def)
  have gf: "g \<noteq> f" using gn s1(12) by (auto simp: any_free_def)
  have "768 \<le> PDE_IDX d" using heap_page_index[OF s1(6)] F(2,4) unfolding s1(5) by (simp add: vspace_def Let_def vaddr_of_def)
  moreover have "\<not> recursive d" using s1(3,9,10) by (auto simp: maps_new_def page_simps leaf_frame_def)
  ultimately have d: "kernel_addr d" by simp
  have af: "any_frame s1 f" unfolding pf using s1(12) by (auto simp: any_frame_def free_frame_def pool_frame_def)
  have us: "frame b \<noteq> g \<and> frame b \<noteq> f" if w: "PDE_IDX w < 768" "PDE_IDX w \<noteq> 0" "walk (mach s1) w = Some b" for w b
  proof -
    have hw: "heap w" using w(1,2) by auto
    have "heap buf" "PDE_IDX buf \<noteq> PDE_IDX w" using F(8) w(1) by auto
    then have "frame b \<noteq> frame g" using other_part[OF s1(2) _ hw gb w(3)] F(11) ft(2) pf by simp
    moreover have "heap d" "PDE_IDX d \<noteq> PDE_IDX w" using d w(1) by auto
    then have "frame b \<noteq> frame f" using other_part[OF s1(2) _ hw s1(9) w(3)] af ft(1) by simp
    ultimately show ?thesis using ft by simp
  qed
  have ar: "at_root p m' = m'" by (rule at_root_self[OF rt])
  have sp: "spaces p f (s1\<lparr>mach := m'\<rparr>)" using new_dir_spaces[OF s1(2,9,10,11)] s1(4) by (simp add: m'_def)
  have "fork_state child parent buf g p f (on_task child (\<lambda>t. t\<lparr>pgdir := d\<rparr>) s')"
    using F(7,8,13) gb g1 gf n(7) h(1,4) us sp ft(2) s1(7,9) F(12) old[of dp] rt
    by (auto simp: fork_state_def Let_def on_task_def task_upd_def s'_def ar dp_def ms')
  moreover have "create_page_dir s = Some (d, s')" unfolding s'_def m'_def
    by (rule create_page_dir_ok[OF s1(1)[unfolded mm_def] s1(7,8,2,9,10)])
  moreover have "uspaces s' = uspaces s" by (simp add: s'_def)
  ultimately show ?thesis
    using s1(7,9) n(4) h(1) old get_page_frames[OF s1(1)] ms'
    by (intro exI[of _ d] exI[of _ g] exI[of _ f] exI[of _ s']) (simp add: mm_def p_def)
qed

lemma used_pages_bounds:
  assumes "btmp_bytes_len b = user_bitmap_len" "i \<in> set (used_pages b)"
  shows "i < 753592" "page USER_VADDR_START i = page USER_VADDR_START j \<and> j < 753592 \<Longrightarrow> i = j" "PDE_IDX (page USER_VADDR_START i) < 768"
    "PDE_IDX (page USER_VADDR_START i) \<noteq> 0" "frame (page USER_VADDR_START i) = page USER_VADDR_START i"
    "bitmap_scan_test b i"
proof -
  show i: "i < 753592" using assms by (simp add: used_pages_def user_bitmap_len_def)
  show "page USER_VADDR_START i = page USER_VADDR_START j \<and> j < 753592 \<Longrightarrow> i = j" using i page_inj[of i j] by simp
  have h: "unat USER_VADDR_START = 134512640" by (simp add: USER_VADDR_START_def)
  have u: "unat (page USER_VADDR_START i) = 134512640 + 4096 * i" using unat_page[of USER_VADDR_START i] i h by simp
  have "unat (PDE_IDX (page USER_VADDR_START i)) < 768" unfolding unat_PDE_IDX u using i by simp
  then show "PDE_IDX (page USER_VADDR_START i) < 768" by (simp add: word_less_nat_alt)
  have "32 \<le> unat (PDE_IDX (page USER_VADDR_START i))" unfolding unat_PDE_IDX u by simp
  then show "PDE_IDX (page USER_VADDR_START i) \<noteq> 0" by (auto simp: unat_eq_zero)
  show "frame (page USER_VADDR_START i) = page USER_VADDR_START i" by (rule frame_page) (simp add: USER_VADDR_START_def frame_def)
  show "bitmap_scan_test b i" using assms(2) by (simp add: used_pages_def)
qed

lemma distinct_used: 
  assumes "btmp_bytes_len b = user_bitmap_len"
  shows "distinct (map (page USER_VADDR_START) (used_pages b))"
proof -
  have "inj_on (page USER_VADDR_START) (set (used_pages b))"
    using used_pages_bounds(1,2)[OF assms] by (auto intro!: inj_onI)
  then show ?thesis by (simp add: distinct_map used_pages_def)
qed

lemma copied_words:
  assumes pc: "pages_copied p c vs s s'" and rt: "pg_root (mach (mem_of s)) = p" "pg_root (mach (mem_of s')) = p"
    and v: "v \<in> set vs" "PDE_IDX v < 768" "PDE_IDX v \<noteq> 0" "frame v = v" "walk (mach (mem_of s)) v \<noteq> None" "j < 1024"
  shows "load (v + of_nat j * 4) (at_root c (mach (mem_of s'))) = load (v + of_nat j * 4) (mach (mem_of s))
    \<and> load (v + of_nat j * 4) (mach (mem_of s')) = load (v + of_nat j * 4) (mach (mem_of s)) \<and> load (v + of_nat j * 4) (mach (mem_of s)) \<noteq> None"
proof -
  note R = pc[unfolded pages_copied_def Let_def at_root_self[OF rt(1)] at_root_self[OF rt(2)]]
  obtain a where a: "walk (mach (mem_of s)) v = Some a" using v(5) by auto
  have a2: "walk (mach (mem_of s')) v = Some a" using R a by simp
  have "phys (mach (mem_of s')) (slot a (of_nat j)) = phys (mach (mem_of s)) (slot a (of_nat j))"
    using R v(2,3) a load_page(2)[OF a v(4,6)] by blast
  moreover have "load (slot v (of_nat j)) (at_root c (mach (mem_of s'))) = load (slot v (of_nat j)) (mach (mem_of s))" using R v(1,6) by blast
  ultimately show ?thesis using load_page(1)[OF a v(4,6)] load_page(1)[OF a2 v(4,6)] unfolding word_at[OF v(4)] by simp
qed

text \<open>C1: fork's copy of the memory, as copy_process makes it: with a page for the directory, a page of the
  kernel as buffer and frames enough in both pools, create_page_dir and copy_body_stack3 return; then every page
  that the parent's bitmap marks is mapped in the child's directory and holds there the words it holds in the
  parent's, the parent's words are as before the copy, the parent's directory is loaded again, no other user page
  is mapped in the child, and the two spaces share no frame but those of the kernel.\<close>
theorem fork_copies_memory:
  assumes "fork_ready child parent buf s"
    and "vaddr_start (us_vaddr (uspaces s parent)) = USER_VADDR_START"
    and "btmp_bytes_len (vaddr_bitmap (us_vaddr (uspaces s parent))) = user_bitmap_len"
    and "\<forall>i\<in>set (used_pages (vaddr_bitmap (us_vaddr (uspaces s parent)))). walk (mach (mem_of s)) (page USER_VADDR_START i) \<noteq> None"
    and "length (used_pages (vaddr_bitmap (us_vaddr (uspaces s parent)))) + 2 \<le> nfree (kernel_pool (mem_of s))"
    and "length (used_pages (vaddr_bitmap (us_vaddr (uspaces s parent)))) \<le> nfree (user_pool (mem_of s))"
  shows "\<exists>d f s1 s2. create_page_dir s = Some (d, s1) \<and> walk (mach (mem_of s1)) d = Some f
    \<and> copy_body_stack3 child parent buf (on_task child (\<lambda>t. t\<lparr>pgdir := d\<rparr>) s1) = Some s2
    \<and> pg_root (mach (mem_of s2)) = pg_root (mach (mem_of s)) \<and> spaces (pg_root (mach (mem_of s))) f (mem_of s2)
    \<and> (\<forall>i\<in>set (used_pages (vaddr_bitmap (us_vaddr (uspaces s parent)))). \<forall>j<1024.
         load (page USER_VADDR_START i + of_nat j * 4) (at_root f (mach (mem_of s2))) = load (page USER_VADDR_START i + of_nat j * 4) (mach (mem_of s1))
         \<and> load (page USER_VADDR_START i + of_nat j * 4) (mach (mem_of s2)) = load (page USER_VADDR_START i + of_nat j * 4) (mach (mem_of s1))
         \<and> load (page USER_VADDR_START i + of_nat j * 4) (mach (mem_of s1)) \<noteq> None)
    \<and> (\<forall>w. PDE_IDX w < 768 \<and> PDE_IDX w \<noteq> 0 \<and> frame w \<notin> page USER_VADDR_START ` set (used_pages (vaddr_bitmap (us_vaddr (uspaces s parent))))
         \<longrightarrow> walk (at_root f (mach (mem_of s2))) w = None)"
proof -
  define b where "b = vaddr_bitmap (us_vaddr (uspaces s parent))"
  define vs where "vs = map (page USER_VADDR_START) (used_pages b)"
  define p where "p = pg_root (mach (mem_of s))"
  note ub = used_pages_bounds[OF assms(3), folded b_def]
  obtain d g f s1 where C: "create_page_dir s = Some (d, s1)" "walk (mach (mem_of s1)) d = Some f"
    "fork_state child parent buf g p f (on_task child (\<lambda>t. t\<lparr>pgdir := d\<rparr>) s1)"
    "\<forall>w. PDE_IDX w < 768 \<longrightarrow> walk (at_root f (mach (mem_of s1))) w = None"
    "\<forall>w. \<not> recursive w \<longrightarrow> walk (mach (mem_of s)) w \<noteq> None \<longrightarrow> walk (mach (mem_of s1)) w = walk (mach (mem_of s)) w"
    "uspaces s1 = uspaces s" "nfree (user_pool (mem_of s1)) = nfree (user_pool (mem_of s))"
    "nfree (kernel_pool (mem_of s)) \<le> 2 + nfree (kernel_pool (mem_of s1))" using create_page_dir_fork[OF assms(1)] unfolding p_def by blast
  let ?t = "on_task child (\<lambda>t. t\<lparr>pgdir := d\<rparr>) s1"
  have t: "mem_of ?t = mem_of s1" "uspaces ?t = uspaces s" using C(6) by (simp_all add: on_task_def)
  have rt: "pg_root (mach (mem_of s1)) = p" using C(3) t by (simp add: fork_state_def Let_def)
  have mapped: "walk (mach (mem_of s1)) v \<noteq> None" if v: "v \<in> set vs" for v
  proof -
    obtain i where i: "v = page USER_VADDR_START i" "i \<in> set (used_pages b)" using v by (auto simp: vs_def)
    have "\<not> recursive v" using ub(3)[OF i(2)] i(1) by auto
    then show ?thesis using C(5) assms(4) i by (auto simp: b_def)
  qed
  have "\<forall>v\<in>set vs. PDE_IDX v < 768 \<and> PDE_IDX v \<noteq> 0 \<and> frame v = v \<and> walk (mach (mem_of ?t)) v \<noteq> None \<and> walk (at_root f (mach (mem_of ?t))) v = None"
    using mapped C(4) ub(3-5) unfolding t by (auto simp: vs_def)
  then obtain s2 where s2: "each_page (copy_page child parent buf) vs ?t = Some s2" "fork_state child parent buf g p f s2" "pages_copied p f vs ?t s2"
    using each_copy_ok[OF C(3) distinct_used[OF assms(3), folded b_def vs_def]] assms(5,6) C(7,8) unfolding t by (auto simp: vs_def b_def)
  have run: "copy_body_stack3 child parent buf ?t = Some s2" using s2(1) assms(2) by (simp add: copy_body_each t(2) vs_def b_def)
  have rt2: "pg_root (mach (mem_of s2)) = p" "spaces p f (mem_of s2)" using s2(2) by (simp_all add: fork_state_def Let_def)
  note R = s2(3)[unfolded pages_copied_def Let_def t at_root_self[OF rt] at_root_self[OF rt2(1)]]
  have words: "load (v + of_nat j * 4) (at_root f (mach (mem_of s2))) = load (v + of_nat j * 4) (mach (mem_of s1))
      \<and> load (v + of_nat j * 4) (mach (mem_of s2)) = load (v + of_nat j * 4) (mach (mem_of s1)) \<and> load (v + of_nat j * 4) (mach (mem_of s1)) \<noteq> None"
    if v: "v \<in> set vs" "j < 1024" for v j
    using copied_words[OF s2(3) _ _ v(1) _ _ _ _ v(2)] v mapped[OF v(1)] ub(3-5) rt rt2(1) unfolding t by (auto simp: vs_def)
  have none: "walk (at_root f (mach (mem_of s2))) w = None" if "PDE_IDX w < 768" "PDE_IDX w \<noteq> 0" "frame w \<notin> set vs" for w
    using R C(4) that by simp
  show ?thesis
    unfolding b_def[symmetric] p_def[symmetric]
    using C(1,2) run rt2 words none by (intro exI[of _ d] exI[of _ f] exI[of _ s1] exI[of _ s2]) (auto simp: vs_def)
qed

section \<open>A machine on which fork runs\<close>

lemma added_page:
  assumes "mem_ok s" "vspace PF_KERNEL s" "heap v" "frame v = v" "walk (mach s) v = None" "2 \<le> nfree (kernel_pool s)" "1 \<le> nfree (user_pool s)"
    and v: "\<forall>i < 8 * btmp_bytes_len (vaddr_bitmap (kernel_vaddr s)). page (vaddr_start (kernel_vaddr s)) i \<noteq> v"
  shows "\<exists>a s'. get_a_page_without_opvaddrbitmap pf v s = Some (v, s') \<and> mem_ok s' \<and> vspace PF_KERNEL s' \<and> kernel_vaddr s' = kernel_vaddr s
    \<and> walk (mach s') v = Some a \<and> leaf_frame (mach s') a \<and> any_frame s' a \<and> \<not> any_free s' a \<and> extends s s'
    \<and> (\<forall>w. heap w \<longrightarrow> frame w \<noteq> v \<longrightarrow> walk (mach s') w = walk (mach s) w)
    \<and> nfree (kernel_pool s) \<le> 2 + nfree (kernel_pool s') \<and> nfree (user_pool s) \<le> 1 + nfree (user_pool s')"
proof -
  have rm: "room pf (Suc 0) v s" using assms(6,7) missing_le[of "mach s" v 1] by (cases pf) (auto simp: room_def)
  obtain a p s1 where s1: "palloc (pool_of pf s) = Some (a, p)" "a \<noteq> 0" "page_table_add v a (set_pool pf p s) = Some s1"
    "mem_ok s1" "extends s s1" "mapped (mach s) v a (mach s1)" "free_frame (pool_of pf s) a" "frame a = a" "\<not> any_free s1 a"
    "\<forall>w p. recursive w \<longrightarrow> walk (mach s1) w = Some p \<longrightarrow> frame p \<noteq> a"
    using map_step[OF assms(1,3,5) rm] by blast
  have get: "get_a_page_without_opvaddrbitmap pf v s = Some (v, s1)" using s1(1-3) by (simp add: get_a_page_without_opvaddrbitmap_def)
  have w: "walk (mach s1) v = Some a" using s1(6) assms(3,4) by (simp add: mapped_def frame_iff)
  have k: "kernel_vaddr s1 = kernel_vaddr s" using s1(5) by (simp add: extends_def)
  have other: "walk (mach s1) w = walk (mach s) w" if "heap w" "frame w \<noteq> v" for w
    by (rule mapped_other[OF s1(6) mem_okD(1)[OF s1(4)] assms(3)]) (use that assms(4) in simp_all)
  have vs: "vspace PF_KERNEL s1"
  proof -
    have b: "frame (vaddr_start (kernel_vaddr s)) = vaddr_start (kernel_vaddr s)" using assms(2) by (simp add: vspace_def Let_def vaddr_of_def)
    have "walk (mach s1) (page (vaddr_start (kernel_vaddr s)) i) = None"
      if "i < 8 * btmp_bytes_len (vaddr_bitmap (kernel_vaddr s))" "\<not> bitmap_scan_test (vaddr_bitmap (kernel_vaddr s)) i" for i
    proof -
      have "heap (page (vaddr_start (kernel_vaddr s)) i)" "walk (mach s) (page (vaddr_start (kernel_vaddr s)) i) = None"
        using assms(2) that unfolding vspace_def Let_def vaddr_of_def by auto
      then show ?thesis using other frame_page[OF b] v that(1) by simp
    qed
    then show ?thesis using assms(2) by (simp add: vspace_def Let_def vaddr_of_def k)
  qed
  have af: "any_frame s1 a" using s1(5,7) unfolding extends_def any_frame_pool by (metis free_pool_frame)
  have lf: "leaf_frame (mach s1) a" using s1(8,10) by (simp add: leaf_frame_def)
  have "nfree (kernel_pool s) \<le> 2 + nfree (kernel_pool s1) \<and> nfree (user_pool s) \<le> 1 + nfree (user_pool s1)"
    using page_table_add_frames[OF s1(3)] palloc_nfree[OF s1(1)] by (cases pf) (auto simp: set_pool_def pool_of_def)
  then show ?thesis using get s1(4,5,9) vs k w lf af other by (intro exI[of _ a] exI[of _ s1]) blast
qed

text \<open>After boot: a page of the kernel at 0xd0000000 for the buffer, one of the parent at its first address.\<close>

definition memory2 :: memory where
  "memory2 = snd (the (get_a_page_without_opvaddrbitmap PF_KERNEL 0xd0000000 memory1))"

definition memory3 :: memory where
  "memory3 = snd (the (get_a_page_without_opvaddrbitmap PF_USER USER_VADDR_START memory2))"

definition one_page :: bitmap where
  "one_page = \<lparr>btmp_bytes_len = user_bitmap_len, bits = (\<lambda>i. if i = 0 then 1 else 0)\<rparr>"

definition fork1 :: "os \<Rightarrow> os" where
  "fork1 s = set_mem memory3 (on_task 2 (\<lambda>t. t\<lparr>pgdir := 0\<rparr>) s)
     \<lparr>uspaces := (uspaces s)(2 := (uspaces s 2)\<lparr>us_vaddr := \<lparr>vaddr_bitmap = one_page, vaddr_start = USER_VADDR_START\<rparr>\<rparr>)\<rparr>"

lemma used_one_page: "used_pages one_page = [0]"
proof -
  have l: "8 * btmp_bytes_len one_page = Suc 753591" by (simp add: one_page_def user_bitmap_len_def)
  have t: "bitmap_scan_test one_page i \<longleftrightarrow> i = 0" for i
    by (cases "i div 8 = 0") (auto simp: scan_test_bit one_page_def bit_1_iff)
  have "used_pages one_page = filter (\<lambda>i. i = 0) (0 # [Suc 0..<Suc 753591])"
    unfolding used_pages_def l t by (subst upt_conv_Cons) simp_all
  also have "\<dots> = [0]" by (simp add: filter_empty_conv del: upt_Suc)
  finally show ?thesis .
qed

lemma memory1_frames: "1 \<le> nfree (user_pool memory1)" "5 \<le> nfree (user_pool memory1)" "pg_root (mach memory1) = 0x100000" "mach memory1 = boot_machine"
proof -
  have b: "0x200000 \<le> (0x2000000 :: u32)" "mach memory0 = boot_machine" by (simp_all add: memory0_def)
  note ok = boot_ok[OF b memory1_def] and pi = mem_pool_init_pools[OF b(1) memory1_def]
  have n: "free_pages 0x2000000 = 7680" by (simp add: free_pages_def)
  have "pool_ok (user_pool memory1)" using ok(1) by (simp add: mem_ok_def pools_ok_def)
  then have "nfree (user_pool memory1) = 5760" using nfree_all[OF ok(4)] pi(4) by (simp add: pool_cap_def n)
  then show "1 \<le> nfree (user_pool memory1)" "5 \<le> nfree (user_pool memory1)" by simp_all
  show "mach memory1 = boot_machine" using pi(7) b(2) by simp
  then show "pg_root (mach memory1) = 0x100000" by (simp add: boot_root)
qed

lemma outside_heap:
  assumes "unat v < 3222274048 \<or> 3230138368 \<le> unat v"
  shows "\<forall>i < 8 * btmp_bytes_len (vaddr_bitmap (kernel_vaddr memory1)). page (vaddr_start (kernel_vaddr memory1)) i \<noteq> v"
proof (intro allI impI notI)
  fix i assume i: "i < 8 * btmp_bytes_len (vaddr_bitmap (kernel_vaddr memory1))" "page (vaddr_start (kernel_vaddr memory1)) i = v"
  have k: "vaddr_of PF_KERNEL memory1 = kernel_vaddr memory1" by (simp add: vaddr_of_def)
  have h: "unat K_HEAP_START = 3222274048" by (simp add: K_HEAP_START_def)
  have "unat v = 3222274048 + 4096 * i" "i < 1920" using i memory1_ok(3,4) unat_page[of K_HEAP_START i] h unfolding k by auto
  then show False using assms by simp
qed

lemma boot_unmapped: "heap v \<Longrightarrow> PDE_IDX v \<noteq> 768 \<Longrightarrow> walk boot_machine v = None"
  using boot_pte(2)[of v] by (auto simp: walk_def split: if_splits)

lemma fork1_memory:
  "mem_ok memory3" "vspace PF_KERNEL memory3" "kernel_vaddr memory3 = kernel_vaddr memory1" "pg_root (mach memory3) = 0x100000"
  "\<exists>g. walk (mach memory3) 0xd0000000 = Some g \<and> leaf_frame (mach memory3) g \<and> any_frame memory3 g"
  "walk (mach memory3) USER_VADDR_START \<noteq> None" "3 \<le> nfree (kernel_pool memory3)" "1 \<le> nfree (user_pool memory3)"
proof -
  have b: "heap 0xd0000000" "PDE_IDX 0xd0000000 \<noteq> 768" "heap USER_VADDR_START" "PDE_IDX USER_VADDR_START \<noteq> 768"
    "frame 0xd0000000 = (0xd0000000 :: u32)" "frame USER_VADDR_START = USER_VADDR_START" "USER_VADDR_START \<noteq> 0xd0000000"
    by (simp_all add: PDE_IDX_def USER_VADDR_START_def frame_def)
  have o: "\<forall>i < 8 * btmp_bytes_len (vaddr_bitmap (kernel_vaddr memory1)). page (vaddr_start (kernel_vaddr memory1)) i \<noteq> 0xd0000000"
    "\<forall>i < 8 * btmp_bytes_len (vaddr_bitmap (kernel_vaddr memory1)). page (vaddr_start (kernel_vaddr memory1)) i \<noteq> USER_VADDR_START"
    by (rule outside_heap, simp)+ (rule outside_heap, simp add: USER_VADDR_START_def)
  have w1: "walk (mach memory1) 0xd0000000 = None" "walk (mach memory1) USER_VADDR_START = None"
    unfolding memory1_frames(4) using b by (simp_all add: boot_unmapped)
  have n1: "2 \<le> nfree (kernel_pool memory1)" using memory1_ok(5) by simp
  obtain g t where t: "get_a_page_without_opvaddrbitmap PF_KERNEL 0xd0000000 memory1 = Some (0xd0000000, t)" "mem_ok t" "vspace PF_KERNEL t"
    "kernel_vaddr t = kernel_vaddr memory1" "walk (mach t) 0xd0000000 = Some g" "leaf_frame (mach t) g" "any_frame t g" "\<not> any_free t g" "extends memory1 t"
    "\<forall>w. heap w \<longrightarrow> frame w \<noteq> 0xd0000000 \<longrightarrow> walk (mach t) w = walk (mach memory1) w"
    "nfree (kernel_pool memory1) \<le> 2 + nfree (kernel_pool t)" "nfree (user_pool memory1) \<le> 1 + nfree (user_pool t)"
    using added_page[OF memory1_ok(1,2) b(1,5) w1(1) n1 memory1_frames(1) o(1), of PF_KERNEL] by blast
  have m2: "memory2 = t" by (simp add: memory2_def t(1))
  have w2: "walk (mach t) USER_VADDR_START = None" using t(10) b(3,6,7) w1(2) by simp
  have n2: "2 \<le> nfree (kernel_pool t)" "1 \<le> nfree (user_pool t)" using t(11,12) memory1_ok(5) memory1_frames(2) by simp_all
  obtain a u where u: "get_a_page_without_opvaddrbitmap PF_USER USER_VADDR_START t = Some (USER_VADDR_START, u)" "mem_ok u" "vspace PF_KERNEL u"
    "kernel_vaddr u = kernel_vaddr t" "walk (mach u) USER_VADDR_START = Some a" "extends t u"
    "\<forall>w. heap w \<longrightarrow> frame w \<noteq> USER_VADDR_START \<longrightarrow> walk (mach u) w = walk (mach t) w"
    "nfree (kernel_pool t) \<le> 2 + nfree (kernel_pool u)" "nfree (user_pool t) \<le> 1 + nfree (user_pool u)"
    using added_page[OF t(2,3) b(3,6) w2 n2, of PF_USER] o(2) unfolding t(4) by blast
  have m3: "memory3 = u" by (simp add: memory3_def m2 u(1))
  show "mem_ok memory3" "vspace PF_KERNEL memory3" "kernel_vaddr memory3 = kernel_vaddr memory1" using u(2-4) t(4) by (simp_all add: m3)
  show "walk (mach memory3) USER_VADDR_START \<noteq> None" using u(5) by (simp add: m3)
  show "pg_root (mach memory3) = 0x100000" using u(6) t(9) memory1_frames(3) by (simp add: m3 extends_def)
  show "3 \<le> nfree (kernel_pool memory3)" "1 \<le> nfree (user_pool memory3)"
    using u(8,9) t(11,12) memory1_ok(5) memory1_frames(2) by (simp_all add: m3)
  have "walk (mach u) 0xd0000000 = Some g" using u(7) b(1,5,7) t(5) by simp
  moreover have "leaf u g" using leaf_extends[OF u(6) _ t(8)] t(6) by (simp add: leaf_def leaf_frame_def)
  then have "leaf_frame (mach u) g" using t(6) by (simp add: leaf_def leaf_frame_def)
  moreover have "any_frame u g" using u(6) t(7) unfolding extends_def any_frame_pool by metis
  ultimately show "\<exists>g. walk (mach memory3) 0xd0000000 = Some g \<and> leaf_frame (mach memory3) g \<and> any_frame memory3 g" by (auto simp: m3)
qed

lemma fork1_ready: "fork_ready 1 2 0xd0000000 (fork1 s)"
proof -
  have k: "vaddr_of PF_KERNEL memory1 = kernel_vaddr memory1" by (simp add: vaddr_of_def)
  have m: "mem_of (fork1 s) = memory3" "pgdir (tasks (sched_of (fork1 s)) 2) = 0"
    by (simp_all add: fork1_def set_mem_def on_task_def task_upd_def)
  have st: "stocked PF_KERNEL 1 memory3"
  proof -
    have "1 + missing (mach memory3) v 1 \<le> nfree (kernel_pool memory3)" for v
      using fork1_memory(7) missing_le[of "mach memory3" v 1] by linarith
    then show ?thesis by (simp add: stocked_def room_def)
  qed
  have hp: "vaddr_start (kernel_vaddr memory3) = K_HEAP_START" "free_run (vaddr_bitmap (kernel_vaddr memory3)) 0 1"
    "0 < 8 * btmp_bytes_len (vaddr_bitmap (kernel_vaddr memory3))"
    using memory1_ok(3,4) memory1_run[of 1] unfolding fork1_memory(3) k by simp_all
  have bf: "frame 0xd0000000 = (0xd0000000 :: u32)" "kernel_addr 0xd0000000" by (simp_all add: frame_def PDE_IDX_def)
  show ?thesis
    unfolding fork_ready_def Let_def m using fork1_memory(1,2,4,5) st hp bf by (simp add: exI[of _ 0])
qed

theorem fork_copies_memory_witness:
  "\<forall>s. \<exists>d f s1 s2. create_page_dir (fork1 s) = Some (d, s1)
     \<and> copy_body_stack3 1 2 0xd0000000 (on_task 1 (\<lambda>t. t\<lparr>pgdir := d\<rparr>) s1) = Some s2
     \<and> load USER_VADDR_START (at_root f (mach (mem_of s2))) = load USER_VADDR_START (mach (mem_of s1))
     \<and> load USER_VADDR_START (mach (mem_of s1)) \<noteq> None"
proof
  fix s
  have us: "us_vaddr (uspaces (fork1 s) 2) = \<lparr>vaddr_bitmap = one_page, vaddr_start = USER_VADDR_START\<rparr>" by (simp add: fork1_def)
  have m: "mem_of (fork1 s) = memory3" by (simp add: fork1_def set_mem_def)
  have p0: "page USER_VADDR_START 0 = USER_VADDR_START" by (simp add: page_def)
  have bl: "btmp_bytes_len one_page = user_bitmap_len" by (simp add: one_page_def)
  obtain d f s1 s2 where r: "create_page_dir (fork1 s) = Some (d, s1)"
    "copy_body_stack3 1 2 0xd0000000 (on_task 1 (\<lambda>t. t\<lparr>pgdir := d\<rparr>) s1) = Some s2"
    "\<forall>j<1024. load (USER_VADDR_START + of_nat j * 4) (at_root f (mach (mem_of s2))) = load (USER_VADDR_START + of_nat j * 4) (mach (mem_of s1))
       \<and> load (USER_VADDR_START + of_nat j * 4) (mach (mem_of s2)) = load (USER_VADDR_START + of_nat j * 4) (mach (mem_of s1))
       \<and> load (USER_VADDR_START + of_nat j * 4) (mach (mem_of s1)) \<noteq> None"
    using fork_copies_memory[OF fork1_ready[of s]] fork1_memory(6-8) by (simp add: us m used_one_page p0 bl) blast
  have "load (USER_VADDR_START + of_nat 0 * 4) (at_root f (mach (mem_of s2))) = load (USER_VADDR_START + of_nat 0 * 4) (mach (mem_of s1))
       \<and> load (USER_VADDR_START + of_nat 0 * 4) (mach (mem_of s1)) \<noteq> None" using r(3) by (simp only:) simp
  then show "\<exists>d f s1 s2. create_page_dir (fork1 s) = Some (d, s1)
     \<and> copy_body_stack3 1 2 0xd0000000 (on_task 1 (\<lambda>t. t\<lparr>pgdir := d\<rparr>) s1) = Some s2
     \<and> load USER_VADDR_START (at_root f (mach (mem_of s2))) = load USER_VADDR_START (mach (mem_of s1))
     \<and> load USER_VADDR_START (mach (mem_of s1)) \<noteq> None"
    using r(1,2) by (intro exI[of _ d] exI[of _ f] exI[of _ s1] exI[of _ s2]) simp
qed

end
