(* ===== verification/Execmem.thy ===== *)
theory Execmem
  imports Exec Forkmem
begin

text \<open>
  exec.c, the memory: the pages that segment_load counts are the ones the segment touches, and the loop over them
  leaves every byte of the segment mapped. A page of the caller that is already there is kept and overwritten.
\<close>

section \<open>The pages of a segment\<close>

lemma occupy_pages_exact:
  assumes "0 < n" "unat v + n \<le> 4294967296" "n < 4294967296"
  shows "unat (occupy_pages v (of_nat n)) = (unat v + n - 1) div 4096 - unat v div 4096 + 1"
proof -
  define off where "off = unat v mod 4096"
  define q where "q = unat v div 4096"
  have v: "unat v = 4096 * q + off" "off < 4096" by (simp_all add: off_def q_def)
  have low: "unat (v AND 0x00000fff) = off" unfolding low_mod by (simp add: unat_mod_distrib off_def)
  have "v AND 0x00000fff \<le> 4096" using v(2) low by (simp add: word_le_nat_alt)
  then have sf: "unat (4096 - (v AND 0x00000fff)) = 4096 - off" using low by (simp add: unat_sub)
  have N: "unat (of_nat n :: u32) = n" using assms(3) by (simp add: unsigned_of_nat take_bit_nat_eq_self)
  have r: "(unat v + n - 1) div 4096 - unat v div 4096 = (off + n - 1) div 4096"
  proof -
    have "unat v + n - 1 = 4096 * q + (off + n - 1)" using v(1) assms(1) by simp
    then have "(unat v + n - 1) div 4096 = q + (off + n - 1) div 4096" by simp
    then show ?thesis by (simp add: q_def)
  qed
  have lt: "4096 - (v AND 0x00000fff) < of_nat n \<longleftrightarrow> 4096 - off < n" by (simp only: word_less_nat_alt sf N)
  show ?thesis
  proof (cases "4096 - off < n")
    case True
    have "4096 - (v AND 0x00000fff) \<le> of_nat n" using True lt by (simp add: order_less_imp_le)
    then have d: "unat (of_nat n - (4096 - (v AND 0x00000fff))) = n - (4096 - off)" by (simp only: unat_sub sf N)
    have "of_nat n - (4096 - (v AND 0x00000fff)) + 4096 - 1 = of_nat n - (4096 - (v AND 0x00000fff)) + (4095 :: u32)" by simp
    moreover have "unat (of_nat n - (4096 - (v AND 0x00000fff)) + (4095 :: u32)) = n - (4096 - off) + 4095"
      using d assms(2) v True by (subst unat_add_lem[THEN iffD1]) simp_all
    ultimately have "unat (of_nat n - (4096 - (v AND 0x00000fff)) + 4096 - 1) = off + n - 1" using True v(2) by simp
    moreover have "unat (4096 :: u32) = 4096" by simp
    ultimately have e: "unat ((of_nat n - (4096 - (v AND 0x00000fff)) + 4096 - 1) div 4096) = (off + n - 1) div 4096"
      by (simp only: unat_div_distrib)
    have "(off + n - 1) div 4096 < 4294967295" using assms(3) v(2) by linarith
    then have "unat ((of_nat n - (4096 - (v AND 0x00000fff)) + 4096 - 1) div 4096 + 1) = (off + n - 1) div 4096 + 1"
      using e by (simp add: unat_word_ariths)
    then show ?thesis using True lt r by (simp add: occupy_pages_def Let_def)
  next
    case False
    then have "(off + n - 1) div 4096 = 0" using v(2) assms(1) by simp
    then show ?thesis using False lt r by (simp add: occupy_pages_def Let_def)
  qed
qed

section \<open>The loop over the pages\<close>

lemma page_table_add_rest:
  "page_table_add v a s = Some s' \<Longrightarrow> cur_pgdir s' = cur_pgdir s \<and> userprog_vaddr s' = userprog_vaddr s
     \<and> nfree (kernel_pool s) \<le> Suc (nfree (kernel_pool s')) \<and> user_pool s' = user_pool s"
  using page_table_add_frames[of v a s s'] by (auto simp: page_table_add_def Let_def bind_Some_iff split: if_splits)

lemma get_user_page_rest:
  assumes "get_a_page PF_USER v s = Some (w, s')"
  shows "cur_pgdir s' = cur_pgdir s" "vaddr_start (userprog_vaddr s') = vaddr_start (userprog_vaddr s)"
    "nfree (kernel_pool s) \<le> 1 + nfree (kernel_pool s')" "nfree (user_pool s) \<le> 1 + nfree (user_pool s')"
proof -
  have "cur_pgdir s' = cur_pgdir s \<and> vaddr_start (userprog_vaddr s') = vaddr_start (userprog_vaddr s)
    \<and> nfree (kernel_pool s) \<le> 1 + nfree (kernel_pool s') \<and> nfree (user_pool s) \<le> 1 + nfree (user_pool s')"
    using assms
    by (auto simp: get_a_page_def Let_def bind_Some_iff set_pool_def pool_of_def set_vaddr_def vaddr_of_def
        dest!: page_table_add_rest dest: palloc_nfree split: if_splits)
  then show "cur_pgdir s' = cur_pgdir s" "vaddr_start (userprog_vaddr s') = vaddr_start (userprog_vaddr s)"
    "nfree (kernel_pool s) \<le> 1 + nfree (kernel_pool s')" "nfree (user_pool s) \<le> 1 + nfree (user_pool s')" by blast+
qed

text \<open>A page of the loop: present, or a new one.\<close>

lemma load_page_step:
  assumes ok: "mem_ok (mem_of s)" and v: "heap v" "frame v = v" and cur: "cur_pgdir (mem_of s) \<noteq> 0"
    and idx: "0 < unat ((v - vaddr_start (userprog_vaddr (mem_of s))) div PG_SIZE)"
    and nf: "0 < nfree (kernel_pool (mem_of s))" "0 < nfree (user_pool (mem_of s))"
  shows "\<exists>mm. load_pages (Suc n) v s = load_pages n (v + PG_SIZE) (set_mem mm s) \<and> mem_ok mm \<and> walk (mach mm) v \<noteq> None
    \<and> (\<forall>w. \<not> recursive w \<longrightarrow> walk (mach (mem_of s)) w \<noteq> None \<longrightarrow> walk (mach mm) w = walk (mach (mem_of s)) w)
    \<and> cur_pgdir mm = cur_pgdir (mem_of s) \<and> vaddr_start (userprog_vaddr mm) = vaddr_start (userprog_vaddr (mem_of s))
    \<and> nfree (kernel_pool (mem_of s)) \<le> 1 + nfree (kernel_pool mm) \<and> nfree (user_pool (mem_of s)) \<le> 1 + nfree (user_pool mm)"
proof -
  let ?m = "mach (mem_of s)"
  have r: "root_ok ?m" by (rule mem_okD(2)[OF ok])
  have same: "set_mem (mem_of s) s = s" by (simp add: set_mem_def)
  show ?thesis
  proof (cases "walk ?m v")
    case None
    then have "\<not> present (pde_of ?m v) \<or> present (pde_of ?m v) \<and> \<not> present (pte_of ?m v)" by (auto simp: walk_def split: if_splits)
    moreover have "room PF_USER 1 v (mem_of s)" using nf missing_le[of ?m v 1] by (auto simp: room_def)
    then obtain a mm where mm: "get_a_page PF_USER v (mem_of s) = Some (v, mm)" "mem_ok mm" "walk (mach mm) v = Some a"
      "\<forall>w. \<not> recursive w \<longrightarrow> walk ?m w \<noteq> None \<longrightarrow> walk (mach mm) w = walk ?m w"
      using get_a_page_ok(3)[OF ok v None] cur idx by (auto simp: vaddr_of_def)
    moreover have "v \<noteq> 0" using v(1) by (auto simp: PDE_IDX_def)
    ultimately have "load_pages (Suc n) v s = load_pages n (v + PG_SIZE) (set_mem mm s)"
      using load_pde[OF r, of v] load_pte[OF r, of v] by (auto simp: present_def)
    then show ?thesis using mm(2-4) get_user_page_rest[OF mm(1)] by (intro exI[of _ mm]) simp
  next
    case (Some a)
    then have "present (pde_of ?m v)" "present (pte_of ?m v)" by (auto simp: walk_def split: if_splits)
    then have "load_pages (Suc n) v s = load_pages n (v + PG_SIZE) (set_mem (mem_of s) s)"
      using load_pde[OF r, of v] load_pte[OF r, of v] by (simp add: present_def same)
    then show ?thesis using ok Some by (intro exI[of _ "mem_of s"]) simp
  qed
qed

lemma load_pages_ok:
  assumes "mem_ok (mem_of s)" "frame v = v" "cur_pgdir (mem_of s) \<noteq> 0"
    and "\<forall>i<n. heap (page v i) \<and> 0 < unat ((page v i - vaddr_start (userprog_vaddr (mem_of s))) div PG_SIZE)"
    and "n \<le> nfree (kernel_pool (mem_of s))" "n \<le> nfree (user_pool (mem_of s))"
  shows "\<exists>mm. load_pages n v s = Some (True, set_mem mm s) \<and> mem_ok mm \<and> (\<forall>i<n. walk (mach mm) (page v i) \<noteq> None)
    \<and> (\<forall>w. \<not> recursive w \<longrightarrow> walk (mach (mem_of s)) w \<noteq> None \<longrightarrow> walk (mach mm) w = walk (mach (mem_of s)) w)"
  using assms
proof (induction n arbitrary: v s)
  case 0
  then show ?case by (intro exI[of _ "mem_of s"]) (simp add: set_mem_def)
next
  case (Suc n)
  have v: "heap v" "0 < unat ((v - vaddr_start (userprog_vaddr (mem_of s))) div PG_SIZE)"
    using Suc.prems(4)[rule_format, of 0] by (simp_all add: page_simps)
  obtain m1 where m1: "load_pages (Suc n) v s = load_pages n (v + PG_SIZE) (set_mem m1 s)" "mem_ok m1" "walk (mach m1) v \<noteq> None"
    "\<forall>w. \<not> recursive w \<longrightarrow> walk (mach (mem_of s)) w \<noteq> None \<longrightarrow> walk (mach m1) w = walk (mach (mem_of s)) w"
    "cur_pgdir m1 = cur_pgdir (mem_of s)" "vaddr_start (userprog_vaddr m1) = vaddr_start (userprog_vaddr (mem_of s))"
    "nfree (kernel_pool (mem_of s)) \<le> 1 + nfree (kernel_pool m1)" "nfree (user_pool (mem_of s)) \<le> 1 + nfree (user_pool m1)"
    using load_page_step[OF Suc.prems(1) v(1) Suc.prems(2,3) v(2), of n] Suc.prems(5,6) by auto
  have pg: "\<forall>i<n. heap (page (v + PG_SIZE) i) \<and> 0 < unat ((page (v + PG_SIZE) i - vaddr_start (userprog_vaddr (mem_of s))) div PG_SIZE)"
    using Suc.prems(4) by (simp add: page_simps)
  have fv: "frame (v + PG_SIZE) = v + PG_SIZE" using frame_page[OF Suc.prems(2), of 1] by (simp add: page_def)
  have ms: "mem_of (set_mem m1 s) = m1" "\<And>mm. set_mem mm (set_mem m1 s) = set_mem mm s" by (simp_all add: set_mem_def)
  obtain mm where mm: "load_pages n (v + PG_SIZE) (set_mem m1 s) = Some (True, set_mem mm s)" "mem_ok mm"
    "\<forall>i<n. walk (mach mm) (page v (Suc i)) \<noteq> None" "\<forall>w. \<not> recursive w \<longrightarrow> walk (mach m1) w \<noteq> None \<longrightarrow> walk (mach mm) w = walk (mach m1) w"
    using Suc.IH[of "set_mem m1 s", unfolded ms, OF m1(2) fv] Suc.prems(3,5,6) pg m1(5-8) by (auto simp: page_simps)
  have "walk (mach mm) (page v i) \<noteq> None" if "i < Suc n" for i
    using that mm(3,4) m1(3) v(1) by (cases i) (simp_all add: page_simps)
  moreover have "walk (mach mm) w = walk (mach (mem_of s)) w" if "\<not> recursive w" "walk (mach (mem_of s)) w \<noteq> None" for w
    using that m1(4) mm(4) by simp
  ultimately show ?case using m1(1) mm(1,2) by auto
qed

section \<open>A segment in memory\<close>

lemma unat_frame: "unat (frame v) = 4096 * (unat v div 4096)"
proof -
  have "v = frame v + (v AND 0x00000fff)"
  proof -
    have "frame v + (v AND 0x00000fff) = frame v OR (v AND 0x00000fff)"
      by (intro disjunctive_add) (auto simp: bit_frame bit_low)
    also have "\<dots> = v" by (rule bit_word_eqI) (auto simp: bit_frame bit_or_iff bit_low)
    finally show ?thesis by simp
  qed
  then have "frame v = v - v mod 4096" unfolding low_mod by (metis add_diff_cancel_right')
  moreover have "v mod 4096 \<le> v" by (simp add: word_le_nat_alt unat_mod_distrib)
  moreover have "unat (v mod 4096) = unat v mod 4096" by (simp add: unat_mod_distrib)
  ultimately have "unat (frame v) = unat v - unat v mod 4096" by (simp only: unat_sub)
  then show ?thesis by (simp only: minus_mod_eq_mult_div)
qed

lemma walk_None_frame: "walk m w = None \<Longrightarrow> walk m (frame w) = None"
  by (simp add: walk_def pde_of_def pte_of_def pte_addr_def frame_parts split: if_splits)

text \<open>C9: segment_load, the pages: for a segment of the user part that begins behind the first page of the process,
  with frames for it in both pools, the code counts exactly the pages the segment touches, also when it begins in
  the middle of a page; its loop returns true, leaves every byte of the segment mapped, keeps every translation
  that was there, and keeps the invariant of the page tables.\<close>
theorem exec_maps_segment:
  assumes "mem_ok (mem_of s)" "cur_pgdir (mem_of s) \<noteq> 0" "vaddr_start (userprog_vaddr (mem_of s)) = USER_VADDR_START"
    and "0 < n" "unat USER_VADDR_START + 4096 \<le> unat v" "unat v + n \<le> 0xc0000000"
    and "(unat v + n - 1) div 4096 - unat v div 4096 + 1 \<le> nfree (kernel_pool (mem_of s))"
    and "(unat v + n - 1) div 4096 - unat v div 4096 + 1 \<le> nfree (user_pool (mem_of s))"
  shows "\<exists>mm. unat (occupy_pages v (of_nat n)) = (unat v + n - 1) div 4096 - unat v div 4096 + 1
    \<and> load_pages (unat (occupy_pages v (of_nat n))) (v AND 0xfffff000) s = Some (True, set_mem mm s)
    \<and> mem_ok mm \<and> (\<forall>k<n. walk (mach mm) (v + of_nat k) \<noteq> None)
    \<and> (\<forall>w. \<not> recursive w \<longrightarrow> walk (mach (mem_of s)) w \<noteq> None \<longrightarrow> walk (mach mm) w = walk (mach (mem_of s)) w)"
proof -
  define q where "q = unat v div 4096"
  define c where "c = (unat v + n - 1) div 4096 - q + 1"
  have oc: "unat (occupy_pages v (of_nat n)) = c" using occupy_pages_exact[of n v] assms(4-6) by (simp add: c_def q_def)
  have st: "unat USER_VADDR_START = 134512640" by (simp add: USER_VADDR_START_def)
  have fv: "unat (frame v) = 4096 * q" by (simp add: unat_frame q_def)
  have q: "32841 \<le> q" using assms(5) st by (simp add: q_def)
  have last: "q \<le> (unat v + n - 1) div 4096" "(unat v + n - 1) div 4096 < 786432"
    using assms(4,6) by (auto simp: q_def div_le_mono div_less_iff_less_mult)
  have pg: "unat (page (frame v) i) = 4096 * (q + i)" if "i < c" for i
    using unat_page[of "frame v" i] fv that last by (simp add: c_def)
  have user: "heap (page (frame v) i) \<and> 0 < unat ((page (frame v) i - USER_VADDR_START) div PG_SIZE)" if i: "i < c" for i
  proof -
    have b: "q + i < 786432" using i last by (simp add: c_def)
    have u: "unat (PDE_IDX (page (frame v) i)) = (q + i) div 1024" unfolding unat_PDE_IDX pg[OF i] by simp
    have "(q + i) div 1024 < 768" "0 < (q + i) div 1024" using b q by (auto simp: div_less_iff_less_mult div_greater_zero_iff)
    then have "unat (PDE_IDX (page (frame v) i)) \<noteq> 1023" "unat (PDE_IDX (page (frame v) i)) \<noteq> 0" using u by simp_all
    then have "heap (page (frame v) i)" by (auto simp: unat_1023 unat_eq_zero)
    moreover have "USER_VADDR_START \<le> page (frame v) i" unfolding word_le_nat_alt pg[OF i] st using q by simp
    then have "unat ((page (frame v) i - USER_VADDR_START) div PG_SIZE) = (4096 * (q + i) - 134512640) div 4096"
      by (simp add: unat_div_distrib unat_sub pg[OF i] st PG_SIZE_def)
    ultimately show ?thesis using q by (simp add: div_greater_zero_iff)
  qed
  obtain mm where mm: "load_pages c (frame v) s = Some (True, set_mem mm s)" "mem_ok mm" "\<forall>i<c. walk (mach mm) (page (frame v) i) \<noteq> None"
    "\<forall>w. \<not> recursive w \<longrightarrow> walk (mach (mem_of s)) w \<noteq> None \<longrightarrow> walk (mach mm) w = walk (mach (mem_of s)) w"
    using load_pages_ok[OF assms(1) frame_frame assms(2), of c v] user assms(3,7,8) by (auto simp: c_def q_def)
  have "walk (mach mm) (v + of_nat k) \<noteq> None" if k: "k < n" for k
  proof -
    have "v + of_nat k = of_nat (unat v + k)" by simp
    then have u: "unat (v + of_nat k) = unat v + k" using k assms(6) by (simp only: unsigned_of_nat) (simp add: take_bit_nat_eq_self)
    define i where "i = (unat v + k) div 4096 - q"
    have "q \<le> (unat v + k) div 4096" "(unat v + k) div 4096 \<le> (unat v + n - 1) div 4096" using k by (simp_all add: q_def div_le_mono)
    then have i: "i < c" "(unat v + k) div 4096 = q + i" by (simp_all add: i_def c_def)
    have "unat (frame (v + of_nat k)) = unat (page (frame v) i)" by (simp only: unat_frame u i(2) pg[OF i(1)])
    then have "frame (v + of_nat k) = page (frame v) i" by (rule unsigned_word_eqI)
    then show ?thesis using mm(3) i(1) walk_None_frame by metis
  qed
  then show ?thesis using mm oc unfolding c_def q_def by (auto simp: frame_def)
qed

text \<open>A process with an empty user part.\<close>

definition memory_user :: memory where
  "memory_user = memory1\<lparr>cur_pgdir := 1, userprog_vaddr := \<lparr>vaddr_bitmap = one_page, vaddr_start = USER_VADDR_START\<rparr>\<rparr>"

theorem exec_maps_segment_witness:
  "\<forall>s. \<exists>mm. unat (occupy_pages 0x8049f00 0x1200) = 3
     \<and> load_pages (unat (occupy_pages 0x8049f00 0x1200)) (0x8049f00 AND 0xfffff000) (set_mem memory_user s) = Some (True, set_mem mm s)
     \<and> walk (mach mm) 0x8049f00 \<noteq> None \<and> walk (mach mm) 0x804b0ff \<noteq> None"
proof
  fix s
  have m: "mem_of (set_mem memory_user s) = memory_user" "\<And>mm. set_mem mm (set_mem memory_user s) = set_mem mm s" by (simp_all add: set_mem_def)
  have st: "unat USER_VADDR_START = 134512640" by (simp add: USER_VADDR_START_def)
  have ok: "mem_ok memory_user" using memory1_ok(1) mem_ok_cong[of memory_user memory1] by (simp add: memory_user_def)
  have c: "cur_pgdir memory_user \<noteq> 0" "vaddr_start (userprog_vaddr memory_user) = USER_VADDR_START"
    "3 \<le> nfree (kernel_pool memory_user)" "3 \<le> nfree (user_pool memory_user)"
    using memory1_ok(5) memory1_frames(2) by (simp_all add: memory_user_def)
  have e: "unat (0x8049f00 :: u32) = 134520576" "(of_nat 4608 :: u32) = 0x1200" by simp_all
  obtain mm where mm: "unat (occupy_pages 0x8049f00 0x1200) = 3"
    "load_pages (unat (occupy_pages 0x8049f00 0x1200)) (0x8049f00 AND 0xfffff000) (set_mem memory_user s) = Some (True, set_mem mm s)"
    "\<forall>k<4608. walk (mach mm) (0x8049f00 + of_nat k) \<noteq> None"
    using exec_maps_segment[of "set_mem memory_user s" 4608 "0x8049f00", unfolded m e st, OF ok c(1,2)] c(3,4) by auto
  have "walk (mach mm) (0x8049f00 + of_nat 0) \<noteq> None" "walk (mach mm) (0x8049f00 + of_nat 4607) \<noteq> None"
    using mm(3)[rule_format, of 0] mm(3)[rule_format, of 4607] by simp_all
  then have "walk (mach mm) 0x8049f00 \<noteq> None \<and> walk (mach mm) 0x804b0ff \<noteq> None" by simp
  then show "\<exists>mm. unat (occupy_pages 0x8049f00 0x1200) = 3
     \<and> load_pages (unat (occupy_pages 0x8049f00 0x1200)) (0x8049f00 AND 0xfffff000) (set_mem memory_user s) = Some (True, set_mem mm s)
     \<and> walk (mach mm) 0x8049f00 \<noteq> None \<and> walk (mach mm) 0x804b0ff \<noteq> None" using mm(1,2) by blast
qed

end
